(* ===== verification/Prelude.thy ===== *)
theory Prelude
  imports Main "HOL-Library.Word"
begin

text \<open>
  Shared ground of the development: the C types of the 32-bit ARM target
  (\<^verbatim>\<open>BoardConfig.mk\<close> sets \<^verbatim>\<open>TARGET_ARCH := arm\<close>, so \<^verbatim>\<open>unsigned long\<close> and
  \<^verbatim>\<open>size_t\<close> are 32 bits wide), the error numbers the code returns, the alignment
  macros of \<^verbatim>\<open>util_math.h\<close>, and the generic facts on words and lists
  that the component theories use.
\<close>

unbundle bit_operations_syntax

section \<open>C types and error numbers\<close>

type_synonym u8 = "8 word"
type_synonym u16 = "16 word"
type_synonym u32 = "32 word"
type_synonym u64 = "64 word"
type_synonym ulong = "32 word"
type_synonym addr = nat

definition EINTR :: int where "EINTR = 4"
definition EAGAIN :: int where "EAGAIN = 11"
definition ENOMEM :: int where "ENOMEM = 12"
definition ENODEV :: int where "ENODEV = 19"
definition EINVAL :: int where "EINVAL = 22"
definition ENOSYS :: int where "ENOSYS = 38"

named_theorems errno_defs \<open>the error numbers\<close>

lemmas errno_values [errno_defs] =
  EINTR_def EAGAIN_def ENOMEM_def ENODEV_def EINVAL_def ENOSYS_def

section \<open>Facts on lists\<close>

lemma sum_list_replicate_nat: "sum_list (replicate n (c::nat)) = n * c"
  by (induction n) auto

lemma list_update_nth_split:
  "i < length xs \<Longrightarrow> xs[i := y] = take i xs @ y # drop (Suc i) xs"
  by (simp add: upd_conv_take_nth_drop)

lemma concat_update_split:
  "i < length xs \<Longrightarrow>
   concat (xs[i := ys]) = concat (take i xs) @ ys @ concat (drop (Suc i) xs)"
  by (simp add: list_update_nth_split)

lemma concat_nth_split:
  assumes "i < length xs"
  shows "concat xs = concat (take i xs) @ xs ! i @ concat (drop (Suc i) xs)"
proof -
  have "xs = take i xs @ xs ! i # drop (Suc i) xs"
    using assms by (rule id_take_nth_drop)
  then have "concat xs = concat (take i xs @ xs ! i # drop (Suc i) xs)" by simp
  then show ?thesis by simp
qed

section \<open>Facts on words\<close>

lemma unat_add_no_wrap:
  "unat (a::'a::len word) + unat b < 2 ^ LENGTH('a) \<Longrightarrow> unat (a + b) = unat a + unat b"
  by (simp add: unat_add_lem)

lemma unat_mult_no_wrap:
  "unat (a::'a::len word) * unat b < 2 ^ LENGTH('a) \<Longrightarrow> unat (a * b) = unat a * unat b"
  by (simp add: unat_mult_lem)

lemma sint_small:
  assumes "unat (w :: u32) < 2147483648"
  shows "sint w = int (unat w)"
proof -
  have two: "(2::int) ^ 31 = 2147483648" by simp
  have "sint (word_of_int (int (unat w)) :: u32) = signed_take_bit 31 (int (unat w))"
    by (simp only: sint_sbintrunc') simp
  also have "\<dots> = int (unat w)" using assms by (intro signed_take_bit_int_eq_self; unfold two) linarith+
  finally show ?thesis by simp
qed

lemma word_and_not_mask:
  "(x::'a::len word) AND NOT (mask n) = x - take_bit n x"
proof -
  have "x = (x AND NOT (mask n)) + take_bit n x"
    by (subst disjunctive_add_eq_or) (auto intro!: bit_eqI simp: bit_simps)
  then show ?thesis by (simp add: eq_diff_eq)
qed

lemma unat_and_not_mask:
  "unat ((x::'a::len word) AND NOT (mask n)) = unat x div 2 ^ n * 2 ^ n"
proof -
  have le: "take_bit n x \<le> x"
    by (simp add: word_le_nat_alt unsigned_take_bit_eq take_bit_nat_less_eq_self)
  have "unat (x AND NOT (mask n)) = unat x - unat (take_bit n x)"
    by (simp add: word_and_not_mask unat_sub [OF le])
  also have "\<dots> = unat x - unat x mod 2 ^ n"
    by (simp add: unsigned_take_bit_eq flip: take_bit_eq_mod)
  also have "\<dots> = unat x div 2 ^ n * 2 ^ n"
    by (simp add: minus_mod_eq_div_mult)
  finally show ?thesis .
qed

section \<open>The alignment macros of util\_math.h\<close>

definition align_mask :: "'a::len word \<Rightarrow> 'a word \<Rightarrow> 'a word" where
  "align_mask value m = (value + m) AND NOT m"

definition ALIGN :: "'a::len word \<Rightarrow> 'a word \<Rightarrow> 'a word" where
  "ALIGN value alignment = align_mask value (alignment - 1)"

definition MAX2 :: "'a::linorder \<Rightarrow> 'a \<Rightarrow> 'a" where
  "MAX2 A B = (if A > B then A else B)"

lemma MAX2_max: "MAX2 a b = max a b"
  by (auto simp: MAX2_def max_def)

text \<open>The macro on a power of two: the least multiple not below the value.\<close>

definition round_up :: "nat \<Rightarrow> nat \<Rightarrow> nat" where
  "round_up v a = (v + a - 1) div a * a"

lemma round_up_ge: "0 < a \<Longrightarrow> v \<le> round_up v a"
proof -
  assume a: "0 < a"
  have "v + a - 1 < (v + a - 1) div a * a + a"
    using a by (metis add.commute mod_less_divisor mod_mult_div_eq mult.commute nat_add_left_cancel_less)
  then show ?thesis using a by (simp add: round_up_def)
qed

lemma round_up_less: "0 < a \<Longrightarrow> round_up v a < v + a"
proof -
  assume a: "0 < a"
  have "(v + a - 1) div a * a \<le> v + a - 1" by (rule div_times_less_eq_dividend)
  then show ?thesis using a unfolding round_up_def by linarith
qed

lemma round_up_dvd [simp]: "a dvd round_up v a"
  by (simp add: round_up_def)

lemma round_up_aligned [simp]: "0 < a \<Longrightarrow> a dvd v \<Longrightarrow> round_up v a = v"
  by (auto simp: round_up_def elim!: dvdE)
     (metis Nat.add_diff_assoc One_nat_def Suc_leI add.commute div_mult_self2 diff_Suc_less
        div_less mult.commute nat_neq_iff add_cancel_left_left)

lemma mask_eq_power_minus: "(2::'a::len word) ^ n - 1 = mask n"
  by (simp add: mask_eq_exp_minus_1)

lemma unat_mask_word:
  assumes "n < LENGTH('a)"
  shows "unat (mask n :: 'a::len word) = 2 ^ n - 1"
proof -
  have "unat (mask n :: 'a word) = unat (take_bit n (- 1) :: 'a word)"
    by (simp add: take_bit_minus_one_eq_mask)
  also have "\<dots> = take_bit n (mask LENGTH('a))"
    by (simp only: unsigned_take_bit_eq unsigned_minus_1_eq_mask)
  also have "\<dots> = mask n"
    using assms by (simp only: take_bit_of_mask min_def) simp
  also have "\<dots> = 2 ^ n - 1"
    by (simp add: mask_eq_exp_minus_1)
  finally show ?thesis .
qed

lemma unat_and_low:
  assumes "k < 32"
  shows "unat ((w :: u32) AND (push_bit k 1 - 1)) = unat w mod 2 ^ k"
proof -
  have "w AND (push_bit k 1 - 1) = take_bit k w" by (simp add: mask_eq_power_minus take_bit_eq_mask)
  then show ?thesis by (simp only: unsigned_take_bit_eq) (simp only: take_bit_eq_mod)
qed

lemma or_nonzero: "(w :: u32) \<noteq> 0 \<Longrightarrow> w OR x \<noteq> 0"
  by (auto simp: bit_eq_iff bit_simps)

lemma unat_ALIGN:
  fixes v :: "'a::len word"
  assumes "n < LENGTH('a)" and "unat v + 2 ^ n - 1 < 2 ^ LENGTH('a)"
  shows "unat (ALIGN v (2 ^ n)) = round_up (unat v) (2 ^ n)"
proof -
  have m: "unat (mask n :: 'a word) = 2 ^ n - 1"
    using assms(1) by (rule unat_mask_word)
  have one: "1 \<le> (2::nat) ^ n" by simp
  have "unat (v + mask n) = unat v + (2 ^ n - 1)"
    using assms(2) one by (subst unat_add_no_wrap) (auto simp: m)
  then have "unat (v + mask n) = unat v + 2 ^ n - 1" using one by simp
  then show ?thesis
    by (simp add: ALIGN_def align_mask_def mask_eq_power_minus unat_and_not_mask round_up_def)
qed

end
