(* ===== verification/Drm_Random.thy ===== *)
theory Drm_Random
  imports Prelude
begin

text \<open>
  The pseudo-random generator of \<^verbatim>\<open>hals/display/libdrm/xf86drmRandom.c\<close>: the record
  \<^verbatim>\<open>RandomState\<close> and \<^verbatim>\<open>drmRandomCreate\<close>, \<^verbatim>\<open>drmRandom\<close>, \<^verbatim>\<open>drmRandomDestroy\<close>,
  at the 32-bit width \<^verbatim>\<open>unsigned long\<close> has on the target. The lemmas show that Schrage's
  division trick computes the Lehmer step \<open>a * seed mod m\<close> with no overflow, that the seed
  never leaves \<open>1 \<dots> m - 1\<close>, and what n steps give. \<^verbatim>\<open>drmRandomDouble\<close> divides
  two doubles and is not modelled.
\<close>

definition RANDOM_MAGIC :: ulong where "RANDOM_MAGIC = 0xfeedbeef"

record RandomState =
  rs_magic :: ulong
  rs_a :: ulong
  rs_m :: ulong
  rs_q :: ulong
  rs_r :: ulong
  rs_check :: ulong
  rs_seed :: ulong

text \<open>The first argument tells whether the allocation succeeds; \<^verbatim>\<open>NULL\<close> is \<open>None\<close>.\<close>

definition drmRandomCreate :: "bool \<Rightarrow> ulong \<Rightarrow> RandomState option" where
  "drmRandomCreate mem seed =
     (if \<not> mem then None
      else
        let a = 48271; m = 2147483647;
            s1 = (if seed \<le> 0 then 1 else seed);
            s2 = (if s1 \<ge> m then m - 1 else s1)
        in Some \<lparr>rs_magic = RANDOM_MAGIC, rs_a = a, rs_m = m, rs_q = m div a, rs_r = m mod a,
                 rs_check = 399268537, rs_seed = s2\<rparr>)"

definition drmRandom :: "RandomState \<Rightarrow> ulong \<times> RandomState" where
  "drmRandom s =
     (let hi = rs_seed s div rs_q s;
          lo = rs_seed s mod rs_q s;
          s1 = rs_a s * lo - rs_r s * hi;
          s2 = (if rs_a s * lo \<le> rs_r s * hi then s1 + rs_m s else s1)
      in (s2, s\<lparr>rs_seed := s2\<rparr>))"

definition drmRandomDestroy :: "RandomState \<Rightarrow> int" where
  "drmRandomDestroy s = 0"

section \<open>The state the code keeps\<close>

definition rand_wf :: "RandomState \<Rightarrow> bool" where
  "rand_wf s \<longleftrightarrow> rs_a s = 48271 \<and> rs_m s = 2147483647 \<and> rs_q s = 44488 \<and> rs_r s = 3399
     \<and> 0 < unat (rs_seed s) \<and> unat (rs_seed s) < 2147483647"

lemma drmRandomCreate_wf: "drmRandomCreate True seed = Some s \<Longrightarrow> rand_wf s"
  by (auto simp: drmRandomCreate_def rand_wf_def Let_def word_le_nat_alt unat_gt_0
      split: if_splits)

lemma drmRandomCreate_seed:
  "0 < unat seed \<Longrightarrow> unat seed < 2147483647 \<Longrightarrow>
   \<exists>s. drmRandomCreate True seed = Some s \<and> rs_seed s = seed"
  by (auto simp: drmRandomCreate_def Let_def word_le_nat_alt unat_gt_0 unat_0_iff)

text \<open>Schrage's identity on natural numbers.\<close>

lemma schrage:
  fixes x :: nat
  assumes "0 < x" and "x < 2147483647"
  defines "p \<equiv> 48271 * (x mod 44488)" and "n \<equiv> 3399 * (x div 44488)"
  shows "(if p \<le> n then p + 2147483647 - n else p - n) = 48271 * x mod 2147483647"
    and "p < 2147483647" and "n < 2147483647" and "0 < 48271 * x mod 2147483647"
proof -
  show pb: "p < 2147483647" unfolding p_def by simp
  have "x div 44488 \<le> 48271" using assms(2) by simp
  then show nb: "n < 2147483647" unfolding n_def by simp
  have id: "48271 * x + n = 2147483647 * (x div 44488) + p"
  proof -
    define h where "h = x div 44488"
    define l where "l = x mod 44488"
    have "x = 44488 * h + l" unfolding h_def l_def by simp
    then have "48271 * x + 3399 * h = 2147483647 * h + 48271 * l" by simp
    then show ?thesis unfolding n_def p_def h_def l_def .
  qed
  have nz: "48271 * x mod 2147483647 \<noteq> 0"
  proof
    assume "48271 * x mod 2147483647 = 0"
    then have "2147483647 dvd 48271 * x" by (simp add: dvd_eq_mod_eq_0)
    moreover have "coprime (2147483647::nat) 48271" by (simp add: coprime_iff_gcd_eq_1 gcd_non_0_nat)
    ultimately have "2147483647 dvd x" by (simp add: coprime_dvd_mult_right_iff)
    with assms show False by (auto dest: dvd_imp_le)
  qed
  then show "0 < 48271 * x mod 2147483647" by simp
  show "(if p \<le> n then p + 2147483647 - n else p - n) = 48271 * x mod 2147483647"
  proof (cases "p \<le> n")
    case False
    then have "48271 * x = 2147483647 * (x div 44488) + (p - n)" using id by simp
    then have "48271 * x mod 2147483647 = (p - n) mod 2147483647" by simp
    then show ?thesis using False pb by simp
  next
    case True
    have "p \<noteq> n" using id nz by auto
    with True have lt: "p < n" by simp
    then have pos: "0 < x div 44488" unfolding n_def by (cases "x div 44488") auto
    then obtain h where h: "x div 44488 = Suc h" by (cases "x div 44488") auto
    have "48271 * x = 2147483647 * h + (p + 2147483647 - n)"
      using id nb unfolding h by simp
    then have "48271 * x mod 2147483647 = (p + 2147483647 - n) mod 2147483647" by simp
    then show ?thesis using True lt by simp
  qed
qed

lemma drmRandom_seed:
  assumes "rand_wf s"
  shows "unat (rs_seed (snd (drmRandom s))) = 48271 * unat (rs_seed s) mod 2147483647"
proof -
  let ?x = "unat (rs_seed s)"
  have fields: "rs_a s = 48271" "rs_m s = 2147483647" "rs_q s = 44488" "rs_r s = 3399"
    and x: "0 < ?x" "?x < 2147483647"
    using assms by (auto simp: rand_wf_def)
  note S = schrage [OF x]
  define p where "p = 48271 * (rs_seed s mod 44488)"
  define n where "n = 3399 * (rs_seed s div 44488)"
  have up: "unat p = 48271 * (?x mod 44488)"
    unfolding p_def using S(2)
    by (subst unat_mult_no_wrap) (auto simp: unat_mod_distrib)
  have un: "unat n = 3399 * (?x div 44488)"
    unfolding n_def using S(3)
    by (subst unat_mult_no_wrap) (auto simp: unat_div_distrib)
  have seed: "rs_seed (snd (drmRandom s)) = (if p \<le> n then p - n + 2147483647 else p - n)"
    by (simp add: drmRandom_def Let_def fields p_def n_def)
  have "unat (if p \<le> n then p - n + 2147483647 else p - n)
      = (if unat p \<le> unat n then unat p + 2147483647 - unat n else unat p - unat n)"
  proof (cases "p \<le> n")
    case True
    have "unat (p + 2147483647) = unat p + 2147483647"
      using S(2) up by (subst unat_add_no_wrap) auto
    moreover have "n \<le> p + 2147483647"
      using S(2,3) up un calculation by (simp add: word_le_nat_alt)
    ultimately have "unat (p + 2147483647 - n) = unat p + 2147483647 - unat n"
      by (simp add: unat_sub)
    moreover have "p - n + 2147483647 = p + 2147483647 - n" by (rule diff_add_eq)
    ultimately show ?thesis using True by (simp only: word_le_nat_alt if_True)
  next
    case False
    then show ?thesis by (simp add: word_le_nat_alt unat_sub)
  qed
  then show ?thesis unfolding seed up un using S(1) by simp
qed

lemma drmRandom_fst: "fst (drmRandom s) = rs_seed (snd (drmRandom s))"
  by (simp add: drmRandom_def Let_def)

lemma drmRandom_frame:
  "rs_a (snd (drmRandom s)) = rs_a s" "rs_m (snd (drmRandom s)) = rs_m s"
  "rs_q (snd (drmRandom s)) = rs_q s" "rs_r (snd (drmRandom s)) = rs_r s"
  "rs_check (snd (drmRandom s)) = rs_check s"
  by (simp_all add: drmRandom_def Let_def)

lemma drmRandom_wf:
  assumes "rand_wf s"
  shows "rand_wf (snd (drmRandom s))"
proof -
  have "0 < unat (rs_seed (snd (drmRandom s))) \<and> unat (rs_seed (snd (drmRandom s))) < 2147483647"
    using assms schrage(4) [of "unat (rs_seed s)"]
    by (simp add: drmRandom_seed rand_wf_def)
  then show ?thesis using assms by (simp add: rand_wf_def drmRandom_frame)
qed

section \<open>Runs of the generator\<close>

fun drmRandom_iter :: "nat \<Rightarrow> RandomState \<Rightarrow> RandomState" where
  "drmRandom_iter 0 s = s"
| "drmRandom_iter (Suc n) s = drmRandom_iter n (snd (drmRandom s))"

lemma drmRandom_iter_wf: "rand_wf s \<Longrightarrow> rand_wf (drmRandom_iter n s)"
  by (induction n arbitrary: s) (auto intro: drmRandom_wf)

lemma drmRandom_iter_check: "rs_check (drmRandom_iter n s) = rs_check s"
  by (induction n arbitrary: s) (auto simp: drmRandom_frame)

lemma drmRandom_iter_seed:
  "rand_wf s \<Longrightarrow>
   unat (rs_seed (drmRandom_iter n s)) = 48271 ^ n * unat (rs_seed s) mod 2147483647"
proof (induction n arbitrary: s)
  case 0
  then show ?case by (simp add: rand_wf_def)
next
  case (Suc n)
  have "unat (rs_seed (drmRandom_iter (Suc n) s))
      = 48271 ^ n * (48271 * unat (rs_seed s) mod 2147483647) mod 2147483647"
    using Suc by (simp add: drmRandom_wf drmRandom_seed)
  also have "\<dots> = 48271 ^ n * (48271 * unat (rs_seed s)) mod 2147483647"
    by (rule mod_mult_right_eq)
  finally show ?case by (simp add: algebra_simps)
qed

lemma drmRandom_iter_step:
  assumes "rand_wf s"
  shows "unat (rs_seed (drmRandom_iter (Suc n) s))
    = 48271 * unat (rs_seed (drmRandom_iter n s)) mod 2147483647"
  unfolding drmRandom_iter_seed [OF assms] power_Suc
  by (simp only: mod_mult_right_eq mult.assoc)

lemma lehmer_no_fixpoint:
  fixes x :: nat
  assumes "0 < x" and "x < 2147483647"
  shows "48271 * x mod 2147483647 \<noteq> x"
proof
  assume "48271 * x mod 2147483647 = x"
  then have "2147483647 dvd 48271 * x - x" by (metis dvd_minus_mod)
  then have "2147483647 dvd 48270 * x" by simp
  moreover have "coprime (2147483647::nat) 48270" by (simp add: coprime_iff_gcd_eq_1 gcd_non_0_nat)
  ultimately have "2147483647 dvd x" by (simp add: coprime_dvd_mult_right_iff)
  with assms show False by (auto dest: dvd_imp_le)
qed

text \<open>Fast modular powers, to evaluate long runs.\<close>

fun powmod :: "nat \<Rightarrow> nat \<Rightarrow> nat \<Rightarrow> nat" where
  "powmod m b e =
     (if e = 0 then 1 mod m
      else let h = powmod m (b * b mod m) (e div 2)
           in if even e then h else b * h mod m)"

declare powmod.simps [simp del]

lemma powmod_eq: "powmod m b e = b ^ e mod m"
proof (induction m b e rule: powmod.induct)
  case (1 m b e)
  show ?case
  proof (cases "e = 0")
    case True
    then show ?thesis by (simp add: powmod.simps)
  next
    case False
    have h: "powmod m (b * b mod m) (e div 2) = (b * b) ^ (e div 2) mod m"
      using "1.IH" [OF False] by (simp add: power_mod)
    have sq: "(b * b) ^ (e div 2) = b ^ (2 * (e div 2))"
      by (simp add: power_mult power2_eq_square)
    show ?thesis
    proof (cases "even e")
      case True
      then show ?thesis using False h sq by (simp add: powmod.simps [of m b e] Let_def)
    next
      case odd: False
      then have "b ^ e = b * b ^ (2 * (e div 2))"
        by (metis odd_two_times_div_two_succ power_Suc Suc_eq_plus1)
      then show ?thesis using False odd h sq
        by (simp add: powmod.simps [of m b e] Let_def mod_mult_right_eq)
    qed
  qed
qed

lemma power_check: "(48271::nat) ^ 10000 mod 2147483647 = 399268537"
proof -
  have "powmod 2147483647 48271 10000 = 399268537" by (simp add: powmod.simps Let_def)
  then show ?thesis by (simp only: powmod_eq)
qed

lemma power_period: "(48271::nat) ^ 2147483646 mod 2147483647 = 1"
proof -
  have "powmod 2147483647 48271 2147483646 = 1" by (simp add: powmod.simps Let_def)
  then show ?thesis by (simp only: powmod_eq)
qed

section \<open>Properties\<close>

text \<open>C20. One call of \<^verbatim>\<open>drmRandom\<close> is one step of the Park-Miller generator:
  although it is computed from the quotient and remainder by \<^verbatim>\<open>q\<close>, in 32-bit unsigned
  arithmetic with a wrapping subtraction, the result is exactly \<open>48271 * seed mod (2^31 - 1)\<close>, and
  the state stays well formed: the seed is never 0 and stays below the modulus.\<close>

theorem drmRandom_lehmer:
  assumes "rand_wf s"
  shows "unat (fst (drmRandom s)) = 48271 * unat (rs_seed s) mod 2147483647
    \<and> rand_wf (snd (drmRandom s))"
  using assms by (simp add: drmRandom_fst drmRandom_seed drmRandom_wf)

theorem drmRandom_lehmer_witness:
  "rand_wf (the (drmRandomCreate True 37))
   \<and> unat (fst (drmRandom (the (drmRandomCreate True 37)))) = 1786027"
proof -
  have c: "drmRandomCreate True 37 = Some (the (drmRandomCreate True 37))"
    by (simp add: drmRandomCreate_def Let_def)
  have wf: "rand_wf (the (drmRandomCreate True 37))" by (rule drmRandomCreate_wf [OF c])
  have seed: "rs_seed (the (drmRandomCreate True 37)) = 37" by (simp add: drmRandomCreate_def Let_def)
  show ?thesis using wf drmRandom_lehmer [OF wf] by (simp add: seed)
qed

text \<open>The self-test value of the implementation: started at seed 1, after 10000
  calls the state holds the number stored in its \<^verbatim>\<open>check\<close> field.\<close>

theorem drmRandom_selftest:
  "rs_seed (drmRandom_iter 10000 (the (drmRandomCreate True 1)))
   = rs_check (the (drmRandomCreate True 1))"
proof -
  have c: "drmRandomCreate True 1 = Some (the (drmRandomCreate True 1))"
    by (simp add: drmRandomCreate_def Let_def)
  note wf = drmRandomCreate_wf [OF c]
  have seed: "rs_seed (the (drmRandomCreate True 1)) = 1"
    and check: "rs_check (the (drmRandomCreate True 1)) = 399268537"
    by (simp_all add: drmRandomCreate_def Let_def word_le_nat_alt)
  have "unat (rs_seed (drmRandom_iter 10000 (the (drmRandomCreate True 1)))) = 399268537"
    unfolding drmRandom_iter_seed [OF wf] seed unat_1 mult_1_right by (rule power_check)
  then have "unat (rs_seed (drmRandom_iter 10000 (the (drmRandomCreate True 1))))
      = unat (399268537::ulong)" by simp
  then show ?thesis by (simp only: check word_unat_eq_iff)
qed

text \<open>The sequence repeats after \<open>2^31 - 2\<close> calls, from any state, and
  \<open>2^31 - 1\<close>, which the file's comment gives as the period, is not a period.\<close>

theorem drmRandom_period:
  assumes "rand_wf s"
  shows "rs_seed (drmRandom_iter 2147483646 s) = rs_seed s
    \<and> rs_seed (drmRandom_iter 2147483647 s) \<noteq> rs_seed s"
proof
  let ?x = "unat (rs_seed s)"
  have x: "0 < ?x" "?x < 2147483647" using assms by (auto simp: rand_wf_def)
  have "unat (rs_seed (drmRandom_iter 2147483646 s))
      = (48271 ^ 2147483646 mod 2147483647) * ?x mod 2147483647"
    unfolding drmRandom_iter_seed [OF assms] by (simp only: mod_mult_left_eq)
  then have p: "unat (rs_seed (drmRandom_iter 2147483646 s)) = ?x"
    unfolding power_period using x by simp
  then show "rs_seed (drmRandom_iter 2147483646 s) = rs_seed s" by (simp only: word_unat_eq_iff)
  have "unat (rs_seed (drmRandom_iter (Suc 2147483646) s)) \<noteq> ?x"
    unfolding drmRandom_iter_step [OF assms] p by (rule lehmer_no_fixpoint [OF x])
  moreover have "Suc 2147483646 = 2147483647" by simp
  ultimately have "unat (rs_seed (drmRandom_iter 2147483647 s)) \<noteq> ?x" by metis
  then show "rs_seed (drmRandom_iter 2147483647 s) \<noteq> rs_seed s" by metis
qed

theorem drmRandom_period_witness:
  "rs_seed (drmRandom_iter 2147483646 (the (drmRandomCreate True 37))) = 37"
proof -
  have c: "drmRandomCreate True 37 = Some (the (drmRandomCreate True 37))"
    by (simp add: drmRandomCreate_def Let_def)
  show ?thesis using drmRandom_period [OF drmRandomCreate_wf [OF c]]
    by (simp add: drmRandomCreate_def Let_def)
qed

end
