(* ===== verification/Dict.thy ===== *)
theory Dict
  imports Prelude
begin

text \<open>
  The contract shared by the key/value tables of libdrm (\<^verbatim>\<open>xf86drmHash.c\<close>,
  \<^verbatim>\<open>xf86drmSL.c\<close>): an invariant, the finite map a table stands for, and the three
  operations with the return codes of the C interface: 0 for done, 1 for an insertion of a key that
  is there and for a deletion of a key that is not; the code of a look-up that finds nothing is
  \<open>miss\<close>, for the two tables differ there. A call that goes through a bad pointer or does not come back
  has no result (\<open>None\<close>), and then neither has the run it is part of. An insertion takes what the
  allocator hands out; \<open>alloc_ok\<close> says that it is memory the table does not hold yet. What a key
  is bound to by an insertion is \<open>bind m v\<close>, and a look-up stores \<open>view\<close> of it for the caller.
  The client lemmas are about whole sequences of calls, and are proved once here.
\<close>

datatype ('m, 'k, 'v) dict_cmd = Insert 'm 'k 'v | Delete 'k | Lookup 'k

text \<open>The abstract machine: the same calls on a map. The answer to a call is its return code and, for a
  look-up, what it stores for the caller.\<close>

fun map_cmd ::
  "int \<Rightarrow> ('m \<Rightarrow> 'v \<Rightarrow> 'e) \<Rightarrow> ('e \<Rightarrow> 'a) \<Rightarrow> ('k \<rightharpoonup> 'e) \<Rightarrow> ('m, 'k, 'v) dict_cmd \<Rightarrow> (int \<times> 'a option) \<times> ('k \<rightharpoonup> 'e)" where
  "map_cmd miss bind view f (Insert m k v) = (if f k = None then ((0, None), f(k \<mapsto> bind m v)) else ((1, None), f))"
| "map_cmd miss bind view f (Delete k) = (if f k = None then ((1, None), f) else ((0, None), f(k := None)))"
| "map_cmd miss bind view f (Lookup k) = (case f k of None \<Rightarrow> ((miss, None), f) | Some e \<Rightarrow> ((0, Some (view e)), f))"

fun map_run ::
  "int \<Rightarrow> ('m \<Rightarrow> 'v \<Rightarrow> 'e) \<Rightarrow> ('e \<Rightarrow> 'a) \<Rightarrow> ('k \<rightharpoonup> 'e) \<Rightarrow> ('m, 'k, 'v) dict_cmd list
   \<Rightarrow> (int \<times> 'a option) list \<times> ('k \<rightharpoonup> 'e)" where
  "map_run miss bind view f [] = ([], f)"
| "map_run miss bind view f (c # cs) =
     (let (r, f') = map_cmd miss bind view f c; (rs, f'') = map_run miss bind view f' cs in (r # rs, f''))"

text \<open>A table's own machine, from its three operations.\<close>

fun exec_cmd ::
  "('t \<Rightarrow> 'k \<Rightarrow> (int \<times> 'a option \<times> 't) option) \<Rightarrow> ('m \<Rightarrow> 't \<Rightarrow> 'k \<Rightarrow> 'v \<Rightarrow> (int \<times> 't) option)
   \<Rightarrow> ('t \<Rightarrow> 'k \<Rightarrow> (int \<times> 't) option) \<Rightarrow> 't \<Rightarrow> ('m, 'k, 'v) dict_cmd \<Rightarrow> ((int \<times> 'a option) \<times> 't) option" where
  "exec_cmd look ins del t (Insert m k v) = map_option (\<lambda>(r, t'). ((r, None), t')) (ins m t k v)"
| "exec_cmd look ins del t (Delete k) = map_option (\<lambda>(r, t'). ((r, None), t')) (del t k)"
| "exec_cmd look ins del t (Lookup k) = map_option (\<lambda>(r, x, t'). ((r, x), t')) (look t k)"

fun exec_run ::
  "('t \<Rightarrow> 'k \<Rightarrow> (int \<times> 'a option \<times> 't) option) \<Rightarrow> ('m \<Rightarrow> 't \<Rightarrow> 'k \<Rightarrow> 'v \<Rightarrow> (int \<times> 't) option)
   \<Rightarrow> ('t \<Rightarrow> 'k \<Rightarrow> (int \<times> 't) option) \<Rightarrow> 't \<Rightarrow> ('m, 'k, 'v) dict_cmd list \<Rightarrow> ((int \<times> 'a option) list \<times> 't) option" where
  "exec_run look ins del t [] = Some ([], t)"
| "exec_run look ins del t (c # cs) =
     (case exec_cmd look ins del t c of
        None \<Rightarrow> None
      | Some (r, t') \<Rightarrow> map_option (\<lambda>(rs, t''). (r # rs, t'')) (exec_run look ins del t' cs))"

text \<open>Every insertion of a run is given memory the table does not hold.\<close>

fun allocs_ok ::
  "('t \<Rightarrow> 'm \<Rightarrow> bool) \<Rightarrow> ('t \<Rightarrow> 'k \<Rightarrow> (int \<times> 'a option \<times> 't) option) \<Rightarrow> ('m \<Rightarrow> 't \<Rightarrow> 'k \<Rightarrow> 'v \<Rightarrow> (int \<times> 't) option)
   \<Rightarrow> ('t \<Rightarrow> 'k \<Rightarrow> (int \<times> 't) option) \<Rightarrow> 't \<Rightarrow> ('m, 'k, 'v) dict_cmd list \<Rightarrow> bool" where
  "allocs_ok ok look ins del t [] = True"
| "allocs_ok ok look ins del t (c # cs) =
     ((case c of Insert m k v \<Rightarrow> ok t m | _ \<Rightarrow> True)
      \<and> (case exec_cmd look ins del t c of None \<Rightarrow> True | Some (r, t') \<Rightarrow> allocs_ok ok look ins del t' cs))"

locale dict =
  fixes invar :: "'t \<Rightarrow> bool"
    and abs :: "'t \<Rightarrow> 'k \<Rightarrow> 'e option"
    and miss :: int
    and bind :: "'m \<Rightarrow> 'v \<Rightarrow> 'e"
    and view :: "'e \<Rightarrow> 'a"
    and look :: "'t \<Rightarrow> 'k \<Rightarrow> (int \<times> 'a option \<times> 't) option"
    and ins :: "'m \<Rightarrow> 't \<Rightarrow> 'k \<Rightarrow> 'v \<Rightarrow> (int \<times> 't) option"
    and del :: "'t \<Rightarrow> 'k \<Rightarrow> (int \<times> 't) option"
    and alloc_ok :: "'t \<Rightarrow> 'm \<Rightarrow> bool"
  assumes look_law: "invar t \<Longrightarrow>
        \<exists>t'. look t k = Some (if abs t k = None then miss else 0, map_option view (abs t k), t') \<and> invar t' \<and> abs t' = abs t"
    and ins_law: "invar t \<Longrightarrow> alloc_ok t m \<Longrightarrow>
        \<exists>t'. ins m t k v = Some (if abs t k = None then 0 else 1, t') \<and> invar t'
           \<and> abs t' = (if abs t k = None then (abs t)(k \<mapsto> bind m v) else abs t)"
    and del_law: "invar t \<Longrightarrow>
        \<exists>t'. del t k = Some (if abs t k = None then 1 else 0, t') \<and> invar t' \<and> abs t' = (abs t)(k := None)"
begin

lemma cmd_refines:
  assumes "invar t" and "case c of Insert m k v \<Rightarrow> alloc_ok t m | _ \<Rightarrow> True"
  shows "\<exists>r t'. exec_cmd look ins del t c = Some (r, t') \<and> invar t' \<and> map_cmd miss bind view (abs t) c = (r, abs t')"
proof (cases c)
  case (Insert m k v)
  then show ?thesis using ins_law [OF assms(1), of m k v] assms(2) by auto
next
  case (Delete k)
  then show ?thesis using del_law [OF assms(1), of k] by (auto simp: fun_upd_idem)
next
  case (Lookup k)
  then show ?thesis using look_law [OF assms(1), of k] by (auto split: option.splits)
qed

lemma run_refines:
  "invar t \<Longrightarrow> allocs_ok alloc_ok look ins del t cs \<Longrightarrow>
   \<exists>rs t'. exec_run look ins del t cs = Some (rs, t') \<and> invar t' \<and> map_run miss bind view (abs t) cs = (rs, abs t')"
proof (induction cs arbitrary: t)
  case Nil
  then show ?case by simp
next
  case (Cons c cs)
  obtain r t1 where c: "exec_cmd look ins del t c = Some (r, t1)" "invar t1" "map_cmd miss bind view (abs t) c = (r, abs t1)"
    using cmd_refines [OF Cons.prems(1), of c] Cons.prems(2) by auto
  with Cons.prems(2) have "allocs_ok alloc_ok look ins del t1 cs" by simp
  from Cons.IH [OF c(2) this] show ?case using c by auto
qed

end

end
