(* ===== verification/Drm_Hash.thy ===== *)
theory Drm_Hash
  imports Dict Drm_Random
begin

text \<open>
  The hash table of \<^verbatim>\<open>hals/display/libdrm/xf86drmHash.c\<close> and its client
  \<^verbatim>\<open>drmGetEntry\<close> in \<^verbatim>\<open>xf86drm.c\<close>. A chain \<^verbatim>\<open>buckets[i]\<close> is the list of its nodes from
  the head; a node carries its address, so that the iterator \<^verbatim>\<open>p1\<close> stays a pointer: the model
  reads through it at the time of the call, and a node that has been freed since is \<open>None\<close>, the
  undefined behaviour of the C code. What \<^verbatim>\<open>drmMalloc\<close> returns is an argument.
\<close>

definition HASH_MAGIC :: ulong where "HASH_MAGIC = 0xdeadbeef"
definition HASH_SIZE :: nat where "HASH_SIZE = 512"

record 'v HashBucket =
  hb_addr :: addr
  hb_key :: ulong
  hb_value :: 'v

record 'v HashTable =
  ht_magic :: ulong
  ht_entries :: ulong
  ht_hits :: ulong
  ht_partials :: ulong
  ht_misses :: ulong
  ht_buckets :: "'v HashBucket list list"
  ht_p0 :: nat
  ht_p1 :: "addr option"

section \<open>The hash function\<close>

fun scatter_fill :: "nat \<Rightarrow> RandomState \<Rightarrow> ulong list" where
  "scatter_fill 0 s = []"
| "scatter_fill (Suc n) s = (case drmRandom s of (v, s') \<Rightarrow> v # scatter_fill n s')"

definition scatter :: "ulong list" where
  "scatter = (case drmRandomCreate True 37 of None \<Rightarrow> [] | Some st \<Rightarrow> scatter_fill 256 st)"

lemma drop_bit_8_less: "(w::ulong) \<noteq> 0 \<Longrightarrow> unat (drop_bit 8 w) < unat w"
  by (simp add: drop_bit_eq_div unat_div_distrib unat_gt_0)

function hash_loop :: "ulong \<Rightarrow> ulong \<Rightarrow> ulong" where
  "hash_loop hash tmp =
     (if tmp = 0 then hash
      else hash_loop (push_bit 1 hash + scatter ! unat (tmp AND 0xff)) (drop_bit 8 tmp))"
  by pat_completeness auto
termination
  by (relation "measure (\<lambda>(hash, tmp). unat tmp)") (auto simp: drop_bit_8_less)

declare hash_loop.simps [simp del]

definition HashHash :: "ulong \<Rightarrow> nat" where
  "HashHash key = unat (hash_loop 0 key mod of_nat HASH_SIZE)"

section \<open>The operations\<close>

definition drmHashCreate :: "bool \<Rightarrow> 'v HashTable option" where
  "drmHashCreate mem =
     (if \<not> mem then None
      else Some \<lparr>ht_magic = HASH_MAGIC, ht_entries = 0, ht_hits = 0, ht_partials = 0,
                 ht_misses = 0, ht_buckets = replicate HASH_SIZE [], ht_p0 = 0, ht_p1 = None\<rparr>)"

text \<open>The second component lists the nodes handed to \<^verbatim>\<open>drmFree\<close>, in order.\<close>

definition drmHashDestroy :: "'v HashTable \<Rightarrow> int \<times> addr list" where
  "drmHashDestroy table =
     (if ht_magic table \<noteq> HASH_MAGIC then (-1, [])
      else (0, concat (map (map hb_addr) (ht_buckets table))))"

text \<open>The walk keeps the nodes it has passed (\<^verbatim>\<open>prev\<close> is the last of them).\<close>

fun HashFind_walk ::
  "ulong \<Rightarrow> 'v HashBucket list \<Rightarrow> 'v HashBucket list
   \<Rightarrow> ('v HashBucket list \<times> 'v HashBucket \<times> 'v HashBucket list) option" where
  "HashFind_walk key prev [] = None"
| "HashFind_walk key prev (bucket # next) =
     (if hb_key bucket = key then Some (prev, bucket, next)
      else HashFind_walk key (prev @ [bucket]) next)"

definition HashFind ::
  "'v HashTable \<Rightarrow> ulong \<Rightarrow> 'v HashBucket option \<times> nat \<times> 'v HashTable" where
  "HashFind table key =
     (let hash = HashHash key in
      case HashFind_walk key [] (ht_buckets table ! hash) of
        None \<Rightarrow> (None, hash, table\<lparr>ht_misses := ht_misses table + 1\<rparr>)
      | Some (prev, bucket, next) \<Rightarrow>
          if prev \<noteq> []
          then (Some bucket, hash,
                table\<lparr>ht_buckets := (ht_buckets table)[hash := bucket # prev @ next],
                      ht_partials := ht_partials table + 1\<rparr>)
          else (Some bucket, hash, table\<lparr>ht_hits := ht_hits table + 1\<rparr>))"

text \<open>The table is \<open>None\<close> for a \<^verbatim>\<open>NULL\<close> pointer; the value is stored on success only.\<close>

definition drmHashLookup ::
  "'v HashTable option \<Rightarrow> ulong \<Rightarrow> int \<times> 'v option \<times> 'v HashTable option" where
  "drmHashLookup t key =
     (case t of
        None \<Rightarrow> (-1, None, None)
      | Some table \<Rightarrow>
          if ht_magic table \<noteq> HASH_MAGIC then (-1, None, t)
          else case HashFind table key of
                 (None, h, table') \<Rightarrow> (1, None, Some table')
               | (Some bucket, h, table') \<Rightarrow> (0, Some (hb_value bucket), Some table'))"

definition drmHashInsert ::
  "addr option \<Rightarrow> 'v HashTable \<Rightarrow> ulong \<Rightarrow> 'v \<Rightarrow> int \<times> 'v HashTable" where
  "drmHashInsert mem table key value =
     (if ht_magic table \<noteq> HASH_MAGIC then (-1, table)
      else case HashFind table key of
             (Some bucket, hash, table') \<Rightarrow> (1, table')
           | (None, hash, table') \<Rightarrow>
               (case mem of
                  None \<Rightarrow> (-1, table')
                | Some a \<Rightarrow>
                    (0, table'\<lparr>ht_buckets := (ht_buckets table')[hash :=
                          \<lparr>hb_addr = a, hb_key = key, hb_value = value\<rparr>
                          # ht_buckets table' ! hash]\<rparr>)))"

definition drmHashDelete :: "'v HashTable \<Rightarrow> ulong \<Rightarrow> int \<times> 'v HashTable" where
  "drmHashDelete table key =
     (if ht_magic table \<noteq> HASH_MAGIC then (-1, table)
      else case HashFind table key of
             (None, hash, table') \<Rightarrow> (1, table')
           | (Some bucket, hash, table') \<Rightarrow>
               (0, table'\<lparr>ht_buckets := (ht_buckets table')[hash := tl (ht_buckets table' ! hash)]\<rparr>))"

section \<open>Iteration through the pointer p1\<close>







section \<open>Invariant and abstraction\<close>

definition hash_inv :: "'v HashTable \<Rightarrow> bool" where
  "hash_inv t \<longleftrightarrow> ht_magic t = HASH_MAGIC \<and> length (ht_buckets t) = HASH_SIZE
     \<and> (\<forall>i<HASH_SIZE. \<forall>b\<in>set (ht_buckets t ! i). HashHash (hb_key b) = i)
     \<and> (\<forall>i<HASH_SIZE. distinct (map hb_key (ht_buckets t ! i)))
     \<and> distinct (map hb_addr (concat (ht_buckets t)))"

definition chain_map :: "'v HashBucket list \<Rightarrow> ulong \<Rightarrow> 'v option" where
  "chain_map c = map_of (map (\<lambda>b. (hb_key b, hb_value b)) c)"

definition hash_map :: "'v HashTable \<Rightarrow> ulong \<Rightarrow> 'v option" where
  "hash_map t k = chain_map (ht_buckets t ! HashHash k) k"

definition hash_alloc_ok :: "'v HashTable \<Rightarrow> addr option \<Rightarrow> bool" where
  "hash_alloc_ok t m \<longleftrightarrow>
     (case m of None \<Rightarrow> False | Some a \<Rightarrow> a \<notin> hb_addr ` set (concat (ht_buckets t)))"

lemma HashHash_less [simp]: "HashHash k < HASH_SIZE"
  by (simp add: HashHash_def HASH_SIZE_def unat_mod_distrib)

lemma HashHash_0 [simp]: "HashHash 0 = 0"
  by (simp add: HashHash_def hash_loop.simps)

lemma chain_map_simps [simp]:
  "chain_map [] k = None"
  "chain_map (b # bs) k = (if hb_key b = k then Some (hb_value b) else chain_map bs k)"
  by (auto simp: chain_map_def)

lemma chain_map_append:
  "chain_map (xs @ ys) k = (case chain_map xs k of None \<Rightarrow> chain_map ys k | Some v \<Rightarrow> Some v)"
  by (induction xs) auto

lemma chain_map_None_iff: "chain_map c k = None \<longleftrightarrow> k \<notin> hb_key ` set c"
  by (induction c) auto

lemma HashFind_walk_SomeD:
  "HashFind_walk key prev chain = Some (p, b, n) \<Longrightarrow>
   prev @ chain = p @ b # n \<and> hb_key b = key \<and> (\<exists>q. p = prev @ q \<and> key \<notin> hb_key ` set q)"
  by (induction key prev chain rule: HashFind_walk.induct) (fastforce split: if_splits)+

lemma HashFind_walk_None: "HashFind_walk key prev chain = None \<longleftrightarrow> key \<notin> hb_key ` set chain"
  by (induction key prev chain rule: HashFind_walk.induct) auto

text \<open>Replacing one chain by another with the same nodes, more or fewer.\<close>

lemma hash_inv_update:
  assumes "hash_inv t" and "i < HASH_SIZE"
    and "\<forall>b\<in>set c. HashHash (hb_key b) = i" and "distinct (map hb_key c)"
    and "distinct (map hb_addr c)"
    and "hb_addr ` set c \<inter> hb_addr ` set (concat (take i (ht_buckets t) @ drop (Suc i) (ht_buckets t))) = {}"
  shows "hash_inv (t\<lparr>ht_buckets := (ht_buckets t)[i := c]\<rparr>)"
proof -
  have len: "i < length (ht_buckets t)" using assms by (simp add: hash_inv_def)
  have "distinct (map hb_addr (concat (ht_buckets t)))" using assms(1) by (simp add: hash_inv_def)
  then have "distinct (map hb_addr (concat ((ht_buckets t)[i := c])))"
    using assms(5,6) unfolding concat_update_split [OF len] concat_nth_split [OF len]
    by (simp add: image_Un Int_Un_distrib Int_Un_distrib2 Int_commute del: set_concat)
  then show ?thesis
    using assms by (auto simp: hash_inv_def nth_list_update)
qed

lemma hash_map_update:
  assumes "hash_inv t" and "i < HASH_SIZE"
  shows "hash_map (t\<lparr>ht_buckets := (ht_buckets t)[i := c]\<rparr>) k
         = (if HashHash k = i then chain_map c k else hash_map t k)"
  using assms by (simp add: hash_map_def nth_list_update hash_inv_def)

lemma hash_inv_counters [simp]:
  "hash_inv (t\<lparr>ht_hits := x\<rparr>) = hash_inv t" "hash_inv (t\<lparr>ht_misses := x\<rparr>) = hash_inv t"
  "hash_inv (t\<lparr>ht_partials := x\<rparr>) = hash_inv t"
  by (simp_all add: hash_inv_def)

lemma hash_map_counters [simp]:
  "hash_map (t\<lparr>ht_hits := x\<rparr>) = hash_map t" "hash_map (t\<lparr>ht_misses := x\<rparr>) = hash_map t"
  "hash_map (t\<lparr>ht_partials := x\<rparr>) = hash_map t"
  by (simp_all add: hash_map_def fun_eq_iff)

section \<open>HashFind only reorders one chain\<close>

lemma hash_inv_chain:
  assumes "hash_inv t" and "i < HASH_SIZE"
  shows "\<forall>b\<in>set (ht_buckets t ! i). HashHash (hb_key b) = i"
    and "distinct (map hb_key (ht_buckets t ! i))"
    and "distinct (map hb_addr (ht_buckets t ! i))"
    and "hb_addr ` set (ht_buckets t ! i)
         \<inter> hb_addr ` set (concat (take i (ht_buckets t) @ drop (Suc i) (ht_buckets t))) = {}"
proof -
  have len: "i < length (ht_buckets t)" using assms by (simp add: hash_inv_def)
  have d: "distinct (map hb_addr (concat (ht_buckets t)))" using assms(1) by (simp add: hash_inv_def)
  show "\<forall>b\<in>set (ht_buckets t ! i). HashHash (hb_key b) = i"
    "distinct (map hb_key (ht_buckets t ! i))"
    using assms by (auto simp: hash_inv_def)
  from d show "distinct (map hb_addr (ht_buckets t ! i))"
    unfolding concat_nth_split [OF len] by simp
  from d show "hb_addr ` set (ht_buckets t ! i)
         \<inter> hb_addr ` set (concat (take i (ht_buckets t) @ drop (Suc i) (ht_buckets t))) = {}"
    unfolding concat_nth_split [OF len]
    by (simp add: image_Un Int_Un_distrib Int_Un_distrib2 Int_commute del: set_concat)
qed

lemma HashFind_hash [simp]: "fst (snd (HashFind t k)) = HashHash k"
  by (auto simp: HashFind_def Let_def split: option.splits)

lemma HashFind_None:
  assumes "HashFind t k = (None, h, t')"
  shows "t' = t\<lparr>ht_misses := ht_misses t + 1\<rparr>" and "hash_map t k = None"
proof -
  have w: "HashFind_walk k [] (ht_buckets t ! HashHash k) = None"
    using assms by (auto simp: HashFind_def Let_def split: option.splits if_splits)
  then show "t' = t\<lparr>ht_misses := ht_misses t + 1\<rparr>"
    using assms by (simp add: HashFind_def Let_def)
  from w show "hash_map t k = None"
    by (simp add: hash_map_def chain_map_None_iff HashFind_walk_None)
qed

lemma HashFind_Some:
  assumes inv: "hash_inv t" and find: "HashFind t k = (Some b, h, t')"
  shows "hash_inv t'" and "hash_map t' = hash_map t" and "hash_map t k = Some (hb_value b)"
    and "hb_key b = k" and "\<exists>rest. ht_buckets t' ! HashHash k = b # rest"
    and "set (concat (ht_buckets t')) = set (concat (ht_buckets t))"
proof -
  let ?i = "HashHash k"
  let ?c = "ht_buckets t ! ?i"
  obtain prev nxt where w: "HashFind_walk k [] ?c = Some (prev, b, nxt)"
    and t': "t' = (if prev \<noteq> []
                   then t\<lparr>ht_buckets := (ht_buckets t)[?i := b # prev @ nxt],
                         ht_partials := ht_partials t + 1\<rparr>
                   else t\<lparr>ht_hits := ht_hits t + 1\<rparr>)"
    using find by (auto simp: HashFind_def Let_def split: option.splits if_splits)
  from HashFind_walk_SomeD [OF w] have c: "?c = prev @ b # nxt" and bk: "hb_key b = k"
    and np: "k \<notin> hb_key ` set prev" by auto
  have len: "?i < length (ht_buckets t)" using inv by (simp add: hash_inv_def)
  note ch = hash_inv_chain [OF inv HashHash_less [of k]]
  have pk: "chain_map prev k = None" using np by (simp add: chain_map_None_iff)
  then have val: "chain_map ?c k = Some (hb_value b)"
    using bk by (simp add: c chain_map_append)
  have upd: "hash_inv (t\<lparr>ht_buckets := (ht_buckets t)[?i := b # prev @ nxt]\<rparr>)"
    using ch unfolding c by (intro hash_inv_update [OF inv]) auto
  have eq: "chain_map (b # prev @ nxt) k' = chain_map ?c k'" for k'
    using pk bk by (auto simp: c chain_map_append split: option.splits)
  have abs: "hash_map (t\<lparr>ht_buckets := (ht_buckets t)[?i := b # prev @ nxt]\<rparr>) = hash_map t"
    unfolding fun_eq_iff hash_map_update [OF inv HashHash_less] eq by (simp add: hash_map_def)
  have t'_upd: "t' = (if prev \<noteq> []
                   then (t\<lparr>ht_buckets := (ht_buckets t)[?i := b # prev @ nxt]\<rparr>)
                          \<lparr>ht_partials := ht_partials t + 1\<rparr>
                   else t\<lparr>ht_hits := ht_hits t + 1\<rparr>)"
    by (simp add: t')
  show "hash_inv t'" "hash_map t' = hash_map t"
    using upd abs inv by (simp_all add: t'_upd)
  show "hash_map t k = Some (hb_value b)" using val by (simp add: hash_map_def)
  show "hb_key b = k" by (rule bk)
  show "\<exists>rest. ht_buckets t' ! HashHash k = b # rest"
    using len c by (auto simp: t')
  show "set (concat (ht_buckets t')) = set (concat (ht_buckets t))"
  proof -
    have "set (concat ((ht_buckets t)[?i := b # prev @ nxt])) = set (concat (ht_buckets t))"
      unfolding concat_update_split [OF len] concat_nth_split [OF len] c
      by (simp only: set_append list.set) auto
    then show ?thesis by (simp add: t')
  qed
qed

section \<open>The four calls\<close>

lemma hash_lookup_cases:
  assumes "hash_inv t"
  obtains t' where "drmHashLookup (Some t) k
      = ((if hash_map t k = None then 1 else 0), hash_map t k, Some t')"
    and "hash_inv t'" and "hash_map t' = hash_map t"
    and "set (concat (ht_buckets t')) = set (concat (ht_buckets t))"
proof -
  have magic: "ht_magic t = HASH_MAGIC" using assms by (simp add: hash_inv_def)
  obtain r h t' where f: "HashFind t k = (r, h, t')" by (cases "HashFind t k")
  show thesis
  proof (cases r)
    case None
    with f have "HashFind t k = (None, h, t')" by simp
    from HashFind_None [OF this] f None show thesis
      using assms magic by (intro that [of t']) (auto simp: drmHashLookup_def)
  next
    case (Some b)
    with f have "HashFind t k = (Some b, h, t')" by simp
    from HashFind_Some [OF assms this] f Some show thesis
      using magic by (intro that [of t']) (auto simp: drmHashLookup_def)
  qed
qed

lemma hash_insert_cases:
  assumes inv: "hash_inv t" and ok: "hash_alloc_ok t m"
  obtains t' where "drmHashInsert m t k v = ((if hash_map t k = None then 0 else 1), t')"
    and "hash_inv t'"
    and "hash_map t' = (if hash_map t k = None then (hash_map t)(k \<mapsto> v) else hash_map t)"
proof -
  have magic: "ht_magic t = HASH_MAGIC" using inv by (simp add: hash_inv_def)
  obtain a where m: "m = Some a" and fresh: "a \<notin> hb_addr ` set (concat (ht_buckets t))"
    using ok by (auto simp: hash_alloc_ok_def split: option.splits)
  obtain r h t' where f: "HashFind t k = (r, h, t')" by (cases "HashFind t k")
  have h: "h = HashHash k" using HashFind_hash [of t k] f by simp
  show thesis
  proof (cases r)
    case (Some b)
    with f have "HashFind t k = (Some b, h, t')" by simp
    from HashFind_Some [OF inv this] f Some show thesis
      using magic by (intro that [of t']) (auto simp: drmHashInsert_def)
  next
    case None
    with f have "HashFind t k = (None, h, t')" by simp
    note N = HashFind_None [OF this]
    let ?i = "HashHash k"
    let ?c = "\<lparr>hb_addr = a, hb_key = k, hb_value = v\<rparr> # ht_buckets t ! ?i"
    let ?t = "t\<lparr>ht_buckets := (ht_buckets t)[?i := ?c]\<rparr>"
    have len: "?i < length (ht_buckets t)" using inv by (simp add: hash_inv_def)
    note ch = hash_inv_chain [OF inv HashHash_less [of k]]
    have knew: "k \<notin> hb_key ` set (ht_buckets t ! ?i)"
      using N(2) by (simp add: hash_map_def chain_map_None_iff)
    have anew: "a \<notin> hb_addr ` set (ht_buckets t ! ?i)"
      "a \<notin> hb_addr ` set (concat (take ?i (ht_buckets t) @ drop (Suc ?i) (ht_buckets t)))"
      using fresh unfolding concat_nth_split [OF len] by (auto simp del: set_concat)
    have inv': "hash_inv ?t"
      using ch knew anew by (intro hash_inv_update [OF inv]) (auto simp del: set_concat)
    have map': "hash_map ?t = (hash_map t)(k \<mapsto> v)"
      using hash_map_update [OF inv HashHash_less] by (auto simp: fun_eq_iff hash_map_def)
    have res: "drmHashInsert m t k v = (0, ?t\<lparr>ht_misses := ht_misses t + 1\<rparr>)"
      using f None N(1) magic h by (simp add: drmHashInsert_def m)
    show thesis
      using inv' map' N(2) res by (intro that [of "?t\<lparr>ht_misses := ht_misses t + 1\<rparr>"]) simp_all
  qed
qed

lemma hash_delete_cases:
  assumes inv: "hash_inv t"
  obtains t' where "drmHashDelete t k = ((if hash_map t k = None then 1 else 0), t')"
    and "hash_inv t'" and "hash_map t' = (hash_map t)(k := None)"
proof -
  have magic: "ht_magic t = HASH_MAGIC" using inv by (simp add: hash_inv_def)
  obtain r h t' where f: "HashFind t k = (r, h, t')" by (cases "HashFind t k")
  have h: "h = HashHash k" using HashFind_hash [of t k] f by simp
  show thesis
  proof (cases r)
    case None
    with f have "HashFind t k = (None, h, t')" by simp
    from HashFind_None [OF this] f None show thesis
      using inv magic by (intro that [of t']) (auto simp: drmHashDelete_def)
  next
    case (Some b)
    with f have S: "HashFind t k = (Some b, h, t')" by simp
    note F = HashFind_Some [OF inv S]
    from F(5) obtain rest where c: "ht_buckets t' ! HashHash k = b # rest" by blast
    let ?t = "t'\<lparr>ht_buckets := (ht_buckets t')[HashHash k := rest]\<rparr>"
    note ch = hash_inv_chain [OF F(1) HashHash_less [of k], unfolded c]
    have inv': "hash_inv ?t"
      using ch by (intro hash_inv_update [OF F(1)]) auto
    have gone: "chain_map rest k = None"
      using ch(2) F(4) by (auto simp: chain_map_None_iff)
    have "hash_map ?t x = (if x = k then None else hash_map t' x)" for x
      unfolding hash_map_update [OF F(1) HashHash_less]
      using gone F(4) c by (auto simp: hash_map_def)
    then have map': "hash_map ?t = (hash_map t)(k := None)"
      by (simp add: fun_eq_iff F(2))
    show thesis
      using inv' map' F(3) S magic c h by (intro that [of ?t]) (auto simp: drmHashDelete_def)
  qed
qed

section \<open>The table implements the dictionary contract\<close>

text \<open>The C calls as the operations of the contract. A look-up gives its return code and what it stores
  for the caller; an insertion binds the key to the value, and a look-up of a key that is not there has the code 1.
  No call on a table can fail to return.\<close>

definition hash_look :: "'v HashTable \<Rightarrow> ulong \<Rightarrow> (int \<times> 'v option \<times> 'v HashTable) option" where
  "hash_look t k = (case drmHashLookup (Some t) k of
      (r, v, None) \<Rightarrow> None | (r, v, Some t') \<Rightarrow> Some (r, v, t'))"

definition hash_ins :: "addr option \<Rightarrow> 'v HashTable \<Rightarrow> ulong \<Rightarrow> 'v \<Rightarrow> (int \<times> 'v HashTable) option" where
  "hash_ins m t k v = Some (drmHashInsert m t k v)"

definition hash_del :: "'v HashTable \<Rightarrow> ulong \<Rightarrow> (int \<times> 'v HashTable) option" where
  "hash_del t k = Some (drmHashDelete t k)"

definition hash_bind :: "addr option \<Rightarrow> 'v \<Rightarrow> 'v" where
  "hash_bind m v = v"

interpretation hash: dict hash_inv hash_map 1 hash_bind id hash_look hash_ins hash_del hash_alloc_ok
proof (unfold_locales, goal_cases)
  case (1 t k)
  then show ?case by (rule hash_lookup_cases [of t k]) (simp add: hash_look_def option.map_id)
next
  case (2 t m k v)
  then show ?case by (rule hash_insert_cases [of t m k v]) (simp add: hash_ins_def hash_bind_def)
next
  case (3 t k)
  then show ?case by (rule hash_delete_cases [of t k]) (simp add: hash_del_def)
qed

lemma drmHashCreate_inv: "drmHashCreate True = Some t \<Longrightarrow> hash_inv t \<and> hash_map t = Map.empty"
  by (auto simp: drmHashCreate_def hash_inv_def hash_map_def fun_eq_iff concat_replicate_trivial)

text \<open>The statistics: each call that searches the table moves exactly one of the three counters.\<close>

definition hash_searches :: "'v HashTable \<Rightarrow> ulong" where
  "hash_searches t = ht_hits t + ht_partials t + ht_misses t"

lemma HashFind_counts: "hash_searches (snd (snd (HashFind t k))) = hash_searches t + 1"
  by (auto simp: HashFind_def Let_def hash_searches_def split: option.splits)

section \<open>What the iterator visits\<close>














section \<open>drmGetEntry: one entry per device\<close>

record drmHashEntry =
  he_fd :: int
  he_f :: "addr option"
  he_tagTable :: "addr HashTable option"

text \<open>
  The global \<^verbatim>\<open>drmHashTable\<close> maps the device number of a descriptor to the entry's
  address; \<open>store\<close> is the memory the entries live in. \<open>fstat\<close> gives the device number of a
  descriptor, which has 64 bits; the key is its low half, an \<^verbatim>\<open>unsigned long\<close>, or 0 if the call fails. The two addresses are those of the new
  entry and of the new node; \<^verbatim>\<open>drmGetEntry\<close> does not check either allocation.
\<close>

record drm_global =
  g_table :: "addr HashTable option"
  g_store :: "addr \<rightharpoonup> drmHashEntry"

definition drmGetKeyFromFd :: "(int \<Rightarrow> u64 option) \<Rightarrow> int \<Rightarrow> ulong" where
  "drmGetKeyFromFd fstat fd = (case fstat fd of None \<Rightarrow> 0 | Some st_rdev \<Rightarrow> ucast st_rdev)"

definition drmGetEntry ::
  "(int \<Rightarrow> u64 option) \<Rightarrow> addr \<Rightarrow> addr \<Rightarrow> drm_global \<Rightarrow> int \<Rightarrow> addr \<times> drm_global" where
  "drmGetEntry fstat entry_addr node_addr g fd =
     (let key = drmGetKeyFromFd fstat fd;
          t0 = (case g_table g of None \<Rightarrow> drmHashCreate True | Some t \<Rightarrow> Some t)
      in case drmHashLookup t0 key of
           (r, value, t1) \<Rightarrow>
             if r \<noteq> 0 then
               let entry = \<lparr>he_fd = fd, he_f = None, he_tagTable = drmHashCreate True\<rparr>
               in (entry_addr,
                   \<lparr>g_table = Some (snd (drmHashInsert (Some node_addr) (the t1) key entry_addr)),
                    g_store = (g_store g)(entry_addr \<mapsto> entry)\<rparr>)
             else (the value, g\<lparr>g_table := t1\<rparr>))"

definition global_map :: "drm_global \<Rightarrow> ulong \<Rightarrow> addr option" where
  "global_map g = (case g_table g of None \<Rightarrow> Map.empty | Some t \<Rightarrow> hash_map t)"

definition global_inv :: "drm_global \<Rightarrow> bool" where
  "global_inv g \<longleftrightarrow> (\<forall>t. g_table g = Some t \<longrightarrow> hash_inv t)
     \<and> ran (global_map g) \<subseteq> dom (g_store g)"

definition node_fresh :: "drm_global \<Rightarrow> addr \<Rightarrow> bool" where
  "node_fresh g a \<longleftrightarrow>
     (case g_table g of None \<Rightarrow> True | Some t \<Rightarrow> a \<notin> hb_addr ` set (concat (ht_buckets t)))"

lemma drmGetEntry_cases:
  assumes "global_inv g" and "node_fresh g n"
  obtains g' where
    "drmGetEntry fstat e n g fd
       = ((case global_map g (drmGetKeyFromFd fstat fd) of None \<Rightarrow> e | Some a \<Rightarrow> a), g')"
    and "global_inv g'"
    and "global_map g' = (global_map g)(drmGetKeyFromFd fstat fd
           \<mapsto> (case global_map g (drmGetKeyFromFd fstat fd) of None \<Rightarrow> e | Some a \<Rightarrow> a))"
    and "\<And>a. a \<noteq> e \<Longrightarrow> g_store g' a = g_store g a"
proof -
  let ?k = "drmGetKeyFromFd fstat fd"
  obtain t0 where t0: "(case g_table g of None \<Rightarrow> drmHashCreate True | Some t \<Rightarrow> Some t) = Some t0"
    and inv0: "hash_inv t0" and map0: "hash_map t0 = global_map g"
    and fresh0: "n \<notin> hb_addr ` set (concat (ht_buckets t0))"
  proof (cases "g_table g")
    case None
    let ?t = "the (drmHashCreate True) :: addr HashTable"
    have c: "drmHashCreate True = Some ?t" by (simp add: drmHashCreate_def)
    show thesis
      by (rule that [of ?t]) (use None c drmHashCreate_inv [OF c] in
          \<open>auto simp: global_map_def drmHashCreate_def concat_replicate_trivial\<close>)
  next
    case (Some t)
    then show thesis using assms by (intro that [of t]) (auto simp: global_inv_def global_map_def node_fresh_def)
  qed
  obtain t1 where look: "drmHashLookup (Some t0) ?k
      = ((if hash_map t0 ?k = None then 1 else 0), hash_map t0 ?k, Some t1)"
    and t1: "hash_inv t1" "hash_map t1 = hash_map t0"
    and n1: "set (concat (ht_buckets t1)) = set (concat (ht_buckets t0))"
    by (rule hash_lookup_cases [OF inv0])
  show thesis
  proof (cases "global_map g ?k")
    case None
    have ok: "hash_alloc_ok t1 (Some n)" using fresh0 n1 by (simp add: hash_alloc_ok_def)
    obtain t2 where ins: "drmHashInsert (Some n) t1 ?k e = ((if hash_map t1 ?k = None then 0 else 1), t2)"
      and t2: "hash_inv t2"
        "hash_map t2 = (if hash_map t1 ?k = None then (hash_map t1)(?k \<mapsto> e) else hash_map t1)"
      by (rule hash_insert_cases [OF t1(1) ok])
    let ?g = "\<lparr>g_table = Some t2,
               g_store = (g_store g)(e \<mapsto> \<lparr>he_fd = fd, he_f = None, he_tagTable = drmHashCreate True\<rparr>)\<rparr>"
    have m2: "global_map ?g = (global_map g)(?k \<mapsto> e)"
      using t2(2) None t1(2) map0 by (simp add: global_map_def [of ?g])
    have inv2: "global_inv ?g"
      using assms(1) t2(1) None unfolding global_inv_def m2 by auto
    show thesis
      by (rule that [of ?g])
        (use look None map0 t0 ins inv2 m2 in \<open>simp_all add: drmGetEntry_def Let_def\<close>)
  next
    case (Some a)
    let ?g = "g\<lparr>g_table := Some t1\<rparr>"
    have m1: "global_map ?g = global_map g"
      using t1(2) map0 by (simp add: global_map_def [of ?g])
    have inv1: "global_inv ?g"
      using assms(1) t1(1) unfolding global_inv_def m1 by auto
    show thesis
      by (rule that [of ?g])
        (use look Some map0 t0 inv1 m1 in \<open>simp_all add: drmGetEntry_def Let_def fun_upd_idem\<close>)
  qed
qed

section \<open>Properties\<close>

text \<open>C4. Any sequence of insertions, deletions and look-ups on a table made by
  \<^verbatim>\<open>drmHashCreate\<close> gives the answers and return codes of the same sequence on a finite map from keys to
  values, where a look-up answers 0 and the value of the key, or 1 and nothing,
  and leaves the table well formed and standing for the resulting map: moving a found node to
  the front of its chain is not observable.\<close>

theorem drmHash_refines_map:
  assumes "drmHashCreate True = Some t"
    and "allocs_ok hash_alloc_ok hash_look hash_ins hash_del t cs"
  shows "\<exists>rs t'. exec_run hash_look hash_ins hash_del t cs = Some (rs, t')
    \<and> map_run 1 (\<lambda>m v. v) (\<lambda>v. v) Map.empty cs = (rs, hash_map t') \<and> hash_inv t'"
proof -
  have f: "hash_bind = (\<lambda>m v. v)" "id = (\<lambda>v. v)" by (simp_all add: fun_eq_iff hash_bind_def)
  show ?thesis
    using hash.run_refines [OF _ assms(2), unfolded f] drmHashCreate_inv [OF assms(1)] by auto
qed

theorem drmHash_refines_map_witness:
  "\<exists>t'. exec_run hash_look hash_ins hash_del (the (drmHashCreate True))
      [Insert (Some 7) 0 (5::nat), Insert (Some 8) 0 6, Lookup 0, Delete 0, Lookup 0, Delete 0]
   = Some ([(0, None), (1, None), (0, Some 5), (0, None), (1, None), (1, None)], t') \<and> hash_map t' = Map.empty"
proof -
  let ?cs = "[Insert (Some 7) 0 (5::nat), Insert (Some 8) 0 6, Lookup 0, Delete 0, Lookup 0, Delete 0]"
  have c: "drmHashCreate True = Some (the (drmHashCreate True))" by (simp add: drmHashCreate_def)
  have ok: "allocs_ok hash_alloc_ok hash_look hash_ins hash_del (the (drmHashCreate True)) ?cs" by code_simp
  show ?thesis using drmHash_refines_map [OF c ok] by (auto simp: Let_def)
qed

text \<open>The four operations on a well-formed table, one by one: the return code and
  the effect on the map, for a key that is present and for one that is not, and the result of an
  insertion when \<^verbatim>\<open>drmMalloc\<close> fails (the table still stands for the same map).\<close>

theorem drmHash_operations:
  assumes "hash_inv t" and "hash_alloc_ok t m"
  shows "fst (snd (drmHashLookup (Some t) k)) = hash_map t k
    \<and> fst (drmHashLookup (Some t) k) = (if hash_map t k = None then 1 else 0)
    \<and> fst (drmHashInsert m t k v) = (if hash_map t k = None then 0 else 1)
    \<and> hash_map (snd (drmHashInsert m t k v)) k = Some (if hash_map t k = None then v else the (hash_map t k))
    \<and> fst (drmHashInsert None t k v) = (if hash_map t k = None then -1 else 1)
    \<and> hash_map (snd (drmHashInsert None t k v)) = hash_map t
    \<and> fst (drmHashDelete t k) = (if hash_map t k = None then 1 else 0)
    \<and> hash_map (snd (drmHashDelete t k)) = (hash_map t)(k := None)"
proof -
  have magic: "ht_magic t = HASH_MAGIC" using assms(1) by (simp add: hash_inv_def)
  have nomem: "fst (drmHashInsert None t k v) = (if hash_map t k = None then -1 else 1)
      \<and> hash_map (snd (drmHashInsert None t k v)) = hash_map t"
  proof -
    obtain r h t' where f: "HashFind t k = (r, h, t')" by (cases "HashFind t k")
    show ?thesis
      using f magic HashFind_None [of t k h t'] HashFind_Some [OF assms(1), of k _ h t']
      by (cases r) (auto simp: drmHashInsert_def)
  qed
  have look: "fst (snd (drmHashLookup (Some t) k)) = hash_map t k
      \<and> fst (drmHashLookup (Some t) k) = (if hash_map t k = None then 1 else 0)"
    by (rule hash_lookup_cases [OF assms(1), of k]) simp
  show ?thesis
    using nomem look hash.ins_law [OF assms, of k v] hash.del_law [OF assms(1), of k]
    by (auto simp: hash_ins_def hash_del_def hash_bind_def)
qed

theorem drmHash_operations_witness:
  "fst (drmHashInsert (Some 3) (the (drmHashCreate True)) 9 (4::nat)) = 0
   \<and> fst (drmHashInsert None (the (drmHashCreate True)) 9 (4::nat)) = -1
   \<and> hash_map (snd (drmHashInsert (Some 3) (the (drmHashCreate True)) 9 (4::nat))) 9 = Some 4"
proof -
  let ?t = "the (drmHashCreate True) :: nat HashTable"
  have c: "drmHashCreate True = Some ?t" by (simp add: drmHashCreate_def)
  have inv: "hash_inv ?t" and emp: "hash_map ?t = Map.empty" using drmHashCreate_inv [OF c] by auto
  have ok: "hash_alloc_ok ?t (Some 3)"
    by (simp add: hash_alloc_ok_def drmHashCreate_def concat_replicate_trivial)
  show ?thesis using drmHash_operations [OF inv ok, of 9 4] by (simp add: emp)
qed




text \<open>\<^verbatim>\<open>drmHashDestroy\<close> frees every node of the table, and none twice.\<close>

theorem drmHashDestroy_frees_once:
  assumes "hash_inv t"
  shows "fst (drmHashDestroy t) = 0 \<and> distinct (snd (drmHashDestroy t))
    \<and> set (snd (drmHashDestroy t)) = hb_addr ` set (concat (ht_buckets t))"
  using assms by (auto simp: drmHashDestroy_def hash_inv_def map_concat simp flip: map_concat)

theorem drmHashDestroy_frees_once_witness:
  "snd (drmHashDestroy (the (drmHashCreate True) :: nat HashTable)) = []"
proof -
  let ?t = "the (drmHashCreate True) :: nat HashTable"
  have c: "drmHashCreate True = Some ?t" by (simp add: drmHashCreate_def)
  have e: "concat (ht_buckets ?t) = []" by (simp add: drmHashCreate_def concat_replicate_trivial)
  show ?thesis
    using drmHashDestroy_frees_once [of ?t] drmHashCreate_inv [OF c] e by simp
qed

text \<open>C21. \<^verbatim>\<open>drmGetEntry\<close> keeps one entry per key, the low 32 bits of the device number: once a descriptor has been looked up,
  every descriptor of the same device gets the same entry, also when the allocator's answers differ, and
  entries of other keys are left alone.\<close>

theorem drmGetEntry_stable:
  assumes "global_inv g" and "node_fresh g n1"
    and "node_fresh (snd (drmGetEntry fstat e1 n1 g fd1)) n2"
    and "drmGetKeyFromFd fstat fd2 = drmGetKeyFromFd fstat fd1"
  shows "fst (drmGetEntry fstat e2 n2 (snd (drmGetEntry fstat e1 n1 g fd1)) fd2)
         = fst (drmGetEntry fstat e1 n1 g fd1)
    \<and> global_map (snd (drmGetEntry fstat e2 n2 (snd (drmGetEntry fstat e1 n1 g fd1)) fd2))
         = global_map (snd (drmGetEntry fstat e1 n1 g fd1))
    \<and> (\<forall>k. k \<noteq> drmGetKeyFromFd fstat fd1 \<longrightarrow>
          global_map (snd (drmGetEntry fstat e1 n1 g fd1)) k = global_map g k)"
proof -
  obtain g1 where g1: "drmGetEntry fstat e1 n1 g fd1
       = ((case global_map g (drmGetKeyFromFd fstat fd1) of None \<Rightarrow> e1 | Some a \<Rightarrow> a), g1)"
    "global_inv g1"
    "global_map g1 = (global_map g)(drmGetKeyFromFd fstat fd1
           \<mapsto> (case global_map g (drmGetKeyFromFd fstat fd1) of None \<Rightarrow> e1 | Some a \<Rightarrow> a))"
    by (rule drmGetEntry_cases [OF assms(1,2)])
  have fresh: "node_fresh g1 n2" using assms(3) g1(1) by simp
  obtain g2 where "drmGetEntry fstat e2 n2 g1 fd2
       = ((case global_map g1 (drmGetKeyFromFd fstat fd2) of None \<Rightarrow> e2 | Some a \<Rightarrow> a), g2)"
    "global_map g2 = (global_map g1)(drmGetKeyFromFd fstat fd2
           \<mapsto> (case global_map g1 (drmGetKeyFromFd fstat fd2) of None \<Rightarrow> e2 | Some a \<Rightarrow> a))"
    by (rule drmGetEntry_cases [OF g1(2) fresh])
  then show ?thesis using g1 assms(4) by (auto simp: fun_eq_iff)
qed

theorem drmGetEntry_stable_witness:
  "fst (drmGetEntry (\<lambda>fd. Some 0) 20 21
      (snd (drmGetEntry (\<lambda>fd. Some 0) 10 11 \<lparr>g_table = None, g_store = Map.empty\<rparr> 3)) 4) = 10"
proof -
  let ?g = "\<lparr>g_table = None, g_store = Map.empty\<rparr> :: drm_global"
  have inv: "global_inv ?g" by (simp add: global_inv_def global_map_def)
  have f1: "node_fresh ?g 11" by (simp add: node_fresh_def)
  have f2: "node_fresh (snd (drmGetEntry (\<lambda>fd. Some 0) 10 11 ?g 3)) 21" by code_simp
  have "fst (drmGetEntry (\<lambda>fd. Some 0) 10 11 ?g 3) = 10" by code_simp
  then show ?thesis
    using drmGetEntry_stable [OF inv f1 f2, of 4 20] by (simp add: drmGetKeyFromFd_def)
qed

end
