(* ===== verification/Drm_Skiplist.thy ===== *)
theory Drm_Skiplist
  imports Dict Drm_Random
begin

text \<open>
  The skip list of \<^verbatim>\<open>hals/display/libdrm/xf86drmSL.c\<close>. Entries live in a heap, a map from
  addresses to records with their array of forward pointers; \<^verbatim>\<open>NULL\<close> is \<open>None\<close>. An
  operation is \<open>None\<close> when it does not return: when it reads through a null or freed pointer
  or past the end of an array, or when a walk along forward pointers goes on for ever. That the
  operations return is proved from the invariant, which says that the pointers of
  level i link exactly the entries with more than i levels, in the order of their keys.
  The levels come from the generator of \<open>Drm_Random\<close>, and the operations are an instance of the table contract of
  \<open>Dict\<close>.
\<close>

section \<open>Data\<close>

definition SL_LIST_MAGIC :: ulong where "SL_LIST_MAGIC = 0xfacade00"
definition SL_ENTRY_MAGIC :: ulong where "SL_ENTRY_MAGIC = 0x00fab1ed"
definition SL_FREED_MAGIC :: ulong where "SL_FREED_MAGIC = 0xdecea5ed"
definition SL_MAX_LEVEL :: nat where "SL_MAX_LEVEL = 16"
definition SL_RANDOM_SEED :: ulong where "SL_RANDOM_SEED = 0xc01055a1"

record 'v SLEntry =
  e_magic :: ulong
  e_key :: ulong
  e_value :: 'v
  e_levels :: nat
  e_forward :: "addr option list"

type_synonym 'v sl_heap = "addr \<Rightarrow> 'v SLEntry option"

text \<open>The list, the heap its entries are in, and the static generator of \<^verbatim>\<open>SLRandomLevel\<close>.\<close>

record 'v SkipList =
  sl_magic :: ulong
  sl_level :: nat
  sl_count :: int
  sl_head :: addr
  sl_p0 :: "addr option"
  sl_mem :: "'v sl_heap"
  sl_rng :: "RandomState option"

text \<open>\<^verbatim>\<open>p->forward[i]\<close>, read and written.\<close>

definition sl_fwd :: "'v sl_heap \<Rightarrow> addr \<Rightarrow> nat \<Rightarrow> addr option option" where
  "sl_fwd h p i = (case h p of None \<Rightarrow> None
     | Some e \<Rightarrow> if i < length (e_forward e) then Some (e_forward e ! i) else None)"

definition sl_set :: "'v sl_heap \<Rightarrow> addr \<Rightarrow> nat \<Rightarrow> addr option \<Rightarrow> 'v sl_heap option" where
  "sl_set h p i v = (case h p of None \<Rightarrow> None
     | Some e \<Rightarrow> if i < length (e_forward e) then Some (h(p \<mapsto> e\<lparr>e_forward := (e_forward e)[i := v]\<rparr>)) else None)"

section \<open>Operations\<close>

text \<open>The entry that \<^verbatim>\<open>SLCreateEntry\<close> sets up; \<^verbatim>\<open>drmMalloc\<close> clears the memory, and the array has
  one element more than the size asked for.\<close>

definition SLCreateEntry :: "int \<Rightarrow> ulong \<Rightarrow> 'v \<Rightarrow> 'v SLEntry" where
  "SLCreateEntry max_level key value =
     (let ml = (if max_level < 0 \<or> max_level > int SL_MAX_LEVEL then SL_MAX_LEVEL else nat max_level)
      in \<lparr>e_magic = SL_ENTRY_MAGIC, e_key = key, e_value = value, e_levels = ml + 1,
          e_forward = replicate (ml + 2) None\<rparr>)"

function random_level :: "RandomState \<Rightarrow> nat \<Rightarrow> nat \<times> RandomState" where
  "random_level s level =
     (case drmRandom s of (r, s') \<Rightarrow>
        if r AND 1 \<noteq> 0 \<and> level < SL_MAX_LEVEL then random_level s' (level + 1) else (level, s'))"
  by pat_completeness auto
termination by (relation "measure (\<lambda>(s, level). SL_MAX_LEVEL - level)") auto

declare random_level.simps [simp del]

text \<open>The flag tells whether there is memory for the generator, should it be needed.\<close>

definition SLRandomLevel :: "bool \<Rightarrow> RandomState option \<Rightarrow> (nat \<times> RandomState) option" where
  "SLRandomLevel mem rng =
     (case (case rng of None \<Rightarrow> drmRandomCreate mem SL_RANDOM_SEED | Some s \<Rightarrow> Some s) of
        None \<Rightarrow> None
      | Some s \<Rightarrow> Some (random_level s 1))"

definition drmSLCreate :: "addr \<Rightarrow> RandomState option \<Rightarrow> 'v \<Rightarrow> 'v SkipList" where
  "drmSLCreate a rng null =
     (let head = SLCreateEntry (int SL_MAX_LEVEL) 0 null
      in \<lparr>sl_magic = SL_LIST_MAGIC, sl_level = 0, sl_count = 0, sl_head = a, sl_p0 = None,
          sl_mem = [a \<mapsto> head], sl_rng = rng\<rparr>)"

partial_function (option) sl_walk :: "'v sl_heap \<Rightarrow> ulong \<Rightarrow> nat \<Rightarrow> addr \<Rightarrow> addr option" where
  "sl_walk h key i p =
     (case sl_fwd h p i of
        None \<Rightarrow> None
      | Some nxt \<Rightarrow>
          (case nxt of
             None \<Rightarrow> Some p
           | Some q \<Rightarrow>
               (case h q of
                  None \<Rightarrow> None
                | Some e \<Rightarrow> if e_key e < key then sl_walk h key i q else Some p)))"

text \<open>The levels below \<open>n\<close>, downwards; \<open>update\<close> is the array of predecessors.\<close>

fun sl_locate ::
  "'v sl_heap \<Rightarrow> ulong \<Rightarrow> nat \<Rightarrow> addr \<Rightarrow> (nat \<Rightarrow> addr option) \<Rightarrow> (addr \<times> (nat \<Rightarrow> addr option)) option" where
  "sl_locate h key 0 e upd = Some (e, upd)"
| "sl_locate h key (Suc i) e upd =
     (case sl_walk h key i e of
        None \<Rightarrow> None
      | Some e' \<Rightarrow> sl_locate h key i e' (upd(i := Some e')))"

definition SLLocate :: "'v SkipList \<Rightarrow> ulong \<Rightarrow> ((nat \<Rightarrow> addr option) \<times> addr option) option" where
  "SLLocate l key =
     (if sl_magic l \<noteq> SL_LIST_MAGIC then Some (\<lambda>_. None, None)
      else (case sl_locate (sl_mem l) key (Suc (sl_level l)) (sl_head l) (\<lambda>_. None) of
              None \<Rightarrow> None
            | Some (e, upd) \<Rightarrow>
                (case sl_fwd (sl_mem l) e 0 of None \<Rightarrow> None | Some r \<Rightarrow> Some (upd, r))))"

text \<open>The loop that links a new entry: \<open>c\<close> levels from \<open>i\<close> on.\<close>

fun sl_link :: "'v sl_heap \<Rightarrow> (nat \<Rightarrow> addr option) \<Rightarrow> addr \<Rightarrow> nat \<Rightarrow> nat \<Rightarrow> 'v sl_heap option" where
  "sl_link h upd n i 0 = Some h"
| "sl_link h upd n i (Suc c) =
     (case upd i of
        None \<Rightarrow> None
      | Some p \<Rightarrow>
          (case sl_fwd h p i of
             None \<Rightarrow> None
           | Some f \<Rightarrow>
               (case sl_set h n i f of
                  None \<Rightarrow> None
                | Some h1 \<Rightarrow>
                    (case sl_set h1 p i (Some n) of
                       None \<Rightarrow> None
                     | Some h2 \<Rightarrow> sl_link h2 upd n (Suc i) c))))"

text \<open>\<open>m\<close>: the memory \<^verbatim>\<open>drmMalloc\<close> returns for the entry, and whether there is some for the generator.\<close>

definition drmSLInsert :: "addr option \<times> bool \<Rightarrow> 'v SkipList \<Rightarrow> ulong \<Rightarrow> 'v \<Rightarrow> (int \<times> 'v SkipList) option" where
  "drmSLInsert m l key value =
     (if sl_magic l \<noteq> SL_LIST_MAGIC then Some (-1, l)
      else (case SLLocate l key of
        None \<Rightarrow> None
      | Some (upd, entry) \<Rightarrow>
          (case (case entry of None \<Rightarrow> Some False | Some x \<Rightarrow> map_option (\<lambda>e. e_key e = key) (sl_mem l x)) of
             None \<Rightarrow> None
           | Some there \<Rightarrow>
               if there then Some (1, l)
               else (case SLRandomLevel (snd m) (sl_rng l) of
                  None \<Rightarrow> None
                | Some (level0, rng) \<Rightarrow>
                    let grow = level0 > sl_level l;
                        level = (if grow then sl_level l + 1 else level0);
                        upd' = (if grow then upd(level := Some (sl_head l)) else upd)
                    in (case fst m of
                          None \<Rightarrow> None
                        | Some n \<Rightarrow>
                            (case sl_link ((sl_mem l)(n \<mapsto> SLCreateEntry (int level) key value)) upd' n 0 (Suc level) of
                               None \<Rightarrow> None
                             | Some h \<Rightarrow>
                                 Some (0, l\<lparr>sl_level := (if grow then level else sl_level l), sl_mem := h,
                                            sl_rng := Some rng, sl_count := sl_count l + 1\<rparr>)))))))"

fun sl_unlink :: "'v sl_heap \<Rightarrow> (nat \<Rightarrow> addr option) \<Rightarrow> addr \<Rightarrow> nat \<Rightarrow> nat \<Rightarrow> 'v sl_heap option" where
  "sl_unlink h upd x i 0 = Some h"
| "sl_unlink h upd x i (Suc c) =
     (case upd i of
        None \<Rightarrow> None
      | Some p \<Rightarrow>
          (case sl_fwd h p i of
             None \<Rightarrow> None
           | Some f \<Rightarrow>
               if f = Some x
               then (case sl_fwd h x i of
                       None \<Rightarrow> None
                     | Some g \<Rightarrow>
                         (case sl_set h p i g of None \<Rightarrow> None | Some h1 \<Rightarrow> sl_unlink h1 upd x (Suc i) c))
               else sl_unlink h upd x (Suc i) c))"

fun sl_shrink :: "'v sl_heap \<Rightarrow> addr \<Rightarrow> nat \<Rightarrow> nat option" where
  "sl_shrink h head 0 = Some 0"
| "sl_shrink h head (Suc l) =
     (case sl_fwd h head (Suc l) of
        None \<Rightarrow> None
      | Some f \<Rightarrow> if f = None then sl_shrink h head l else Some (Suc l))"

definition drmSLDelete :: "'v SkipList \<Rightarrow> ulong \<Rightarrow> (int \<times> 'v SkipList) option" where
  "drmSLDelete l key =
     (if sl_magic l \<noteq> SL_LIST_MAGIC then Some (-1, l)
      else (case SLLocate l key of
        None \<Rightarrow> None
      | Some (upd, entry) \<Rightarrow>
          (case entry of
             None \<Rightarrow> Some (1, l)
           | Some x \<Rightarrow>
               (case sl_mem l x of
                  None \<Rightarrow> None
                | Some e \<Rightarrow>
                    if e_key e \<noteq> key then Some (1, l)
                    else (case sl_unlink (sl_mem l) upd x 0 (Suc (sl_level l)) of
                            None \<Rightarrow> None
                          | Some h \<Rightarrow>
                              (case sl_shrink (h(x := None)) (sl_head l) (sl_level l) of
                                 None \<Rightarrow> None
                               | Some lev \<Rightarrow>
                                   Some (0, l\<lparr>sl_mem := h(x := None), sl_level := lev, sl_count := sl_count l - 1\<rparr>)))))))"

text \<open>The result and the pointer stored in \<^verbatim>\<open>*value\<close>: the entry, not its value.\<close>

definition drmSLLookup :: "'v SkipList \<Rightarrow> ulong \<Rightarrow> (int \<times> addr option) option" where
  "drmSLLookup l key =
     (case SLLocate l key of
        None \<Rightarrow> None
      | Some (upd, entry) \<Rightarrow>
          (case entry of
             None \<Rightarrow> Some (-1, None)
           | Some x \<Rightarrow>
               (case sl_mem l x of
                  None \<Rightarrow> None
                | Some e \<Rightarrow> if e_key e = key then Some (0, Some x) else Some (-1, None))))"

text \<open>The return code, the neighbour before (key and value) and the one after.\<close>

definition drmSLLookupNeighbors ::
  "'v SkipList \<Rightarrow> ulong \<Rightarrow> (int \<times> (ulong \<times> 'v) option \<times> (ulong \<times> 'v) option) option" where
  "drmSLLookupNeighbors l key =
     (case SLLocate l key of
        None \<Rightarrow> None
      | Some (upd, _) \<Rightarrow>
          (case upd 0 of
             None \<Rightarrow> Some (0, None, None)
           | Some p \<Rightarrow>
               (case sl_mem l p of
                  None \<Rightarrow> None
                | Some e \<Rightarrow>
                    (case sl_fwd (sl_mem l) p 0 of
                       None \<Rightarrow> None
                     | Some nxt \<Rightarrow>
                         (case nxt of
                            None \<Rightarrow> Some (1, Some (e_key e, e_value e), None)
                          | Some q \<Rightarrow>
                              (case sl_mem l q of
                                 None \<Rightarrow> None
                               | Some f \<Rightarrow> Some (2, Some (e_key e, e_value e), Some (e_key f, e_value f))))))))"

definition drmSLNext :: "'v SkipList \<Rightarrow> (int \<times> (ulong \<times> 'v) option \<times> 'v SkipList) option" where
  "drmSLNext l =
     (if sl_magic l \<noteq> SL_LIST_MAGIC then Some (-1, None, l)
      else (case sl_p0 l of
              None \<Rightarrow> Some (0, None, l\<lparr>sl_p0 := None\<rparr>)
            | Some p \<Rightarrow>
                (case sl_mem l p of
                   None \<Rightarrow> None
                 | Some e \<Rightarrow>
                     (case sl_fwd (sl_mem l) p 0 of
                        None \<Rightarrow> None
                      | Some nxt \<Rightarrow> Some (1, Some (e_key e, e_value e), l\<lparr>sl_p0 := nxt\<rparr>)))))"

definition drmSLFirst :: "'v SkipList \<Rightarrow> (int \<times> (ulong \<times> 'v) option \<times> 'v SkipList) option" where
  "drmSLFirst l =
     (if sl_magic l \<noteq> SL_LIST_MAGIC then Some (-1, None, l)
      else (case sl_fwd (sl_mem l) (sl_head l) 0 of
              None \<Rightarrow> None
            | Some f \<Rightarrow> drmSLNext (l\<lparr>sl_p0 := f\<rparr>)))"

text \<open>The walk that frees everything; the addresses in the order they are freed.\<close>

partial_function (option) sl_destroy :: "'v sl_heap \<Rightarrow> addr option \<Rightarrow> addr list \<Rightarrow> (int \<times> addr list) option" where
  "sl_destroy h p freed =
     (case p of
        None \<Rightarrow> Some (0, freed)
      | Some a \<Rightarrow>
          (case h a of
             None \<Rightarrow> None
           | Some e \<Rightarrow>
               if e_magic e \<noteq> SL_ENTRY_MAGIC then Some (-1, freed)
               else (case sl_fwd h a 0 of
                       None \<Rightarrow> None
                     | Some nxt \<Rightarrow> sl_destroy (h(a := None)) nxt (freed @ [a]))))"

definition drmSLDestroy :: "'v SkipList \<Rightarrow> (int \<times> addr list) option" where
  "drmSLDestroy l =
     (if sl_magic l \<noteq> SL_LIST_MAGIC then Some (-1, []) else sl_destroy (sl_mem l) (Some (sl_head l)) [])"

declare sl_walk.simps [code] sl_destroy.simps [code]

section \<open>Reading and writing forward pointers\<close>

text \<open>What no operation on pointers changes: everything but the pointers themselves.\<close>

definition sl_shape :: "'v sl_heap \<Rightarrow> addr \<Rightarrow> (ulong \<times> ulong \<times> 'v \<times> nat \<times> nat) option" where
  "sl_shape h a = map_option (\<lambda>e. (e_magic e, e_key e, e_value e, e_levels e, length (e_forward e))) (h a)"

lemma sl_shape_same:
  assumes "sl_shape h' = sl_shape h"
  shows "dom h' = dom h"
    and "h a = Some e \<Longrightarrow> \<exists>e'. h' a = Some e' \<and> e_magic e' = e_magic e \<and> e_key e' = e_key e
            \<and> e_value e' = e_value e \<and> e_levels e' = e_levels e \<and> length (e_forward e') = length (e_forward e)"
proof -
  have at: "sl_shape h' a = sl_shape h a" for a using assms by simp
  show "dom h' = dom h"
  proof (rule set_eqI)
    fix a show "a \<in> dom h' \<longleftrightarrow> a \<in> dom h"
      using at [of a] by (cases "h a"; cases "h' a") (auto simp: sl_shape_def)
  qed
  show "h a = Some e \<Longrightarrow> \<exists>e'. h' a = Some e' \<and> e_magic e' = e_magic e \<and> e_key e' = e_key e
            \<and> e_value e' = e_value e \<and> e_levels e' = e_levels e \<and> length (e_forward e') = length (e_forward e)"
    using at [of a] by (auto simp: sl_shape_def)
qed

lemma sl_fwd_defined:
  "h p = Some e \<Longrightarrow> i < length (e_forward e) \<Longrightarrow> \<exists>f. sl_fwd h p i = Some f"
  by (simp add: sl_fwd_def)

lemma sl_set_spec:
  assumes "sl_fwd h p i = Some f"
  shows "\<exists>h'. sl_set h p i v = Some h' \<and> sl_shape h' = sl_shape h
            \<and> (\<forall>a j. sl_fwd h' a j = (if a = p \<and> j = i then Some v else sl_fwd h a j))"
proof -
  obtain e where e: "h p = Some e" "i < length (e_forward e)"
    using assms by (auto simp: sl_fwd_def split: option.splits if_splits)
  let ?h = "h(p \<mapsto> e\<lparr>e_forward := (e_forward e)[i := v]\<rparr>)"
  have "sl_set h p i v = Some ?h" using e by (simp add: sl_set_def)
  moreover have "sl_shape ?h = sl_shape h" using e by (auto simp: sl_shape_def fun_eq_iff)
  moreover have "\<forall>a j. sl_fwd ?h a j = (if a = p \<and> j = i then Some v else sl_fwd h a j)"
    using e by (auto simp: sl_fwd_def nth_list_update)
  ultimately show ?thesis by blast
qed

lemma sl_link_spec:
  assumes "\<And>j. i \<le> j \<Longrightarrow> j < i + c \<Longrightarrow> \<exists>p f g. upd j = Some p \<and> p \<noteq> n \<and> sl_fwd h p j = Some f \<and> sl_fwd h n j = Some g"
  shows "\<exists>h'. sl_link h upd n i c = Some h' \<and> sl_shape h' = sl_shape h
     \<and> (\<forall>a j. sl_fwd h' a j =
            (if i \<le> j \<and> j < i + c
             then if a = n then sl_fwd h (the (upd j)) j
                  else if upd j = Some a then Some (Some n) else sl_fwd h a j
             else sl_fwd h a j))"
  using assms
proof (induction c arbitrary: i h)
  case 0
  then show ?case by auto
next
  case (Suc c)
  obtain p f g where p: "upd i = Some p" "p \<noteq> n" "sl_fwd h p i = Some f" "sl_fwd h n i = Some g"
    using Suc.prems [of i] by auto
  obtain h1 where h1: "sl_set h n i f = Some h1" "sl_shape h1 = sl_shape h"
      "\<And>a j. sl_fwd h1 a j = (if a = n \<and> j = i then Some f else sl_fwd h a j)"
    using sl_set_spec [OF p(4)] by metis
  have "sl_fwd h1 p i = Some f" using h1(3) p by simp
  from sl_set_spec [OF this] obtain h2 where h2: "sl_set h1 p i (Some n) = Some h2" "sl_shape h2 = sl_shape h1"
      "\<And>a j. sl_fwd h2 a j = (if a = p \<and> j = i then Some (Some n) else sl_fwd h1 a j)"
    by metis
  have pre: "\<exists>p f g. upd j = Some p \<and> p \<noteq> n \<and> sl_fwd h2 p j = Some f \<and> sl_fwd h2 n j = Some g"
    if "Suc i \<le> j" "j < Suc i + c" for j
    using Suc.prems [of j] that by (auto simp: h2(3) h1(3))
  have "sl_link h upd n i (Suc c) = sl_link h2 upd n (Suc i) c"
    using p h1(1) h2(1) by simp
  moreover obtain h' where h': "sl_link h2 upd n (Suc i) c = Some h'" "sl_shape h' = sl_shape h2"
     "\<And>a j. sl_fwd h' a j =
            (if Suc i \<le> j \<and> j < Suc i + c
             then if a = n then sl_fwd h2 (the (upd j)) j
                  else if upd j = Some a then Some (Some n) else sl_fwd h2 a j
             else sl_fwd h2 a j)"
    using Suc.IH [of "Suc i" h2, OF pre] by auto
  moreover have "sl_fwd h' a j =
            (if i \<le> j \<and> j < i + Suc c
             then if a = n then sl_fwd h (the (upd j)) j
                  else if upd j = Some a then Some (Some n) else sl_fwd h a j
             else sl_fwd h a j)" for a j
    using p by (cases "j = i") (auto simp: h'(3) h2(3) h1(3))
  ultimately show ?case using h2(2) h1(2) by auto
qed

lemma sl_unlink_spec:
  assumes "\<And>j. i \<le> j \<Longrightarrow> j < i + c \<Longrightarrow>
     \<exists>p f. upd j = Some p \<and> p \<noteq> x \<and> sl_fwd h p j = Some f \<and> (f = Some x \<longrightarrow> sl_fwd h x j \<noteq> None)"
  shows "\<exists>h'. sl_unlink h upd x i c = Some h' \<and> sl_shape h' = sl_shape h
     \<and> (\<forall>a j. sl_fwd h' a j =
            (if i \<le> j \<and> j < i + c \<and> upd j = Some a \<and> sl_fwd h a j = Some (Some x)
             then sl_fwd h x j else sl_fwd h a j))"
  using assms
proof (induction c arbitrary: i h)
  case 0
  then show ?case by auto
next
  case (Suc c)
  obtain p f where p: "upd i = Some p" "p \<noteq> x" "sl_fwd h p i = Some f" "f = Some x \<longrightarrow> sl_fwd h x i \<noteq> None"
    using Suc.prems [of i] by auto
  obtain h1 where h1: "sl_unlink h upd x i (Suc c) = sl_unlink h1 upd x (Suc i) c" "sl_shape h1 = sl_shape h"
      "\<And>a j. sl_fwd h1 a j = (if a = p \<and> j = i \<and> f = Some x then sl_fwd h x i else sl_fwd h a j)"
  proof (cases "f = Some x")
    case True
    then obtain g where g: "sl_fwd h x i = Some g" using p by auto
    obtain h2 where h2: "sl_set h p i g = Some h2" "sl_shape h2 = sl_shape h"
      "\<And>a j. sl_fwd h2 a j = (if a = p \<and> j = i then Some g else sl_fwd h a j)"
      using sl_set_spec [OF p(3)] by metis
    show thesis using True g p h2 by (intro that [of h2]) simp_all
  next
    case False
    then show thesis using p by (intro that [of h]) simp_all
  qed
  have pre: "\<exists>p f. upd j = Some p \<and> p \<noteq> x \<and> sl_fwd h1 p j = Some f \<and> (f = Some x \<longrightarrow> sl_fwd h1 x j \<noteq> None)"
    if "Suc i \<le> j" "j < Suc i + c" for j
    using Suc.prems [of j] that by (auto simp: h1(3))
  obtain h' where h': "sl_unlink h1 upd x (Suc i) c = Some h'" "sl_shape h' = sl_shape h1"
     "\<And>a j. sl_fwd h' a j =
            (if Suc i \<le> j \<and> j < Suc i + c \<and> upd j = Some a \<and> sl_fwd h1 a j = Some (Some x)
             then sl_fwd h1 x j else sl_fwd h1 a j)"
    using Suc.IH [of "Suc i" h1, OF pre] by auto
  moreover have "sl_fwd h' a j =
            (if i \<le> j \<and> j < i + Suc c \<and> upd j = Some a \<and> sl_fwd h a j = Some (Some x)
             then sl_fwd h x j else sl_fwd h a j)" for a j
    using p by (cases "j = i") (auto simp: h'(3) h1(3))
  ultimately show ?case using h1(1,2) by auto
qed

section \<open>Chains\<close>

text \<open>The pointers of one level, from an entry on.\<close>

fun sl_chain :: "'v sl_heap \<Rightarrow> nat \<Rightarrow> addr \<Rightarrow> addr list \<Rightarrow> bool" where
  "sl_chain h i p [] = (sl_fwd h p i = Some None)"
| "sl_chain h i p (q # qs) = (sl_fwd h p i = Some (Some q) \<and> sl_chain h i q qs)"

definition hd_opt :: "'a list \<Rightarrow> 'a option" where
  "hd_opt xs = (case xs of [] \<Rightarrow> None | x # _ \<Rightarrow> Some x)"

lemma hd_opt_simps [simp]: "hd_opt [] = None" "hd_opt (x # xs) = Some x"
  by (simp_all add: hd_opt_def)

lemma sl_chain_fwd: "sl_chain h i p cs \<Longrightarrow> sl_fwd h p i = Some (hd_opt cs)"
  by (cases cs) auto

lemma sl_chain_append:
  "sl_chain h i p (xs @ ys) \<Longrightarrow> sl_chain h i (last (p # xs)) ys"
  by (induction xs arbitrary: p) auto

lemma sl_chain_cong:
  "sl_chain h i p cs \<Longrightarrow> (\<And>a. a \<in> set (p # cs) \<Longrightarrow> sl_fwd h' a i = sl_fwd h a i) \<Longrightarrow> sl_chain h' i p cs"
  by (induction cs arbitrary: p) auto

lemma sl_chain_insert:
  assumes "sl_chain h i p (xs @ ys)" "distinct (p # xs @ ys)"
    and "sl_fwd h' (last (p # xs)) i = Some (Some n)" "sl_fwd h' n i = sl_fwd h (last (p # xs)) i"
    and "\<And>a. a \<in> set (p # xs @ ys) \<Longrightarrow> a \<noteq> last (p # xs) \<Longrightarrow> sl_fwd h' a i = sl_fwd h a i"
  shows "sl_chain h' i p (xs @ n # ys)"
  using assms
proof (induction xs arbitrary: p)
  case Nil
  have "sl_chain h' i n ys"
  proof (cases ys)
    case Nil
    then show ?thesis using Nil.prems by simp
  next
    case (Cons y zs)
    have "sl_chain h' i y zs"
      using Nil.prems Cons by (intro sl_chain_cong [of h i y zs h']) auto
    then show ?thesis using Nil.prems Cons by simp
  qed
  then show ?case using Nil.prems by simp
next
  case (Cons x xs)
  have "p \<noteq> last (x # xs)" using Cons.prems(2) last_in_set [of "x # xs"] by auto
  then have "sl_fwd h' p i = sl_fwd h p i" using Cons.prems(5) [of p] by simp
  moreover have "sl_chain h' i x (xs @ n # ys)"
    using Cons.prems by (intro Cons.IH) auto
  ultimately show ?case using Cons.prems(1) by simp
qed

lemma sl_chain_delete:
  assumes "sl_chain h i p (xs @ x # ys)" "distinct (p # xs @ x # ys)"
    and "sl_fwd h' (last (p # xs)) i = sl_fwd h x i"
    and "\<And>a. a \<in> set (p # xs @ ys) \<Longrightarrow> a \<noteq> last (p # xs) \<Longrightarrow> sl_fwd h' a i = sl_fwd h a i"
  shows "sl_chain h' i p (xs @ ys)"
  using assms
proof (induction xs arbitrary: p)
  case Nil
  show ?case
  proof (cases ys)
    case Nil
    then show ?thesis using Nil.prems by simp
  next
    case (Cons y zs)
    have "sl_chain h' i y zs"
      using Nil.prems Cons by (intro sl_chain_cong [of h i y zs h']) auto
    then show ?thesis using Nil.prems Cons by simp
  qed
next
  case (Cons z xs)
  have "p \<noteq> last (z # xs)" using Cons.prems(2) last_in_set [of "z # xs"] by auto
  then have "sl_fwd h' p i = sl_fwd h p i" using Cons.prems(4) [of p] by simp
  moreover have "sl_chain h' i z (xs @ ys)"
    using Cons.prems by (intro Cons.IH) auto
  ultimately show ?case using Cons.prems(1) by simp
qed

section \<open>The invariant\<close>

definition skey :: "'v sl_heap \<Rightarrow> addr \<Rightarrow> ulong" where "skey h a = e_key (the (h a))"
definition sval :: "'v sl_heap \<Rightarrow> addr \<Rightarrow> 'v" where "sval h a = e_value (the (h a))"
definition slev :: "'v sl_heap \<Rightarrow> addr \<Rightarrow> nat" where "slev h a = e_levels (the (h a))"
definition slen :: "'v sl_heap \<Rightarrow> addr \<Rightarrow> nat" where "slen h a = length (e_forward (the (h a)))"

lemmas sl_fields = skey_def sval_def slev_def slen_def

text \<open>The list represents the sequence \<open>as\<close> of entries.\<close>

definition sl_rep :: "'v SkipList \<Rightarrow> addr list \<Rightarrow> bool" where
  "sl_rep l as \<longleftrightarrow>
     (let h = sl_mem l in
      sl_magic l = SL_LIST_MAGIC \<and> distinct (sl_head l # as) \<and> dom h = set (sl_head l # as)
      \<and> (\<forall>a \<in> dom h. e_magic (the (h a)) = SL_ENTRY_MAGIC)
      \<and> slen h (sl_head l) = SL_MAX_LEVEL + 2
      \<and> (\<forall>a \<in> set as. 1 < slev h a \<and> slev h a \<le> sl_level l + 1 \<and> slen h a = slev h a + 1)
      \<and> sorted_wrt (\<lambda>a b. skey h a < skey h b) as
      \<and> sl_level l \<le> SL_MAX_LEVEL \<and> sl_count l = int (length as)
      \<and> (\<forall>i \<le> SL_MAX_LEVEL. sl_chain h i (sl_head l) (filter (\<lambda>a. i < slev h a) as)))"

definition sl_invar :: "'v SkipList \<Rightarrow> bool" where
  "sl_invar l \<longleftrightarrow> (\<exists>as. sl_rep l as)"

text \<open>The contents in order, read along level 0.\<close>

partial_function (option) sl_contents :: "'v sl_heap \<Rightarrow> addr option \<Rightarrow> (ulong \<times> 'v) list option" where
  "sl_contents h p =
     (case p of
        None \<Rightarrow> Some []
      | Some a \<Rightarrow>
          (case h a of
             None \<Rightarrow> None
           | Some e \<Rightarrow>
               (case sl_fwd h a 0 of
                  None \<Rightarrow> None
                | Some q \<Rightarrow>
                    Option.bind (sl_contents h q) (\<lambda>xs. Some ((e_key e, e_value e) # xs)))))"

definition sl_list :: "'v SkipList \<Rightarrow> (ulong \<times> 'v) list" where
  "sl_list l = (case sl_fwd (sl_mem l) (sl_head l) 0 of
      None \<Rightarrow> [] | Some p \<Rightarrow> (case sl_contents (sl_mem l) p of None \<Rightarrow> [] | Some xs \<Rightarrow> xs))"

definition sl_abs :: "'v SkipList \<Rightarrow> ulong \<Rightarrow> 'v option" where
  "sl_abs l = map_of (sl_list l)"

text \<open>The entries in order, and what a key is bound to: the entry and its value.\<close>

partial_function (option) sl_entries :: "'v sl_heap \<Rightarrow> addr option \<Rightarrow> addr list option" where
  "sl_entries h p =
     (case p of
        None \<Rightarrow> Some []
      | Some a \<Rightarrow>
          (case sl_fwd h a 0 of
             None \<Rightarrow> None
           | Some q \<Rightarrow> Option.bind (sl_entries h q) (\<lambda>as. Some (a # as))))"

definition sl_addrs :: "'v SkipList \<Rightarrow> addr list" where
  "sl_addrs l = (case sl_fwd (sl_mem l) (sl_head l) 0 of
      None \<Rightarrow> [] | Some p \<Rightarrow> (case sl_entries (sl_mem l) p of None \<Rightarrow> [] | Some as \<Rightarrow> as))"

definition sl_binds :: "'v SkipList \<Rightarrow> ulong \<Rightarrow> (addr \<times> 'v) option" where
  "sl_binds l = map_of (map (\<lambda>a. (skey (sl_mem l) a, a, sval (sl_mem l) a)) (sl_addrs l))"

declare sl_contents.simps [code]
declare sl_entries.simps [code]

lemma sl_contents_chain:
  "sl_chain h 0 p cs \<Longrightarrow> set cs \<subseteq> dom h \<Longrightarrow>
   sl_contents h (hd_opt cs) = Some (map (\<lambda>a. (skey h a, sval h a)) cs)"
proof (induction cs arbitrary: p)
  case Nil
  then show ?case by (simp add: sl_contents.simps)
next
  case (Cons a cs)
  then obtain e where "h a = Some e" by auto
  moreover have "sl_fwd h a 0 = Some (hd_opt cs)" using Cons.prems(1) sl_chain_fwd by auto
  moreover have "sl_contents h (hd_opt cs) = Some (map (\<lambda>a. (skey h a, sval h a)) cs)"
    using Cons.prems by (intro Cons.IH [of a]) auto
  ultimately show ?case by (subst sl_contents.simps) (simp add: sl_fields)
qed

lemma sl_rep_level0:
  assumes "sl_rep l as"
  shows "sl_chain (sl_mem l) 0 (sl_head l) as"
proof -
  have "filter (\<lambda>a. 0 < slev (sl_mem l) a) as = as"
    using assms by (intro filter_True) (fastforce simp: sl_rep_def Let_def)
  moreover have "sl_chain (sl_mem l) 0 (sl_head l) (filter (\<lambda>a. 0 < slev (sl_mem l) a) as)"
    using assms by (simp add: sl_rep_def Let_def)
  ultimately show ?thesis by simp
qed

lemma sl_rep_list:
  assumes "sl_rep l as"
  shows "sl_list l = map (\<lambda>a. (skey (sl_mem l) a, sval (sl_mem l) a)) as"
proof -
  have "set as \<subseteq> dom (sl_mem l)" using assms by (auto simp: sl_rep_def Let_def)
  then show ?thesis
    using sl_rep_level0 [OF assms] sl_chain_fwd sl_contents_chain by (fastforce simp: sl_list_def)
qed

lemma sl_entries_chain: "sl_chain h 0 p cs \<Longrightarrow> sl_entries h (hd_opt cs) = Some cs"
proof (induction cs arbitrary: p)
  case Nil
  then show ?case by (simp add: sl_entries.simps)
next
  case (Cons a cs)
  then have "sl_fwd h a 0 = Some (hd_opt cs)" "sl_entries h (hd_opt cs) = Some cs"
    using sl_chain_fwd by auto
  then show ?case by (subst sl_entries.simps) simp
qed

lemma sl_rep_addrs: "sl_rep l as \<Longrightarrow> sl_addrs l = as"
  using sl_rep_level0 [of l as] sl_chain_fwd sl_entries_chain by (fastforce simp: sl_addrs_def)

lemma sl_rep_binds:
  assumes "sl_rep l as"
  shows "sl_binds l = map_of (map (\<lambda>a. (skey (sl_mem l) a, a, sval (sl_mem l) a)) as)"
  by (simp add: sl_binds_def sl_rep_addrs [OF assms])

text \<open>The values of the bindings are the contents.\<close>

lemma sl_rep_binds_abs:
  assumes "sl_rep l as"
  shows "map_option snd (sl_binds l k) = sl_abs l k"
proof -
  have "map_option snd (map_of (map (\<lambda>a. (f a, a, g a)) xs) k) = map_of (map (\<lambda>a. (f a, g a)) xs) k" for f g xs
    by (induction xs) auto
  then show ?thesis by (simp add: sl_rep_binds [OF assms] sl_abs_def sl_rep_list [OF assms])
qed

section \<open>Searching\<close>

text \<open>A sequence in the order of its keys is cut in two by a key.\<close>

lemma sorted_cut:
  fixes key :: "'a \<Rightarrow> 'b::linorder"
  assumes "sorted_wrt (\<lambda>a b. key a < key b) xs"
  shows "filter (\<lambda>a. key a < k) xs @ filter (\<lambda>a. \<not> key a < k) xs = xs"
  using assms
proof (induction xs)
  case Nil
  then show ?case by simp
next
  case (Cons x xs)
  show ?case
  proof (cases "key x < k")
    case True
    then show ?thesis using Cons by simp
  next
    case False
    then have "filter (\<lambda>a. key a < k) xs = []" using Cons.prems by (fastforce simp: filter_empty_conv)
    then show ?thesis using False Cons by simp
  qed
qed

lemma sorted_cut_takeWhile:
  fixes key :: "'a \<Rightarrow> 'b::linorder"
  assumes "sorted_wrt (\<lambda>a b. key a < key b) xs"
  shows "takeWhile (\<lambda>a. key a < k) xs = filter (\<lambda>a. key a < k) xs"
  using assms
proof (induction xs)
  case Nil
  then show ?case by simp
next
  case (Cons x xs)
  have "filter (\<lambda>a. key a < k) xs = []" if "\<not> key x < k"
    using Cons.prems that by (fastforce simp: filter_empty_conv)
  then show ?case using Cons by auto
qed

lemma sl_walk_chain:
  "sl_chain h i p cs \<Longrightarrow> set cs \<subseteq> dom h \<Longrightarrow>
   sl_walk h k i p = Some (last (p # takeWhile (\<lambda>a. skey h a < k) cs))"
proof (induction cs arbitrary: p)
  case Nil
  then show ?case by (simp add: sl_walk.simps)
next
  case (Cons q cs)
  then obtain e where "h q = Some e" by auto
  moreover have "sl_walk h k i q = Some (last (q # takeWhile (\<lambda>a. skey h a < k) cs))"
    using Cons.prems by (intro Cons.IH) auto
  ultimately show ?case using Cons.prems by (subst sl_walk.simps) (simp add: skey_def)
qed

lemma sl_walk_from:
  assumes "sl_chain h i s cs" "set cs \<subseteq> dom h" "sorted_wrt (\<lambda>a b. skey h a < skey h b) cs"
    and "p = s \<or> p \<in> set cs \<and> skey h p < k"
  shows "sl_walk h k i p = Some (last (s # filter (\<lambda>a. skey h a < k) cs))"
proof (cases "p = s")
  case True
  then show ?thesis using sl_walk_chain [OF assms(1,2)] sorted_cut_takeWhile [OF assms(3)] by simp
next
  case False
  then obtain xs ys where cs: "cs = xs @ p # ys" and pk: "skey h p < k"
    using assms(4) split_list by fastforce
  have "\<forall>x \<in> set xs. skey h x < k" using assms(3) pk by (auto simp: cs sorted_wrt_append)
  then have "filter (\<lambda>a. skey h a < k) cs = xs @ p # filter (\<lambda>a. skey h a < k) ys"
    using pk by (simp add: cs)
  moreover have "sl_chain h i p ys" using sl_chain_append [of h i s "xs @ [p]" ys] assms(1) cs by simp
  moreover have "sorted_wrt (\<lambda>a b. skey h a < skey h b) ys" using assms(3) by (simp add: cs sorted_wrt_append)
  ultimately show ?thesis
    using sl_walk_chain [of h i p ys k] sorted_cut_takeWhile assms(2) by (fastforce simp: cs)
qed

text \<open>The last entry of level i before a key.\<close>

definition sl_pred :: "'v SkipList \<Rightarrow> addr list \<Rightarrow> ulong \<Rightarrow> nat \<Rightarrow> addr" where
  "sl_pred l as k i =
     last (sl_head l # filter (\<lambda>a. i < slev (sl_mem l) a) (filter (\<lambda>a. skey (sl_mem l) a < k) as))"

lemma sl_pred_cases:
  "sl_pred l as k i = sl_head l
   \<or> sl_pred l as k i \<in> set as \<and> skey (sl_mem l) (sl_pred l as k i) < k \<and> i < slev (sl_mem l) (sl_pred l as k i)"
proof (cases "filter (\<lambda>a. i < slev (sl_mem l) a) (filter (\<lambda>a. skey (sl_mem l) a < k) as) = []")
  case True
  then show ?thesis by (simp add: sl_pred_def)
next
  case False
  then show ?thesis using last_in_set [OF False] by (simp add: sl_pred_def)
qed

lemma sl_locate_spec:
  assumes "sl_rep l as" "n \<le> SL_MAX_LEVEL + 1"
    and "p = sl_head l \<or> p \<in> set as \<and> skey (sl_mem l) p < k \<and> n \<le> slev (sl_mem l) p"
  shows "sl_locate (sl_mem l) k n p upd
         = Some (if n = 0 then p else sl_pred l as k 0, \<lambda>j. if j < n then Some (sl_pred l as k j) else upd j)"
  using assms(2,3)
proof (induction n arbitrary: p upd)
  case 0
  then show ?case by simp
next
  case (Suc n)
  let ?h = "sl_mem l"
  let ?cs = "filter (\<lambda>a. n < slev ?h a) as"
  have w: "sl_walk ?h k n p = Some (last (sl_head l # filter (\<lambda>a. skey ?h a < k) ?cs))"
  proof (rule sl_walk_from)
    show "sl_chain ?h n (sl_head l) ?cs" using assms(1) Suc.prems(1) by (simp add: sl_rep_def Let_def)
    show "set ?cs \<subseteq> dom ?h" using assms(1) by (auto simp: sl_rep_def Let_def)
    show "sorted_wrt (\<lambda>a b. skey ?h a < skey ?h b) ?cs"
      using assms(1) by (simp add: sl_rep_def Let_def sorted_wrt_filter)
    show "p = sl_head l \<or> p \<in> set ?cs \<and> skey ?h p < k" using Suc.prems(2) by auto
  qed
  moreover have "filter (\<lambda>a. skey ?h a < k) ?cs = filter (\<lambda>a. n < slev ?h a) (filter (\<lambda>a. skey ?h a < k) as)"
    by (simp add: conj_commute)
  ultimately have e: "sl_walk ?h k n p = Some (sl_pred l as k n)" by (simp add: sl_pred_def)
  have "sl_locate ?h k n (sl_pred l as k n) (upd(n := Some (sl_pred l as k n)))
        = Some (if n = 0 then sl_pred l as k n else sl_pred l as k 0,
                \<lambda>j. if j < n then Some (sl_pred l as k j) else (upd(n := Some (sl_pred l as k n))) j)"
    using Suc.prems(1) sl_pred_cases [of l as k n] by (intro Suc.IH) auto
  then show ?case using e by (auto simp: fun_eq_iff less_Suc_eq)
qed

lemma sl_pred_next:
  assumes "sl_rep l as"
  shows "sl_fwd (sl_mem l) (sl_pred l as k 0) 0 = Some (hd_opt (filter (\<lambda>a. \<not> skey (sl_mem l) a < k) as))"
proof -
  let ?h = "sl_mem l"
  let ?lo = "filter (\<lambda>a. skey ?h a < k) as" and ?hi = "filter (\<lambda>a. \<not> skey ?h a < k) as"
  have sorted: "sorted_wrt (\<lambda>a b. skey ?h a < skey ?h b) as" and lev: "\<forall>a \<in> set as. 0 < slev ?h a"
    using assms by (fastforce simp: sl_rep_def Let_def)+
  have "sl_chain ?h 0 (sl_head l) (?lo @ ?hi)"
    using sl_rep_level0 [OF assms] sorted_cut [OF sorted] by simp
  then have "sl_chain ?h 0 (last (sl_head l # ?lo)) ?hi" by (rule sl_chain_append)
  moreover have "sl_pred l as k 0 = last (sl_head l # ?lo)"
    using lev unfolding sl_pred_def by (subst filter_True [of ?lo]) auto
  ultimately show ?thesis by (metis sl_chain_fwd)
qed

lemma SLLocate_spec:
  assumes "sl_rep l as"
  shows "SLLocate l k = Some (\<lambda>j. if j \<le> sl_level l then Some (sl_pred l as k j) else None,
                              hd_opt (filter (\<lambda>a. \<not> skey (sl_mem l) a < k) as))"
proof -
  have l: "sl_magic l = SL_LIST_MAGIC" "Suc (sl_level l) \<le> SL_MAX_LEVEL + 1"
    using assms by (simp_all add: sl_rep_def Let_def)
  have "sl_locate (sl_mem l) k (Suc (sl_level l)) (sl_head l) (\<lambda>_. None)
        = Some (sl_pred l as k 0, \<lambda>j. if j \<le> sl_level l then Some (sl_pred l as k j) else None)"
    using sl_locate_spec [OF assms l(2)] by (simp add: less_Suc_eq_le)
  then show ?thesis using l(1) sl_pred_next [OF assms] by (simp add: SLLocate_def)
qed

section \<open>Insertion and deletion\<close>

text \<open>Heaps of one shape agree on every field but the pointers.\<close>

lemma sl_fields_shape:
  "h a = Some e \<Longrightarrow> sl_shape h' = sl_shape h \<Longrightarrow>
   skey h' a = skey h a \<and> sval h' a = sval h a \<and> slev h' a = slev h a \<and> slen h' a = slen h a
   \<and> e_magic (the (h' a)) = e_magic (the (h a))"
  using sl_shape_same(2) [of h' h a e] by (auto simp: sl_fields)

lemma sl_fwd_in:
  "a \<in> dom h \<Longrightarrow> i < slen h a \<Longrightarrow> \<exists>f. sl_fwd h a i = Some f"
  by (auto simp: sl_fwd_def slen_def)

lemma random_level_bounds:
  "1 \<le> n \<Longrightarrow> n \<le> SL_MAX_LEVEL \<Longrightarrow> 1 \<le> fst (random_level s n) \<and> fst (random_level s n) \<le> SL_MAX_LEVEL"
proof (induction s n rule: random_level.induct)
  case (1 s n)
  obtain r s' where r: "drmRandom s = (r, s')" by (cases "drmRandom s")
  then have "random_level s n
      = (if r AND 1 \<noteq> 0 \<and> n < SL_MAX_LEVEL then random_level s' (n + 1) else (n, s'))"
    by (simp add: random_level.simps [of s n])
  then show ?case using 1 r by auto
qed

text \<open>What the allocator promises: memory for the entry that is not in use, and memory for the
  generator when it is created.\<close>

definition sl_alloc_ok :: "'v SkipList \<Rightarrow> addr option \<times> bool \<Rightarrow> bool" where
  "sl_alloc_ok l m \<longleftrightarrow> (case fst m of None \<Rightarrow> False | Some n \<Rightarrow> sl_mem l n = None) \<and> (snd m \<or> sl_rng l \<noteq> None)"

lemma SLRandomLevel_some:
  assumes "sl_alloc_ok l m"
  shows "\<exists>r s. SLRandomLevel (snd m) (sl_rng l) = Some (r, s) \<and> 1 \<le> r \<and> r \<le> SL_MAX_LEVEL"
proof -
  obtain s0 where "(case sl_rng l of None \<Rightarrow> drmRandomCreate (snd m) SL_RANDOM_SEED | Some s \<Rightarrow> Some s) = Some s0"
    using assms by (cases "sl_rng l") (auto simp: sl_alloc_ok_def drmRandomCreate_def Let_def)
  then show ?thesis
    using random_level_bounds [of 1 s0]
    by (cases "random_level s0 1") (auto simp: SLRandomLevel_def SL_MAX_LEVEL_def)
qed

lemma sl_rep_cut:
  fixes k :: ulong
  assumes "sl_rep l as"
  defines "h \<equiv> sl_mem l"
  defines "lo \<equiv> filter (\<lambda>a. skey h a < k) as" and "hi \<equiv> filter (\<lambda>a. \<not> skey h a < k) as"
  shows "as = lo @ hi"
    and "\<And>i. i \<le> SL_MAX_LEVEL \<Longrightarrow>
            sl_chain h i (sl_head l) (filter (\<lambda>a. i < slev h a) lo @ filter (\<lambda>a. i < slev h a) hi)"
    and "\<And>i. sl_pred l as k i = last (sl_head l # filter (\<lambda>a. i < slev h a) lo)"
proof -
  have "sorted_wrt (\<lambda>a b. skey h a < skey h b) as" using assms(1) by (simp add: sl_rep_def Let_def h_def)
  then show *: "as = lo @ hi" using sorted_cut by (metis lo_def hi_def)
  show "sl_chain h i (sl_head l) (filter (\<lambda>a. i < slev h a) lo @ filter (\<lambda>a. i < slev h a) hi)"
    if "i \<le> SL_MAX_LEVEL" for i
    using assms(1) that * by (metis sl_rep_def h_def filter_append)
  show "sl_pred l as k i = last (sl_head l # filter (\<lambda>a. i < slev h a) lo)" for i
    by (simp add: sl_pred_def h_def lo_def)
qed

lemma sl_pred_dom:
  assumes "sl_rep l as" "i \<le> SL_MAX_LEVEL"
  shows "sl_pred l as k i \<in> set (sl_head l # as)" "\<exists>f. sl_fwd (sl_mem l) (sl_pred l as k i) i = Some f"
proof -
  have *: "sl_pred l as k i \<in> dom (sl_mem l) \<and> i < slen (sl_mem l) (sl_pred l as k i)"
    using assms sl_pred_cases [of l as k i] by (fastforce simp: sl_rep_def Let_def)
  then show "\<exists>f. sl_fwd (sl_mem l) (sl_pred l as k i) i = Some f" using sl_fwd_in by blast
  show "sl_pred l as k i \<in> set (sl_head l # as)" using sl_pred_cases [of l as k i] by auto
qed

lemma sl_pred_above:
  assumes "sl_rep l as" "sl_level l < i"
  shows "sl_pred l as k i = sl_head l"
proof -
  have "\<not> i < slev (sl_mem l) a" if "a \<in> set as" for a
    using assms that by (fastforce simp: sl_rep_def Let_def)
  then show ?thesis using sl_pred_cases [of l as k i] by blast
qed

lemma SLCreateEntry_fields:
  assumes "lev \<le> SL_MAX_LEVEL"
  shows "e_magic (SLCreateEntry (int lev) k v) = SL_ENTRY_MAGIC" "e_key (SLCreateEntry (int lev) k v) = k"
    "e_value (SLCreateEntry (int lev) k v) = v" "e_levels (SLCreateEntry (int lev) k v) = lev + 1"
    "length (e_forward (SLCreateEntry (int lev) k v)) = lev + 2"
  using assms by (simp_all add: SLCreateEntry_def Let_def)

text \<open>Linking a new entry into the chains of its levels.\<close>

lemma sl_link_rep:
  assumes rep: "sl_rep l as" and n: "n \<notin> dom (sl_mem l)"
    and lev: "1 \<le> lev" "lev \<le> SL_MAX_LEVEL" and llev: "lev \<le> llev" "sl_level l \<le> llev" "llev \<le> SL_MAX_LEVEL"
    and upd: "\<And>j. j \<le> lev \<Longrightarrow> upd j = Some (sl_pred l as k j)"
    and new: "k \<notin> skey (sl_mem l) ` set as"
  defines "lo \<equiv> filter (\<lambda>a. skey (sl_mem l) a < k) as" and "hi \<equiv> filter (\<lambda>a. \<not> skey (sl_mem l) a < k) as"
  shows "\<exists>h'. sl_link ((sl_mem l)(n \<mapsto> SLCreateEntry (int lev) k v)) upd n 0 (Suc lev) = Some h'
     \<and> sl_rep (l\<lparr>sl_level := llev, sl_mem := h', sl_rng := rng, sl_count := sl_count l + 1\<rparr>) (lo @ n # hi)
     \<and> skey h' n = k \<and> sval h' n = v \<and> (\<forall>a \<in> set as. skey h' a = skey (sl_mem l) a \<and> sval h' a = sval (sl_mem l) a)"
proof -
  let ?h = "sl_mem l"
  let ?g = "?h(n \<mapsto> SLCreateEntry (int lev) k v)"
  note cut = sl_rep_cut [OF rep, where k = k, folded lo_def hi_def]
  have dom: "dom ?h = set (sl_head l # as)" using rep by (simp add: sl_rep_def Let_def)
  have nn: "n \<noteq> sl_head l" "n \<notin> set as" using n dom by auto
  have "distinct (sl_head l # as)" using rep by (simp add: sl_rep_def Let_def)
  then have dd: "distinct (sl_head l # lo @ hi)" and sets: "set lo \<union> set hi = set as"
    using cut(1) by (metis, metis set_append)
  have old: "skey ?g a = skey ?h a" "sval ?g a = sval ?h a" "slev ?g a = slev ?h a" "slen ?g a = slen ?h a"
      "\<And>i. sl_fwd ?g a i = sl_fwd ?h a i" "the (?g a) = the (?h a)"
    if "a \<noteq> n" for a using that by (simp_all add: sl_fields sl_fwd_def)
  have fresh: "skey ?g n = k" "sval ?g n = v" "slev ?g n = lev + 1" "slen ?g n = lev + 2"
      "e_magic (the (?g n)) = SL_ENTRY_MAGIC" "n \<in> dom ?g"
    using SLCreateEntry_fields [OF lev(2), of k v] by (simp_all add: sl_fields)
  have pn: "sl_pred l as k j \<noteq> n" if "j \<le> SL_MAX_LEVEL" for j
    using sl_pred_dom(1) [OF rep that, of k] nn by auto
  have pre: "\<exists>p f g. upd j = Some p \<and> p \<noteq> n \<and> sl_fwd ?g p j = Some f \<and> sl_fwd ?g n j = Some g"
    if "0 \<le> j" "j < 0 + Suc lev" for j
    using that upd [of j] pn [of j] sl_pred_dom(2) [OF rep, of j k] lev(2) old(5) sl_fwd_in [of n ?g j] fresh
    by auto
  obtain h' where h': "sl_link ?g upd n 0 (Suc lev) = Some h'" "sl_shape h' = sl_shape ?g"
    and fwd: "\<And>a j. sl_fwd h' a j =
            (if 0 \<le> j \<and> j < 0 + Suc lev
             then if a = n then sl_fwd ?g (the (upd j)) j
                  else if upd j = Some a then Some (Some n) else sl_fwd ?g a j
             else sl_fwd ?g a j)"
    using sl_link_spec [of 0 "Suc lev" upd n ?g, OF pre] by auto
  have dom': "dom h' = insert n (dom ?h)" using sl_shape_same(1) [OF h'(2)] by auto
  have same: "skey h' a = skey ?g a \<and> sval h' a = sval ?g a \<and> slev h' a = slev ?g a \<and> slen h' a = slen ?g a
     \<and> e_magic (the (h' a)) = e_magic (the (?g a))" if "a \<in> insert n (dom ?h)" for a
  proof -
    have "a \<in> dom ?g" using that by auto
    then obtain e where "?g a = Some e" using domD by metis
    then show ?thesis using h'(2) by (rule sl_fields_shape)
  qed
  have same_old: "skey h' a = skey ?h a \<and> sval h' a = sval ?h a \<and> slev h' a = slev ?h a \<and> slen h' a = slen ?h a
     \<and> e_magic (the (h' a)) = e_magic (the (?h a))" if "a \<in> dom ?h" for a
  proof -
    have "a \<noteq> n" using that n by auto
    then show ?thesis using same [of a] old [of a] that by simp
  qed
  have chain: "sl_chain h' i (sl_head l) (filter (\<lambda>a. i < slev h' a) (lo @ n # hi))" if i: "i \<le> SL_MAX_LEVEL" for i
  proof -
    let ?lo = "filter (\<lambda>a. i < slev ?h a) lo" and ?hi = "filter (\<lambda>a. i < slev ?h a) hi"
    have sub: "set lo \<subseteq> dom ?h" "set hi \<subseteq> dom ?h" using dom by (auto simp: lo_def hi_def)
    have "slev h' a = slev ?h a" if "a \<in> set lo \<union> set hi" for a using that sub same_old by blast
    then have "filter (\<lambda>a. i < slev h' a) lo = ?lo" "filter (\<lambda>a. i < slev h' a) hi = ?hi"
      by (auto intro!: filter_cong)
    then have eq: "filter (\<lambda>a. i < slev h' a) (lo @ n # hi) = (if i \<le> lev then ?lo @ n # ?hi else ?lo @ ?hi)"
      using same [of n] fresh by (simp add: less_Suc_eq_le)
    have c: "sl_chain ?h i (sl_head l) (?lo @ ?hi)" and p: "sl_pred l as k i = last (sl_head l # ?lo)"
      using cut(2) [OF i] cut(3) by auto
    have d: "distinct (sl_head l # ?lo @ ?hi)" and notin: "n \<notin> set (sl_head l # ?lo @ ?hi)"
      using dd sets nn by auto
    have keep: "sl_fwd h' a i = sl_fwd ?h a i"
      if "a \<in> set (sl_head l # ?lo @ ?hi)" "lev < i \<or> a \<noteq> sl_pred l as k i" for a
    proof -
      have "a \<noteq> n" using that(1) notin by blast
      then show ?thesis using that(2) upd [of i] old(5) [of a] by (auto simp: fwd)
    qed
    show ?thesis
    proof (cases "i \<le> lev")
      case True
      have "sl_chain h' i (sl_head l) (?lo @ n # ?hi)"
        using c d
      proof (rule sl_chain_insert)
        show "sl_fwd h' (last (sl_head l # ?lo)) i = Some (Some n)"
          using True upd [of i] pn [OF i] p by (simp add: fwd)
        show "sl_fwd h' n i = sl_fwd ?h (last (sl_head l # ?lo)) i"
          using True upd [of i] pn [OF i] p old(5) by (simp add: fwd)
      qed (use keep p in auto)
      then show ?thesis using eq True by simp
    next
      case False
      then show ?thesis using eq keep sl_chain_cong [OF c] by auto
    qed
  qed
  have sorted: "sorted_wrt (\<lambda>a b. skey h' a < skey h' b) (lo @ n # hi)"
  proof -
    have "sorted_wrt (\<lambda>a b. skey ?h a < skey ?h b) (lo @ hi)"
      using rep cut(1) by (simp add: sl_rep_def Let_def)
    then have "sorted_wrt (\<lambda>a b. skey h' a < skey h' b) (lo @ hi)"
      using same_old dom by (elim sorted_wrt_mono_rel [rotated]) (auto simp: lo_def hi_def)
    moreover have "skey h' a < k" if "a \<in> set lo" for a using that same_old [of a] dom by (auto simp: lo_def)
    moreover have "k < skey h' a" if "a \<in> set hi" for a
    proof -
      have "a \<in> set as" "\<not> skey ?h a < k" using that by (auto simp: hi_def)
      then show ?thesis using new same_old [of a] dom by (metis imageI insertCI linorder_neqE list.simps(15))
    qed
    ultimately show ?thesis using same [of n] fresh by (auto simp: sorted_wrt_append)
  qed
  have set': "set (lo @ n # hi) = insert n (set as)" and len': "length (lo @ n # hi) = Suc (length as)"
    and dist': "distinct (sl_head l # lo @ n # hi)"
    using dd sets nn arg_cong [OF cut(1), of length] by auto
  have old_inv: "\<forall>a \<in> dom ?h. e_magic (the (?h a)) = SL_ENTRY_MAGIC" "slen ?h (sl_head l) = SL_MAX_LEVEL + 2"
      "\<forall>a \<in> set as. 1 < slev ?h a \<and> slev ?h a \<le> sl_level l + 1 \<and> slen ?h a = slev ?h a + 1"
      "sl_magic l = SL_LIST_MAGIC" "sl_count l = int (length as)"
    using rep by (simp_all add: sl_rep_def Let_def)
  have levs: "\<forall>a \<in> set (lo @ n # hi). 1 < slev h' a \<and> slev h' a \<le> llev + 1 \<and> slen h' a = slev h' a + 1"
    unfolding set' using old_inv(3) same_old dom same [of n] fresh lev llev by auto
  have magic: "\<forall>a \<in> dom h'. e_magic (the (h' a)) = SL_ENTRY_MAGIC"
    unfolding dom' using old_inv(1) same_old same [of n] fresh by auto
  have doms: "dom h' = set (sl_head l # lo @ n # hi)" and head: "slen h' (sl_head l) = SL_MAX_LEVEL + 2"
    using dom dom' set' same_old [of "sl_head l"] old_inv(2) by auto
  have "sl_rep (l\<lparr>sl_level := llev, sl_mem := h', sl_rng := rng, sl_count := sl_count l + 1\<rparr>) (lo @ n # hi)"
    unfolding sl_rep_def Let_def
    using levs magic doms head chain sorted dist' len' llev old_inv(4,5) by simp
  then show ?thesis using h'(1) same [of n] fresh same_old dom by auto
qed

lemma sl_shrink_rep:
  "sl_rep l as \<Longrightarrow> sl_level l = n \<Longrightarrow>
   \<exists>lev \<le> n. sl_shrink (sl_mem l) (sl_head l) n = Some lev \<and> sl_rep (l\<lparr>sl_level := lev\<rparr>) as"
proof (induction n arbitrary: l)
  case 0
  then show ?case by (simp add: sl_rep_def Let_def)
next
  case (Suc n)
  let ?h = "sl_mem l"
  have "Suc n \<le> SL_MAX_LEVEL" using Suc.prems by (simp add: sl_rep_def Let_def)
  then have "sl_chain ?h (Suc n) (sl_head l) (filter (\<lambda>a. Suc n < slev ?h a) as)"
    using Suc.prems by (simp add: sl_rep_def Let_def)
  then have f: "sl_fwd ?h (sl_head l) (Suc n) = Some (hd_opt (filter (\<lambda>a. Suc n < slev ?h a) as))"
    by (rule sl_chain_fwd)
  show ?case
  proof (cases "filter (\<lambda>a. Suc n < slev ?h a) as")
    case Nil
    then have "\<forall>a \<in> set as. slev ?h a \<le> Suc n" by (auto simp: filter_empty_conv)
    then have "sl_rep (l\<lparr>sl_level := n\<rparr>) as" using Suc.prems by (simp add: sl_rep_def Let_def)
    from Suc.IH [OF this] show ?thesis using f Nil by (auto simp: le_Suc_eq)
  next
    case (Cons a bs)
    then show ?thesis using f Suc.prems by (simp add: sl_rep_def Let_def)
  qed
qed

text \<open>Taking an entry out of the chains of its levels.\<close>

lemma sl_unlink_rep:
  assumes rep: "sl_rep l as" and x: "hi = x # hi'"
    and upd: "\<And>j. j \<le> sl_level l \<Longrightarrow> upd j = Some (sl_pred l as k j)"
    and lo: "lo = filter (\<lambda>a. skey (sl_mem l) a < k) as" and hi: "hi = filter (\<lambda>a. \<not> skey (sl_mem l) a < k) as"
  shows "\<exists>h1. sl_unlink (sl_mem l) upd x 0 (Suc (sl_level l)) = Some h1
     \<and> sl_rep (l\<lparr>sl_mem := h1(x := None), sl_count := sl_count l - 1\<rparr>) (lo @ hi')
     \<and> (\<forall>a \<in> set (lo @ hi'). skey (h1(x := None)) a = skey (sl_mem l) a \<and> sval (h1(x := None)) a = sval (sl_mem l) a)"
proof -
  let ?h = "sl_mem l"
  note cut = sl_rep_cut [OF rep, where k = k, folded lo hi]
  have dom: "dom ?h = set (sl_head l # as)" and dist: "distinct (sl_head l # as)" and lmax: "sl_level l \<le> SL_MAX_LEVEL"
    and inv: "\<forall>a \<in> dom ?h. e_magic (the (?h a)) = SL_ENTRY_MAGIC" "slen ?h (sl_head l) = SL_MAX_LEVEL + 2"
      "\<forall>a \<in> set as. 1 < slev ?h a \<and> slev ?h a \<le> sl_level l + 1 \<and> slen ?h a = slev ?h a + 1"
      "sl_magic l = SL_LIST_MAGIC" "sl_count l = int (length as)"
      "sorted_wrt (\<lambda>a b. skey ?h a < skey ?h b) as"
    using rep by (simp_all add: sl_rep_def Let_def)
  have dd: "distinct (sl_head l # lo @ x # hi')" and sets: "set as = insert x (set (lo @ hi'))"
    and len: "length as = Suc (length (lo @ hi'))"
    using dist cut(1) x by (metis, force, force)
  have fp: "sl_fwd ?h (sl_pred l as k i) i = Some (hd_opt (filter (\<lambda>a. i < slev ?h a) hi))"
    if "i \<le> SL_MAX_LEVEL" for i
    using sl_chain_fwd [OF sl_chain_append [OF cut(2) [OF that]]] cut(3) by simp
  have px: "sl_pred l as k i \<noteq> x" for i
  proof -
    have "x \<in> set hi" using x by simp
    then show ?thesis using sl_pred_cases [of l as k i] dd hi by auto
  qed
  have hit: "sl_fwd ?h (sl_pred l as k i) i = Some (Some x) \<longleftrightarrow> i < slev ?h x" if "i \<le> SL_MAX_LEVEL" for i
  proof -
    have "hd_opt (filter (\<lambda>a. i < slev ?h a) hi') \<noteq> Some x"
    proof (cases "filter (\<lambda>a. i < slev ?h a) hi'")
      case (Cons y ys)
      then have "y \<in> set (filter (\<lambda>a. i < slev ?h a) hi')" by simp
      then have "y \<in> set hi'" by simp
      then show ?thesis using Cons dd by auto
    qed simp
    then show ?thesis using fp [OF that] x by auto
  qed
  have pre: "\<exists>p f. upd j = Some p \<and> p \<noteq> x \<and> sl_fwd ?h p j = Some f \<and> (f = Some x \<longrightarrow> sl_fwd ?h x j \<noteq> None)"
    if "0 \<le> j" "j < 0 + Suc (sl_level l)" for j
  proof -
    have j: "j \<le> sl_level l" "j \<le> SL_MAX_LEVEL" using that lmax by auto
    have "sl_fwd ?h x j \<noteq> None" if "j < slev ?h x"
      using sl_fwd_in [of x ?h j] that inv(3) sets dom by auto
    then show ?thesis using upd [OF j(1)] px [of j] fp [OF j(2)] hit [OF j(2)] by auto
  qed
  obtain h1 where h1: "sl_unlink ?h upd x 0 (Suc (sl_level l)) = Some h1" "sl_shape h1 = sl_shape ?h"
    and fwd: "\<And>a j. sl_fwd h1 a j =
            (if 0 \<le> j \<and> j < 0 + Suc (sl_level l) \<and> upd j = Some a \<and> sl_fwd ?h a j = Some (Some x)
             then sl_fwd ?h x j else sl_fwd ?h a j)"
    using sl_unlink_spec [of 0 "Suc (sl_level l)" upd x ?h, OF pre] by auto
  let ?g = "h1(x := None)"
  have same: "skey ?g a = skey ?h a \<and> sval ?g a = sval ?h a \<and> slev ?g a = slev ?h a \<and> slen ?g a = slen ?h a
     \<and> e_magic (the (?g a)) = e_magic (the (?h a))" if ad: "a \<in> dom ?h" and ax: "a \<noteq> x" for a
  proof -
    obtain e where e: "?h a = Some e" using ad by auto
    show ?thesis using sl_fields_shape [OF e h1(2)] ax by (simp add: sl_fields)
  qed
  have rest: "a \<in> dom ?h \<and> a \<noteq> x" if "a \<in> set (sl_head l # lo @ hi')" for a using that dom sets dd by auto
  have chain: "sl_chain ?g i (sl_head l) (filter (\<lambda>a. i < slev ?g a) (lo @ hi'))" if i: "i \<le> SL_MAX_LEVEL" for i
  proof -
    let ?lo = "filter (\<lambda>a. i < slev ?h a) lo" and ?hi = "filter (\<lambda>a. i < slev ?h a) hi'"
    have "filter (\<lambda>a. i < slev ?g a) (lo @ hi') = filter (\<lambda>a. i < slev ?h a) (lo @ hi')"
      using rest same by (intro filter_cong) (auto simp del: fun_upd_apply)
    then have eq: "filter (\<lambda>a. i < slev ?g a) (lo @ hi') = ?lo @ ?hi" by simp
    have c: "sl_chain ?h i (sl_head l) (?lo @ (if i < slev ?h x then x # ?hi else ?hi))"
      and p: "sl_pred l as k i = last (sl_head l # ?lo)"
      using cut(2) [OF i] cut(3) x by auto
    have keep: "sl_fwd ?g a i = sl_fwd ?h a i"
      if "a \<in> set (sl_head l # ?lo @ ?hi)" "\<not> i < slev ?h x \<or> a \<noteq> sl_pred l as k i" for a
    proof -
      have "a \<noteq> x" using that(1) rest by auto
      moreover have "sl_fwd h1 a i = sl_fwd ?h a i"
        using that(2) upd [of i] hit [OF i] by (auto simp: fwd)
      ultimately show ?thesis by (simp add: sl_fwd_def)
    qed
    show ?thesis
    proof (cases "i < slev ?h x")
      case True
      have il: "i \<le> sl_level l" using True inv(3) sets by auto
      have "sl_chain ?g i (sl_head l) (?lo @ ?hi)"
      proof (rule sl_chain_delete)
        show "sl_chain ?h i (sl_head l) (?lo @ x # ?hi)" using c True by simp
        show "distinct (sl_head l # ?lo @ x # ?hi)" using dd by auto
        have "sl_fwd h1 (sl_pred l as k i) i = sl_fwd ?h x i"
          using upd [OF il] hit [OF i] True il by (simp add: fwd)
        then show "sl_fwd ?g (last (sl_head l # ?lo)) i = sl_fwd ?h x i"
          using px [of i] p by (simp add: sl_fwd_def)
      qed (use keep p in auto)
      then show ?thesis using eq by simp
    next
      case False
      then show ?thesis using eq keep c sl_chain_cong [of ?h i "sl_head l" "?lo @ ?hi" ?g] by auto
    qed
  qed
  have "sorted_wrt (\<lambda>a b. skey ?h a < skey ?h b) (lo @ x # hi')" using inv(6) cut(1) x by simp
  then have "sorted_wrt (\<lambda>a b. skey ?h a < skey ?h b) (lo @ hi')" by (auto simp: sorted_wrt_append)
  then have sorted: "sorted_wrt (\<lambda>a b. skey ?g a < skey ?g b) (lo @ hi')"
    using same rest by (elim sorted_wrt_mono_rel [rotated]) (auto simp del: fun_upd_apply)
  have doms: "dom ?g = set (sl_head l # lo @ hi')" using sl_shape_same(1) [OF h1(2)] dom sets dd by auto
  have levs: "\<forall>a \<in> set (lo @ hi'). 1 < slev ?g a \<and> slev ?g a \<le> sl_level l + 1 \<and> slen ?g a = slev ?g a + 1"
    and magic: "\<forall>a \<in> dom ?g. e_magic (the (?g a)) = SL_ENTRY_MAGIC"
    and head: "slen ?g (sl_head l) = SL_MAX_LEVEL + 2"
    using same rest inv(1-3) sets unfolding doms by (auto simp del: fun_upd_apply)
  have "sl_rep (l\<lparr>sl_mem := ?g, sl_count := sl_count l - 1\<rparr>) (lo @ hi')"
    unfolding sl_rep_def Let_def
    using levs magic doms head chain sorted dd len inv(4,5) lmax by (simp del: fun_upd_apply)
  then show ?thesis using h1(1) same rest by (auto simp del: fun_upd_apply)
qed

section \<open>The operations on the contents\<close>

lemma sl_rep_keys:
  assumes "sl_rep l as"
  shows "sorted_wrt (<) (map fst (sl_list l))" "distinct (map fst (sl_list l))"
    "set (map fst (sl_list l)) = skey (sl_mem l) ` set as" "length (sl_list l) = length as"
    "sl_abs l k = None \<longleftrightarrow> k \<notin> skey (sl_mem l) ` set as"
proof -
  show s: "sorted_wrt (<) (map fst (sl_list l))"
    unfolding sl_rep_list [OF assms] using assms by (simp add: sl_rep_def Let_def sorted_wrt_map)
  then show "distinct (map fst (sl_list l))"
    using strict_sorted_iff by blast
  show "set (map fst (sl_list l)) = skey (sl_mem l) ` set as" "length (sl_list l) = length as"
    using assms by (auto simp: sl_rep_list)
  then show "sl_abs l k = None \<longleftrightarrow> k \<notin> skey (sl_mem l) ` set as"
    by (simp add: sl_abs_def map_of_eq_None_iff)
qed

lemma sl_rep_magic: "sl_rep l as \<Longrightarrow> sl_magic l = SL_LIST_MAGIC"
  by (simp add: sl_rep_def Let_def)

lemma sorted_remove:
  fixes key :: "'a \<Rightarrow> 'b::linorder"
  assumes "sorted_wrt (\<lambda>a b. key a < key b) (xs @ x # ys)"
  shows "filter (\<lambda>a. key a \<noteq> key x) (xs @ x # ys) = xs @ ys"
proof -
  have "filter (\<lambda>a. key a \<noteq> key x) xs = xs" "filter (\<lambda>a. key a \<noteq> key x) ys = ys"
    using assms by (auto simp: sorted_wrt_append intro!: filter_True)
  then show ?thesis by simp
qed

text \<open>A key of the list is the first one not below it.\<close>

lemma sl_hit:
  fixes k :: ulong
  assumes "sl_rep l as"
  defines "hi \<equiv> filter (\<lambda>a. \<not> skey (sl_mem l) a < k) as"
  shows "k \<in> skey (sl_mem l) ` set as \<longleftrightarrow> (\<exists>x hi'. hi = x # hi' \<and> skey (sl_mem l) x = k)"
proof
  let ?h = "sl_mem l"
  assume "k \<in> skey ?h ` set as"
  then obtain y where y: "y \<in> set hi" "skey ?h y = k" by (auto simp: hi_def)
  then obtain x hi' where x: "hi = x # hi'" by (cases hi) auto
  have "sorted_wrt (\<lambda>a b. skey ?h a < skey ?h b) hi"
    using assms(1) by (simp add: hi_def sl_rep_def Let_def sorted_wrt_filter)
  moreover have "\<not> skey ?h x < k" using x by (metis (no_types, lifting) hi_def filter_eq_ConsD)
  ultimately show "\<exists>x hi'. hi = x # hi' \<and> skey ?h x = k" using x y by (cases "x = y") auto
next
  assume "\<exists>x hi'. hi = x # hi' \<and> skey (sl_mem l) x = k"
  then obtain x hi' where "hi = x # hi'" and k: "skey (sl_mem l) x = k" by blast
  then have "x \<in> set hi" by simp
  then show "k \<in> skey (sl_mem l) ` set as" using k by (auto simp: hi_def)
qed

lemma map_of_split_insert:
  assumes "k \<notin> fst ` set xs"
  shows "map_of (filter (\<lambda>(c, _). P c) xs @ (k, v) # filter (\<lambda>(c, _). \<not> P c) xs) = (map_of xs)(k \<mapsto> v)"
proof -
  have f: "map_of (filter (\<lambda>(c, _). Q c) xs) c = (if Q c then map_of xs c else None)" for Q c
    by (induction xs) auto
  have "map_of xs k = None" using assms by (simp add: map_of_eq_None_iff)
  then show ?thesis by (auto simp: fun_eq_iff map_add_def f split: option.splits)
qed

lemma map_of_filter_ne: "map_of (filter (\<lambda>(c, _). c \<noteq> k) xs) = (map_of xs)(k := None)"
  by (induction xs) (auto simp: fun_eq_iff)

lemma drmSLInsert_present:
  assumes "sl_rep l as" "k \<in> skey (sl_mem l) ` set as"
  shows "drmSLInsert m l k v = Some (1, l)"
proof -
  obtain x hi' where x: "filter (\<lambda>a. \<not> skey (sl_mem l) a < k) as = x # hi'" "skey (sl_mem l) x = k"
    using sl_hit [OF assms(1)] assms(2) by auto
  then have "x \<in> set as" by (metis filter_is_subset list.set_intros(1) subsetD)
  then obtain e where "sl_mem l x = Some e" using assms(1) by (fastforce simp: sl_rep_def Let_def)
  then show ?thesis
    using x SLLocate_spec [OF assms(1), of k] assms(1)
    by (simp add: drmSLInsert_def skey_def) (simp add: sl_rep_def Let_def)
qed

text \<open>Inserting a new key: the pair goes in its place.\<close>

lemma drmSLInsert_new:
  assumes rep: "sl_rep l as" and new: "k \<notin> skey (sl_mem l) ` set as" and ok: "sl_alloc_ok l m"
  shows "\<exists>l' as'. drmSLInsert m l k v = Some (0, l') \<and> sl_rep l' as' \<and> sl_head l' = sl_head l \<and> sl_p0 l' = sl_p0 l
     \<and> sl_list l' = filter (\<lambda>(c, _). c < k) (sl_list l) @ (k, v) # filter (\<lambda>(c, _). \<not> c < k) (sl_list l)
     \<and> sl_binds l' = (sl_binds l)(k \<mapsto> (the (fst m), v))"
proof -
  let ?h = "sl_mem l"
  let ?lo = "filter (\<lambda>a. skey ?h a < k) as" and ?hi = "filter (\<lambda>a. \<not> skey ?h a < k) as"
  obtain n where n: "fst m = Some n" "n \<notin> dom ?h" using ok by (auto simp: sl_alloc_ok_def domIff split: option.splits)
  obtain r s where r: "SLRandomLevel (snd m) (sl_rng l) = Some (r, s)" "1 \<le> r" "r \<le> SL_MAX_LEVEL"
    using SLRandomLevel_some [OF ok] by auto
  let ?grow = "sl_level l < r"
  let ?lev = "if ?grow then sl_level l + 1 else r"
  let ?llev = "if ?grow then ?lev else sl_level l"
  let ?upd = "\<lambda>j. if j \<le> sl_level l then Some (sl_pred l as k j) else None"
  let ?upd2 = "if ?grow then ?upd(?lev := Some (sl_head l)) else ?upd"
  have lmax: "sl_level l \<le> SL_MAX_LEVEL" and magic: "sl_magic l = SL_LIST_MAGIC"
    using rep by (simp_all add: sl_rep_def Let_def)
  have upd2: "?upd2 j = Some (sl_pred l as k j)" if "j \<le> ?lev" for j
    using that sl_pred_above [OF rep, of j k] by (auto simp: le_Suc_eq split: if_splits)
  have "\<exists>h'. sl_link (?h(n \<mapsto> SLCreateEntry (int ?lev) k v)) ?upd2 n 0 (Suc ?lev) = Some h'
     \<and> sl_rep (l\<lparr>sl_level := ?llev, sl_mem := h', sl_rng := Some s, sl_count := sl_count l + 1\<rparr>) (?lo @ n # ?hi)
     \<and> skey h' n = k \<and> sval h' n = v \<and> (\<forall>a \<in> set as. skey h' a = skey ?h a \<and> sval h' a = sval ?h a)"
    using r lmax by (intro sl_link_rep [OF rep n(2) _ _ _ _ _ upd2 new]) auto
  then obtain h' where h': "sl_link (?h(n \<mapsto> SLCreateEntry (int ?lev) k v)) ?upd2 n 0 (Suc ?lev) = Some h'"
    and rep': "sl_rep (l\<lparr>sl_level := ?llev, sl_mem := h', sl_rng := Some s, sl_count := sl_count l + 1\<rparr>) (?lo @ n # ?hi)"
    and kv: "skey h' n = k" "sval h' n = v" "\<forall>a \<in> set as. skey h' a = skey ?h a \<and> sval h' a = sval ?h a"
    by blast
  let ?l = "l\<lparr>sl_level := ?llev, sl_mem := h', sl_rng := Some s, sl_count := sl_count l + 1\<rparr>"
  have miss: "(case hd_opt ?hi of None \<Rightarrow> Some False | Some x \<Rightarrow> map_option (\<lambda>e. e_key e = k) (?h x)) = Some False"
  proof (cases ?hi)
    case (Cons x hi')
    then have "x \<in> set as" by (metis filter_is_subset list.set_intros(1) subsetD)
    then obtain e where "?h x = Some e" using rep by (fastforce simp: sl_rep_def Let_def)
    then show ?thesis using sl_hit [OF rep, of k] new Cons by (auto simp: skey_def)
  qed simp
  have "drmSLInsert m l k v = Some (0, ?l)"
    using magic r(1) n(1) h' miss
    by (simp only: drmSLInsert_def SLLocate_spec [OF rep, of k] Let_def option.case prod.case
        simp_thms if_False if_True not_True_eq_False HOL.refl)
  moreover have "sl_list ?l = filter (\<lambda>(c, _). c < k) (sl_list l) @ (k, v) # filter (\<lambda>(c, _). \<not> c < k) (sl_list l)"
    using kv by (auto simp: sl_rep_list [OF rep'] sl_rep_list [OF rep] filter_map o_def)
  moreover have "sl_binds ?l = (sl_binds l)(k \<mapsto> (the (fst m), v))"
  proof -
    let ?b = "\<lambda>a. (skey ?h a, a, sval ?h a)"
    have "map (\<lambda>a. (skey h' a, a, sval h' a)) (?lo @ n # ?hi)
        = filter (\<lambda>(c, _). c < k) (map ?b as) @ (k, n, v) # filter (\<lambda>(c, _). \<not> c < k) (map ?b as)"
      using kv by (auto simp: filter_map o_def)
    moreover have "k \<notin> fst ` set (map ?b as)" using new by auto
    ultimately show ?thesis
      using n(1) map_of_split_insert [of k "map ?b as" "\<lambda>c. c < k"]
      by (simp add: sl_rep_binds [OF rep'] sl_rep_binds [OF rep])
  qed
  ultimately show ?thesis using rep' by auto
qed

lemma drmSLDelete_absent:
  assumes rep: "sl_rep l as" and "k \<notin> skey (sl_mem l) ` set as"
  shows "drmSLDelete l k = Some (1, l)"
proof (cases "filter (\<lambda>a. \<not> skey (sl_mem l) a < k) as")
  case Nil
  then show ?thesis using sl_rep_magic [OF rep] SLLocate_spec [OF rep, of k] by (simp add: drmSLDelete_def)
next
  case (Cons x hi')
  then have "x \<in> set as" by (metis filter_is_subset list.set_intros(1) subsetD)
  then obtain e where e: "sl_mem l x = Some e" using rep by (fastforce simp: sl_rep_def Let_def)
  moreover have "e_key e \<noteq> k" using sl_hit [OF rep, of k] assms(2) Cons e by (auto simp: skey_def)
  ultimately show ?thesis using sl_rep_magic [OF rep] SLLocate_spec [OF rep, of k] Cons by (simp add: drmSLDelete_def)
qed

lemma drmSLDelete_present:
  assumes rep: "sl_rep l as" and "k \<in> skey (sl_mem l) ` set as"
  shows "\<exists>l' as'. drmSLDelete l k = Some (0, l') \<and> sl_rep l' as' \<and> sl_head l' = sl_head l \<and> sl_p0 l' = sl_p0 l
     \<and> sl_list l' = filter (\<lambda>(c, _). c \<noteq> k) (sl_list l) \<and> sl_binds l' = (sl_binds l)(k := None)"
proof -
  let ?h = "sl_mem l"
  let ?lo = "filter (\<lambda>a. skey ?h a < k) as"
  obtain x hi' where x: "filter (\<lambda>a. \<not> skey ?h a < k) as = x # hi'" "skey ?h x = k"
    using sl_hit [OF rep] assms(2) by auto
  have magic: "sl_magic l = SL_LIST_MAGIC" and "x \<in> dom ?h"
    using rep x(1) by (auto simp: sl_rep_def Let_def dest: filter_eq_ConsD)
  then obtain e where e: "?h x = Some e" by auto
  let ?upd = "\<lambda>j. if j \<le> sl_level l then Some (sl_pred l as k j) else None"
  obtain h1 where h1: "sl_unlink ?h ?upd x 0 (Suc (sl_level l)) = Some h1"
    and rep1: "sl_rep (l\<lparr>sl_mem := h1(x := None), sl_count := sl_count l - 1\<rparr>) (?lo @ hi')"
    and kv: "\<forall>a \<in> set (?lo @ hi'). skey (h1(x := None)) a = skey ?h a \<and> sval (h1(x := None)) a = sval ?h a"
    using sl_unlink_rep [OF rep refl _ refl x(1) [symmetric], of ?upd] by auto
  obtain lev where lev: "sl_shrink (h1(x := None)) (sl_head l) (sl_level l) = Some lev"
    and rep2: "sl_rep (l\<lparr>sl_mem := h1(x := None), sl_level := lev, sl_count := sl_count l - 1\<rparr>) (?lo @ hi')"
  proof -
    have swap: "l\<lparr>sl_mem := h, sl_count := c, sl_level := v\<rparr> = l\<lparr>sl_mem := h, sl_level := v, sl_count := c\<rparr>" for h c v
      by (cases l) simp
    show thesis using sl_shrink_rep [OF rep1 refl, unfolded swap] by (auto intro: that)
  qed
  have cut: "as = ?lo @ x # hi'" using sl_rep_cut(1) [OF rep, of k] x(1) by simp
  have "sorted_wrt (\<lambda>a b. skey ?h a < skey ?h b) as" using rep by (simp add: sl_rep_def Let_def)
  then have sorted: "sorted_wrt (\<lambda>a b. skey ?h a < skey ?h b) (?lo @ x # hi')"
    by (rule iffD1 [OF arg_cong [OF cut]])
  have "sl_list (l\<lparr>sl_mem := h1(x := None), sl_level := lev, sl_count := sl_count l - 1\<rparr>)
      = map (\<lambda>a. (skey ?h a, sval ?h a)) (?lo @ hi')"
    using kv by (simp add: sl_rep_list [OF rep2])
  also have "\<dots> = filter (\<lambda>(c, _). c \<noteq> k) (map (\<lambda>a. (skey ?h a, sval ?h a)) (?lo @ x # hi'))"
    unfolding sorted_remove [OF sorted, symmetric] by (simp add: filter_map o_def x(2) del: filter_filter)
  also have "\<dots> = filter (\<lambda>(c, _). c \<noteq> k) (sl_list l)"
    unfolding sl_rep_list [OF rep] by (rule arg_cong [OF cut [symmetric]])
  finally have "sl_list (l\<lparr>sl_mem := h1(x := None), sl_level := lev, sl_count := sl_count l - 1\<rparr>)
      = filter (\<lambda>(c, _). c \<noteq> k) (sl_list l)" .
  moreover have "drmSLDelete l k = Some (0, l\<lparr>sl_mem := h1(x := None), sl_level := lev, sl_count := sl_count l - 1\<rparr>)"
    using magic SLLocate_spec [OF rep, of k] x e h1 lev by (simp add: drmSLDelete_def skey_def)
  moreover have "sl_binds (l\<lparr>sl_mem := h1(x := None), sl_level := lev, sl_count := sl_count l - 1\<rparr>) = (sl_binds l)(k := None)"
  proof -
    let ?b = "\<lambda>a. (skey ?h a, a, sval ?h a)"
    have "map (\<lambda>a. (skey (h1(x := None)) a, a, sval (h1(x := None)) a)) (?lo @ hi') = map ?b (?lo @ hi')" using kv by simp
    also have "\<dots> = filter (\<lambda>(c, _). c \<noteq> k) (map ?b (?lo @ x # hi'))"
      unfolding sorted_remove [OF sorted, symmetric] by (simp add: filter_map o_def x(2) del: filter_filter)
    also have "\<dots> = filter (\<lambda>(c, _). c \<noteq> k) (map ?b as)" by (rule arg_cong [OF cut [symmetric]])
    finally show ?thesis
      using map_of_filter_ne [of k "map ?b as"] by (simp add: sl_rep_binds [OF rep2] sl_rep_binds [OF rep])
  qed
  ultimately show ?thesis using rep2 by auto
qed

lemma drmSLLookup_spec:
  assumes rep: "sl_rep l as"
  shows "drmSLLookup l k = Some (if k \<in> skey (sl_mem l) ` set as then (0, hd_opt (filter (\<lambda>a. skey (sl_mem l) a = k) as)) else (-1, None))"
proof (cases "filter (\<lambda>a. \<not> skey (sl_mem l) a < k) as")
  case Nil
  then show ?thesis using SLLocate_spec [OF rep, of k] sl_hit [OF rep, of k] by (simp add: drmSLLookup_def)
next
  case (Cons x hi')
  let ?h = "sl_mem l"
  have "x \<in> set as" using Cons by (metis filter_is_subset list.set_intros(1) subsetD)
  then obtain e where e: "?h x = Some e" using rep by (fastforce simp: sl_rep_def Let_def)
  have cut: "as = filter (\<lambda>a. skey ?h a < k) as @ x # hi'" using sl_rep_cut(1) [OF rep, of k] Cons by simp
  have "filter (\<lambda>a. skey ?h a = k) (filter (\<lambda>a. skey ?h a < k) as @ x # hi') = x # filter (\<lambda>a. skey ?h a = k) hi'"
    if "skey ?h x = k" using that by (auto simp: filter_empty_conv)
  then have "hd_opt (filter (\<lambda>a. skey ?h a = k) as) = Some x" if "skey ?h x = k"
    using that cut by (metis hd_opt_simps(2))
  then show ?thesis
    using SLLocate_spec [OF rep, of k] sl_hit [OF rep, of k] Cons e by (auto simp: drmSLLookup_def skey_def)
qed

section \<open>The table contract\<close>

lemma sl_invarI: "sl_rep l as \<Longrightarrow> sl_invar l"
  by (auto simp: sl_invar_def)

text \<open>A look-up stores the address of the entry, not its value, for the caller, and answers -1 if the key is not
  there. So what a key is bound to is the entry the allocator gave and its value, and a look-up shows the first of
  the two.\<close>

definition sl_look :: "'v SkipList \<Rightarrow> ulong \<Rightarrow> (int \<times> addr option \<times> 'v SkipList) option" where
  "sl_look l k = map_option (\<lambda>(r, x). (r, x, l)) (drmSLLookup l k)"

definition sl_bind :: "addr option \<times> bool \<Rightarrow> 'v \<Rightarrow> addr \<times> 'v" where
  "sl_bind m v = (the (fst m), v)"

lemma sl_binds_None: "sl_rep l as \<Longrightarrow> sl_binds l k = None \<longleftrightarrow> k \<notin> skey (sl_mem l) ` set as"
  using sl_rep_binds_abs [of l as k] sl_rep_keys(5) [of l as k] by (metis option.map_disc_iff)

lemma sl_binds_abs_None: "sl_invar l \<Longrightarrow> sl_binds l k = None \<longleftrightarrow> sl_abs l k = None"
  using sl_rep_binds_abs by (metis option.map_disc_iff sl_invar_def)

lemma sl_look_result:
  assumes "sl_invar l"
  shows "drmSLLookup l k = Some (if sl_binds l k = None then -1 else 0, map_option fst (sl_binds l k))"
    and "sl_binds l k = Some (x, v) \<Longrightarrow> \<exists>e. sl_mem l x = Some e \<and> e_key e = k \<and> e_value e = v \<and> sl_abs l k = Some v"
proof -
  obtain as where rep: "sl_rep l as" using assms by (auto simp: sl_invar_def)
  let ?h = "sl_mem l" and ?b = "\<lambda>a. (skey (sl_mem l) a, a, sval (sl_mem l) a)"
  have b: "map_of (map ?b xs) k = map_option (\<lambda>a. (a, sval ?h a)) (hd_opt (filter (\<lambda>a. skey ?h a = k) xs))" for xs
    by (induction xs) auto
  have "hd_opt (filter (\<lambda>a. skey ?h a = k) xs) = None \<longleftrightarrow> k \<notin> skey ?h ` set xs" for xs
    by (induction xs) auto
  from this [of as] show "drmSLLookup l k = Some (if sl_binds l k = None then -1 else 0, map_option fst (sl_binds l k))"
    using drmSLLookup_spec [OF rep, of k] unfolding sl_rep_binds [OF rep] b
    by (cases "hd_opt (filter (\<lambda>a. skey ?h a = k) as)") auto
  assume "sl_binds l k = Some (x, v)"
  moreover from this have "k = skey ?h x" "v = sval ?h x" "x \<in> set as"
    using map_of_SomeD [of "map ?b as" k "(x, v)"] by (auto simp: sl_rep_binds [OF rep])
  moreover have "x \<in> dom ?h" using \<open>x \<in> set as\<close> rep by (auto simp: sl_rep_def Let_def)
  ultimately show "\<exists>e. sl_mem l x = Some e \<and> e_key e = k \<and> e_value e = v \<and> sl_abs l k = Some v"
    using sl_rep_binds_abs [OF rep, of k] by (auto simp: sl_fields)
qed

lemma sl_ins_result:
  assumes "sl_invar l" "sl_alloc_ok l m"
  shows "\<exists>l'. drmSLInsert m l k v = Some (if sl_abs l k = None then 0 else 1, l') \<and> sl_invar l'
    \<and> sl_list l' = (if sl_abs l k = None
           then filter (\<lambda>(c, _). c < k) (sl_list l) @ (k, v) # filter (\<lambda>(c, _). \<not> c < k) (sl_list l) else sl_list l)
    \<and> sl_binds l' = (if sl_binds l k = None then (sl_binds l)(k \<mapsto> sl_bind m v) else sl_binds l)"
proof -
  obtain as where rep: "sl_rep l as" using assms by (auto simp: sl_invar_def)
  note none = sl_rep_keys(5) [OF rep, of k] sl_binds_None [OF rep, of k]
  show ?thesis
  proof (cases "k \<in> skey (sl_mem l) ` set as")
    case True
    then show ?thesis
      using drmSLInsert_present [OF rep True, of m v] none assms(1) by auto
  next
    case False
    then show ?thesis
      using drmSLInsert_new [OF rep False assms(2), of v] none sl_invarI by (auto simp: sl_bind_def)
  qed
qed

lemma sl_del_result:
  assumes "sl_invar l"
  shows "\<exists>l'. drmSLDelete l k = Some (if sl_abs l k = None then 1 else 0, l') \<and> sl_invar l'
    \<and> sl_list l' = filter (\<lambda>(c, _). c \<noteq> k) (sl_list l) \<and> sl_binds l' = (sl_binds l)(k := None)"
proof -
  obtain as where rep: "sl_rep l as" using assms by (auto simp: sl_invar_def)
  note none = sl_rep_keys(5) [OF rep, of k] sl_binds_None [OF rep, of k]
  show ?thesis
  proof (cases "k \<in> skey (sl_mem l) ` set as")
    case True
    then show ?thesis using drmSLDelete_present [OF rep True] none sl_invarI by auto
  next
    case False
    then have "filter (\<lambda>(c, _). c \<noteq> k) (sl_list l) = sl_list l"
      by (auto simp: sl_rep_list [OF rep] intro!: filter_True)
    then show ?thesis
      using drmSLDelete_absent [OF rep False] none False assms by (simp add: fun_upd_idem)
  qed
qed

lemma sl_abs_fresh: "sl_abs l k = None \<longleftrightarrow> k \<notin> fst ` set (sl_list l)"
  by (simp add: sl_abs_def map_of_eq_None_iff)

interpretation sl: dict sl_invar sl_binds "-1" sl_bind fst sl_look drmSLInsert drmSLDelete sl_alloc_ok
proof (unfold_locales, goal_cases)
  case (1 l k)
  then show ?case using sl_look_result(1) [of l k] by (simp add: sl_look_def)
next
  case (2 l m k v)
  then show ?case using sl_ins_result [of l m k v] sl_binds_abs_None [of l k] by auto
next
  case (3 l k)
  then show ?case using sl_del_result [of l k] sl_binds_abs_None [of l k] by auto
qed

lemma drmSLCreate_rep: "sl_rep (drmSLCreate a rng null) []"
  by (auto simp: sl_rep_def drmSLCreate_def Let_def SLCreateEntry_def SL_MAX_LEVEL_def sl_fields sl_fwd_def nth_Cons'
      split: if_splits)

lemma drmSLCreate_list [simp]: "sl_list (drmSLCreate a rng null) = []"
  using sl_rep_list [OF drmSLCreate_rep] by simp

section \<open>Enumeration, neighbours, destruction\<close>

text \<open>A client's loop over the list: \<^verbatim>\<open>drmSLFirst\<close>, then \<^verbatim>\<open>drmSLNext\<close> while the code is 1.\<close>

partial_function (option) sl_drain ::
  "(int \<times> (ulong \<times> 'v) option \<times> 'v SkipList) option \<Rightarrow> (ulong \<times> 'v) list option" where
  "sl_drain r = (case r of None \<Rightarrow> None | Some (c, kv, l) \<Rightarrow>
      if c = 1 then Option.bind (sl_drain (drmSLNext l)) (\<lambda>xs. Some (the kv # xs)) else Some [])"

lemma sl_drain_chain:
  "sl_chain (sl_mem l) 0 p cs \<Longrightarrow> set cs \<subseteq> dom (sl_mem l) \<Longrightarrow> sl_magic l = SL_LIST_MAGIC \<Longrightarrow>
   sl_drain (drmSLNext (l\<lparr>sl_p0 := hd_opt cs\<rparr>)) = Some (map (\<lambda>a. (skey (sl_mem l) a, sval (sl_mem l) a)) cs)"
proof (induction cs arbitrary: p)
  case Nil
  then show ?case by (simp add: drmSLNext_def sl_drain.simps)
next
  case (Cons a cs)
  then obtain e where e: "sl_mem l a = Some e" by auto
  have "sl_fwd (sl_mem l) a 0 = Some (hd_opt cs)" using Cons.prems(1) sl_chain_fwd by auto
  then have "drmSLNext (l\<lparr>sl_p0 := hd_opt (a # cs)\<rparr>) = Some (1, Some (e_key e, e_value e), l\<lparr>sl_p0 := hd_opt cs\<rparr>)"
    using e Cons.prems(3) by (simp add: drmSLNext_def)
  moreover have "sl_drain (drmSLNext (l\<lparr>sl_p0 := hd_opt cs\<rparr>)) = Some (map (\<lambda>a. (skey (sl_mem l) a, sval (sl_mem l) a)) cs)"
    using Cons.prems by (intro Cons.IH [of a]) auto
  ultimately show ?case by (subst sl_drain.simps) (simp add: sl_fields e)
qed

lemma sl_destroy_chain:
  "sl_chain h 0 p cs \<Longrightarrow> distinct (p # cs) \<Longrightarrow> set (p # cs) \<subseteq> dom h \<Longrightarrow>
   \<forall>a \<in> set (p # cs). e_magic (the (h a)) = SL_ENTRY_MAGIC \<Longrightarrow>
   sl_destroy h (Some p) freed = Some (0, freed @ p # cs)"
proof (induction cs arbitrary: h p freed)
  case Nil
  then show ?case by (auto simp: sl_destroy.simps)
next
  case (Cons a cs)
  let ?h = "h(p := None)"
  have "sl_chain ?h 0 a cs"
    using Cons.prems(1,2) by (intro sl_chain_cong [of h 0 a cs ?h]) (auto simp: sl_fwd_def)
  then have "sl_destroy ?h (Some a) (freed @ [p]) = Some (0, (freed @ [p]) @ a # cs)"
    by (rule Cons.IH) (use Cons.prems in auto)
  then show ?case using Cons.prems by (subst sl_destroy.simps) auto
qed

lemma drmSLLookupNeighbors_spec:
  assumes "sl_rep l as"
  defines "h \<equiv> sl_mem l"
  shows "drmSLLookupNeighbors l k =
     (let prev = (let p = sl_pred l as k 0 in (skey h p, sval h p)) in
      Some (case filter (\<lambda>(c, _). \<not> c < k) (sl_list l) of [] \<Rightarrow> (1, Some prev, None) | kv # _ \<Rightarrow> (2, Some prev, Some kv)))"
proof -
  let ?hi = "filter (\<lambda>a. \<not> skey h a < k) as"
  obtain e where e: "h (sl_pred l as k 0) = Some e"
    using assms sl_pred_dom(1) [OF assms(1), of 0 k] by (fastforce simp: sl_rep_def Let_def)
  have f: "sl_fwd h (sl_pred l as k 0) 0 = Some (hd_opt ?hi)"
    using sl_pred_next [OF assms(1)] by (simp add: h_def)
  have list: "filter (\<lambda>(c, _). \<not> c < k) (sl_list l) = map (\<lambda>a. (skey h a, sval h a)) ?hi"
    by (simp add: sl_rep_list [OF assms(1)] filter_map o_def h_def)
  show ?thesis
  proof (cases ?hi)
    case Nil
    then show ?thesis using SLLocate_spec [OF assms(1), of k] e f list
      by (simp add: drmSLLookupNeighbors_def h_def sl_fields)
  next
    case (Cons x hi')
    then have "x \<in> set ?hi" by simp
    then obtain d where "h x = Some d" using assms by (fastforce simp: sl_rep_def Let_def)
    then show ?thesis using Cons SLLocate_spec [OF assms(1), of k] e f list
      by (simp add: drmSLLookupNeighbors_def h_def sl_fields)
  qed
qed

section \<open>Properties\<close>

text \<open>C5. From an empty list, any sequence of insertions, deletions and look-ups runs to its end, and gives
  the return codes and answers of the same calls on a finite map that binds a key to the entry allocated for it and to
  its value. A look-up answers 0 and stores the address of the entry, where the caller expects the value, or answers -1.
  The run ends with a list that stands for the final map, entry by entry: an entry is in memory, and
  holds its key and value. This covers the levels drawn from the generator, the growth and the shrinking of
  the list's level, and the pointers of all levels.\<close>

theorem drmSL_refines_map:
  assumes "allocs_ok sl_alloc_ok sl_look drmSLInsert drmSLDelete (drmSLCreate a rng null) cs"
  shows "\<exists>rs l' f. exec_run sl_look drmSLInsert drmSLDelete (drmSLCreate a rng null) cs = Some (rs, l')
    \<and> map_run (-1) (\<lambda>m v. (the (fst m), v)) fst Map.empty cs = (rs, f)
    \<and> sl_invar l' \<and> sl_binds l' = f \<and> sl_abs l' = (\<lambda>k. map_option snd (f k))
    \<and> (\<forall>k x v. f k = Some (x, v) \<longrightarrow> (\<exists>e. sl_mem l' x = Some e \<and> e_key e = k \<and> e_value e = v))"
proof -
  have f: "sl_bind = (\<lambda>m v. (the (fst m), v))" by (simp add: fun_eq_iff sl_bind_def)
  have "sl_binds (drmSLCreate a rng null) = Map.empty" by (simp add: sl_rep_binds [OF drmSLCreate_rep])
  then obtain rs l' where r: "exec_run sl_look drmSLInsert drmSLDelete (drmSLCreate a rng null) cs = Some (rs, l')"
      "sl_invar l'" "map_run (-1) (\<lambda>m v. (the (fst m), v)) fst Map.empty cs = (rs, sl_binds l')"
    using sl.run_refines [OF sl_invarI [OF drmSLCreate_rep] assms, unfolded f] by auto
  have "sl_abs l' = (\<lambda>k. map_option snd (sl_binds l' k))" using r(2) sl_rep_binds_abs by (fastforce simp: sl_invar_def)
  then show ?thesis using r sl_look_result(2) [OF r(2)] by blast
qed

theorem drmSL_refines_map_witness:
  "\<exists>l'. exec_run sl_look drmSLInsert drmSLDelete (drmSLCreate 1 None 0)
      [Insert (Some 7, True) 9 (5::nat), Insert (Some 8, False) 4 6, Insert (Some 9, False) 9 1, Lookup 9, Lookup 4,
       Delete 9, Lookup 9, Delete 9]
   = Some ([(0, None), (0, None), (1, None), (0, Some 7), (0, Some 8), (0, None), (-1, None), (1, None)], l')
   \<and> sl_abs l' = [4 \<mapsto> 6]"
proof -
  let ?cs = "[Insert (Some 7, True) (9::ulong) (5::nat), Insert (Some 8, False) 4 6, Insert (Some 9, False) 9 1, Lookup 9, Lookup 4,
       Delete 9, Lookup 9, Delete 9]"
  have ok: "allocs_ok sl_alloc_ok sl_look drmSLInsert drmSLDelete (drmSLCreate 1 None 0) ?cs" by code_simp
  have run: "map_run (-1) (\<lambda>m v. (the (fst m), v)) fst Map.empty ?cs
      = ([(0, None), (0, None), (1, None), (0, Some 7), (0, Some 8), (0, None), (-1, None), (1, None)], [4 \<mapsto> (8, 6)])"
    by (simp add: Let_def fun_eq_iff)
  have abs: "(\<lambda>k. map_option snd ([4 \<mapsto> (8::addr, 6)] k)) = [4 \<mapsto> (6::nat)]" by (simp add: fun_eq_iff)
  obtain rs l' f where l': "exec_run sl_look drmSLInsert drmSLDelete (drmSLCreate 1 None 0) ?cs = Some (rs, l')"
      "([(0, None), (0, None), (1, None), (0, Some 7), (0, Some 8), (0, None), (-1, None), (1, None)], [4 \<mapsto> (8::addr, 6::nat)]) = (rs, f)"
      "sl_abs l' = (\<lambda>k. map_option snd (f k))"
    using drmSL_refines_map [OF ok] unfolding run by blast
  have "f = [4 \<mapsto> (8, 6)]" using l'(2) by simp
  then have "sl_abs l' = [4 \<mapsto> 6]" using l'(3) abs by simp
  then show ?thesis using l'(1,2) by blast
qed

text \<open>C25. Every operation on a well-formed list returns: no walk runs for ever or through a null or
  freed pointer. An insertion of a new key puts the pair in its place in the order of the keys; an insertion
  of a key that is there changes nothing; a deletion takes out the pair of the key only; a look-up answers 0
  exactly for the keys of the list, and then with the address of the entry that holds the value.\<close>

theorem drmSL_operations_return:
  assumes "sl_invar l" and "sl_alloc_ok l m"
  shows "let there = k \<in> fst ` set (sl_list l) in
    (\<exists>l'. drmSLInsert m l k v = Some (if there then 1 else 0, l') \<and> sl_invar l'
           \<and> sl_list l' = (if there then sl_list l
                else filter (\<lambda>(c, _). c < k) (sl_list l) @ (k, v) # filter (\<lambda>(c, _). \<not> c < k) (sl_list l)))
    \<and> (\<exists>l'. drmSLDelete l k = Some (if there then 0 else 1, l') \<and> sl_invar l'
           \<and> sl_list l' = filter (\<lambda>(c, _). c \<noteq> k) (sl_list l))
    \<and> (\<exists>x. drmSLLookup l k = Some (if there then (0, Some x) else (-1, None))
           \<and> (there \<longrightarrow> (\<exists>e. sl_mem l x = Some e \<and> map_of (sl_list l) k = Some (e_value e))))
    \<and> sorted_wrt (<) (map fst (sl_list l)) \<and> sl_count l = int (length (sl_list l))"
proof -
  obtain as where rep: "sl_rep l as" using assms(1) by (auto simp: sl_invar_def)
  define there where "there \<longleftrightarrow> k \<in> fst ` set (sl_list l)"
  then have there: "there \<longleftrightarrow> sl_abs l k \<noteq> None" by (simp add: sl_abs_fresh)
  have "\<exists>l'. drmSLInsert m l k v = Some (if there then 1 else 0, l') \<and> sl_invar l'
           \<and> sl_list l' = (if there then sl_list l
                else filter (\<lambda>(c, _). c < k) (sl_list l) @ (k, v) # filter (\<lambda>(c, _). \<not> c < k) (sl_list l))"
    using sl_ins_result [OF assms(1,2), of k v] there by auto
  moreover have "\<exists>l'. drmSLDelete l k = Some (if there then 0 else 1, l') \<and> sl_invar l'
           \<and> sl_list l' = filter (\<lambda>(c, _). c \<noteq> k) (sl_list l)"
    using sl_del_result [OF assms(1), of k] there by auto
  moreover have "\<exists>x. drmSLLookup l k = Some (if there then (0, Some x) else (-1, None))
           \<and> (there \<longrightarrow> (\<exists>e. sl_mem l x = Some e \<and> map_of (sl_list l) k = Some (e_value e)))"
    using sl_look_result [OF assms(1), of k] sl_binds_abs_None [OF assms(1), of k] there
    by (cases "sl_binds l k") (fastforce simp: sl_abs_def)+
  moreover have "sorted_wrt (<) (map fst (sl_list l)) \<and> sl_count l = int (length (sl_list l))"
    using sl_rep_keys(1,4) [OF rep] rep by (simp add: sl_rep_def Let_def)
  ultimately show ?thesis unfolding there_def Let_def by blast
qed

theorem drmSL_operations_return_witness:
  "\<exists>l'. drmSLInsert (Some 200, True) (drmSLCreate 100 None 0) 5 (7::nat) = Some (0, l') \<and> sl_list l' = [(5, 7)]"
proof -
  have "sl_alloc_ok (drmSLCreate 100 None (0::nat)) (Some 200, True)" by code_simp
  from drmSL_operations_return [OF sl_invarI [OF drmSLCreate_rep] this, of 5 7] show ?thesis by (auto simp: Let_def)
qed

text \<open>Walking a well-formed list with \<^verbatim>\<open>drmSLFirst\<close> and \<^verbatim>\<open>drmSLNext\<close> comes to an
  end and visits every pair once, in the order of the keys; \<^verbatim>\<open>drmSLDestroy\<close> succeeds and frees
  the head and every entry exactly once; and \<^verbatim>\<open>drmSLLookupNeighbors\<close> reports the first pair
  whose key is not below the one asked for, if there is one, and the last pair below it, or the head, which is no pair of the list.\<close>

theorem drmSL_traversals:
  assumes "sl_invar l"
  shows "sl_drain (drmSLFirst l) = Some (sl_list l)
    \<and> (\<exists>freed. drmSLDestroy l = Some (0, freed) \<and> distinct freed \<and> set freed = dom (sl_mem l))
    \<and> (let lo = filter (\<lambda>(c, _). c < k) (sl_list l); hi = filter (\<lambda>(c, _). \<not> c < k) (sl_list l);
           head = the (sl_mem l (sl_head l));
           prev = (if lo = [] then (e_key head, e_value head) else last lo)
       in drmSLLookupNeighbors l k = Some (if hi = [] then (1, Some prev, None) else (2, Some prev, Some (hd hi))))"
proof -
  obtain as where rep: "sl_rep l as" using assms by (auto simp: sl_invar_def)
  have c: "sl_chain (sl_mem l) 0 (sl_head l) as" and d: "set (sl_head l # as) = dom (sl_mem l)"
      "distinct (sl_head l # as)" and magic: "sl_magic l = SL_LIST_MAGIC"
      "\<forall>a \<in> set (sl_head l # as). e_magic (the (sl_mem l a)) = SL_ENTRY_MAGIC"
    using sl_rep_level0 [OF rep] rep by (auto simp: sl_rep_def Let_def)
  have "drmSLFirst l = drmSLNext (l\<lparr>sl_p0 := hd_opt as\<rparr>)"
    using magic(1) sl_chain_fwd [OF c] by (simp add: drmSLFirst_def)
  then have "sl_drain (drmSLFirst l) = Some (sl_list l)"
    using sl_drain_chain [OF c _ magic(1)] d(1) sl_rep_list [OF rep] by auto
  moreover have "drmSLDestroy l = Some (0, sl_head l # as)"
    using sl_destroy_chain [OF c d(2) equalityD1 [OF d(1)] magic(2), of "[]"] magic(1) by (simp add: drmSLDestroy_def)
  moreover have "(let p = sl_pred l as k 0 in (skey (sl_mem l) p, sval (sl_mem l) p))
      = (if filter (\<lambda>(c, _). c < k) (sl_list l) = []
         then (e_key (the (sl_mem l (sl_head l))), e_value (the (sl_mem l (sl_head l))))
         else last (filter (\<lambda>(c, _). c < k) (sl_list l)))"
  proof -
    have "filter (\<lambda>a. 0 < slev (sl_mem l) a) (filter (\<lambda>a. skey (sl_mem l) a < k) as) = filter (\<lambda>a. skey (sl_mem l) a < k) as"
      using rep by (intro filter_True) (fastforce simp: sl_rep_def Let_def)
    then show ?thesis
      by (simp add: sl_pred_def sl_rep_list [OF rep] filter_map o_def last_map sl_fields Let_def)
  qed
  ultimately show ?thesis
    using drmSLLookupNeighbors_spec [OF rep, of k] d
    by (auto simp: Let_def neq_Nil_conv split: list.splits)
qed

theorem drmSL_traversals_witness:
  "\<exists>l'. drmSLInsert (Some 200, True) (drmSLCreate 100 None 0) 5 (7::nat) = Some (0, l')
     \<and> sl_drain (drmSLFirst l') = Some [(5, 7)]"
proof -
  have "sl_alloc_ok (drmSLCreate 100 None (0::nat)) (Some 200, True)" by code_simp
  from sl_ins_result [OF sl_invarI [OF drmSLCreate_rep] this, of 5 7] obtain l' where
    l': "drmSLInsert (Some 200, True) (drmSLCreate 100 None 0) 5 (7::nat) = Some (0, l')" "sl_invar l'" "sl_list l' = [(5, 7)]"
    by (auto simp: sl_abs_def)
  then show ?thesis using drmSL_traversals [OF l'(2)] by simp
qed

end
