(* ===== verification/Range_Alloc.thy ===== *)
theory Range_Alloc
  imports Prelude
begin

text \<open>
  The contract shared by the allocators of address ranges in libdrm (\<^verbatim>\<open>amdgpu_vamgr.c\<close>,
  \<^verbatim>\<open>intel/mm.c\<close>): an invariant, the set of free addresses a state stands for, an
  allocation and a release. What a client holds is a token; \<open>rng\<close> gives the addresses it
  stands for, \<open>live_ok\<close> says that a state takes the token back. The client lemma is about any sequence of
  allocations and releases, and is proved once here.
\<close>

datatype 'q ra_cmd = RAlloc 'q | RFree nat

text \<open>A client keeps the tokens it was given; it releases one by its position.\<close>

fun ra_step ::
  "('q \<Rightarrow> 's \<Rightarrow> 'r option \<times> 's) \<Rightarrow> ('r \<Rightarrow> 's \<Rightarrow> 's) \<Rightarrow> 's \<times> 'r list \<Rightarrow> 'q ra_cmd \<Rightarrow> 's \<times> 'r list" where
  "ra_step alloc release (s, live) (RAlloc q) =
     (case alloc q s of (None, s') \<Rightarrow> (s', live) | (Some r, s') \<Rightarrow> (s', r # live))"
| "ra_step alloc release (s, live) (RFree i) =
     (if i < length live then (release (live ! i) s, take i live @ drop (Suc i) live) else (s, live))"

fun ra_run ::
  "('q \<Rightarrow> 's \<Rightarrow> 'r option \<times> 's) \<Rightarrow> ('r \<Rightarrow> 's \<Rightarrow> 's) \<Rightarrow> 's \<times> 'r list \<Rightarrow> 'q ra_cmd list \<Rightarrow> 's \<times> 'r list" where
  "ra_run alloc release c [] = c"
| "ra_run alloc release c (x # xs) = ra_run alloc release (ra_step alloc release c x) xs"

text \<open>Every request of a run is one the contract covers.\<close>

fun ra_ok ::
  "('s \<Rightarrow> 'q \<Rightarrow> bool) \<Rightarrow> ('q \<Rightarrow> 's \<Rightarrow> 'r option \<times> 's) \<Rightarrow> ('r \<Rightarrow> 's \<Rightarrow> 's) \<Rightarrow> 's \<times> 'r list \<Rightarrow> 'q ra_cmd list \<Rightarrow> bool" where
  "ra_ok req_ok alloc release c [] = True"
| "ra_ok req_ok alloc release c (x # xs) =
     ((case x of RAlloc q \<Rightarrow> req_ok (fst c) q | RFree _ \<Rightarrow> True)
      \<and> ra_ok req_ok alloc release (ra_step alloc release c x) xs)"

locale range_alloc =
  fixes invar :: "'s \<Rightarrow> bool"
    and free :: "'s \<Rightarrow> 'p set"
    and rng :: "'r \<Rightarrow> 'p set"
    and alloc :: "'q \<Rightarrow> 's \<Rightarrow> 'r option \<times> 's"
    and release :: "'r \<Rightarrow> 's \<Rightarrow> 's"
    and req_ok :: "'s \<Rightarrow> 'q \<Rightarrow> bool"
    and live_ok :: "'s \<Rightarrow> 'r \<Rightarrow> bool"
  assumes alloc_invar: "invar s \<Longrightarrow> req_ok s q \<Longrightarrow> alloc q s = (x, s') \<Longrightarrow> invar s'"
    and alloc_some: "invar s \<Longrightarrow> req_ok s q \<Longrightarrow> alloc q s = (Some r, s') \<Longrightarrow>
          rng r \<noteq> {} \<and> rng r \<subseteq> free s \<and> free s' = free s - rng r \<and> live_ok s' r"
    and alloc_none: "invar s \<Longrightarrow> req_ok s q \<Longrightarrow> alloc q s = (None, s') \<Longrightarrow> free s' = free s"
    and alloc_keeps: "invar s \<Longrightarrow> req_ok s q \<Longrightarrow> alloc q s = (x, s') \<Longrightarrow> live_ok s r \<Longrightarrow> rng r \<inter> free s = {} \<Longrightarrow> live_ok s' r"
    and release_free: "invar s \<Longrightarrow> live_ok s r \<Longrightarrow> rng r \<inter> free s = {} \<Longrightarrow>
          invar (release r s) \<and> free (release r s) = free s \<union> rng r"
    and release_keeps: "invar s \<Longrightarrow> live_ok s r \<Longrightarrow> live_ok s r' \<Longrightarrow> rng r \<inter> free s = {} \<Longrightarrow> rng r \<inter> rng r' = {} \<Longrightarrow> live_ok (release r s) r'"
begin

text \<open>The free addresses and the ranges the client holds are a partition of the space \<open>F\<close>.\<close>

definition parts :: "'p set \<Rightarrow> 's \<times> 'r list \<Rightarrow> bool" where
  "parts F c \<longleftrightarrow> invar (fst c) \<and> (\<forall>r \<in> set (snd c). live_ok (fst c) r \<and> rng r \<noteq> {} \<and> rng r \<inter> free (fst c) = {})
     \<and> sorted_wrt (\<lambda>r r'. rng r \<inter> rng r' = {}) (snd c)
     \<and> free (fst c) \<union> (\<Union>r \<in> set (snd c). rng r) = F"

lemma parts_alloc:
  assumes "parts F (s, live)" and "req_ok s q"
  shows "parts F (ra_step alloc release (s, live) (RAlloc q))"
proof -
  obtain x s' where a: "alloc q s = (x, s')" by (cases "alloc q s")
  have i: "invar s" using assms(1) by (simp add: parts_def)
  note laws = alloc_invar [OF i assms(2) a] alloc_keeps [OF i assms(2) a]
  show ?thesis
  proof (cases x)
    case None
    then show ?thesis using assms(1) laws alloc_none [OF i assms(2)] a by (simp add: parts_def)
  next
    case (Some r)
    then have r: "rng r \<noteq> {}" "rng r \<subseteq> free s" "free s' = free s - rng r" "live_ok s' r"
      using alloc_some [OF i assms(2)] a by auto
    then have "free s' \<union> (\<Union>r \<in> set (r # live). rng r) = F" using assms(1) by (auto simp: parts_def)
    moreover have "rng r \<inter> rng r' = {}" if "r' \<in> set live" for r' using that assms(1) r(2) by (auto simp: parts_def)
    ultimately show ?thesis using assms(1) laws r a Some by (auto simp: parts_def)
  qed
qed

lemma parts_free:
  assumes "parts F (s, live)"
  shows "parts F (ra_step alloc release (s, live) (RFree i))"
proof (cases "i < length live")
  case True
  define r pre post where "r = live ! i" and "pre = take i live" and "post = drop (Suc i) live"
  have live: "live = pre @ r # post" using id_take_nth_drop [OF True] by (simp add: r_def pre_def post_def)
  have s: "invar s" "live_ok s r" "rng r \<inter> free s = {}" using assms by (auto simp: parts_def live)
  have d: "rng r \<inter> rng r' = {}" if "r' \<in> set (pre @ post)" for r'
    using that assms by (auto simp: parts_def live sorted_wrt_append Int_commute)
  have rel: "invar (release r s)" "free (release r s) = free s \<union> rng r" using release_free [OF s] by simp_all
  have "parts F (release r s, pre @ post)"
    unfolding parts_def fst_conv snd_conv
  proof (intro conjI)
    show "\<forall>a \<in> set (pre @ post). live_ok (release r s) a \<and> rng a \<noteq> {} \<and> rng a \<inter> free (release r s) = {}"
    proof
      fix a assume a: "a \<in> set (pre @ post)"
      then have "live_ok s a" "rng a \<noteq> {}" "rng a \<inter> free s = {}" using assms by (auto simp: parts_def live)
      then show "live_ok (release r s) a \<and> rng a \<noteq> {} \<and> rng a \<inter> free (release r s) = {}"
        using release_keeps [OF s(1,2) _ s(3) d [OF a]] d [OF a] rel by auto
    qed
    show "sorted_wrt (\<lambda>r r'. rng r \<inter> rng r' = {}) (pre @ post)"
      using assms by (auto simp: parts_def live sorted_wrt_append)
    show "free (release r s) \<union> (\<Union>a \<in> set (pre @ post). rng a) = F"
      using assms rel by (auto simp: parts_def live)
  qed (rule rel(1))
  then show ?thesis using True by (simp add: r_def pre_def post_def)
qed (use assms in simp)

lemma parts_run:
  "parts F c \<Longrightarrow> ra_ok req_ok alloc release c xs \<Longrightarrow> parts F (ra_run alloc release c xs)"
proof (induction xs arbitrary: c)
  case (Cons x xs)
  obtain s live where c: "c = (s, live)" by (cases c)
  have "parts F (ra_step alloc release c x)"
    using Cons.prems parts_alloc parts_free unfolding c by (cases x) auto
  then show ?case using Cons.IH Cons.prems(2) by simp
qed simp

lemma run_partition:
  assumes "invar s" and "ra_ok req_ok alloc release (s, []) xs" and "ra_run alloc release (s, []) xs = (s', live)"
  shows "invar s' \<and> free s' \<union> (\<Union>r \<in> set live. rng r) = free s
    \<and> (\<forall>r \<in> set live. rng r \<noteq> {} \<and> rng r \<inter> free s' = {}) \<and> sorted_wrt (\<lambda>r r'. rng r \<inter> rng r' = {}) live"
proof -
  have "parts (free s) (s, [])" using assms(1) by (simp add: parts_def)
  from parts_run [OF this assms(2)] show ?thesis by (simp add: assms(3) parts_def)
qed

end

end
