(* ===== verification/Amdgpu_Vamgr.thy ===== *)
theory Amdgpu_Vamgr
  imports Range_Alloc
begin

text \<open>
  The manager of GPU virtual addresses of \<^verbatim>\<open>hals/display/libdrm/amdgpu/amdgpu_vamgr.c\<close>: lists of
  holes kept in descending order, the search that takes a range out of the holes, the release that
  merges it back, and the calls of a device with its four managers. Addresses
  and sizes are 64-bit words with the wrap-around of the C code; the specification is the set of
  free addresses. \<open>None\<close> is a write through the null pointer of a failed \<^verbatim>\<open>calloc\<close>.
  The mutexes are taken and released inside each call and are left out.
\<close>

section \<open>Data\<close>

definition AMDGPU_INVALID_VA_ADDRESS :: u64 where "AMDGPU_INVALID_VA_ADDRESS = 0xffffffffffffffff"

record va_hole =
  h_offset :: u64
  h_size :: u64

record va_mgr =
  va_max :: u64
  va_holes :: "va_hole list"
  va_alignment :: u32

section \<open>The hole list\<close>

definition va_align :: "va_mgr \<Rightarrow> u64 \<Rightarrow> u64" where
  "va_align mgr sz = align_mask sz (ucast (va_alignment mgr - 1))"

definition amdgpu_vamgr_init :: "bool \<Rightarrow> u64 \<Rightarrow> u64 \<Rightarrow> u64 \<Rightarrow> va_mgr option" where
  "amdgpu_vamgr_init mem start vmax alignment =
     (if mem then Some \<lparr>va_max = vmax, va_holes = [\<lparr>h_offset = start, h_size = vmax - start\<rparr>],
                        va_alignment = ucast alignment\<rparr>
      else None)"

definition amdgpu_vamgr_deinit :: "va_mgr \<Rightarrow> va_mgr" where
  "amdgpu_vamgr_deinit mgr = mgr\<lparr>va_holes := []\<rparr>"

text \<open>The body of the search for one hole: go on with the next one, or return an address, with what is
  left of the hole in ascending order.\<close>

datatype va_try_result = Continue | Null_Write | Found u64 "va_hole list"

definition va_take :: "bool \<Rightarrow> u64 \<Rightarrow> u64 \<Rightarrow> u64 \<Rightarrow> va_hole \<Rightarrow> va_try_result" where
  "va_take mem sz offset waste hole =
     (if waste = 0 \<and> h_size hole = sz then Found (h_offset hole) []
      else if h_size hole - waste > sz then
        if waste \<noteq> 0 \<and> \<not> mem then Null_Write
        else Found offset
          ((if waste \<noteq> 0 then [\<lparr>h_offset = h_offset hole, h_size = waste\<rparr>] else [])
           @ [hole\<lparr>h_size := h_size hole - (sz + waste), h_offset := h_offset hole + (sz + waste)\<rparr>])
      else if h_size hole - waste = sz then Found offset [hole\<lparr>h_size := waste\<rparr>]
      else Continue)"

definition va_try :: "bool \<Rightarrow> u64 \<Rightarrow> u64 \<Rightarrow> u64 \<Rightarrow> va_hole \<Rightarrow> va_try_result" where
  "va_try mem sz alignment base hole =
     (if base \<noteq> 0 then
        if h_offset hole > base \<or> h_offset hole + h_size hole < base + sz then Continue
        else va_take mem sz base (base - h_offset hole) hole
      else
        let w = h_offset hole mod alignment;
            waste = (if w \<noteq> 0 then alignment - w else 0);
            offset = h_offset hole + waste
        in if offset \<ge> h_offset hole + h_size hole then Continue
           else va_take mem sz offset waste hole)"

text \<open>The loop, from the last element of the list backwards: the argument is the reversed list.\<close>

fun va_find_loop :: "bool \<Rightarrow> u64 \<Rightarrow> u64 \<Rightarrow> u64 \<Rightarrow> va_hole list \<Rightarrow> (u64 \<times> va_hole list) option" where
  "va_find_loop mem sz alignment base [] = Some (AMDGPU_INVALID_VA_ADDRESS, [])"
| "va_find_loop mem sz alignment base (hole # hs) =
     (case va_try mem sz alignment base hole of
        Continue \<Rightarrow>
          (case va_find_loop mem sz alignment base hs of
             None \<Rightarrow> None | Some (a, hs') \<Rightarrow> Some (a, hole # hs'))
      | Null_Write \<Rightarrow> None
      | Found a ps \<Rightarrow> Some (a, ps @ hs))"

definition amdgpu_vamgr_find_va :: "bool \<Rightarrow> va_mgr \<Rightarrow> u64 \<Rightarrow> u64 \<Rightarrow> u64 \<Rightarrow> (u64 \<times> va_mgr) option" where
  "amdgpu_vamgr_find_va mem mgr sz alignment base_required =
     (let alignment = MAX2 alignment (ucast (va_alignment mgr));
          sz = va_align mgr sz
      in if base_required mod alignment \<noteq> 0 then Some (AMDGPU_INVALID_VA_ADDRESS, mgr)
         else (case va_find_loop mem sz alignment base_required (rev (va_holes mgr)) of
                 None \<Rightarrow> None
               | Some (a, hs) \<Rightarrow> Some (a, mgr\<lparr>va_holes := rev hs\<rparr>)))"

text \<open>The release: \<open>ups\<close> are the holes the loop passes, the last of them is \<^verbatim>\<open>hole\<close> (the list head
  when there is none), the first of \<open>lows\<close> is \<^verbatim>\<open>next\<close>.\<close>

definition va_lower_adjacent :: "u64 \<Rightarrow> va_hole list \<Rightarrow> bool" where
  "va_lower_adjacent va lows = (case lows of [] \<Rightarrow> False | next # _ \<Rightarrow> h_offset next + h_size next = va)"

definition va_grow_hd :: "u64 \<Rightarrow> va_hole list \<Rightarrow> va_hole list" where
  "va_grow_hd sz lows = (case lows of [] \<Rightarrow> [] | next # rest \<Rightarrow> next\<lparr>h_size := h_size next + sz\<rparr> # rest)"

definition va_insert :: "bool \<Rightarrow> u64 \<Rightarrow> u64 \<Rightarrow> va_hole list \<Rightarrow> va_hole list" where
  "va_insert mem va sz hs =
     (let ups = takeWhile (\<lambda>h. \<not> h_offset h < va) hs;
          lows = dropWhile (\<lambda>h. \<not> h_offset h < va) hs
      in if ups \<noteq> [] \<and> h_offset (last ups) = va + sz then
           let hole = (last ups)\<lparr>h_offset := va, h_size := h_size (last ups) + sz\<rparr>
           in if va_lower_adjacent va lows then butlast ups @ va_grow_hd (h_size hole) lows
              else butlast ups @ hole # lows
         else if va_lower_adjacent va lows then ups @ va_grow_hd sz lows
         else if mem then ups @ \<lparr>h_offset = va, h_size = sz\<rparr> # lows
         else hs)"

definition amdgpu_vamgr_free_va :: "bool \<Rightarrow> va_mgr \<Rightarrow> u64 \<Rightarrow> u64 \<Rightarrow> va_mgr" where
  "amdgpu_vamgr_free_va mem mgr va sz =
     (if va = AMDGPU_INVALID_VA_ADDRESS then mgr
      else mgr\<lparr>va_holes := va_insert mem va (va_align mgr sz) (va_holes mgr)\<rparr>)"

section \<open>The calls of a device\<close>

text \<open>The four managers of a device; a handle names the one its range comes from.\<close>

datatype va_space = Low | Low_32 | High | High_32

type_synonym va_dev = "va_space \<Rightarrow> va_mgr"


record va_dev_info =
  virtual_address_offset :: u64
  virtual_address_max :: u64
  virtual_address_alignment :: u32
  high_va_offset :: u64
  high_va_max :: u64

definition MIN2 :: "'a::linorder \<Rightarrow> 'a \<Rightarrow> 'a" where
  "MIN2 A B = (if A < B then A else B)"

definition amdgpu_va_range_query :: "va_dev_info \<Rightarrow> nat \<Rightarrow> int \<times> (u64 \<times> u64) option" where
  "amdgpu_va_range_query info type =
     (if type \<noteq> 0 then (- EINVAL, None) else (0, Some (virtual_address_offset info, virtual_address_max info)))"

text \<open>The part of \<^verbatim>\<open>amdgpu_device_initialize\<close> that sets up the managers.\<close>

definition va_dev_init :: "bool \<Rightarrow> va_dev_info \<Rightarrow> va_dev option" where
  "va_dev_init mem info =
     (let al = ucast (virtual_address_alignment info) :: u64;
          start1 = virtual_address_offset info;
          max1 = MIN2 (virtual_address_max info) 0x100000000;
          start2 = max1;
          max2 = MAX2 (virtual_address_max info) 0x100000000;
          start3 = high_va_offset info;
          max3 = MIN2 (high_va_max info) ((start3 AND NOT 0xffffffff) + 0x100000000);
          start4 = max3;
          max4 = MAX2 (high_va_max info) ((start4 AND NOT 0xffffffff) + 0x100000000)
      in (case amdgpu_vamgr_init mem start1 max1 al of None \<Rightarrow> None | Some m32 \<Rightarrow>
         (case amdgpu_vamgr_init mem start2 max2 al of None \<Rightarrow> None | Some m \<Rightarrow>
         (case amdgpu_vamgr_init mem start3 max3 al of None \<Rightarrow> None | Some h32 \<Rightarrow>
         (case amdgpu_vamgr_init mem start4 max4 al of None \<Rightarrow> None | Some h \<Rightarrow>
            Some (\<lambda>s. case s of Low \<Rightarrow> m | Low_32 \<Rightarrow> m32 | High \<Rightarrow> h | High_32 \<Rightarrow> h32))))))"





section \<open>The free addresses\<close>

definition ho :: "va_hole \<Rightarrow> nat" where "ho h = unat (h_offset h)"
definition hs :: "va_hole \<Rightarrow> nat" where "hs h = unat (h_size h)"
definition hrng :: "va_hole \<Rightarrow> nat set" where "hrng h = {ho h ..< ho h + hs h}"
definition mk_hole :: "nat \<Rightarrow> nat \<Rightarrow> va_hole" where
  "mk_hole a n = \<lparr>h_offset = of_nat a, h_size = of_nat n\<rparr>"

lemmas hole_defs = ho_def hs_def

lemma mk_hole_fields: "a < 2 ^ 64 \<Longrightarrow> ho (mk_hole a n) = a" "n < 2 ^ 64 \<Longrightarrow> hs (mk_hole a n) = n"
  by (simp_all add: hole_defs mk_hole_def unat_of_nat)


lemma mk_hole_of: "mk_hole (ho h) (hs h) = h"
  by (simp add: mk_hole_def hole_defs)

text \<open>Holes in ascending order, none empty, none touching the next.\<close>

definition holes_ok :: "nat \<Rightarrow> va_hole list \<Rightarrow> bool" where
  "holes_ok mx xs \<longleftrightarrow> sorted_wrt (\<lambda>a b. ho a + hs a < ho b) xs \<and> (\<forall>h \<in> set xs. 0 < hs h \<and> ho h + hs h \<le> mx)"

definition holes_set :: "va_hole list \<Rightarrow> nat set" where
  "holes_set xs = (\<Union>h \<in> set xs. hrng h)"

lemma holes_ok_append:
  "holes_ok mx (xs @ ys) \<longleftrightarrow> holes_ok mx xs \<and> holes_ok mx ys \<and> (\<forall>a \<in> set xs. \<forall>b \<in> set ys. ho a + hs a < ho b)"
  by (auto simp: holes_ok_def sorted_wrt_append)

lemma holes_ok_Cons:
  "holes_ok mx (h # ys) \<longleftrightarrow> 0 < hs h \<and> ho h + hs h \<le> mx \<and> holes_ok mx ys \<and> (\<forall>b \<in> set ys. ho h + hs h < ho b)"
  by (auto simp: holes_ok_def)

lemma holes_ok_Nil [simp]: "holes_ok mx []"
  by (simp add: holes_ok_def)

lemma holes_set_simps [simp]:
  "holes_set [] = {}" "holes_set (h # xs) = hrng h \<union> holes_set xs" "holes_set (xs @ ys) = holes_set xs \<union> holes_set ys"
  "holes_set (rev xs) = holes_set xs"
  by (auto simp: holes_set_def)

lemma holes_ok_le: "holes_ok mx xs \<Longrightarrow> a \<in> holes_set xs \<Longrightarrow> a < mx"
  by (force simp: holes_ok_def holes_set_def hrng_def)

text \<open>A range of free addresses lies in one hole.\<close>

lemma holes_contiguous:
  assumes "holes_ok mx xs" "0 < n" "{b ..< b + n} \<subseteq> holes_set xs"
  shows "\<exists>h \<in> set xs. ho h \<le> b \<and> b + n \<le> ho h + hs h"
proof -
  have "b \<in> holes_set xs" using assms(2,3) by auto
  then obtain h where h: "h \<in> set xs" "ho h \<le> b" "b < ho h + hs h" by (auto simp: holes_set_def hrng_def)
  have "b + n \<le> ho h + hs h"
  proof (rule ccontr)
    let ?x = "ho h + hs h"
    assume "\<not> b + n \<le> ?x"
    then have "?x \<in> holes_set xs" using assms(3) h by auto
    then obtain g where g: "g \<in> set xs" "ho g \<le> ?x" "?x < ho g + hs g" by (auto simp: holes_set_def hrng_def)
    have "g = h \<or> ho g + hs g < ho h \<or> ho h + hs h < ho g"
      using assms(1) h(1) g(1) unfolding holes_ok_def in_set_conv_nth
      by (metis (mono_tags, lifting) linorder_neqE_nat sorted_wrt_nth_less)
    then show False using g h by auto
  qed
  then show ?thesis using h by blast
qed


section \<open>Taking a range out of a hole\<close>

text \<open>What is left of a hole when \<open>n\<close> addresses from \<open>c\<close> on are taken out.\<close>

definition hole_rest :: "va_hole \<Rightarrow> nat \<Rightarrow> nat \<Rightarrow> va_hole list" where
  "hole_rest h c n =
     (if ho h < c then [mk_hole (ho h) (c - ho h)] else [])
     @ (if c + n < ho h + hs h then [mk_hole (c + n) (ho h + hs h - (c + n))] else [])"

lemma hole_rest_ok:
  assumes "0 < n" "ho h \<le> c" "c + n \<le> ho h + hs h" "ho h + hs h \<le> mx" "mx < 2 ^ 64"
  shows "holes_ok mx (hole_rest h c n)" "holes_set (hole_rest h c n) = hrng h - {c ..< c + n}"
    "\<And>g. g \<in> set (hole_rest h c n) \<Longrightarrow> ho h \<le> ho g \<and> ho g + hs g \<le> ho h + hs h"
proof -
  show "holes_ok mx (hole_rest h c n)"
    using assms by (auto simp: hole_rest_def holes_ok_Cons mk_hole_fields)
  show "holes_set (hole_rest h c n) = hrng h - {c ..< c + n}"
    using assms by (auto simp: hole_rest_def hrng_def mk_hole_fields)
  show "ho h \<le> ho g \<and> ho g + hs g \<le> ho h + hs h" if "g \<in> set (hole_rest h c n)" for g
    using that assms by (auto simp: hole_rest_def mk_hole_fields split: if_splits)
qed

lemma round_up_add: "0 < a \<Longrightarrow> round_up v a = v + (if v mod a = 0 then 0 else a - v mod a)"
proof -
  assume a: "0 < a"
  show ?thesis
  proof (cases "v mod a = 0")
    case True
    then show ?thesis using a by (simp add: mod_eq_0_iff_dvd)
  next
    case False
    then have "v + a - 1 = (v mod a - 1) + (v div a + 1) * a"
      using div_mult_mod_eq [of v a] a unfolding add_mult_distrib by linarith
    moreover have "v mod a - 1 < a" using a by (simp add: less_imp_diff_less)
    ultimately have "(v + a - 1) div a = v div a + 1" using a by (simp only: div_mult_self1) simp
    then have "round_up v a = v div a * a + a" by (simp add: round_up_def)
    also have "\<dots> = v + (a - v mod a)" using a div_mult_mod_eq [of v a] mod_less_divisor [OF a, of v] by linarith
    finally show ?thesis using False by simp
  qed
qed

lemma round_up_least: "0 < a \<Longrightarrow> a dvd x \<Longrightarrow> v \<le> x \<Longrightarrow> round_up v a \<le> x"
proof -
  assume a: "0 < a" and "a dvd x" "v \<le> x"
  then obtain k where "x = k * a" by (auto elim: dvdE simp: mult.commute)
  moreover have "(v + a - 1) div a \<le> (x + a - 1) div a" using \<open>v \<le> x\<close> by (intro div_le_mono) simp
  moreover have "(k * a + a - 1) div a = k"
  proof -
    have "k * a + a - 1 = (a - 1) + k * a" using a by simp
    then show ?thesis using a by (simp only: div_mult_self1) simp
  qed
  ultimately show ?thesis using a by (simp add: round_up_def)
qed

lemma va_take_spec:
  assumes "0 < unat n" "ho h \<le> c" "c < ho h + hs h" "ho h + hs h < 2 ^ 64" "unat waste = c - ho h" "unat off = c"
  shows "va_take mem n off waste h =
     (if c + unat n \<le> ho h + hs h
      then if \<not> mem \<and> ho h < c \<and> c + unat n < ho h + hs h then Null_Write else Found (of_nat c) (hole_rest h c (unat n))
      else Continue)"
proof -
  have off: "off = of_nat c" using assms(6) by auto
  have w: "waste = of_nat (c - ho h)" unfolding assms(5) [symmetric] by simp
  have w0: "waste = 0 \<longleftrightarrow> c = ho h" using assms(2,5) by (metis diff_is_0_eq le_antisym order_refl unat_0 unat_eq_zero)
  have sub: "unat (h_size h - waste) = ho h + hs h - c"
  proof -
    have "waste \<le> h_size h" using assms by (simp add: word_le_nat_alt hole_defs)
    then show ?thesis using assms by (simp add: unat_sub hole_defs)
  qed
  have hoff: "h_offset h = of_nat (ho h)" and hsz: "h_size h = of_nat (hs h)" by (simp_all add: hole_defs)
  have gt: "n < h_size h - waste \<longleftrightarrow> c + unat n < ho h + hs h" using sub by (auto simp: word_less_nat_alt)
  have eq: "h_size h - waste = n \<longleftrightarrow> c + unat n = ho h + hs h" using sub assms(3) by (auto simp: word_unat_eq_iff)
  have all: "h_size h = n \<longleftrightarrow> hs h = unat n"
    by (auto simp: word_unat_eq_iff hole_defs)
  have rest: "h\<lparr>h_size := h_size h - (n + waste), h_offset := h_offset h + (n + waste)\<rparr> = mk_hole (c + unat n) (ho h + hs h - (c + unat n))"
    if "c + unat n < ho h + hs h"
  proof -
    have "h_size h - (n + waste) = of_nat (ho h + hs h - (c + unat n))"
      using that assms w hsz by (simp add: of_nat_diff algebra_simps)
    moreover have "h_offset h + (n + waste) = of_nat (c + unat n)"
      using assms w hoff by (simp add: of_nat_diff)
    ultimately show ?thesis by (cases h) (simp add: mk_hole_def)
  qed
  have left: "\<lparr>h_offset = h_offset h, h_size = waste\<rparr> = mk_hole (ho h) (c - ho h)"
      "h\<lparr>h_size := waste\<rparr> = mk_hole (ho h) (c - ho h)"
    using w by (cases h; simp add: mk_hole_def ho_def)+
  show ?thesis
    unfolding va_take_def all gt eq w0 left
    using rest off assms(2) hoff by (auto simp: hole_rest_def)
qed

section \<open>The search\<close>

text \<open>Where a request would go in a hole, and whether it fits there.\<close>

definition va_cand :: "nat \<Rightarrow> nat \<Rightarrow> va_hole \<Rightarrow> nat" where
  "va_cand al base h = (if base \<noteq> 0 then base else round_up (ho h) al)"

definition va_fit :: "nat \<Rightarrow> nat \<Rightarrow> nat \<Rightarrow> va_hole \<Rightarrow> bool" where
  "va_fit n al base h \<longleftrightarrow> ho h \<le> va_cand al base h \<and> va_cand al base h + n \<le> ho h + hs h"

lemma va_try_spec:
  assumes n: "0 < unat n" and al: "0 < unat al" and h: "ho h + hs h \<le> mx" "mx < 2 ^ 64"
    and wrap: "base \<noteq> 0 \<longrightarrow> unat base + unat n < 2 ^ 64" "base = 0 \<longrightarrow> mx + unat al \<le> 2 ^ 64"
  shows "va_try True n al base h =
     (if va_fit (unat n) (unat al) (unat base) h
      then Found (of_nat (va_cand (unat al) (unat base) h)) (hole_rest h (va_cand (unat al) (unat base) h) (unat n))
      else Continue)"
proof (cases "base = 0")
  case False
  have e: "unat (h_offset h + h_size h) = ho h + hs h" using h by (simp add: hole_defs unat_add_no_wrap)
  have b: "unat (base + n) = unat base + unat n" using wrap False by (simp add: unat_add_no_wrap)
  have b0: "unat base \<noteq> 0" using False by (simp add: unat_eq_zero)
  have skip: "(base < h_offset h \<or> h_offset h + h_size h < base + n) \<longleftrightarrow> \<not> va_fit (unat n) (unat al) (unat base) h"
    unfolding va_fit_def va_cand_def word_less_nat_alt e b using b0 by (auto simp: ho_def)
  show ?thesis
  proof (cases "va_fit (unat n) (unat al) (unat base) h")
    case True
    then have f: "ho h \<le> unat base" "unat base + unat n \<le> ho h + hs h" using b0 by (auto simp: va_fit_def va_cand_def)
    then have "unat (base - h_offset h) = unat base - ho h"
      by (simp add: unat_sub word_le_nat_alt ho_def)
    then show ?thesis
      using va_take_spec [OF n f(1) _ _ _ refl, of "base - h_offset h" True] f True False skip h n b0
      by (simp add: va_try_def va_cand_def)
  next
    case no: False
    then show ?thesis using skip False by (simp add: va_try_def)
  qed
next
  case True
  let ?c = "round_up (ho h) (unat al)"
  define w where "w = h_offset h mod al"
  define waste where "waste = (if w \<noteq> 0 then al - w else 0)"
  have w: "unat w = ho h mod unat al" by (simp add: w_def unat_mod ho_def)
  have c: "ho h \<le> ?c" "?c < ho h + unat al" using al round_up_ge round_up_less by auto
  have waste: "unat waste = ?c - ho h"
  proof -
    have "w \<le> al" using w al mod_less_divisor [OF al, of "ho h"] by (simp add: word_le_nat_alt)
    then show ?thesis using w al by (auto simp: waste_def round_up_add unat_sub unat_eq_zero)
  qed
  have off: "unat (h_offset h + waste) = ?c"
    using waste c h wrap True by (simp add: unat_add_no_wrap ho_def)
  have e: "unat (h_offset h + h_size h) = ho h + hs h" using h by (simp add: hole_defs unat_add_no_wrap)
  have "va_try True n al base h
      = (if ho h + hs h \<le> ?c then Continue else va_take True n (h_offset h + waste) waste h)"
    using True by (simp add: va_try_def Let_def w_def [symmetric] waste_def [symmetric] word_le_nat_alt off e)
  also have "\<dots> = (if ?c + unat n \<le> ho h + hs h then Found (of_nat ?c) (hole_rest h ?c (unat n)) else Continue)"
    using va_take_spec [OF n c(1) _ _ waste off, of True] h n by auto
  finally show ?thesis using True c by (simp add: va_fit_def va_cand_def)
qed

lemma va_find_loop_none:
  assumes "\<And>h. h \<in> set xs \<Longrightarrow> va_try mem n al base h = Continue"
  shows "va_find_loop mem n al base xs = Some (AMDGPU_INVALID_VA_ADDRESS, xs)"
  using assms by (induction xs) auto

lemma va_find_loop_some:
  assumes "\<And>h. h \<in> set pre \<Longrightarrow> va_try mem n al base h = Continue" "va_try mem n al base h = Found a ps"
  shows "va_find_loop mem n al base (pre @ h # post) = Some (a, pre @ ps @ post)"
  using assms by (induction pre) auto

text \<open>Taking a range out of a list of holes.\<close>

lemma holes_take:
  assumes "holes_ok mx (pre @ h # post)" "mx < 2 ^ 64" "0 < n" "ho h \<le> c" "c + n \<le> ho h + hs h"
  shows "holes_ok mx (pre @ hole_rest h c n @ post)"
    and "holes_set (pre @ hole_rest h c n @ post) = holes_set (pre @ h # post) - {c ..< c + n}"
    and "{c ..< c + n} \<subseteq> holes_set (pre @ h # post)"
proof -
  have h: "ho h + hs h \<le> mx" using assms(1) by (auto simp: holes_ok_append holes_ok_Cons)
  note rest = hole_rest_ok [OF assms(3-5) h assms(2)]
  show "holes_ok mx (pre @ hole_rest h c n @ post)"
    using assms(1) rest(1,3) by (fastforce simp: holes_ok_append holes_ok_Cons)
  have "holes_set pre \<inter> hrng h = {}" "holes_set post \<inter> hrng h = {}"
    using assms(1) by (fastforce simp: holes_ok_append holes_ok_Cons holes_set_def hrng_def)+
  moreover have sub: "{c ..< c + n} \<subseteq> hrng h" using assms by (auto simp: hrng_def)
  ultimately show "holes_set (pre @ hole_rest h c n @ post) = holes_set (pre @ h # post) - {c ..< c + n}"
    using rest(2) by auto
  show "{c ..< c + n} \<subseteq> holes_set (pre @ h # post)" using sub by auto
qed

text \<open>The search as a whole, in ascending order: the first hole that fits, or none.\<close>

lemma va_find_loop_spec:
  assumes bound: "\<And>h. h \<in> set xs \<Longrightarrow> ho h + hs h \<le> mx" and n: "0 < unat n" and al: "0 < unat al" and mx: "mx < 2 ^ 64"
    and wrap: "base \<noteq> 0 \<longrightarrow> unat base + unat n < 2 ^ 64" "base = 0 \<longrightarrow> mx + unat al \<le> 2 ^ 64"
  obtains (none) "va_find_loop True n al base xs = Some (AMDGPU_INVALID_VA_ADDRESS, xs)"
      "\<forall>h \<in> set xs. \<not> va_fit (unat n) (unat al) (unat base) h"
  | (some) pre h post where "xs = pre @ h # post" "\<forall>g \<in> set pre. \<not> va_fit (unat n) (unat al) (unat base) g"
      "va_fit (unat n) (unat al) (unat base) h"
      "va_find_loop True n al base xs = Some (of_nat (va_cand (unat al) (unat base) h),
          pre @ hole_rest h (va_cand (unat al) (unat base) h) (unat n) @ post)"
proof -
  let ?fit = "va_fit (unat n) (unat al) (unat base)"
  note each = va_try_spec [OF n al bound mx wrap]
  show thesis
  proof (cases "\<exists>h \<in> set xs. ?fit h")
    case False
    then show thesis using each by (intro none va_find_loop_none) auto
  next
    case True
    then obtain pre h post where xs: "xs = pre @ h # post" "?fit h" "\<forall>g \<in> set pre. \<not> ?fit g"
      using split_list_first_prop [of xs ?fit] by blast
    have "va_find_loop True n al base (pre @ h # post) = Some (of_nat (va_cand (unat al) (unat base) h),
          pre @ hole_rest h (va_cand (unat al) (unat base) h) (unat n) @ post)"
      using each xs by (intro va_find_loop_some) auto
    then show thesis using xs by (intro some) auto
  qed
qed

section \<open>The manager\<close>

text \<open>The alignment is a power of two, and the holes are in order; or there is a single empty hole, as
  \<^verbatim>\<open>amdgpu_vamgr_init\<close> makes it of an empty space.\<close>

definition vamgr_ok :: "va_mgr \<Rightarrow> bool" where
  "vamgr_ok m \<longleftrightarrow> (\<exists>k < 32. va_alignment m = 2 ^ k)
     \<and> (holes_ok (unat (va_max m)) (rev (va_holes m))
        \<or> (\<exists>h. va_holes m = [h] \<and> hs h = 0 \<and> ho h \<le> unat (va_max m)))"

definition va_free :: "va_mgr \<Rightarrow> nat set" where
  "va_free m = holes_set (va_holes m)"

text \<open>The number of addresses a request takes, and its alignment.\<close>

definition va_len :: "va_mgr \<Rightarrow> u64 \<Rightarrow> nat" where
  "va_len m sz = round_up (unat sz) (unat (va_alignment m))"

definition va_al :: "va_mgr \<Rightarrow> u64 \<Rightarrow> nat" where
  "va_al m al = max (unat al) (unat (va_alignment m))"

text \<open>A request whose sums do not wrap around.\<close>

definition va_req_ok :: "va_mgr \<Rightarrow> u64 \<times> u64 \<times> u64 \<Rightarrow> bool" where
  "va_req_ok m q = (case q of (sz, al, base) \<Rightarrow>
     0 < sz \<and> unat sz + unat (va_alignment m) \<le> 2 ^ 64 \<and> unat (va_max m) + va_al m al \<le> 2 ^ 64
     \<and> unat base + va_len m sz < 2 ^ 64)"

lemma va_align_word:
  assumes "va_alignment m = 2 ^ k" "k < 32" "unat sz + unat (va_alignment m) \<le> 2 ^ 64"
  shows "unat (va_align m sz) = va_len m sz" "unat (va_alignment m) = 2 ^ k"
proof -
  have "(2::nat) ^ k < 2 ^ 32" using assms(2) by (intro power_strict_increasing) auto
  then have "unat (of_nat (2 ^ k) :: u32) = 2 ^ k" by (simp only: unat_of_nat) simp
  then show a: "unat (va_alignment m) = 2 ^ k" using assms(1) by simp
  have "(ucast (va_alignment m - 1) :: u64) = 2 ^ k - 1"
    unfolding assms(1) mask_eq_power_minus using assms(2) by (auto intro!: bit_word_eqI simp: bit_simps)
  then have "va_align m sz = ALIGN sz (2 ^ k)" by (simp add: va_align_def ALIGN_def)
  moreover have "unat sz + 2 ^ k - 1 < 2 ^ LENGTH(64)" using assms(3) a by simp
  ultimately show "unat (va_align m sz) = va_len m sz"
    using unat_ALIGN [of k sz] assms(2) a by (simp add: va_len_def)
qed

lemma va_len_pos: "0 < sz \<Longrightarrow> 0 < unat (va_alignment m) \<Longrightarrow> 0 < va_len m sz"
  using round_up_ge [of "unat (va_alignment m)" "unat sz"] by (simp add: va_len_def word_less_nat_alt)

lemma va_al_word: "unat (MAX2 al (ucast (va_alignment m)) :: u64) = va_al m al"
proof -
  have "unat (va_alignment m) < 2 ^ 32" using unsigned_less [of "va_alignment m"] by simp
  then have "unat (ucast (va_alignment m) :: u64) = unat (va_alignment m)"
    by (simp add: unsigned_ucast_eq take_bit_nat_eq_self_iff)
  then show ?thesis by (auto simp: MAX2_def va_al_def max_def word_less_nat_alt)
qed

lemma vamgr_ok_bound:
  assumes "vamgr_ok m" "h \<in> set (rev (va_holes m))"
  shows "ho h + hs h \<le> unat (va_max m)"
  using assms by (auto simp: vamgr_ok_def holes_ok_def)

lemma vamgr_ok_contiguous:
  assumes "vamgr_ok m" "0 < n" "{b ..< b + n} \<subseteq> va_free m"
  shows "holes_ok (unat (va_max m)) (rev (va_holes m))"
    and "\<exists>h \<in> set (rev (va_holes m)). ho h \<le> b \<and> b + n \<le> ho h + hs h"
proof -
  have "b \<in> va_free m" using assms(2,3) by auto
  then show ok: "holes_ok (unat (va_max m)) (rev (va_holes m))"
    using assms(1) by (auto simp: vamgr_ok_def va_free_def hrng_def)
  show "\<exists>h \<in> set (rev (va_holes m)). ho h \<le> b \<and> b + n \<le> ho h + hs h"
    using holes_contiguous [OF ok assms(2), of b] assms(3) by (simp add: va_free_def)
qed

text \<open>Where a request may go: aligned, at the required base if there is one, and free.\<close>

definition va_places :: "va_mgr \<Rightarrow> u64 \<times> u64 \<times> u64 \<Rightarrow> nat set" where
  "va_places m q = (case q of (sz, al, base) \<Rightarrow>
     {a. va_al m al dvd a \<and> (base \<noteq> 0 \<longrightarrow> a = unat base) \<and> {a ..< a + va_len m sz} \<subseteq> va_free m})"

lemma va_find_spec:
  assumes ok: "vamgr_ok m" and req: "va_req_ok m (sz, al, base)"
  obtains (none) "amdgpu_vamgr_find_va True m sz al base = Some (AMDGPU_INVALID_VA_ADDRESS, m)" "va_places m (sz, al, base) = {}"
  | (some) a m' where "amdgpu_vamgr_find_va True m sz al base = Some (of_nat a, m')"
      "a \<in> va_places m (sz, al, base)" "\<forall>b \<in> va_places m (sz, al, base). a \<le> b"
      "holes_ok (unat (va_max m')) (rev (va_holes m'))" "va_free m' = va_free m - {a ..< a + va_len m sz}" "va_max m' = va_max m" "va_alignment m' = va_alignment m"
      "a + va_len m sz \<le> unat (va_max m)"
proof -
  obtain k where k: "va_alignment m = 2 ^ k" "k < 32" using ok by (auto simp: vamgr_ok_def)
  define w v where "w = va_align m sz" and "v = (MAX2 al (ucast (va_alignment m)) :: u64)"
  let ?mx = "unat (va_max m)" and ?n = "va_len m sz" and ?al = "va_al m al"
  have al0: "0 < unat (va_alignment m)" using va_align_word(2) [OF k, of sz] req by (simp add: va_req_ok_def)
  have w: "unat w = ?n" using va_align_word(1) [OF k] req by (simp add: va_req_ok_def w_def)
  have v: "unat v = ?al" by (simp add: v_def va_al_word)
  have pos: "0 < ?n" "0 < ?al" using va_len_pos [OF _ al0] al0 req by (auto simp: va_req_ok_def va_al_def)
  have mx: "?mx < 2 ^ 64" using unsigned_less [of "va_max m"] by simp
  have dvd: "base mod v \<noteq> 0 \<longleftrightarrow> \<not> ?al dvd unat base"
  proof -
    have "base mod v = 0 \<longleftrightarrow> unat (base mod v) = 0" by (simp add: unat_eq_zero)
    then show ?thesis using v by (simp add: unat_mod dvd_eq_mod_eq_0)
  qed
  have find: "amdgpu_vamgr_find_va True m sz al base =
      (if base mod v \<noteq> 0 then Some (AMDGPU_INVALID_VA_ADDRESS, m)
       else (case va_find_loop True w v base (rev (va_holes m)) of None \<Rightarrow> None
             | Some (a, xs) \<Rightarrow> Some (a, m\<lparr>va_holes := rev xs\<rparr>)))"
    by (simp add: amdgpu_vamgr_find_va_def Let_def w_def v_def)
  have place: "\<exists>h \<in> set (rev (va_holes m)). va_fit ?n ?al (unat base) h \<and> va_cand ?al (unat base) h \<le> b \<and> ho h \<le> b \<and> b + ?n \<le> ho h + hs h"
    if "b \<in> va_places m (sz, al, base)" for b
  proof -
    have b: "?al dvd b" "base \<noteq> 0 \<longrightarrow> b = unat base" "{b ..< b + ?n} \<subseteq> va_free m" using that by (auto simp: va_places_def)
    then obtain h where h: "h \<in> set (rev (va_holes m))" "ho h \<le> b" "b + ?n \<le> ho h + hs h"
      using vamgr_ok_contiguous(2) [OF ok pos(1)] by blast
    have "ho h \<le> va_cand ?al (unat base) h \<and> va_cand ?al (unat base) h \<le> b"
      using b h(2) round_up_ge [OF pos(2)] round_up_least [OF pos(2) b(1) h(2)] by (auto simp: va_cand_def unat_eq_zero)
    then show ?thesis using h by (intro bexI [of _ h]) (auto simp: va_fit_def)
  qed
  show thesis
  proof (cases "base mod v = 0")
    case False
    then have "va_places m (sz, al, base) = {}" using dvd by (auto simp: va_places_def)
    then show thesis using find False by (intro none) auto
  next
    case True
    have wrap: "base \<noteq> 0 \<longrightarrow> unat base + unat w < 2 ^ 64" "base = 0 \<longrightarrow> ?mx + unat v \<le> 2 ^ 64"
      using req w v by (auto simp: va_req_ok_def)
    show thesis
    proof (rule va_find_loop_spec [OF vamgr_ok_bound [OF ok] _ _ mx wrap, unfolded w v])
      assume n: "va_find_loop True w v base (rev (va_holes m)) = Some (AMDGPU_INVALID_VA_ADDRESS, rev (va_holes m))"
        "\<forall>h \<in> set (rev (va_holes m)). \<not> va_fit ?n ?al (unat base) h"
      then have "va_places m (sz, al, base) = {}" using place by blast
      then show thesis using find True n(1) by (intro none) auto
    next
      fix pre h post
      let ?c = "va_cand ?al (unat base) h"
      assume s: "rev (va_holes m) = pre @ h # post" "\<forall>g \<in> set pre. \<not> va_fit ?n ?al (unat base) g"
        "va_fit ?n ?al (unat base) h" "va_find_loop True w v base (rev (va_holes m)) = Some (of_nat ?c, pre @ hole_rest h ?c ?n @ post)"
      have fit: "ho h \<le> ?c" "?c + ?n \<le> ho h + hs h" using s(3) by (simp_all add: va_fit_def)
      have hin: "h \<in> set (rev (va_holes m))" unfolding s(1) by simp
      then have "hrng h \<subseteq> va_free m" unfolding va_free_def holes_set_def by auto
      moreover have "{?c ..< ?c + ?n} \<subseteq> hrng h" using fit by (auto simp: hrng_def)
      ultimately have "{?c ..< ?c + ?n} \<subseteq> va_free m" by blast
      moreover have "?al dvd ?c" using True dvd by (auto simp: va_cand_def unat_eq_zero)
      moreover have "base \<noteq> 0 \<longrightarrow> ?c = unat base" by (auto simp: va_cand_def unat_eq_zero)
      ultimately have c: "?c \<in> va_places m (sz, al, base)" "{?c ..< ?c + ?n} \<subseteq> va_free m" by (auto simp: va_places_def)
      note hok = vamgr_ok_contiguous(1) [OF ok pos(1) c(2), unfolded s(1)]
      have least: "?c \<le> b" if b: "b \<in> va_places m (sz, al, base)" for b
      proof -
        obtain g where g: "g \<in> set (rev (va_holes m))" "va_fit ?n ?al (unat base) g" "va_cand ?al (unat base) g \<le> b" "ho g \<le> b"
          using place [OF b] by blast
        then have "g = h \<or> g \<in> set post" using s(1,2) by auto
        moreover have "?c \<le> ho g" if "g \<in> set post" using that hok fit by (auto simp: holes_ok_append holes_ok_Cons)
        ultimately show ?thesis using g by auto
      qed
      note take = holes_take [OF hok mx pos(1) fit]
      let ?m = "m\<lparr>va_holes := rev (pre @ hole_rest h ?c ?n @ post)\<rparr>"
      have "holes_ok (unat (va_max ?m)) (rev (va_holes ?m))" using take(1) by simp
      moreover have "va_free ?m = va_free m - {?c ..< ?c + ?n}"
        using take(2) unfolding s(1) [symmetric] va_free_def by (simp add: Un_ac)
      moreover have "?c + ?n \<le> ?mx" using fit vamgr_ok_bound [OF ok hin] by linarith
      ultimately show thesis using find True s(4) c least by (intro some [of ?c ?m]) auto
    qed (use pos in auto)
  qed
qed

section \<open>The release\<close>

text \<open>Replacing a stretch of holes by one that covers it, clear of the neighbours.\<close>

lemma holes_merge:
  assumes "holes_ok mx (pre @ mid @ post)" "0 < hs g" "ho g + hs g \<le> mx"
    and "\<And>h. h \<in> set pre \<Longrightarrow> ho h + hs h < ho g" "\<And>h. h \<in> set post \<Longrightarrow> ho g + hs g < ho h"
  shows "holes_ok mx (pre @ g # post)"
  using assms by (auto simp: holes_ok_append holes_ok_Cons)

lemma va_insert_spec:
  assumes ok: "holes_ok mx (rev xs)" and n: "0 < unat n" and top: "unat va + unat n \<le> mx" "mx < 2 ^ 64"
    and out: "{unat va ..< unat va + unat n} \<inter> holes_set xs = {}"
  shows "holes_ok mx (rev (va_insert True va n xs))
     \<and> holes_set (va_insert True va n xs) = holes_set xs \<union> {unat va ..< unat va + unat n}"
proof -
  define ups lows where "ups = takeWhile (\<lambda>h. \<not> h_offset h < va) xs" and "lows = dropWhile (\<lambda>h. \<not> h_offset h < va) xs"
  let ?a = "unat va" and ?n = "unat n"
  have xs: "xs = ups @ lows" by (simp add: ups_def lows_def)
  have okx: "holes_ok mx (rev lows @ rev ups)" using ok by (simp add: xs)
  have lo: "ho h < ?a" if h: "h \<in> set lows" for h
  proof -
    obtain l ls where l: "lows = l # ls" using h by (cases lows) auto
    have "h_offset l < va" using hd_dropWhile [of "\<lambda>h. \<not> h_offset h < va" xs] l unfolding lows_def by force
    then have "ho l < ?a" by (simp add: word_less_nat_alt ho_def)
    then show ?thesis using h okx l by (fastforce simp: holes_ok_append holes_ok_Cons)
  qed
  have hi: "?a \<le> ho h" if "h \<in> set ups" for h
    using set_takeWhileD [OF that [unfolded ups_def]] by (simp add: word_less_nat_alt ho_def)
  have pos: "0 < hs h" "ho h + hs h \<le> mx" "hrng h \<subseteq> holes_set xs" if "h \<in> set xs" for h
    using that ok by (auto simp: holes_ok_def holes_set_def)
  have clear_up: "?a + ?n \<le> ho h" if "h \<in> set ups" for h
  proof (rule ccontr)
    assume "\<not> ?thesis"
    moreover have h: "h \<in> set xs" using that by (simp add: xs)
    then have "ho h \<in> hrng h" using pos(1) by (simp add: hrng_def)
    ultimately have "ho h \<in> {?a ..< ?a + ?n} \<inter> holes_set xs" using hi [OF that] pos(3) [OF h] by auto
    then show False using out by simp
  qed
  have clear_lo: "ho h + hs h \<le> ?a" if "h \<in> set lows" for h
  proof (rule ccontr)
    assume "\<not> ?thesis"
    moreover have h: "h \<in> set xs" using that by (simp add: xs)
    ultimately have "?a \<in> hrng h" using lo [OF that] by (simp add: hrng_def)
    then have "?a \<in> {?a ..< ?a + ?n} \<inter> holes_set xs" using n pos(3) [OF h] by auto
    then show False using out by simp
  qed
  have up_adj: "h_offset h = va + n \<longleftrightarrow> ho h = ?a + ?n" for h
    using top unat_add_no_wrap [of va n] by (simp add: word_unat_eq_iff ho_def)
  have lo_adj: "va_lower_adjacent va lows \<longleftrightarrow> (\<exists>l ls. lows = l # ls \<and> ho l + hs l = ?a)"
  proof (cases lows)
    case (Cons l ls)
    then have "ho l + hs l < 2 ^ 64" using pos(2) [of l] top by (simp add: xs)
    then show ?thesis using Cons unat_add_no_wrap [of "h_offset l" "h_size l"]
      by (simp add: va_lower_adjacent_def word_unat_eq_iff hole_defs)
  qed (simp add: va_lower_adjacent_def)
  have below: "ho h + hs h < ?a" if adj: "\<not> va_lower_adjacent va lows" and h: "h \<in> set lows" for h
  proof -
    obtain l ls where l: "lows = l # ls" using h by (cases lows) auto
    have "ho l + hs l < ?a" using clear_lo [of l] adj lo_adj l by (auto simp: order_le_less)
    then show ?thesis using h okx l by (fastforce simp: holes_ok_append holes_ok_Cons)
  qed
  define w where "w = mk_hole ?a ?n"
  have w: "ho w = ?a" "hs w = ?n" using top by (simp_all add: w_def mk_hole_fields)
  have w_rec: "\<lparr>h_offset = va, h_size = n\<rparr> = w" by (simp add: w_def mk_hole_def)
  show ?thesis
  proof (cases "ups \<noteq> [] \<and> h_offset (last ups) = va + n")
    case True
    then obtain us u where ups: "ups = us @ [u]" and u: "ho u = ?a + ?n" using up_adj by (metis append_butlast_last_id)
    define g where "g = (last ups)\<lparr>h_offset := va, h_size := h_size (last ups) + n\<rparr>"
    have g: "ho g = ?a" "hs g = hs u + ?n"
      using u pos(2) [of u] top unat_add_no_wrap [of "h_size u" n] by (auto simp: g_def ups xs hole_defs)
    have usu: "ho u + hs u < ho h" if "h \<in> set us" for h using that okx by (auto simp: ups holes_ok_append holes_ok_Cons)
    show ?thesis
    proof (cases "va_lower_adjacent va lows")
      case adj: True
      then obtain l ls where l: "lows = l # ls" "ho l + hs l = ?a" using lo_adj by auto
      define g' where "g' = l\<lparr>h_size := h_size l + h_size g\<rparr>"
      have g': "ho g' = ho l" "hs g' = hs l + hs u + ?n"
        using g l u pos(2) [of u] top unat_add_no_wrap [of "h_size l" "h_size g"]
        by (auto simp: g'_def ups xs hole_defs)
      have r: "va_insert True va n xs = us @ g' # ls"
        using True adj l by (simp add: va_insert_def Let_def ups_def [symmetric] lows_def [symmetric] g_def [symmetric]
            va_grow_hd_def g'_def) (simp add: ups)
      have "holes_ok mx (rev ls @ g' # rev us)"
        using okx g' l u usu pos(2) [of u] n
        by (intro holes_merge [of mx "rev ls" "[l, u]"]) (auto simp: ups xs holes_ok_append holes_ok_Cons)
      moreover have "hrng g' = hrng l \<union> {?a ..< ?a + ?n} \<union> hrng u" using g' l u by (auto simp: hrng_def)
      ultimately show ?thesis using r l by (auto simp: xs ups)
    next
      case adj: False
      have r: "va_insert True va n xs = us @ g # lows"
        using True adj by (simp add: va_insert_def Let_def ups_def [symmetric] lows_def [symmetric] g_def [symmetric])
          (simp add: ups)
      have "holes_ok mx (rev lows @ g # rev us)"
        using okx g u usu pos(2) [of u] n below [OF adj]
        by (intro holes_merge [of mx "rev lows" "[u]"]) (auto simp: ups xs holes_ok_append holes_ok_Cons)
      moreover have "hrng g = {?a ..< ?a + ?n} \<union> hrng u" using g u by (auto simp: hrng_def)
      ultimately show ?thesis using r by (auto simp: xs ups)
    qed
  next
    case False
    have above: "?a + ?n < ho h" if h: "h \<in> set ups" for h
    proof -
      obtain us u where ups: "ups = us @ [u]" using h by (cases ups rule: rev_cases) auto
      have "?a + ?n < ho u" using clear_up [of u] False up_adj ups by (auto simp: order_le_less)
      then show ?thesis using h okx ups by (fastforce simp: holes_ok_append holes_ok_Cons)
    qed
    show ?thesis
    proof (cases "va_lower_adjacent va lows")
      case adj: True
      then obtain l ls where l: "lows = l # ls" "ho l + hs l = ?a" using lo_adj by auto
      define g where "g = l\<lparr>h_size := h_size l + n\<rparr>"
      have g: "ho g = ho l" "hs g = hs l + ?n"
        using l top unat_add_no_wrap [of "h_size l" n] by (auto simp: g_def hole_defs)
      have r: "va_insert True va n xs = ups @ g # ls"
        using False adj l by (auto simp: va_insert_def Let_def ups_def [symmetric] lows_def [symmetric] va_grow_hd_def g_def)
      have "holes_ok mx (rev ls @ g # rev ups)"
      proof (rule holes_merge [of mx "rev ls" "[l]"])
        have "ho g + hs g = ?a + ?n" using g l by simp
        then show "ho g + hs g < ho h" if "h \<in> set (rev ups)" for h using above that by simp
      qed (use okx g l top n in \<open>auto simp: holes_ok_append holes_ok_Cons\<close>)
      moreover have "hrng g = hrng l \<union> {?a ..< ?a + ?n}" using g l by (auto simp: hrng_def)
      ultimately show ?thesis using r l by (auto simp: xs)
    next
      case adj: False
      have r: "va_insert True va n xs = ups @ w # lows"
        using False adj by (auto simp: va_insert_def Let_def ups_def [symmetric] lows_def [symmetric] w_rec)
      have "holes_ok mx (rev lows @ w # rev ups)"
        using okx w above top n below [OF adj]
        by (intro holes_merge [of mx "rev lows" "[]"]) (auto simp: holes_ok_append holes_ok_Cons)
      moreover have "hrng w = {?a ..< ?a + ?n}" using w by (auto simp: hrng_def)
      ultimately show ?thesis using r by (auto simp: xs)
    qed
  qed
qed

section \<open>The allocator contract\<close>

text \<open>What a client of a manager holds: the address and the length of a range.\<close>

definition va_rng :: "nat \<times> nat \<Rightarrow> nat set" where
  "va_rng r = {fst r ..< fst r + snd r}"

definition va_alloc :: "u64 \<times> u64 \<times> u64 \<Rightarrow> va_mgr \<Rightarrow> (nat \<times> nat) option \<times> va_mgr" where
  "va_alloc q m = (case q of (sz, al, base) \<Rightarrow>
     (case amdgpu_vamgr_find_va True m sz al base of
        None \<Rightarrow> (None, m)
      | Some (a, m') \<Rightarrow> (if a = AMDGPU_INVALID_VA_ADDRESS then None else Some (unat a, va_len m sz), m')))"

definition va_release :: "nat \<times> nat \<Rightarrow> va_mgr \<Rightarrow> va_mgr" where
  "va_release r m = amdgpu_vamgr_free_va True m (of_nat (fst r)) (of_nat (snd r))"

definition va_live_ok :: "va_mgr \<Rightarrow> nat \<times> nat \<Rightarrow> bool" where
  "va_live_ok m r \<longleftrightarrow> holes_ok (unat (va_max m)) (rev (va_holes m)) \<and> fst r + snd r \<le> unat (va_max m)
     \<and> 0 < snd r \<and> unat (va_alignment m) dvd snd r \<and> snd r + unat (va_alignment m) \<le> 2 ^ 64"

lemma va_max_less: "unat (va_max m) < 2 ^ 64"
  using unsigned_less [of "va_max m"] by simp

lemma va_invalid_unat: "unat AMDGPU_INVALID_VA_ADDRESS = 2 ^ 64 - 1"
  by (simp add: AMDGPU_INVALID_VA_ADDRESS_def)

lemma va_release_spec:
  assumes ok: "vamgr_ok m" and live: "va_live_ok m (a, n)" and out: "{a ..< a + n} \<inter> va_free m = {}"
  shows "holes_ok (unat (va_max m)) (rev (va_holes (va_release (a, n) m)))"
    and "va_free (va_release (a, n) m) = va_free m \<union> {a ..< a + n}"
    and "va_max (va_release (a, n) m) = va_max m" "va_alignment (va_release (a, n) m) = va_alignment m"
proof -
  obtain k where k: "va_alignment m = 2 ^ k" "k < 32" using ok by (auto simp: vamgr_ok_def)
  have l: "holes_ok (unat (va_max m)) (rev (va_holes m))" "a + n \<le> unat (va_max m)" "0 < n"
      "unat (va_alignment m) dvd n" "n + unat (va_alignment m) \<le> 2 ^ 64" using live by (simp_all add: va_live_ok_def)
  have an: "unat (of_nat a :: u64) = a" "unat (of_nat n :: u64) = n" using l(2) va_max_less [of m] by (simp_all add: unat_of_nat)
  have sz: "unat (va_align m (of_nat n)) = n"
    using va_align_word [OF k, of "of_nat n"] l an by (simp add: va_len_def)
  have "of_nat a \<noteq> AMDGPU_INVALID_VA_ADDRESS" using va_invalid_unat an(1) l(2,3) va_max_less [of m] by auto
  then have r: "va_release (a, n) m = m\<lparr>va_holes := va_insert True (of_nat a) (va_align m (of_nat n)) (va_holes m)\<rparr>"
    by (simp add: va_release_def amdgpu_vamgr_free_va_def)
  have spec: "holes_ok (unat (va_max m)) (rev (va_insert True (of_nat a) (va_align m (of_nat n)) (va_holes m)))
      \<and> holes_set (va_insert True (of_nat a) (va_align m (of_nat n)) (va_holes m)) = holes_set (va_holes m) \<union> {a ..< a + n}"
    using va_insert_spec [OF l(1), of "va_align m (of_nat n)" "of_nat a"] sz an l va_max_less [of m] out
    by (simp add: va_free_def)
  show "holes_ok (unat (va_max m)) (rev (va_holes (va_release (a, n) m)))"
    "va_free (va_release (a, n) m) = va_free m \<union> {a ..< a + n}"
    "va_max (va_release (a, n) m) = va_max m" "va_alignment (va_release (a, n) m) = va_alignment m"
    using spec by (simp_all add: r va_free_def)
qed

lemma va_alloc_cases:
  assumes ok: "vamgr_ok m" and req: "va_req_ok m (sz, al, base)"
  obtains (none) "va_alloc (sz, al, base) m = (None, m)" "va_places m (sz, al, base) = {}"
      "amdgpu_vamgr_find_va True m sz al base = Some (AMDGPU_INVALID_VA_ADDRESS, m)"
  | (some) a m' where "va_alloc (sz, al, base) m = (Some (a, va_len m sz), m')"
      "amdgpu_vamgr_find_va True m sz al base = Some (of_nat a, m')" "(of_nat a :: u64) \<noteq> AMDGPU_INVALID_VA_ADDRESS" "a < 2 ^ 64"
      "a \<in> va_places m (sz, al, base)" "\<forall>b \<in> va_places m (sz, al, base). a \<le> b"
      "va_free m' = va_free m - {a ..< a + va_len m sz}" "va_max m' = va_max m" "va_alignment m' = va_alignment m"
      "vamgr_ok m'" "va_live_ok m' (a, va_len m sz)" "holes_ok (unat (va_max m)) (rev (va_holes m))"
proof -
  obtain k where k: "va_alignment m = 2 ^ k" "k < 32" using ok by (auto simp: vamgr_ok_def)
  have k': "unat (va_alignment m) = 2 ^ k" using va_align_word(2) [OF k, of sz] req by (simp add: va_req_ok_def)
  have n: "0 < va_len m sz" using va_len_pos [of sz m] req k' by (simp add: va_req_ok_def)
  show thesis
  proof (rule va_find_spec [OF ok req])
    assume "amdgpu_vamgr_find_va True m sz al base = Some (AMDGPU_INVALID_VA_ADDRESS, m)" "va_places m (sz, al, base) = {}"
    then show thesis by (intro none) (simp_all add: va_alloc_def)
  next
    fix a m'
    assume s: "amdgpu_vamgr_find_va True m sz al base = Some (of_nat a, m')"
      "a \<in> va_places m (sz, al, base)" "\<forall>b \<in> va_places m (sz, al, base). a \<le> b"
      "holes_ok (unat (va_max m')) (rev (va_holes m'))" "va_free m' = va_free m - {a ..< a + va_len m sz}"
      "va_max m' = va_max m" "va_alignment m' = va_alignment m" "a + va_len m sz \<le> unat (va_max m)"
    have a: "a < 2 ^ 64 - 1" using s(8) n va_max_less [of m] by linarith
    then have u: "unat (of_nat a :: u64) = a" by (simp add: unat_of_nat)
    then have inv: "(of_nat a :: u64) \<noteq> AMDGPU_INVALID_VA_ADDRESS" using a va_invalid_unat by auto
    have "va_len m sz + 2 ^ k \<le> 2 ^ 64"
    proof -
      have "2 ^ k \<le> va_al m al" using k' by (simp add: va_al_def)
      moreover have "unat (va_max m) + va_al m al \<le> 2 ^ 64" using req by (simp add: va_req_ok_def)
      ultimately show ?thesis using s(8) by linarith
    qed
    then have live: "va_live_ok m' (a, va_len m sz)" using s n k' by (simp add: va_live_ok_def va_len_def)
    have "vamgr_ok m'" using s(4,7) k by (auto simp: vamgr_ok_def)
    moreover have "holes_ok (unat (va_max m)) (rev (va_holes m))"
      using vamgr_ok_contiguous(1) [OF ok n, of a] s(2) by (simp add: va_places_def)
    ultimately show thesis using s live u inv a by (intro some [of a m']) (auto simp: va_alloc_def)
  qed
qed

lemma va_alloc_keeps:
  assumes ok: "vamgr_ok m" and req: "va_req_ok m q" and a: "va_alloc q m = (x, m')"
  shows "vamgr_ok m'" and "va_live_ok m r \<Longrightarrow> va_live_ok m' r"
proof -
  obtain sz al base where q: "q = (sz, al, base)" by (cases q)
  have "vamgr_ok m' \<and> va_max m' = va_max m \<and> va_alignment m' = va_alignment m
      \<and> (holes_ok (unat (va_max m)) (rev (va_holes m)) \<longrightarrow> holes_ok (unat (va_max m)) (rev (va_holes m')))"
    using ok req [unfolded q]
  proof (cases rule: va_alloc_cases)
    case none
    then show ?thesis using ok a q by simp
  next
    case (some b m1)
    then show ?thesis using a q by (simp add: va_live_ok_def)
  qed
  then show "vamgr_ok m'" "va_live_ok m r \<Longrightarrow> va_live_ok m' r" by (simp_all add: va_live_ok_def)
qed

lemma va_alloc_result:
  assumes ok: "vamgr_ok m" and req: "va_req_ok m q" and a: "va_alloc q m = (x, m')"
  shows "case x of None \<Rightarrow> va_free m' = va_free m
    | Some r \<Rightarrow> va_rng r \<noteq> {} \<and> va_rng r \<subseteq> va_free m \<and> va_free m' = va_free m - va_rng r \<and> va_live_ok m' r"
proof -
  obtain sz al base where q: "q = (sz, al, base)" by (cases q)
  show ?thesis using ok req [unfolded q]
  proof (cases rule: va_alloc_cases)
    case none
    then show ?thesis using a q by simp
  next
    case (some b m1)
    have "x = Some (b, va_len m sz)" "m' = m1" using some(1) a q by simp_all
    moreover have "0 < va_len m sz" using some(11) by (simp add: va_live_ok_def)
    moreover have "{b ..< b + va_len m sz} \<subseteq> va_free m" using some(5) by (simp add: va_places_def)
    ultimately show ?thesis using some(7,11) by (simp add: va_rng_def)
  qed
qed

interpretation va: range_alloc vamgr_ok va_free va_rng va_alloc va_release va_req_ok va_live_ok
proof
  fix m q x m' r r'
  assume ok: "vamgr_ok m"
  show "va_req_ok m q \<Longrightarrow> va_alloc q m = (x, m') \<Longrightarrow> vamgr_ok m'" by (rule va_alloc_keeps [OF ok])
  show "va_req_ok m q \<Longrightarrow> va_alloc q m = (x, m') \<Longrightarrow> va_live_ok m r \<Longrightarrow> va_rng r \<inter> va_free m = {} \<Longrightarrow> va_live_ok m' r"
    by (rule va_alloc_keeps [OF ok])
  show "va_req_ok m q \<Longrightarrow> va_alloc q m = (Some r, m') \<Longrightarrow>
      va_rng r \<noteq> {} \<and> va_rng r \<subseteq> va_free m \<and> va_free m' = va_free m - va_rng r \<and> va_live_ok m' r"
    using va_alloc_result [OF ok, of q "Some r" m'] by simp
  show "va_req_ok m q \<Longrightarrow> va_alloc q m = (None, m') \<Longrightarrow> va_free m' = va_free m"
    using va_alloc_result [OF ok, of q None m'] by simp
  obtain a n where r: "r = (a, n)" by (cases r)
  have rng: "va_rng r = {a ..< a + n}" by (simp add: r va_rng_def)
  note rel = va_release_spec [OF ok, of a n, folded r rng]
  show "va_live_ok m r \<Longrightarrow> va_rng r \<inter> va_free m = {} \<Longrightarrow>
      vamgr_ok (va_release r m) \<and> va_free (va_release r m) = va_free m \<union> va_rng r"
    using rel ok by (simp add: vamgr_ok_def)
  show "va_live_ok m r \<Longrightarrow> va_live_ok m r' \<Longrightarrow> va_rng r \<inter> va_free m = {} \<Longrightarrow> va_rng r \<inter> va_rng r' = {} \<Longrightarrow>
      va_live_ok (va_release r m) r'"
    using rel by (simp add: va_live_ok_def [of _ r'])
qed

lemma amdgpu_vamgr_init_ok:
  assumes "amdgpu_vamgr_init True start vmax alignment = Some m" "start \<le> vmax" "alignment = 2 ^ k" "k < 32"
  shows "vamgr_ok m" "va_free m = {unat start ..< unat vmax}"
proof -
  have s: "unat (vmax - start) = unat vmax - unat start" "unat start \<le> unat vmax"
    using assms(2) by (simp_all add: unat_sub word_le_nat_alt)
  have "(ucast alignment :: u32) = 2 ^ k"
    unfolding assms(3) using assms(4) by (auto intro!: bit_word_eqI simp: bit_simps)
  then show "vamgr_ok m" "va_free m = {unat start ..< unat vmax}"
    using assms s by (auto simp: amdgpu_vamgr_init_def vamgr_ok_def va_free_def hrng_def hole_defs holes_ok_Cons)
qed

section \<open>Taking and giving back\<close>


text \<open>A device whose managers are in order and share their alignment, as the initialisation makes them; a request
  to it whose sums do not wrap around.\<close>

definition va_dev_ok :: "va_dev \<Rightarrow> bool" where
  "va_dev_ok dev \<longleftrightarrow> (\<forall>sp. vamgr_ok (dev sp) \<and> va_alignment (dev sp) = va_alignment (dev Low))"




section \<open>Properties\<close>

text \<open>C10. The search is a first fit at the lowest address. For a request whose sums do not wrap around,
  \<^verbatim>\<open>amdgpu_vamgr_find_va\<close> fails exactly if no aligned address (the required base, if
  one is given) has enough free addresses behind it; otherwise it returns the least such address, takes
  exactly that range out of the free addresses and keeps the list of holes in order. In particular
  the test of one hole after the other misses no range, because no two holes touch.\<close>

theorem amdgpu_find_va_least:
  assumes "vamgr_ok m" and "va_req_ok m (sz, al, base)"
  shows "let n = round_up (unat sz) (unat (va_alignment m));
             places = {a. max (unat al) (unat (va_alignment m)) dvd a \<and> (base \<noteq> 0 \<longrightarrow> a = unat base) \<and> {a ..< a + n} \<subseteq> va_free m}
         in if places = {} then amdgpu_vamgr_find_va True m sz al base = Some (AMDGPU_INVALID_VA_ADDRESS, m)
            else \<exists>a m'. amdgpu_vamgr_find_va True m sz al base = Some (a, m') \<and> a \<noteq> AMDGPU_INVALID_VA_ADDRESS
                   \<and> unat a = (LEAST b. b \<in> places) \<and> vamgr_ok m'
                   \<and> va_free m' = va_free m - {unat a ..< unat a + n}"
proof -
  define P where "P = va_places m (sz, al, base)"
  have P: "P = {a. max (unat al) (unat (va_alignment m)) dvd a \<and> (base \<noteq> 0 \<longrightarrow> a = unat base)
      \<and> {a ..< a + round_up (unat sz) (unat (va_alignment m))} \<subseteq> va_free m}"
    by (simp add: P_def va_places_def va_al_def va_len_def)
  have "if P = {} then amdgpu_vamgr_find_va True m sz al base = Some (AMDGPU_INVALID_VA_ADDRESS, m)
        else \<exists>a m'. amdgpu_vamgr_find_va True m sz al base = Some (a, m') \<and> a \<noteq> AMDGPU_INVALID_VA_ADDRESS
               \<and> unat a = (LEAST b. b \<in> P) \<and> vamgr_ok m' \<and> va_free m' = va_free m - {unat a ..< unat a + va_len m sz}"
    using assms
  proof (cases rule: va_alloc_cases)
    case none
    then show ?thesis by (simp add: P_def)
  next
    case (some a m')
    have "(LEAST b. b \<in> P) = a" using some(5,6) by (auto simp: P_def intro!: Least_equality)
    moreover have "unat (of_nat a :: u64) = a" using some(4) by (simp add: unat_of_nat)
    moreover have "P \<noteq> {}" using some(5) by (auto simp: P_def)
    ultimately show ?thesis using some(2,3,7,10) by (auto intro!: exI [of _ "of_nat a :: u64"])
  qed
  then show ?thesis unfolding P va_len_def Let_def .
qed


lemma vamgr_ok_example:
  "vamgr_ok \<lparr>va_max = 0x8000, va_holes = [\<lparr>h_offset = 0x1000, h_size = 0x7000\<rparr>], va_alignment = 0x1000\<rparr>"
proof -
  have "(0x1000 :: u32) = 2 ^ 12" by simp
  then show ?thesis by (auto simp: vamgr_ok_def holes_ok_Cons hole_defs intro: exI [of _ "12::nat"])
qed

theorem amdgpu_find_va_least_witness:
  "\<exists>m'. amdgpu_vamgr_find_va True
      \<lparr>va_max = 0x8000, va_holes = [\<lparr>h_offset = 0x1000, h_size = 0x7000\<rparr>], va_alignment = 0x1000\<rparr> 100 0x2000 0 = Some (0x2000, m')
      \<and> va_free m' = {0x1000 ..< 0x8000} - {0x2000 ..< 0x3000}"
proof -
  let ?m = "\<lparr>va_max = 0x8000, va_holes = [\<lparr>h_offset = 0x1000, h_size = 0x7000\<rparr>], va_alignment = 0x1000\<rparr>"
  have req: "va_req_ok ?m (100, 0x2000, 0)" by (simp add: va_req_ok_def va_al_def va_len_def round_up_def)
  have free: "va_free ?m = {0x1000 ..< 0x8000}" by (simp add: va_free_def hrng_def hole_defs)
  have L: "(LEAST b. b \<in> {a::nat. 0x2000 dvd a \<and> {a ..< a + 0x1000} \<subseteq> {0x1000 ..< 0x8000}}) = 0x2000"
    by (intro Least_equality) (auto elim!: dvdE simp: subset_iff)
  have E: "{a::nat. 0x2000 dvd a \<and> {a ..< a + 0x1000} \<subseteq> {0x1000 ..< 0x8000}} \<noteq> {}"
    by (auto intro!: exI [of _ "0x2000::nat"])
  have r: "round_up (unat (100::u64)) (unat (va_alignment ?m)) = 0x1000" "max (unat (0x2000::u64)) (unat (va_alignment ?m)) = 0x2000"
    by (simp_all add: round_up_def)
  obtain a m' where f: "amdgpu_vamgr_find_va True ?m 100 0x2000 0 = Some (a, m')" "unat a = 0x2000"
      "va_free m' = {0x1000 ..< 0x8000} - {unat a ..< unat a + 0x1000}"
    using amdgpu_find_va_least [OF vamgr_ok_example req, unfolded Let_def r free not_True_eq_False HOL.simp_thms L if_not_P [OF E]]
    by auto
  have "a = 0x2000" using f(2) by (simp add: word_unat_eq_iff)
  then show ?thesis using f by auto
qed





text \<open>What the initialisation of a device makes of its address ranges. When the range of the device
  ends below 4 GB, the manager for the lower space is set up for addresses from that end to 4 GB, which
  the device does not have.\<close>

lemma va_dev_init_spaces:
  assumes "va_dev_init True info = Some dev" and "virtual_address_alignment info = 2 ^ k" "k < 32"
    and "virtual_address_offset info \<le> MIN2 (virtual_address_max info) 0x100000000"
    and "high_va_offset info \<le> MIN2 (high_va_max info) ((high_va_offset info AND NOT 0xffffffff) + 0x100000000)"
  shows "va_dev_ok dev"
    and "va_free (dev Low_32) = {unat (virtual_address_offset info) ..< min (unat (virtual_address_max info)) (2 ^ 32)}"
    and "va_free (dev Low) = {min (unat (virtual_address_max info)) (2 ^ 32) ..< max (unat (virtual_address_max info)) (2 ^ 32)}"
proof -
  let ?al = "ucast (virtual_address_alignment info) :: u64"
  let ?top = "(MIN2 (high_va_max info) ((high_va_offset info AND NOT 0xffffffff) + 0x100000000) AND NOT 0xffffffff) + 0x100000000"
  have al: "?al = 2 ^ k" unfolding assms(2) using assms(3) by (auto intro!: bit_word_eqI simp: bit_simps)
  have i: "amdgpu_vamgr_init True (virtual_address_offset info) (MIN2 (virtual_address_max info) 0x100000000) ?al = Some (dev Low_32)"
      "amdgpu_vamgr_init True (MIN2 (virtual_address_max info) 0x100000000) (MAX2 (virtual_address_max info) 0x100000000) ?al = Some (dev Low)"
      "amdgpu_vamgr_init True (high_va_offset info) (MIN2 (high_va_max info) ((high_va_offset info AND NOT 0xffffffff) + 0x100000000)) ?al = Some (dev High_32)"
      "amdgpu_vamgr_init True (MIN2 (high_va_max info) ((high_va_offset info AND NOT 0xffffffff) + 0x100000000)) (MAX2 (high_va_max info) ?top) ?al = Some (dev High)"
    using assms(1) by (auto simp: va_dev_init_def Let_def amdgpu_vamgr_init_def)
  have le: "MIN2 (virtual_address_max info) 0x100000000 \<le> MAX2 (virtual_address_max info) 0x100000000"
      "MIN2 (high_va_max info) x \<le> MAX2 (high_va_max info) y" for x y
    by (auto simp: MIN2_def MAX2_def)
  note ok = amdgpu_vamgr_init_ok [OF i(1) assms(4) al assms(3)] amdgpu_vamgr_init_ok [OF i(2) le(1) al assms(3)]
    amdgpu_vamgr_init_ok [OF i(3) assms(5) al assms(3)] amdgpu_vamgr_init_ok [OF i(4) le(2) al assms(3)]
  have "vamgr_ok (dev sp) \<and> va_alignment (dev sp) = va_alignment (dev Low)" for sp
  proof -
    have a: "va_alignment m = ucast z" if "amdgpu_vamgr_init True x y z = Some m" for x y z m
      using that by (auto simp: amdgpu_vamgr_init_def)
    show ?thesis using ok(1,3,5,7) a [OF i(1)] a [OF i(2)] a [OF i(3)] a [OF i(4)] by (cases sp) simp_all
  qed
  then show "va_dev_ok dev" by (simp add: va_dev_ok_def)
  have u: "unat (0x100000000 :: u64) = 2 ^ 32" by simp
  show "va_free (dev Low_32) = {unat (virtual_address_offset info) ..< min (unat (virtual_address_max info)) (2 ^ 32)}"
    "va_free (dev Low) = {min (unat (virtual_address_max info)) (2 ^ 32) ..< max (unat (virtual_address_max info)) (2 ^ 32)}"
    unfolding ok(2,4) MIN2_def MAX2_def word_less_nat_alt by (auto simp: u min_def max_def)
qed

end
