(* ===== verification/Amdgpu_Handle.thy ===== *)
theory Amdgpu_Handle
  imports Prelude
begin

text \<open>
  The table of buffer handles of \<^verbatim>\<open>hals/display/libdrm/amdgpu/handle_table.c\<close>: an array indexed by the
  handle that grows by whole pages. Keys and sizes are 32-bit words, as on the target; \<open>None\<close> as result of an
  insertion is a write outside the array, which happens when the number of bytes wraps around.
  The abstract table is a map from handles to pointers that are not null.
\<close>

section \<open>Operations\<close>

record 'v handle_table =
  max_key :: u32
  vals :: "'v option list"

text \<open>\<^verbatim>\<open>realloc\<close> to \<open>bytes\<close> bytes: the old elements, and new ones with unknown content \<open>junk\<close>.\<close>

definition realloc_array :: "'a list \<Rightarrow> 'a \<Rightarrow> nat \<Rightarrow> 'a list" where
  "realloc_array xs junk n = take n xs @ replicate (n - length xs) junk"

text \<open>\<^verbatim>\<open>memset\<close> of the elements from \<open>i\<close> up to \<open>j\<close>; \<open>None\<close> when it leaves the array.\<close>

definition clear_array :: "'v option list \<Rightarrow> nat \<Rightarrow> nat \<Rightarrow> 'v option list option" where
  "clear_array xs i j =
     (if i \<le> j \<and> j \<le> length xs then Some (take i xs @ replicate (j - i) None @ drop j xs) else None)"

text \<open>\<open>mem\<close>: whether \<^verbatim>\<open>realloc\<close> succeeds; \<open>page\<close>: the page size.\<close>

definition handle_table_insert ::
  "bool \<Rightarrow> u32 \<Rightarrow> 'v option \<Rightarrow> 'v handle_table \<Rightarrow> u32 \<Rightarrow> 'v option \<Rightarrow> (int \<times> 'v handle_table) option" where
  "handle_table_insert mem page junk table key value =
     (let grown =
        (if key \<ge> max_key table then
           let alignment = page div 4;
               mk = ALIGN (key + 1) alignment;
               bytes = mk * 4
           in if \<not> mem then Some (Inl (- ENOMEM))
              else (case clear_array (realloc_array (vals table) junk (unat bytes div 4)) (unat (max_key table)) (unat mk) of
                      None \<Rightarrow> None
                    | Some xs \<Rightarrow> Some (Inr (table\<lparr>max_key := mk, vals := xs\<rparr>)))
         else Some (Inr table))
      in (case grown of
            None \<Rightarrow> None
          | Some (Inl e) \<Rightarrow> Some (e, table)
          | Some (Inr t) \<Rightarrow>
              if unat key < length (vals t) then Some (0, t\<lparr>vals := (vals t)[unat key := value]\<rparr>) else None))"

definition handle_table_remove :: "'v handle_table \<Rightarrow> u32 \<Rightarrow> 'v handle_table" where
  "handle_table_remove table key =
     (if key < max_key table then table\<lparr>vals := (vals table)[unat key := None]\<rparr> else table)"

definition handle_table_lookup :: "'v handle_table \<Rightarrow> u32 \<Rightarrow> 'v option" where
  "handle_table_lookup table key = (if key < max_key table then vals table ! unat key else None)"

definition handle_table_fini :: "'v handle_table \<Rightarrow> 'v handle_table" where
  "handle_table_fini table = table\<lparr>max_key := 0, vals := []\<rparr>"

section \<open>The invariant and the map\<close>

definition handle_table_ok :: "'v handle_table \<Rightarrow> bool" where
  "handle_table_ok t \<longleftrightarrow> length (vals t) = unat (max_key t)"

lemma handle_table_lookup_upd:
  "handle_table_ok t \<Longrightarrow> unat key < length (vals t) \<Longrightarrow>
   handle_table_lookup (t\<lparr>vals := (vals t)[unat key := v]\<rparr>) = (handle_table_lookup t)(key := v)"
  by (auto simp: fun_eq_iff handle_table_lookup_def handle_table_ok_def word_less_nat_alt nth_list_update word_unat_eq_iff)

text \<open>The array after it has grown: the same map, and room for the key.\<close>

lemma handle_table_grow:
  assumes ok: "handle_table_ok t" and key: "max_key t \<le> key" "unat key + 2 ^ n < 2 ^ 30" and page: "page = 4 * 2 ^ n" "n < 28"
  defines "mk \<equiv> ALIGN (key + 1) (page div 4)"
  shows "\<exists>xs. clear_array (realloc_array (vals t) junk (unat (mk * 4) div 4)) (unat (max_key t)) (unat mk) = Some xs
     \<and> handle_table_ok (t\<lparr>max_key := mk, vals := xs\<rparr>) \<and> key < mk
     \<and> handle_table_lookup (t\<lparr>max_key := mk, vals := xs\<rparr>) = handle_table_lookup t"
proof -
  have p: "page div 4 = 2 ^ n"
  proof -
    have "(2::nat) ^ n < 2 ^ 28" using page(2) by (intro power_strict_increasing) auto
    then have "unat (of_nat (4 * 2 ^ n) :: u32) = 4 * 2 ^ n" "unat (of_nat (2 ^ n) :: u32) = 2 ^ n"
      by (simp_all only: unat_of_nat) simp_all
    then have "unat page = 4 * 2 ^ n" "unat ((2::u32) ^ n) = 2 ^ n" by (simp_all add: page(1))
    then show ?thesis by (simp add: word_unat_eq_iff unat_div)
  qed
  have k1: "unat (key + 1) = unat key + 1" using key by (subst unat_add_no_wrap) auto
  have mk: "unat mk = round_up (unat key + 1) (2 ^ n)"
    using unat_ALIGN [of n "key + 1"] key page(2) k1 by (simp add: mk_def p)
  have lo: "unat key < unat mk" using round_up_ge [of "2 ^ n" "unat key + 1"] mk by simp
  have hi: "unat mk < 2 ^ 30" using round_up_less [of "2 ^ n" "unat key + 1"] mk key(2) by simp
  then have b: "unat (mk * 4) div 4 = unat mk" by (subst unat_mult_no_wrap) auto
  have l: "length (vals t) = unat (max_key t)" "unat (max_key t) \<le> unat key"
    using ok key by (auto simp: handle_table_ok_def word_le_nat_alt)
  let ?xs = "vals t @ replicate (unat mk - unat (max_key t)) None"
  have "clear_array (realloc_array (vals t) junk (unat mk)) (unat (max_key t)) (unat mk) = Some ?xs"
    using l lo by (simp add: clear_array_def realloc_array_def)
  moreover have "handle_table_ok (t\<lparr>max_key := mk, vals := ?xs\<rparr>)" using l lo by (simp add: handle_table_ok_def)
  moreover have "handle_table_lookup (t\<lparr>max_key := mk, vals := ?xs\<rparr>) = handle_table_lookup t"
    using l lo by (auto simp: fun_eq_iff handle_table_lookup_def word_less_nat_alt nth_append)
  ultimately show ?thesis using b lo by (auto simp: word_less_nat_alt)
qed

section \<open>Properties\<close>

text \<open>The handle table is a map: as long as keys and pages are small enough for the byte count not to
  wrap around, an insertion succeeds and changes exactly the value of its key, also when the array has to grow, or it
  fails for lack of memory and changes nothing; a removal clears exactly its key; and the array always has as many
  elements as its recorded length says.\<close>

theorem handle_table_map:
  assumes "handle_table_ok t" and "unat key + 2 ^ n < 2 ^ 30" and "page = 4 * 2 ^ n" and "n < 28"
  shows "(\<exists>t'. handle_table_insert True page junk t key v = Some (0, t') \<and> handle_table_ok t'
           \<and> handle_table_lookup t' = (handle_table_lookup t)(key := v))
    \<and> handle_table_insert False page junk t key v
        = (if key < max_key t then handle_table_insert True page junk t key v else Some (- ENOMEM, t))
    \<and> handle_table_ok (handle_table_remove t key)
    \<and> handle_table_lookup (handle_table_remove t key) = (handle_table_lookup t)(key := None)
    \<and> handle_table_lookup (handle_table_fini t) = Map.empty"
proof -
  have "\<exists>t'. handle_table_insert True page junk t key v = Some (0, t') \<and> handle_table_ok t'
           \<and> handle_table_lookup t' = (handle_table_lookup t)(key := v)"
  proof (cases "max_key t \<le> key")
    case True
    let ?mk = "ALIGN (key + 1) (page div 4)"
    obtain xs where xs: "clear_array (realloc_array (vals t) junk (unat (?mk * 4) div 4)) (unat (max_key t)) (unat ?mk) = Some xs"
        "handle_table_ok (t\<lparr>max_key := ?mk, vals := xs\<rparr>)" "key < ?mk"
        "handle_table_lookup (t\<lparr>max_key := ?mk, vals := xs\<rparr>) = handle_table_lookup t"
      using handle_table_grow [OF assms(1) True assms(2-4)] by auto
    let ?t = "t\<lparr>max_key := ?mk, vals := xs\<rparr>"
    have len: "unat key < length (vals ?t)" using xs(2,3) by (simp add: handle_table_ok_def word_less_nat_alt)
    then have "handle_table_insert True page junk t key v = Some (0, ?t\<lparr>vals := (vals ?t)[unat key := v]\<rparr>)"
      using True xs(1) by (simp add: handle_table_insert_def Let_def)
    then show ?thesis
      using handle_table_lookup_upd [OF xs(2) len, of v] xs(2,4) by (simp add: handle_table_ok_def)
  next
    case False
    then have len: "unat key < length (vals t)" using assms(1) by (simp add: handle_table_ok_def word_le_nat_alt)
    then have "handle_table_insert True page junk t key v = Some (0, t\<lparr>vals := (vals t)[unat key := v]\<rparr>)"
      using False by (simp add: handle_table_insert_def Let_def)
    then show ?thesis
      using handle_table_lookup_upd [OF assms(1) len, of v] assms(1) by (simp add: handle_table_ok_def)
  qed
  moreover have "handle_table_insert False page junk t key v
      = (if key < max_key t then handle_table_insert True page junk t key v else Some (- ENOMEM, t))"
    by (auto simp: handle_table_insert_def Let_def not_less not_le)
  moreover have "handle_table_ok (handle_table_remove t key)"
    using assms(1) by (simp add: handle_table_ok_def handle_table_remove_def)
  moreover have "handle_table_lookup (handle_table_remove t key) = (handle_table_lookup t)(key := None)"
  proof (cases "key < max_key t")
    case True
    then have "unat key < length (vals t)" using assms(1) by (simp add: handle_table_ok_def word_less_nat_alt)
    then show ?thesis using handle_table_lookup_upd [OF assms(1), of key None] True by (simp add: handle_table_remove_def)
  qed (auto simp: handle_table_remove_def handle_table_lookup_def fun_eq_iff)
  moreover have "handle_table_lookup (handle_table_fini t) = Map.empty"
    by (simp add: fun_eq_iff handle_table_lookup_def handle_table_fini_def)
  ultimately show ?thesis by blast
qed

theorem handle_table_map_witness:
  "\<exists>t'. handle_table_insert True 4096 None \<lparr>max_key = 0, vals = []\<rparr> 5 (Some (7::nat)) = Some (0, t')
      \<and> handle_table_lookup t' 5 = Some 7"
proof -
  have "handle_table_ok \<lparr>max_key = 0, vals = [] :: nat option list\<rparr>" by (simp add: handle_table_ok_def)
  from handle_table_map [OF this, of 5 10 4096 None "Some 7"] show ?thesis by auto
qed

text \<open>The largest key wraps around: the new length is 0, and with memory the store is made outside the array.\<close>

lemma handle_table_last_key:
  "handle_table_insert True 4096 junk \<lparr>max_key = 0, vals = []\<rparr> 0xffffffff v = None"
  by (simp add: handle_table_insert_def Let_def ALIGN_def align_mask_def clear_array_def realloc_array_def)

end
