(* ===== verification/Intel_Mm.thy ===== *)
theory Intel_Mm
  imports Range_Alloc
begin

text \<open>
  The heap of \<^verbatim>\<open>hals/display/libdrm/intel/mm.c\<close>: blocks in the order of their addresses, each free or
  not, and a list of the free ones. The two circular, doubly linked lists through a heap node are
  lists here, with the operations the code performs on them: put a node behind another one, put a node at the
  front, take a node out. Blocks are known by their addresses. The \<^verbatim>\<open>int\<close> arithmetic wraps around
  at 32 bits. The operations are an instance of the allocator contract of \<open>Range_Alloc\<close>.
\<close>

section \<open>Data\<close>

text \<open>A result stored in a 32-bit \<^verbatim>\<open>int\<close>.\<close>

definition i32 :: "int \<Rightarrow> int" where
  "i32 x = (x + 2 ^ 31) mod 2 ^ 32 - 2 ^ 31"

lemma i32_id: "- (2 ^ 31) \<le> x \<Longrightarrow> x < 2 ^ 31 \<Longrightarrow> i32 x = x"
  by (simp add: i32_def)

record mem_block =
  b_id :: addr
  b_ofs :: int
  b_size :: int
  b_free :: bool
  b_reserved :: bool

record mm_heap =
  mm_blocks :: "mem_block list"
  mm_free :: "addr list"

text \<open>A list with its first element of a kind replaced by some others.\<close>

fun replace_first :: "('a \<Rightarrow> bool) \<Rightarrow> ('a \<Rightarrow> 'a list) \<Rightarrow> 'a list \<Rightarrow> 'a list" where
  "replace_first P f [] = []"
| "replace_first P f (x # xs) = (if P x then f x @ xs else x # replace_first P f xs)"

definition mm_at :: "addr \<Rightarrow> (mem_block \<Rightarrow> mem_block list) \<Rightarrow> mm_heap \<Rightarrow> mm_heap" where
  "mm_at i f h = h\<lparr>mm_blocks := replace_first (\<lambda>b. b_id b = i) f (mm_blocks h)\<rparr>"

definition free_at :: "addr \<Rightarrow> addr list \<Rightarrow> mm_heap \<Rightarrow> mm_heap" where
  "free_at i xs h = h\<lparr>mm_free := replace_first (\<lambda>j. j = i) (\<lambda>_. xs) (mm_free h)\<rparr>"

definition mm_block :: "mm_heap \<Rightarrow> addr \<Rightarrow> mem_block option" where
  "mm_block h i = List.find (\<lambda>b. b_id b = i) (mm_blocks h)"

section \<open>Operations\<close>

text \<open>The arguments \<open>a\<close>, \<open>n\<close>: what \<^verbatim>\<open>calloc\<close> returns.\<close>

definition mmInit :: "bool \<Rightarrow> addr option \<Rightarrow> int \<Rightarrow> int \<Rightarrow> mm_heap option" where
  "mmInit a n ofs sz =
     (if sz \<le> 0 then None
      else if \<not> a then None
      else (case n of
              None \<Rightarrow> None
            | Some i \<Rightarrow>
                Some \<lparr>mm_blocks = [\<lparr>b_id = i, b_ofs = ofs, b_size = sz, b_free = True, b_reserved = False\<rparr>], mm_free = [i]\<rparr>))"

text \<open>Splitting a block: the part behind \<open>ofs\<close> becomes a new block of the given size, behind the block in both lists,
  and what is left of the block has the size \<open>left\<close>.\<close>

definition mm_split :: "addr \<Rightarrow> addr \<Rightarrow> int \<Rightarrow> int \<Rightarrow> int \<Rightarrow> mm_heap \<Rightarrow> mm_heap" where
  "mm_split i n ofs sz left h =
     free_at i [i, n]
       (mm_at i (\<lambda>p. [p\<lparr>b_size := left\<rparr>,
                      \<lparr>b_id = n, b_ofs = ofs, b_size = sz, b_free = True, b_reserved = False\<rparr>]) h)"

text \<open>The second half of \<^verbatim>\<open>SliceBlock\<close>: break right, then the block \<open>i\<close> of size \<open>psz\<close> is the middle one.\<close>

definition slice_right :: "addr option \<Rightarrow> mm_heap \<Rightarrow> addr \<Rightarrow> int \<Rightarrow> int \<Rightarrow> int \<Rightarrow> bool \<Rightarrow> addr option \<times> mm_heap" where
  "slice_right n h i psz startofs sz reserved =
     (case (if sz < psz then
              (case n of
                 None \<Rightarrow> None
               | Some j \<Rightarrow> Some (mm_split i j (i32 (startofs + sz)) (i32 (psz - sz)) sz h))
            else Some h) of
        None \<Rightarrow> (None, h)
      | Some h' \<Rightarrow> (Some i, free_at i [] (mm_at i (\<lambda>p. [p\<lparr>b_free := False, b_reserved := reserved\<rparr>]) h')))"

definition SliceBlock ::
  "addr option \<times> addr option \<Rightarrow> mm_heap \<Rightarrow> mem_block \<Rightarrow> int \<Rightarrow> int \<Rightarrow> bool \<Rightarrow> int \<Rightarrow> addr option \<times> mm_heap" where
  "SliceBlock n h p startofs sz reserved alignment =
     (if startofs > b_ofs p then
        (case fst n of
           None \<Rightarrow> (None, h)
         | Some i \<Rightarrow>
             let nsz = i32 (b_size p - i32 (startofs - b_ofs p))
             in slice_right (snd n) (mm_split (b_id p) i startofs nsz (i32 (b_size p - nsz)) h) i nsz startofs sz reserved)
      else slice_right (snd n) h (b_id p) (b_size p) startofs sz reserved)"

text \<open>The search along the free list.\<close>

definition mm_start :: "int \<Rightarrow> int \<Rightarrow> mem_block \<Rightarrow> int" where
  "mm_start msk startSearch p =
     (let startofs = i32 (b_ofs p + msk) AND NOT msk
      in if startofs < startSearch then startSearch else startofs)"

fun mm_search :: "mm_heap \<Rightarrow> int \<Rightarrow> int \<Rightarrow> int \<Rightarrow> addr list \<Rightarrow> (mem_block \<times> int) option" where
  "mm_search h sz msk startSearch [] = None"
| "mm_search h sz msk startSearch (i # is) =
     (case mm_block h i of
        None \<Rightarrow> None
      | Some p \<Rightarrow>
          let startofs = mm_start msk startSearch p
          in if i32 (startofs + sz) \<le> i32 (b_ofs p + b_size p) then Some (p, startofs)
             else mm_search h sz msk startSearch is)"

definition mmAllocMem ::
  "addr option \<times> addr option \<Rightarrow> mm_heap option \<Rightarrow> int \<Rightarrow> int \<Rightarrow> int \<Rightarrow> addr option \<times> mm_heap option" where
  "mmAllocMem n heap sz align2 startSearch =
     (let msk = i32 (i32 (2 ^ nat align2) - 1)
      in (case heap of
            None \<Rightarrow> (None, None)
          | Some h \<Rightarrow>
              if align2 < 0 \<or> sz \<le> 0 then (None, Some h)
              else (case mm_search h sz msk startSearch (mm_free h) of
                      None \<Rightarrow> (None, Some h)
                    | Some (p, startofs) \<Rightarrow>
                        (case SliceBlock n h p startofs sz False (i32 (msk + 1)) of (r, h') \<Rightarrow> (r, Some h')))))"

text \<open>The block behind \<open>i\<close> is merged into it if both are free; the result tells which block is gone.\<close>

fun join_blocks :: "addr \<Rightarrow> mem_block list \<Rightarrow> mem_block list \<times> addr option" where
  "join_blocks i (p # q # bs) =
     (if b_id p = i then
        if b_free p \<and> b_free q then (p\<lparr>b_size := i32 (b_size p + b_size q)\<rparr> # bs, Some (b_id q))
        else (p # q # bs, None)
      else (case join_blocks i (q # bs) of (r, x) \<Rightarrow> (p # r, x)))"
| "join_blocks i bs = (bs, None)"

definition Join2Blocks :: "addr \<Rightarrow> mm_heap \<Rightarrow> mm_heap" where
  "Join2Blocks i h =
     (case join_blocks i (mm_blocks h) of
        (bs, None) \<Rightarrow> h
      | (bs, Some q) \<Rightarrow> free_at q [] (h\<lparr>mm_blocks := bs\<rparr>))"

fun prev_block :: "addr \<Rightarrow> mem_block list \<Rightarrow> addr option" where
  "prev_block i (p # q # bs) = (if b_id q = i then Some (b_id p) else prev_block i (q # bs))"
| "prev_block i bs = None"

text \<open>\<open>None\<close>: the pointer is not one to a block of the heap.\<close>

definition mmFreeMem :: "mm_heap \<Rightarrow> addr option \<Rightarrow> (int \<times> mm_heap) option" where
  "mmFreeMem h b =
     (case b of
        None \<Rightarrow> Some (0, h)
      | Some i \<Rightarrow>
          (case mm_block h i of
             None \<Rightarrow> None
           | Some p \<Rightarrow>
               if b_free p then Some (-1, h)
               else if b_reserved p then Some (-1, h)
               else
                 let h1 = (mm_at i (\<lambda>p. [p\<lparr>b_free := True\<rparr>]) h)\<lparr>mm_free := i # mm_free h\<rparr>;
                     h2 = Join2Blocks i h1
                 in Some (0, case prev_block i (mm_blocks h2) of None \<Rightarrow> h2 | Some j \<Rightarrow> Join2Blocks j h2)))"

text \<open>The addresses freed, the heap node not counted.\<close>

definition mmDestroy :: "mm_heap option \<Rightarrow> addr list" where
  "mmDestroy heap = (case heap of None \<Rightarrow> [] | Some h \<Rightarrow> map b_id (mm_blocks h))"

section \<open>The invariant\<close>

fun mm_chain :: "int \<Rightarrow> mem_block list \<Rightarrow> int \<Rightarrow> bool" where
  "mm_chain lo [] hi = (lo = hi)"
| "mm_chain lo (b # bs) hi = (b_ofs b = lo \<and> 0 < b_size b \<and> mm_chain (lo + b_size b) bs hi)"

lemma mm_chain_append:
  "mm_chain lo (xs @ ys) hi \<longleftrightarrow> (\<exists>m. mm_chain lo xs m \<and> mm_chain m ys hi)"
  by (induction xs arbitrary: lo) auto

lemma mm_chain_bounds:
  "mm_chain lo bs hi \<Longrightarrow> lo \<le> hi \<and> (\<forall>b \<in> set bs. lo \<le> b_ofs b \<and> 0 < b_size b \<and> b_ofs b + b_size b \<le> hi)"
  by (induction bs arbitrary: lo) force+

definition brng :: "mem_block \<Rightarrow> int set" where
  "brng b = {b_ofs b ..< b_ofs b + b_size b}"

lemma mm_chain_disjoint:
  "mm_chain lo (xs @ b # ys) hi \<Longrightarrow> c \<in> set (xs @ ys) \<Longrightarrow> brng b \<inter> brng c = {}"
proof -
  assume "mm_chain lo (xs @ b # ys) hi" "c \<in> set (xs @ ys)"
  then obtain m where x: "mm_chain lo xs m" "b_ofs b = m" "mm_chain (m + b_size b) ys hi"
    by (auto simp: mm_chain_append)
  show ?thesis using mm_chain_bounds [OF x(1)] mm_chain_bounds [OF x(3)] x(2) \<open>c \<in> _\<close> by (fastforce simp: brng_def)
qed

text \<open>The blocks cover one stretch of addresses without gaps, and the free list holds the free ones.\<close>

definition mm_ok :: "mm_heap \<Rightarrow> bool" where
  "mm_ok h \<longleftrightarrow> (\<exists>lo hi. mm_chain lo (mm_blocks h) hi \<and> - (2 ^ 31) \<le> lo \<and> hi < 2 ^ 31 \<and> hi - lo < 2 ^ 31)
     \<and> distinct (map b_id (mm_blocks h)) \<and> distinct (mm_free h)
     \<and> set (mm_free h) = set (map b_id (filter b_free (mm_blocks h)))"

definition mm_space :: "mm_heap \<Rightarrow> int set" where
  "mm_space h = (\<Union>b \<in> set (filter b_free (mm_blocks h)). brng b)"

definition mm_live :: "mm_heap \<Rightarrow> mem_block set" where
  "mm_live h = set (filter (\<lambda>b. \<not> b_free b) (mm_blocks h))"

lemma replace_first_split:
  "P p \<Longrightarrow> (\<forall>x \<in> set xs. \<not> P x) \<Longrightarrow> replace_first P f (xs @ p # ys) = xs @ f p @ ys"
  by (induction xs) auto

lemma replace_first_mem:
  assumes "distinct js" "i \<in> set js"
  shows "set (replace_first (\<lambda>j. j = i) (\<lambda>_. ns) js) = (set js - {i}) \<union> set ns"
    and "distinct ns \<Longrightarrow> set ns \<inter> set js \<subseteq> {i} \<Longrightarrow> distinct (replace_first (\<lambda>j. j = i) (\<lambda>_. ns) js)"
proof -
  obtain xs ys where js: "js = xs @ i # ys" using assms(2) split_list by metis
  have r: "replace_first (\<lambda>j. j = i) (\<lambda>_. ns) js = xs @ ns @ ys"
    using assms(1) unfolding js by (intro replace_first_split) auto
  show "set (replace_first (\<lambda>j. j = i) (\<lambda>_. ns) js) = (set js - {i}) \<union> set ns"
    using assms(1) unfolding r unfolding js by auto
  show "distinct (replace_first (\<lambda>j. j = i) (\<lambda>_. ns) js)" if "distinct ns" "set ns \<inter> set js \<subseteq> {i}"
    using assms(1) that unfolding r unfolding js by auto
qed

lemma mm_at_split:
  assumes "mm_blocks h = xs @ p # ys" "distinct (map b_id (mm_blocks h))"
  shows "mm_blocks (mm_at (b_id p) f h) = xs @ f p @ ys" "mm_free (mm_at (b_id p) f h) = mm_free h"
    "mm_block h (b_id p) = Some p"
proof -
  have "\<forall>x \<in> set xs. b_id x \<noteq> b_id p" using assms by (force simp: image_iff)
  then show "mm_blocks (mm_at (b_id p) f h) = xs @ f p @ ys"
    using assms(1) by (simp add: mm_at_def replace_first_split)
  show "mm_free (mm_at (b_id p) f h) = mm_free h" by (simp add: mm_at_def)
  show "mm_block h (b_id p) = Some p"
    using assms \<open>\<forall>x \<in> set xs. b_id x \<noteq> b_id p\<close>
    by (auto simp: mm_block_def find_Some_iff intro!: exI [of _ "length xs"] simp: nth_append)
qed

lemma mm_block_some:
  assumes "mm_ok h" "mm_block h i = Some p"
  shows "b_id p = i" "\<exists>xs ys. mm_blocks h = xs @ p # ys"
  using assms by (auto simp: mm_block_def find_Some_iff in_set_conv_decomp [symmetric] in_set_conv_nth)

section \<open>Splitting, allocating, releasing and joining\<close>

lemma mm_split_ok:
  assumes ok: "mm_ok h" and p: "mm_blocks h = xs @ p # ys" "b_free p" and n: "n \<notin> b_id ` set (mm_blocks h)"
    and sz: "0 < left" "0 < sz" "left + sz = b_size p" "ofs = b_ofs p + left"
  defines "h' \<equiv> mm_split (b_id p) n ofs sz left h"
  shows "mm_ok h'" "mm_space h' = mm_space h" "mm_live h' = mm_live h"
    "mm_blocks h' = xs @ [p\<lparr>b_size := left\<rparr>, \<lparr>b_id = n, b_ofs = ofs, b_size = sz, b_free = True, b_reserved = False\<rparr>] @ ys"
proof -
  let ?l = "p\<lparr>b_size := left\<rparr>" and ?r = "\<lparr>b_id = n, b_ofs = ofs, b_size = sz, b_free = True, b_reserved = False\<rparr>"
  have d: "distinct (map b_id (mm_blocks h))" "distinct (mm_free h)"
      "set (mm_free h) = set (map b_id (filter b_free (mm_blocks h)))" using ok by (simp_all add: mm_ok_def)
  note at = mm_at_split [OF p(1) d(1)]
  have bs: "mm_blocks h' = xs @ [?l, ?r] @ ys"
    by (simp add: h'_def mm_split_def free_at_def at)
  then show "mm_blocks h' = xs @ [?l, ?r] @ ys" .
  have fr: "mm_free h' = replace_first (\<lambda>j. j = b_id p) (\<lambda>_. [b_id p, n]) (mm_free h)"
    by (simp add: h'_def mm_split_def free_at_def at)
  have pin: "b_id p \<in> set (mm_free h)" using d(3) p by auto
  have nin: "n \<notin> set (mm_free h)" "n \<noteq> b_id p" using d(3) n p(1) by auto
  have "set (mm_free h') = set (mm_free h) \<union> {n}"
    unfolding fr replace_first_mem(1) [OF d(2) pin] using pin by auto
  then have setf: "set (mm_free h') = set (map b_id (filter b_free (mm_blocks h')))"
    unfolding bs using d(3) p by auto
  have distf: "distinct (mm_free h')"
    unfolding fr using nin by (intro replace_first_mem(2) [OF d(2) pin]) auto
  have ids: "distinct (map b_id (mm_blocks h'))" using d(1) n by (auto simp: bs p(1))
  obtain lo hi where c: "mm_chain lo (mm_blocks h) hi" "- (2 ^ 31) \<le> lo" "hi < 2 ^ 31" "hi - lo < 2 ^ 31" using ok by (auto simp: mm_ok_def)
  have "mm_chain lo (mm_blocks h') hi"
  proof -
    obtain m where m: "mm_chain lo xs m" "b_ofs p = m" "mm_chain (m + b_size p) ys hi"
      using c(1) unfolding p(1) mm_chain_append by auto
    have "mm_chain m ([?l, ?r] @ ys) hi" using m sz by (simp add: add.assoc)
    then show ?thesis unfolding bs mm_chain_append [of lo xs] using m(1) by blast
  qed
  then show "mm_ok h'" using c setf distf ids by (auto simp: mm_ok_def)
  have "brng ?l \<union> brng ?r = brng p" using sz by (auto simp: brng_def)
  then show "mm_space h' = mm_space h" "mm_live h' = mm_live h"
    using p by (auto simp: mm_space_def mm_live_def bs)
qed

lemma mm_space_split:
  "mm_blocks h = xs @ p # ys \<Longrightarrow>
   mm_space h = (\<Union>b \<in> set (filter b_free (xs @ ys)). brng b) \<union> (if b_free p then brng p else {})"
  by (auto simp: mm_space_def)

lemma mm_take_ok:
  fixes r :: bool
  assumes ok: "mm_ok h" and p: "mm_blocks h = xs @ p # ys" "b_free p"
  defines "h' \<equiv> free_at (b_id p) [] (mm_at (b_id p) (\<lambda>p. [p\<lparr>b_free := False, b_reserved := r\<rparr>]) h)"
  shows "mm_ok h'" "mm_space h' = mm_space h - brng p" "brng p \<subseteq> mm_space h"
    "mm_live h' = insert (p\<lparr>b_free := False, b_reserved := r\<rparr>) (mm_live h)"
proof -
  let ?p = "p\<lparr>b_free := False, b_reserved := r\<rparr>"
  have d: "distinct (map b_id (mm_blocks h))" "distinct (mm_free h)"
      "set (mm_free h) = set (map b_id (filter b_free (mm_blocks h)))" using ok by (simp_all add: mm_ok_def)
  note at = mm_at_split [OF p(1) d(1)]
  have bs: "mm_blocks h' = xs @ ?p # ys" by (simp add: h'_def free_at_def at)
  have fr: "mm_free h' = replace_first (\<lambda>j. j = b_id p) (\<lambda>_. []) (mm_free h)" by (simp add: h'_def free_at_def at)
  have pin: "b_id p \<in> set (mm_free h)" using d(3) p by auto
  have "set (mm_free h') = set (mm_free h) - {b_id p}" unfolding fr replace_first_mem(1) [OF d(2) pin] by simp
  moreover have "b_id p \<notin> set (map b_id (filter b_free (xs @ ys)))" using d(1) unfolding p(1) by auto
  ultimately have setf: "set (mm_free h') = set (map b_id (filter b_free (mm_blocks h')))"
    unfolding bs d(3) p(1) using p(2) by auto
  obtain lo hi where c: "mm_chain lo (mm_blocks h) hi" "- (2 ^ 31) \<le> lo" "hi < 2 ^ 31" "hi - lo < 2 ^ 31" using ok by (auto simp: mm_ok_def)
  have "mm_chain lo (mm_blocks h') hi" using c(1) unfolding bs p(1) mm_chain_append by simp
  moreover have "distinct (mm_free h')" unfolding fr by (intro replace_first_mem(2) [OF d(2) pin]) auto
  moreover have "distinct (map b_id (mm_blocks h'))" using d(1) unfolding bs p(1) by simp
  ultimately show "mm_ok h'" using c setf by (auto simp: mm_ok_def)
  have "brng p \<inter> brng b = {}" if "b \<in> set (xs @ ys)" for b using mm_chain_disjoint [of lo xs p ys hi b] c(1) p(1) that by simp
  then show "mm_space h' = mm_space h - brng p"
    unfolding mm_space_split [OF p(1)] mm_space_split [OF bs] using p(2) by (auto simp: Int_commute)
  show "brng p \<subseteq> mm_space h" unfolding mm_space_split [OF p(1)] using p(2) by auto
  show "mm_live h' = insert ?p (mm_live h)" using p by (auto simp: mm_live_def bs)
qed

lemma mm_give_ok:
  assumes ok: "mm_ok h" and p: "mm_blocks h = xs @ p # ys" "\<not> b_free p"
  defines "h' \<equiv> (mm_at (b_id p) (\<lambda>p. [p\<lparr>b_free := True\<rparr>]) h)\<lparr>mm_free := b_id p # mm_free h\<rparr>"
  shows "mm_ok h'" "mm_space h' = mm_space h \<union> brng p" "mm_live h' = mm_live h - {p}"
proof -
  let ?p = "p\<lparr>b_free := True\<rparr>"
  have d: "distinct (map b_id (mm_blocks h))" "distinct (mm_free h)"
      "set (mm_free h) = set (map b_id (filter b_free (mm_blocks h)))" using ok by (simp_all add: mm_ok_def)
  note at = mm_at_split [OF p(1) d(1)]
  have bs: "mm_blocks h' = xs @ ?p # ys" and fr: "mm_free h' = b_id p # mm_free h" by (simp_all add: h'_def at)
  have "b_id p \<notin> set (map b_id (filter b_free (xs @ ys)))" using d(1) unfolding p(1) by auto
  then have "distinct (mm_free h')" unfolding fr using d(2,3) p by simp
  moreover have "set (mm_free h') = set (map b_id (filter b_free (mm_blocks h')))" unfolding bs fr using d(3) p by auto
  moreover obtain lo hi where c: "mm_chain lo (mm_blocks h) hi" "- (2 ^ 31) \<le> lo" "hi < 2 ^ 31" "hi - lo < 2 ^ 31" using ok by (auto simp: mm_ok_def)
  moreover have "mm_chain lo (mm_blocks h') hi" using c(1) unfolding bs p(1) mm_chain_append by simp
  moreover have "distinct (map b_id (mm_blocks h'))" using d(1) unfolding bs p(1) by simp
  ultimately show "mm_ok h'" by (auto simp: mm_ok_def)
  show "mm_space h' = mm_space h \<union> brng p"
    unfolding mm_space_split [OF p(1)] mm_space_split [OF bs] using p(2) by (auto simp: brng_def)
  have "p \<notin> set (xs @ ys)" using d(1) unfolding p(1) by auto
  then show "mm_live h' = mm_live h - {p}" using p by (auto simp: mm_live_def bs)
qed

lemma join_blocks_cases:
  obtains (same) "join_blocks i bs = (bs, None)"
  | (joined) xs p q ys where "bs = xs @ p # q # ys" "b_free p" "b_free q"
      "join_blocks i bs = (xs @ p\<lparr>b_size := i32 (b_size p + b_size q)\<rparr> # ys, Some (b_id q))"
proof -
  have "join_blocks i bs = (bs, None) \<or> (\<exists>xs p q ys. bs = xs @ p # q # ys \<and> b_free p \<and> b_free q
      \<and> join_blocks i bs = (xs @ p\<lparr>b_size := i32 (b_size p + b_size q)\<rparr> # ys, Some (b_id q)))"
  proof (induction i bs rule: join_blocks.induct)
    case (1 i p q bs)
    show ?case
    proof (cases "b_id p = i")
      case True
      then show ?thesis by (cases "b_free p \<and> b_free q") (auto intro!: exI [of _ "[]"])
    next
      case False
      from 1 [OF False] show ?thesis
      proof
        assume "join_blocks i (q # bs) = (q # bs, None)"
        then show ?thesis using False by simp
      next
        assume "\<exists>xs p' q' ys. q # bs = xs @ p' # q' # ys \<and> b_free p' \<and> b_free q'
            \<and> join_blocks i (q # bs) = (xs @ p'\<lparr>b_size := i32 (b_size p' + b_size q')\<rparr> # ys, Some (b_id q'))"
        then obtain xs p' q' ys where e: "q # bs = xs @ p' # q' # ys" "b_free p'" "b_free q'"
            "join_blocks i (q # bs) = (xs @ p'\<lparr>b_size := i32 (b_size p' + b_size q')\<rparr> # ys, Some (b_id q'))" by blast
        have "join_blocks i (p # q # bs) = ((p # xs) @ p'\<lparr>b_size := i32 (b_size p' + b_size q')\<rparr> # ys, Some (b_id q'))"
          using False e(4) by simp
        moreover have "p # q # bs = (p # xs) @ p' # q' # ys" using e(1) by simp
        ultimately show ?thesis using e(2,3) by blast
      qed
    qed
  qed auto
  then show thesis using that by blast
qed

lemma Join2Blocks_ok:
  assumes ok: "mm_ok h"
  shows "mm_ok (Join2Blocks i h)" "mm_space (Join2Blocks i h) = mm_space h" "mm_live (Join2Blocks i h) = mm_live h"
proof -
  have "mm_ok (Join2Blocks i h) \<and> mm_space (Join2Blocks i h) = mm_space h \<and> mm_live (Join2Blocks i h) = mm_live h"
  proof (cases rule: join_blocks_cases [of i "mm_blocks h", case_names same joined])
    case same
    then show ?thesis using ok by (simp add: Join2Blocks_def)
  next
    case (joined xs p q ys)
    let ?p = "p\<lparr>b_size := i32 (b_size p + b_size q)\<rparr>"
    let ?h = "Join2Blocks i h"
    have d: "distinct (map b_id (mm_blocks h))" "distinct (mm_free h)"
        "set (mm_free h) = set (map b_id (filter b_free (mm_blocks h)))" using ok by (simp_all add: mm_ok_def)
    obtain lo hi m where w: "- (2 ^ 31) \<le> lo" "hi < 2 ^ 31" "hi - lo < 2 ^ 31" and c: "mm_chain lo xs m" "b_ofs p = m" "0 < b_size p"
        "b_ofs q = m + b_size p" "0 < b_size q" "mm_chain (m + b_size p + b_size q) ys hi"
      using ok unfolding mm_ok_def joined(1) mm_chain_append by auto
    have sz: "i32 (b_size p + b_size q) = b_size p + b_size q"
    proof (rule i32_id)
      have "m + b_size p + b_size q \<le> hi" "lo \<le> m" using mm_chain_bounds [OF c(6)] mm_chain_bounds [OF c(1)] by simp_all
      then show "b_size p + b_size q < 2 ^ 31" using w(3) by linarith
      show "- (2 ^ 31) \<le> b_size p + b_size q" using c(3,5) by simp
    qed
    have bs: "mm_blocks ?h = xs @ ?p # ys" and fr: "mm_free ?h = replace_first (\<lambda>j. j = b_id q) (\<lambda>_. []) (mm_free h)"
      using joined(4) by (simp_all add: Join2Blocks_def free_at_def)
    have qin: "b_id q \<in> set (mm_free h)" using d(3) joined by auto
    have "set (mm_free ?h) = set (mm_free h) - {b_id q}" unfolding fr replace_first_mem(1) [OF d(2) qin] by simp
    moreover have "b_id q \<notin> set (map b_id (filter b_free (xs @ p # ys)))" using d(1) unfolding joined(1) by auto
    moreover have "set (mm_free h) = insert (b_id q) (set (map b_id (filter b_free (xs @ p # ys))))"
      unfolding d(3) joined(1) using joined(3) by (simp add: insert_commute)
    ultimately have "set (mm_free ?h) = set (map b_id (filter b_free (xs @ p # ys)))" by (metis Diff_insert_absorb)
    then have setf: "set (mm_free ?h) = set (map b_id (filter b_free (mm_blocks ?h)))" unfolding bs by simp
    have "mm_chain m (?p # ys) hi" using c sz by (simp add: add.assoc)
    then have "mm_chain lo (mm_blocks ?h) hi" unfolding bs mm_chain_append using c(1) by blast
    moreover have "distinct (mm_free ?h)" unfolding fr by (intro replace_first_mem(2) [OF d(2) qin]) auto
    moreover have "distinct (map b_id (mm_blocks ?h))" using d(1) unfolding bs joined(1) by simp
    ultimately have "mm_ok ?h" using w setf by (auto simp: mm_ok_def)
    moreover have "brng ?p = brng p \<union> brng q" using c sz by (auto simp: brng_def)
    then have "mm_space ?h = mm_space h" using joined(1-3) by (auto simp: mm_space_def bs)
    moreover have "mm_live ?h = mm_live h" using joined(1-3) by (auto simp: mm_live_def bs)
    ultimately show ?thesis by blast
  qed
  then show "mm_ok (Join2Blocks i h)" "mm_space (Join2Blocks i h) = mm_space h" "mm_live (Join2Blocks i h) = mm_live h" by auto
qed

section \<open>Allocation and release\<close>

text \<open>The outcome of slicing: either a \<^verbatim>\<open>calloc\<close> failed and the heap is as good as before, or
  the range has been taken out of the free addresses.\<close>

definition sliced :: "mm_heap \<Rightarrow> int \<Rightarrow> int \<Rightarrow> bool \<Rightarrow> addr option \<times> mm_heap \<Rightarrow> bool" where
  "sliced h start sz r res \<longleftrightarrow> mm_ok (snd res)
    \<and> (case fst res of
         None \<Rightarrow> mm_space (snd res) = mm_space h \<and> mm_live (snd res) = mm_live h
       | Some i \<Rightarrow> mm_space (snd res) = mm_space h - {start ..< start + sz} \<and> {start ..< start + sz} \<subseteq> mm_space h
           \<and> mm_live (snd res)
              = insert \<lparr>b_id = i, b_ofs = start, b_size = sz, b_free = False, b_reserved = r\<rparr> (mm_live h))"

lemma mm_ok_block:
  assumes "mm_ok h" "mm_blocks h = xs @ p # ys"
  shows "- (2 ^ 31) \<le> b_ofs p" "b_ofs p + b_size p < 2 ^ 31" "0 < b_size p" "b_size p < 2 ^ 31"
proof -
  obtain lo hi where c: "mm_chain lo (mm_blocks h) hi" "- (2 ^ 31) \<le> lo" "hi < 2 ^ 31" "hi - lo < 2 ^ 31"
    using assms(1) by (auto simp: mm_ok_def)
  have "lo \<le> b_ofs p" "0 < b_size p" "b_ofs p + b_size p \<le> hi" using mm_chain_bounds [OF c(1)] assms(2) by auto
  then show "- (2 ^ 31) \<le> b_ofs p" "b_ofs p + b_size p < 2 ^ 31" "0 < b_size p" "b_size p < 2 ^ 31" using c by linarith+
qed

lemma sliced_cong:
  "mm_space h' = mm_space h \<Longrightarrow> mm_live h' = mm_live h \<Longrightarrow> sliced h' start sz r res = sliced h start sz r res"
  by (simp add: sliced_def cong: option.case_cong)

lemma slice_block_take:
  assumes "mm_ok h" "mm_blocks h = xs @ p # ys" "b_free p"
  shows "sliced h (b_ofs p) (b_size p) r
     (Some (b_id p), free_at (b_id p) [] (mm_at (b_id p) (\<lambda>p. [p\<lparr>b_free := False, b_reserved := r\<rparr>]) h))"
  using mm_take_ok(1,2,4) [OF assms, of r] mm_take_ok(3) [OF assms] by (cases p) (auto simp: sliced_def brng_def)

lemma slice_right_ok:
  assumes ok: "mm_ok h" and p: "mm_blocks h = xs @ p # ys" "b_free p" and sz: "0 < sz" "sz \<le> b_size p"
    and n: "\<And>j. n = Some j \<Longrightarrow> j \<notin> b_id ` set (mm_blocks h)"
  shows "sliced h (b_ofs p) sz r (slice_right n h (b_id p) (b_size p) (b_ofs p) sz r)"
proof (cases "sz < b_size p")
  case True
  note b = mm_ok_block [OF ok p(1)]
  have i: "i32 (b_ofs p + sz) = b_ofs p + sz" "i32 (b_size p - sz) = b_size p - sz"
    using b sz by (auto intro!: i32_id)
  show ?thesis
  proof (cases n)
    case None
    then show ?thesis using True ok by (simp add: slice_right_def sliced_def)
  next
    case (Some k)
    let ?h = "mm_split (b_id p) k (b_ofs p + sz) (b_size p - sz) sz h" and ?p = "p\<lparr>b_size := sz\<rparr>"
    have s: "mm_ok ?h" "mm_space ?h = mm_space h" "mm_live ?h = mm_live h"
        "mm_blocks ?h = xs @ [?p, \<lparr>b_id = k, b_ofs = b_ofs p + sz, b_size = b_size p - sz, b_free = True, b_reserved = False\<rparr>] @ ys"
      using mm_split_ok [OF ok p n [OF Some] sz(1), of "b_size p - sz" "b_ofs p + sz"] True by simp_all
    have "sliced ?h (b_ofs ?p) (b_size ?p) r
       (Some (b_id ?p), free_at (b_id ?p) [] (mm_at (b_id ?p) (\<lambda>p. [p\<lparr>b_free := False, b_reserved := r\<rparr>]) ?h))"
      using s(4) p(2) by (intro slice_block_take [OF s(1)]) auto
    then have "sliced h (b_ofs p) sz r
       (Some (b_id p), free_at (b_id p) [] (mm_at (b_id p) (\<lambda>p. [p\<lparr>b_free := False, b_reserved := r\<rparr>]) ?h))"
      using sliced_cong [OF s(2,3)] by simp
    then show ?thesis using True Some i by (simp add: slice_right_def)
  qed
next
  case False
  then have "sz = b_size p" using sz by simp
  then show ?thesis using slice_block_take [OF ok p, of r] False by (simp add: slice_right_def)
qed

lemma SliceBlock_ok:
  assumes ok: "mm_ok h" and p: "mm_blocks h = xs @ p # ys" "b_free p"
    and sz: "0 < sz" "b_ofs p \<le> start" "start + sz \<le> b_ofs p + b_size p"
    and n: "\<And>j. fst n = Some j \<or> snd n = Some j \<Longrightarrow> j \<notin> b_id ` set (mm_blocks h)" "fst n \<noteq> snd n \<or> fst n = None"
  shows "sliced h start sz r (SliceBlock n h p start sz r al)"
proof (cases "b_ofs p < start")
  case True
  note b = mm_ok_block [OF ok p(1)]
  show ?thesis
  proof (cases "fst n")
    case None
    then show ?thesis using True ok by (simp add: SliceBlock_def sliced_def)
  next
    case (Some i)
    let ?l = "start - b_ofs p" and ?s = "b_size p - (start - b_ofs p)"
    have a: "i32 (start - b_ofs p) = ?l" "i32 ?s = ?s" "i32 (b_size p - ?s) = ?l"
      using b sz True by (auto intro!: i32_id)
    let ?h = "mm_split (b_id p) i start ?s ?l h"
    let ?q = "\<lparr>b_id = i, b_ofs = start, b_size = ?s, b_free = True, b_reserved = False\<rparr>"
    have i: "i \<notin> b_id ` set (mm_blocks h)" using n(1) Some by blast
    have s: "mm_ok ?h" "mm_space ?h = mm_space h" "mm_live ?h = mm_live h" "mm_blocks ?h = xs @ [p\<lparr>b_size := ?l\<rparr>, ?q] @ ys"
      using mm_split_ok [OF ok p i, of ?l ?s start] True sz by simp_all
    have fresh: "j \<notin> b_id ` set (mm_blocks ?h)" if "snd n = Some j" for j
      using n that Some unfolding s(4) p(1) by auto
    have "sliced ?h (b_ofs ?q) sz r (slice_right (snd n) ?h (b_id ?q) (b_size ?q) (b_ofs ?q) sz r)"
      using s(4) sz fresh by (intro slice_right_ok [OF s(1), of "xs @ [p\<lparr>b_size := ?l\<rparr>]" _ ys]) auto
    then have "sliced h start sz r (slice_right (snd n) ?h i ?s start sz r)" using sliced_cong [OF s(2,3)] by simp
    then show ?thesis using True Some a by (simp add: SliceBlock_def Let_def)
  qed
next
  case False
  then have "start = b_ofs p" using sz by simp
  then show ?thesis using slice_right_ok [OF ok p sz(1), of "snd n" r] sz n False by (simp add: SliceBlock_def)
qed

lemma mmFreeMem_ok:
  assumes ok: "mm_ok h" and p: "p \<in> mm_live h" "\<not> b_reserved p"
  shows "\<exists>h'. mmFreeMem h (Some (b_id p)) = Some (0, h') \<and> mm_ok h' \<and> mm_space h' = mm_space h \<union> brng p
     \<and> mm_live h' = mm_live h - {p}"
proof -
  obtain xs ys where bs: "mm_blocks h = xs @ p # ys" and free: "\<not> b_free p"
    using p by (auto simp: mm_live_def in_set_conv_decomp)
  have "distinct (map b_id (mm_blocks h))" using ok by (simp add: mm_ok_def)
  then have look: "mm_block h (b_id p) = Some p" using mm_at_split(3) [OF bs] by simp
  let ?h1 = "(mm_at (b_id p) (\<lambda>p. [p\<lparr>b_free := True\<rparr>]) h)\<lparr>mm_free := b_id p # mm_free h\<rparr>"
  let ?h2 = "Join2Blocks (b_id p) ?h1"
  note g = mm_give_ok [OF ok bs free]
  note j = Join2Blocks_ok [OF g(1)]
  show ?thesis
    using look free p(2) g j Join2Blocks_ok [OF j(1)]
    by (cases "prev_block (b_id p) (mm_blocks ?h2)") (simp_all add: mmFreeMem_def Let_def)
qed

text \<open>The mask clears the low bits: the next multiple of the power of two.\<close>

lemma int_and_not_mask: "(x::int) AND NOT (2 ^ k - 1) = x div 2 ^ k * 2 ^ k"
proof -
  have "x = (x AND NOT (mask k)) + take_bit k x"
    by (subst disjunctive_add_eq_or) (auto intro!: bit_eqI simp: bit_simps)
  then have "x AND NOT (mask k) = x - x mod 2 ^ k" by (simp add: take_bit_eq_mod)
  then show ?thesis by (simp add: mask_eq_exp_minus_1 minus_mod_eq_div_mult)
qed

definition int_round_up :: "nat \<Rightarrow> int \<Rightarrow> int" where
  "int_round_up k x = (x + 2 ^ k - 1) div 2 ^ k * 2 ^ k"

lemma int_round_up: "2 ^ k dvd int_round_up k x" "x \<le> int_round_up k x" "int_round_up k x < x + 2 ^ k"
proof -
  show "2 ^ k dvd int_round_up k x" by (simp add: int_round_up_def)
  have "(x + 2 ^ k - 1) mod 2 ^ k < 2 ^ k" "0 \<le> (x + 2 ^ k - 1) mod 2 ^ k" by simp_all
  moreover have "int_round_up k x = (x + 2 ^ k - 1) - (x + 2 ^ k - 1) mod 2 ^ k"
    by (simp add: int_round_up_def minus_mod_eq_div_mult)
  ultimately show "x \<le> int_round_up k x" "int_round_up k x < x + 2 ^ k" by linarith+
qed

text \<open>A request whose sums do not overflow, with new memory for the blocks, should it be needed.\<close>

type_synonym mm_req = "(addr option \<times> addr option) \<times> int \<times> int \<times> int"

definition mm_req_ok :: "mm_heap \<Rightarrow> mm_req \<Rightarrow> bool" where
  "mm_req_ok h q = (case q of (n, sz, align2, startSearch) \<Rightarrow>
     0 < sz \<and> 0 \<le> align2 \<and> align2 < 31 \<and> - (2 ^ 31) \<le> startSearch \<and> startSearch + sz < 2 ^ 31
     \<and> (\<forall>b \<in> set (mm_blocks h). b_ofs b + 2 ^ nat align2 + sz \<le> 2 ^ 31 \<and> fst n \<noteq> Some (b_id b) \<and> snd n \<noteq> Some (b_id b))
     \<and> (fst n \<noteq> snd n \<or> fst n = None))"

text \<open>Where the request goes in a block, and whether it fits.\<close>

definition mm_place :: "mm_req \<Rightarrow> mem_block \<Rightarrow> int" where
  "mm_place q p = (case q of (n, sz, align2, startSearch) \<Rightarrow> max (int_round_up (nat align2) (b_ofs p)) startSearch)"

definition mm_fits :: "mm_req \<Rightarrow> mem_block \<Rightarrow> bool" where
  "mm_fits q p = (case q of (n, sz, align2, startSearch) \<Rightarrow> mm_place q p + sz \<le> b_ofs p + b_size p)"

lemma mm_search_step:
  assumes ok: "mm_ok h" and req: "mm_req_ok h (n, sz, align2, ss)" and p: "p \<in> set (mm_blocks h)"
  defines "msk \<equiv> i32 (i32 (2 ^ nat align2) - 1)"
  shows "mm_start msk ss p = mm_place (n, sz, align2, ss) p"
    and "i32 (mm_start msk ss p + sz) \<le> i32 (b_ofs p + b_size p) \<longleftrightarrow> mm_fits (n, sz, align2, ss) p"
proof -
  let ?k = "nat align2"
  have r: "0 < sz" "?k < 31" "- (2 ^ 31) \<le> ss" "ss + sz < 2 ^ 31" "b_ofs p + 2 ^ ?k + sz \<le> 2 ^ 31"
    using req p by (auto simp: mm_req_ok_def)
  obtain xs ys where bs: "mm_blocks h = xs @ p # ys" using p by (auto simp: in_set_conv_decomp)
  note b = mm_ok_block [OF ok bs]
  have "(2::int) ^ ?k < 2 ^ 31" using r(2) by (intro power_strict_increasing) auto
  moreover have one: "1 \<le> (2::int) ^ ?k" by simp
  ultimately have k: "i32 (2 ^ ?k) = 2 ^ ?k" "i32 (2 ^ ?k - 1) = 2 ^ ?k - 1"
    by (intro i32_id; linarith)+
  have "i32 (b_ofs p + (2 ^ ?k - 1)) = b_ofs p + (2 ^ ?k - 1)" using b r one by (intro i32_id) linarith+
  then have s: "i32 (b_ofs p + msk) AND NOT msk = int_round_up ?k (b_ofs p)"
    unfolding msk_def k int_and_not_mask by (simp add: int_round_up_def add_diff_eq)
  then show start: "mm_start msk ss p = mm_place (n, sz, align2, ss) p"
    by (simp add: mm_start_def mm_place_def Let_def max_def)
  have pl: "b_ofs p \<le> mm_place (n, sz, align2, ss) p" "mm_place (n, sz, align2, ss) p + sz < 2 ^ 31"
    using int_round_up(2) [where x = "b_ofs p" and k = ?k] int_round_up(3) [where x = "b_ofs p" and k = ?k] r by (auto simp: mm_place_def)
  have "i32 (mm_place (n, sz, align2, ss) p + sz) = mm_place (n, sz, align2, ss) p + sz" "i32 (b_ofs p + b_size p) = b_ofs p + b_size p"
    using pl b r(1) by (auto intro!: i32_id)
  then show "i32 (mm_start msk ss p + sz) \<le> i32 (b_ofs p + b_size p) \<longleftrightarrow> mm_fits (n, sz, align2, ss) p"
    by (simp add: start mm_fits_def)
qed

lemma mm_search_cases:
  assumes ok: "mm_ok h" and req: "mm_req_ok h q" and q: "q = (n, sz, align2, ss)"
    and "set js \<subseteq> b_id ` set (mm_blocks h)"
  shows "case mm_search h sz (i32 (i32 (2 ^ nat align2) - 1)) ss js of
     None \<Rightarrow> \<forall>i \<in> set js. \<exists>p. mm_block h i = Some p \<and> \<not> mm_fits q p
   | Some (p, start) \<Rightarrow> b_id p \<in> set js \<and> p \<in> set (mm_blocks h) \<and> start = mm_place q p \<and> mm_fits q p"
  using assms(4)
proof (induction js)
  case (Cons i ks)
  then obtain p where p: "p \<in> set (mm_blocks h)" "b_id p = i" by auto
  have "distinct (map b_id (mm_blocks h))" using ok by (simp add: mm_ok_def)
  moreover obtain xs ys where bs: "mm_blocks h = xs @ p # ys" using p by (auto simp: in_set_conv_decomp)
  ultimately have look: "mm_block h i = Some p" using mm_at_split(3) [OF bs] p by simp
  note step = mm_search_step [OF ok req [unfolded q] p(1)]
  show ?case
  proof (cases "mm_fits q p")
    case True
    then show ?thesis using look step p by (simp add: Let_def q)
  next
    case False
    then have "mm_search h sz (i32 (i32 (2 ^ nat align2) - 1)) ss (i # ks) = mm_search h sz (i32 (i32 (2 ^ nat align2) - 1)) ss ks"
      using look step by (simp add: Let_def q)
    then show ?thesis using Cons False look by (auto split: option.splits)
  qed
qed simp

lemma mm_live_block:
  assumes "mm_ok h" "p \<in> mm_live h"
  shows "mm_block h (b_id p) = Some p"
proof -
  obtain xs ys where "mm_blocks h = xs @ p # ys" using assms(2) by (auto simp: mm_live_def in_set_conv_decomp)
  then show ?thesis using mm_at_split(3) assms(1) by (simp add: mm_ok_def)
qed

lemma mm_free_block:
  assumes "mm_ok h" "p \<in> set (mm_blocks h)"
  shows "b_id p \<in> set (mm_free h) \<longleftrightarrow> b_free p" "mm_block h (b_id p) = Some p"
proof -
  obtain xs ys where bs: "mm_blocks h = xs @ p # ys" using assms(2) by (auto simp: in_set_conv_decomp)
  have d: "distinct (map b_id (mm_blocks h))" "set (mm_free h) = set (map b_id (filter b_free (mm_blocks h)))"
    using assms(1) by (simp_all add: mm_ok_def)
  show "mm_block h (b_id p) = Some p" using mm_at_split(3) [OF bs] d(1) by simp
  have "p = b" if "b \<in> set (mm_blocks h)" "b_id p = b_id b" for b
    using d(1) assms(2) that by (metis distinct_map inj_onD)
  then show "b_id p \<in> set (mm_free h) \<longleftrightarrow> b_free p" using d(2) assms(2) by auto
qed

lemma mmAllocMem_cases:
  assumes ok: "mm_ok h" and req: "mm_req_ok h q" and q: "q = (n, sz, align2, ss)"
  obtains (none) "mmAllocMem n (Some h) sz align2 ss = (None, Some h)" "\<forall>p \<in> set (mm_blocks h). b_free p \<longrightarrow> \<not> mm_fits q p"
  | (some) p r h' where "mmAllocMem n (Some h) sz align2 ss = (r, Some h')" "p \<in> set (mm_blocks h)" "b_free p" "mm_fits q p"
      "sliced h (mm_place q p) sz False (r, h')" "fst n \<noteq> None \<Longrightarrow> snd n \<noteq> None \<Longrightarrow> r \<noteq> None"
proof -
  let ?m = "i32 (i32 (2 ^ nat align2) - 1)"
  have r: "0 < sz" "0 \<le> align2" using req by (auto simp: mm_req_ok_def q)
  have fl: "set (mm_free h) \<subseteq> b_id ` set (mm_blocks h)" using ok by (auto simp: mm_ok_def)
  note s = mm_search_cases [OF ok req q fl]
  show thesis
  proof (cases "mm_search h sz ?m ss (mm_free h)")
    case None
    have "\<not> mm_fits q p" if p: "p \<in> set (mm_blocks h)" "b_free p" for p
      using s None mm_free_block [OF ok p(1)] p(2) by fastforce
    then show thesis using None r by (intro none) (auto simp: mmAllocMem_def Let_def)
  next
    case (Some x)
    obtain p start where x: "x = (p, start)" by (cases x)
    then have p: "b_id p \<in> set (mm_free h)" "p \<in> set (mm_blocks h)" "start = mm_place q p" "mm_fits q p" using s Some by auto
    have free: "b_free p" using mm_free_block [OF ok p(2)] p(1) by simp
    obtain xs ys where bs: "mm_blocks h = xs @ p # ys" using p(2) by (auto simp: in_set_conv_decomp)
    obtain r h' where res: "SliceBlock n h p start sz False (i32 (?m + 1)) = (r, h')" by (cases "SliceBlock n h p start sz False (i32 (?m + 1))")
    have "b_ofs p \<le> start" using int_round_up(2) [where x = "b_ofs p" and k = "nat align2"] by (simp add: p(3) mm_place_def q)
    then have "sliced h start sz False (SliceBlock n h p start sz False (i32 (?m + 1)))"
      using p(3,4) req by (intro SliceBlock_ok [OF ok bs free]) (auto simp: mm_req_ok_def mm_fits_def q)
    moreover have "fst n \<noteq> None \<Longrightarrow> snd n \<noteq> None \<Longrightarrow> r \<noteq> None"
      using res by (cases n) (auto simp: SliceBlock_def slice_right_def Let_def split: if_splits)
    ultimately show thesis
      using Some x res r p free by (intro some [of r h' p]) (auto simp: mmAllocMem_def Let_def)
  qed
qed

definition mm_alloc :: "mm_req \<Rightarrow> mm_heap \<Rightarrow> mem_block option \<times> mm_heap" where
  "mm_alloc q h = (case q of (n, sz, align2, ss) \<Rightarrow>
     (case mmAllocMem n (Some h) sz align2 ss of
        (r, None) \<Rightarrow> (None, h)
      | (None, Some h') \<Rightarrow> (None, h')
      | (Some i, Some h') \<Rightarrow> (mm_block h' i, h')))"

definition mm_release :: "mem_block \<Rightarrow> mm_heap \<Rightarrow> mm_heap" where
  "mm_release p h = (case mmFreeMem h (Some (b_id p)) of None \<Rightarrow> h | Some (_, h') \<Rightarrow> h')"

definition mm_live_ok :: "mm_heap \<Rightarrow> mem_block \<Rightarrow> bool" where
  "mm_live_ok h p \<longleftrightarrow> p \<in> mm_live h \<and> \<not> b_reserved p"

lemma mm_alloc_result:
  assumes ok: "mm_ok h" and req: "mm_req_ok h q" and a: "mm_alloc q h = (x, h')"
  shows "mm_ok h' \<and> (case x of
       None \<Rightarrow> mm_space h' = mm_space h \<and> mm_live h' = mm_live h
     | Some p \<Rightarrow> brng p \<noteq> {} \<and> brng p \<subseteq> mm_space h \<and> mm_space h' = mm_space h - brng p
         \<and> mm_live h' = insert p (mm_live h) \<and> \<not> b_reserved p
         \<and> (\<exists>b \<in> set (mm_blocks h). b_free b \<and> mm_fits q b \<and> b_ofs p = mm_place q b) \<and> b_size p = fst (snd q))"
proof -
  obtain n sz align2 ss where q: "q = (n, sz, align2, ss)" by (cases q) auto
  have pos: "0 < sz" using req by (simp add: mm_req_ok_def q)
  show ?thesis using ok req q
  proof (cases rule: mmAllocMem_cases)
    case none
    then show ?thesis using a ok by (auto simp: mm_alloc_def q)
  next
    case (some p r h1)
    show ?thesis
    proof (cases r)
      case None
      then show ?thesis using a some by (auto simp: mm_alloc_def q sliced_def)
    next
      case (Some i)
      let ?p = "\<lparr>b_id = i, b_ofs = mm_place q p, b_size = sz, b_free = False, b_reserved = False\<rparr>"
      have s: "mm_ok h1" "mm_space h1 = mm_space h - {mm_place q p ..< mm_place q p + sz}"
          "{mm_place q p ..< mm_place q p + sz} \<subseteq> mm_space h" "mm_live h1 = insert ?p (mm_live h)"
        using some(5) Some by (auto simp: sliced_def)
      have "mm_block h1 i = Some ?p" using mm_live_block [OF s(1), of ?p] s(4) by simp
      then have "x = Some ?p" "h' = h1" using a some(1) Some by (auto simp: mm_alloc_def q)
      then show ?thesis using s pos some(2-4) by (auto simp: brng_def q)
    qed
  qed
qed

lemma mm_release_result:
  assumes "mm_ok h" "mm_live_ok h p"
  shows "mm_ok (mm_release p h)" "mm_space (mm_release p h) = mm_space h \<union> brng p" "mm_live (mm_release p h) = mm_live h - {p}"
  using mmFreeMem_ok [OF assms(1), of p] assms(2) by (auto simp: mm_live_ok_def mm_release_def)

interpretation mm: range_alloc mm_ok mm_space brng mm_alloc mm_release mm_req_ok mm_live_ok
proof
  fix h q x h' p p'
  assume ok: "mm_ok h"
  show "mm_req_ok h q \<Longrightarrow> mm_alloc q h = (x, h') \<Longrightarrow> mm_ok h'" using mm_alloc_result [OF ok] by blast
  show "mm_req_ok h q \<Longrightarrow> mm_alloc q h = (Some p, h') \<Longrightarrow>
      brng p \<noteq> {} \<and> brng p \<subseteq> mm_space h \<and> mm_space h' = mm_space h - brng p \<and> mm_live_ok h' p"
    using mm_alloc_result [OF ok, of q "Some p" h'] by (simp add: mm_live_ok_def)
  show "mm_req_ok h q \<Longrightarrow> mm_alloc q h = (None, h') \<Longrightarrow> mm_space h' = mm_space h"
    using mm_alloc_result [OF ok, of q None h'] by simp
  show "mm_req_ok h q \<Longrightarrow> mm_alloc q h = (x, h') \<Longrightarrow> mm_live_ok h p \<Longrightarrow> brng p \<inter> mm_space h = {} \<Longrightarrow> mm_live_ok h' p"
    using mm_alloc_result [OF ok, of q x h'] by (cases x) (simp_all add: mm_live_ok_def)
  show "mm_live_ok h p \<Longrightarrow> brng p \<inter> mm_space h = {} \<Longrightarrow>
      mm_ok (mm_release p h) \<and> mm_space (mm_release p h) = mm_space h \<union> brng p"
    using mm_release_result [OF ok] by blast
  show "mm_live_ok h p \<Longrightarrow> mm_live_ok h p' \<Longrightarrow> brng p \<inter> mm_space h = {} \<Longrightarrow> brng p \<inter> brng p' = {} \<Longrightarrow> mm_live_ok (mm_release p h) p'"
  proof -
    assume l: "mm_live_ok h p" "mm_live_ok h p'" and d: "brng p \<inter> brng p' = {}"
    obtain xs ys where "mm_blocks h = xs @ p # ys" using l(1) by (auto simp: mm_live_ok_def mm_live_def in_set_conv_decomp)
    then have "brng p \<noteq> {}" using mm_ok_block(3) [OF ok] by (simp add: brng_def)
    then have "p' \<noteq> p" using d by auto
    then show ?thesis using mm_release_result(3) [OF ok l(1)] l(2) by (simp add: mm_live_ok_def)
  qed
qed

lemma mmInit_ok:
  assumes "mmInit True (Some i) ofs sz = Some h" "- (2 ^ 31) \<le> ofs" "ofs + sz < 2 ^ 31" "sz < 2 ^ 31"
  shows "mm_ok h" "mm_space h = {ofs ..< ofs + sz}"
proof -
  have h: "mm_blocks h = [\<lparr>b_id = i, b_ofs = ofs, b_size = sz, b_free = True, b_reserved = False\<rparr>]" "mm_free h = [i]" "0 < sz"
    using assms(1) by (auto simp: mmInit_def split: if_splits)
  show "mm_ok h" "mm_space h = {ofs ..< ofs + sz}"
    using assms(2-4) h(3) by (simp_all add: mm_ok_def mm_space_def brng_def h(1,2))
qed

section \<open>Properties\<close>

text \<open>C12. The heap never hands out an address twice, as long as no request overflows. For every sequence of allocations and releases
  on a heap set up by \<^verbatim>\<open>mmInit\<close> in which the requests are for a positive size and an alignment below \<open>2 ^ 31\<close>, and
  neither \<open>startSearch\<close> plus the size nor the start of a block plus alignment plus size exceeds an \<^verbatim>\<open>int\<close> (\<open>mm_req_ok\<close>), also when
  \<^verbatim>\<open>calloc\<close> fails in the middle of slicing a
  block, the free addresses and the blocks held are a partition of the addresses of the heap, the blocks cover it without
  gaps and the free list holds exactly the free blocks. The code does not test for the overflow; \<open>mmAllocMem_overflow\<close>
  below shows what it does then.\<close>

theorem mm_heap_partition:
  assumes "mmInit True (Some i) ofs sz = Some h" and "- (2 ^ 31) \<le> ofs" and "ofs + sz < 2 ^ 31" and "sz < 2 ^ 31"
    and "ra_ok mm_req_ok mm_alloc mm_release (h, []) xs"
    and "ra_run mm_alloc mm_release (h, []) xs = (h', live)"
  shows "mm_ok h' \<and> mm_space h' \<union> (\<Union>p \<in> set live. {b_ofs p ..< b_ofs p + b_size p}) = {ofs ..< ofs + sz}
    \<and> (\<forall>p \<in> set live. {b_ofs p ..< b_ofs p + b_size p} \<inter> mm_space h' = {})
    \<and> sorted_wrt (\<lambda>p q. {b_ofs p ..< b_ofs p + b_size p} \<inter> {b_ofs q ..< b_ofs q + b_size q} = {}) live"
  using mm.run_partition [OF mmInit_ok(1) [OF assms(1-4)] assms(5,6)] mmInit_ok(2) [OF assms(1-4)]
  by (simp add: brng_def)

lemma mmInit_example:
  "mmInit True (Some 1) 0 100 = Some \<lparr>mm_blocks = [\<lparr>b_id = 1, b_ofs = 0, b_size = 100, b_free = True, b_reserved = False\<rparr>], mm_free = [1]\<rparr>"
  by (simp add: mmInit_def)

theorem mm_heap_partition_witness:
  "let h = \<lparr>mm_blocks = [\<lparr>b_id = 1, b_ofs = 0, b_size = 100, b_free = True, b_reserved = False\<rparr>], mm_free = [1]\<rparr>;
       c = ra_run mm_alloc mm_release (h, []) [RAlloc ((Some 2, Some 3), 8, 3, 10)]
   in mm_space (fst c) \<union> (\<Union>p \<in> set (snd c). {b_ofs p ..< b_ofs p + b_size p}) = {0 ..< 100}"
proof -
  let ?h = "\<lparr>mm_blocks = [\<lparr>b_id = 1, b_ofs = 0, b_size = 100, b_free = True, b_reserved = False\<rparr>], mm_free = [1]\<rparr>"
  let ?xs = "[RAlloc ((Some 2, Some 3), 8, 3, 10)] :: mm_req ra_cmd list"
  have "ra_ok mm_req_ok mm_alloc mm_release (?h, []) ?xs" by (simp add: mm_req_ok_def)
  from mm_heap_partition [OF mmInit_example _ _ _ this, of "fst (ra_run mm_alloc mm_release (?h, []) ?xs)"
      "snd (ra_run mm_alloc mm_release (?h, []) ?xs)"]
  show ?thesis by (simp add: Let_def)
qed

text \<open>What \<^verbatim>\<open>mmAllocMem\<close> returns: a block of the requested size at the aligned start of a free
  block or at \<open>startSearch\<close>, whichever is greater, inside that free block; so the block is aligned when
  \<open>startSearch\<close> is. When there is memory for the block records, it fails only if the request fits in no free block.\<close>

theorem mmAllocMem_outcome:
  assumes "mm_ok h" and "mm_req_ok h ((n1, n2), sz, align2, ss)" and "mmAllocMem (n1, n2) (Some h) sz align2 ss = (r, h')"
  shows "(case r of
       Some i \<Rightarrow> \<exists>h1 b. h' = Some h1 \<and> mm_ok h1 \<and> b \<in> set (mm_blocks h) \<and> b_free b
         \<and> (let ofs = max ((b_ofs b + 2 ^ nat align2 - 1) div 2 ^ nat align2 * 2 ^ nat align2) ss
            in mm_block h1 i = Some \<lparr>b_id = i, b_ofs = ofs, b_size = sz, b_free = False, b_reserved = False\<rparr>
             \<and> b_ofs b \<le> ofs \<and> ofs + sz \<le> b_ofs b + b_size b \<and> (2 ^ nat align2 dvd ss \<longrightarrow> 2 ^ nat align2 dvd ofs))
     | None \<Rightarrow> n1 \<noteq> None \<and> n2 \<noteq> None \<longrightarrow> h' = Some h \<and> (\<forall>b \<in> set (mm_blocks h). b_free b \<longrightarrow>
         b_ofs b + b_size b < max ((b_ofs b + 2 ^ nat align2 - 1) div 2 ^ nat align2 * 2 ^ nat align2) ss + sz))"
  using assms(1,2) refl
proof (cases rule: mmAllocMem_cases)
  case none
  then show ?thesis using assms(3) by (auto simp: mm_fits_def mm_place_def int_round_up_def)
next
  case (some b r1 h1)
  let ?q = "((n1, n2), sz, align2, ss)"
  have r: "r = r1" "h' = Some h1" using some(1) assms(3) by simp_all
  have place: "mm_place ?q b = max ((b_ofs b + 2 ^ nat align2 - 1) div 2 ^ nat align2 * 2 ^ nat align2) ss"
    by (simp add: mm_place_def int_round_up_def)
  show ?thesis
  proof (cases r)
    case None
    have "r1 \<noteq> None" if "n1 \<noteq> None" "n2 \<noteq> None" using some(6) that by simp
    then show ?thesis using None r(1) by auto
  next
    case (Some i)
    let ?p = "\<lparr>b_id = i, b_ofs = mm_place ?q b, b_size = sz, b_free = False, b_reserved = False\<rparr>"
    have s: "mm_ok h1" "?p \<in> mm_live h1" using some(5) Some r by (auto simp: sliced_def)
    have "mm_block h1 i = Some ?p" using mm_live_block [OF s] by simp
    moreover have "b_ofs b \<le> mm_place ?q b" using int_round_up(2) [where x = "b_ofs b" and k = "nat align2"] by (simp add: mm_place_def)
    moreover have "2 ^ nat align2 dvd ss \<longrightarrow> 2 ^ nat align2 dvd mm_place ?q b"
      by (auto simp: mm_place_def int_round_up(1) max_def)
    ultimately show ?thesis using some(2-4) s(1) r(2) Some by (auto simp: Let_def place mm_fits_def)
  qed
qed

theorem mmAllocMem_outcome_witness:
  "let h = \<lparr>mm_blocks = [\<lparr>b_id = 1, b_ofs = 0, b_size = 100, b_free = True, b_reserved = False\<rparr>], mm_free = [1]\<rparr>
   in fst (mmAllocMem (Some 2, Some 3) (Some h) 8 3 16) \<noteq> None"
proof -
  let ?h = "\<lparr>mm_blocks = [\<lparr>b_id = 1, b_ofs = 0, b_size = 100, b_free = True, b_reserved = False\<rparr>], mm_free = [1]\<rparr>"
  have ok: "mm_ok ?h" using mmInit_ok(1) [OF mmInit_example] by simp
  have req: "mm_req_ok ?h ((Some 2, Some 3), 8, 3, 16)" by (simp add: mm_req_ok_def)
  from mmAllocMem_outcome [OF ok req prod.collapse [symmetric]] show ?thesis
    by (cases "fst (mmAllocMem (Some 2, Some 3) (Some ?h) 8 3 16)") auto
qed

text \<open>An unaligned \<open>startSearch\<close> gives an unaligned block, against the documented alignment.\<close>

lemma mmAllocMem_unaligned:
  "let h = \<lparr>mm_blocks = [\<lparr>b_id = 1, b_ofs = 0, b_size = 100, b_free = True, b_reserved = False\<rparr>], mm_free = [1]\<rparr>
   in map_option b_ofs (mm_block (the (snd (mmAllocMem (Some 2, Some 3) (Some h) 8 4 1))) 2) = Some 1"
  by (simp add: mmAllocMem_def mm_start_def mm_block_def SliceBlock_def slice_right_def mm_split_def mm_at_def free_at_def
      Let_def i32_def)

text \<open>The end of a request is not computed without overflow: a request of nearly \<open>2 ^ 31\<close> addresses from 200 on in a heap of 100
  addresses wraps around to a negative end, which passes the test. The caller gets a block behind the heap with a negative size, and
  the free block grows to the addresses from 0 to 200.\<close>

lemma mmAllocMem_overflow:
  "let h = \<lparr>mm_blocks = [\<lparr>b_id = 1, b_ofs = 0, b_size = 100, b_free = True, b_reserved = False\<rparr>], mm_free = [1]\<rparr>
   in mmAllocMem (Some 2, Some 3) (Some h) 2147483647 0 200 =
     (Some 2, Some \<lparr>mm_blocks = [\<lparr>b_id = 1, b_ofs = 0, b_size = 200, b_free = True, b_reserved = False\<rparr>,
        \<lparr>b_id = 2, b_ofs = 200, b_size = -100, b_free = False, b_reserved = False\<rparr>], mm_free = [1]\<rparr>)"
  by code_simp

text \<open>A block that is free, or reserved, is refused.\<close>

lemma mmFreeMem_refused:
  assumes "mm_block h i = Some p" "b_free p \<or> b_reserved p"
  shows "mmFreeMem h (Some i) = Some (-1, h)"
  using assms by (auto simp: mmFreeMem_def)

end
