(* ===== verification/Drm_Atomic.thy ===== *)
theory Drm_Atomic
  imports Prelude "HOL-Library.Multiset"
begin

text \<open>
  The atomic mode-setting requests of \<^verbatim>\<open>hals/display/libdrm/xf86drmMode.c\<close>: a growing array of property
  settings, and the commit that sorts them, removes duplicates and packs them into the four arrays
  the kernel reads. \<open>None\<close> as a result is a write outside an array. \<^verbatim>\<open>qsort\<close> of the C library promises
  a permutation in the order of the comparison and nothing more (it is not stable): it is a parameter of the commit.
  The kernel's answer to the \<^verbatim>\<open>ioctl\<close> is a parameter as well.
\<close>

section \<open>Requests\<close>

record req_item =
  object_id :: u32
  property_id :: u32
  pvalue :: u64

record atomic_req =
  cursor :: u32
  size_items :: u32
  items :: "req_item list"

text \<open>The number of 16-byte items in an allocation of \<open>n\<close> of them: the product is one of 32-bit words.\<close>

definition items_alloc :: "u32 \<Rightarrow> nat" where
  "items_alloc n = unat (n * 16) div 16"

definition items_realloc :: "req_item \<Rightarrow> req_item list \<Rightarrow> u32 \<Rightarrow> req_item list" where
  "items_realloc junk xs n = take (items_alloc n) xs @ replicate (items_alloc n - length xs) junk"

definition drmModeAtomicAlloc :: "bool \<Rightarrow> atomic_req option" where
  "drmModeAtomicAlloc mem = (if mem then Some \<lparr>cursor = 0, size_items = 0, items = []\<rparr> else None)"

definition drmModeAtomicDuplicate :: "bool \<Rightarrow> bool \<Rightarrow> atomic_req option \<Rightarrow> atomic_req option" where
  "drmModeAtomicDuplicate mem1 mem2 old =
     (case old of
        None \<Rightarrow> None
      | Some r \<Rightarrow>
          if \<not> mem1 then None
          else if size_items r \<noteq> 0 then
            if \<not> mem2 then None
            else Some \<lparr>cursor = cursor r, size_items = size_items r, items = take (items_alloc (size_items r)) (items r)\<rparr>
          else Some \<lparr>cursor = cursor r, size_items = size_items r, items = []\<rparr>)"

text \<open>\<^verbatim>\<open>memcpy\<close> of some items to an index.\<close>

definition items_copy :: "req_item list \<Rightarrow> nat \<Rightarrow> req_item list \<Rightarrow> req_item list option" where
  "items_copy xs i ys =
     (if i + length ys \<le> length xs then Some (take i xs @ ys @ drop (i + length ys) xs) else None)"

definition drmModeAtomicMerge ::
  "bool \<Rightarrow> req_item \<Rightarrow> atomic_req option \<Rightarrow> atomic_req option \<Rightarrow> (int \<times> atomic_req option) option" where
  "drmModeAtomicMerge mem junk base augment =
     (case base of
        None \<Rightarrow> Some (- EINVAL, base)
      | Some b \<Rightarrow>
          (case augment of
             None \<Rightarrow> Some (0, base)
           | Some a \<Rightarrow>
               if cursor a = 0 then Some (0, base)
               else
                 let n = cursor b + cursor a;
                     grow = n \<ge> size_items b;
                     b1 = (if grow then b\<lparr>size_items := n, items := items_realloc junk (items b) n\<rparr> else b)
                 in if grow \<and> \<not> mem then Some (- ENOMEM, base)
                    else if length (items a) < unat (cursor a) then None
                    else (case items_copy (items b1) (unat (cursor b1)) (take (unat (cursor a)) (items a)) of
                            None \<Rightarrow> None
                          | Some xs \<Rightarrow> Some (0, Some (b1\<lparr>items := xs, cursor := cursor b1 + cursor a\<rparr>)))))"

definition drmModeAtomicGetCursor :: "atomic_req option \<Rightarrow> int" where
  "drmModeAtomicGetCursor req = (case req of None \<Rightarrow> - EINVAL | Some r \<Rightarrow> sint (cursor r))"

definition drmModeAtomicSetCursor :: "atomic_req option \<Rightarrow> u32 \<Rightarrow> atomic_req option" where
  "drmModeAtomicSetCursor req c = map_option (\<lambda>r. r\<lparr>cursor := c\<rparr>) req"

definition drmModeAtomicAddProperty ::
  "bool \<Rightarrow> req_item \<Rightarrow> atomic_req option \<Rightarrow> u32 \<Rightarrow> u32 \<Rightarrow> u64 \<Rightarrow> (int \<times> atomic_req option) option" where
  "drmModeAtomicAddProperty mem junk req obj prop v =
     (case req of
        None \<Rightarrow> Some (- EINVAL, req)
      | Some r \<Rightarrow>
          if obj = 0 \<or> prop = 0 then Some (- EINVAL, req)
          else
            let grow = cursor r \<ge> size_items r;
                n = size_items r + 16;
                r1 = (if grow then r\<lparr>size_items := n, items := items_realloc junk (items r) n\<rparr> else r)
            in if grow \<and> \<not> mem then Some (- ENOMEM, req)
               else if unat (cursor r1) < length (items r1) then
                 Some (sint (cursor r1 + 1),
                       Some (r1\<lparr>items := (items r1)[unat (cursor r1) := \<lparr>object_id = obj, property_id = prop, pvalue = v\<rparr>],
                                cursor := cursor r1 + 1\<rparr>))
               else None)"

section \<open>The commit\<close>

definition sort_req_list :: "req_item \<Rightarrow> req_item \<Rightarrow> int" where
  "sort_req_list first second =
     (if object_id first < object_id second then -1
      else if object_id first > object_id second then 1
      else sint (property_id second - property_id first))"

text \<open>The loop that removes duplicates; the array is the list up to the cursor. It also counts objects.\<close>

definition same_prop :: "req_item \<Rightarrow> req_item \<Rightarrow> bool" where
  "same_prop a b \<longleftrightarrow> object_id a = object_id b \<and> property_id a = property_id b"

function dedup_loop :: "nat \<Rightarrow> req_item list \<Rightarrow> nat \<Rightarrow> u32 \<Rightarrow> req_item list \<times> nat" where
  "dedup_loop i xs count_objs last_obj_id =
     (if i < length xs then
        let x = xs ! i;
            new = object_id x \<noteq> last_obj_id;
            c = (if new then count_objs + 1 else count_objs);
            l = (if new then object_id x else last_obj_id)
        in if i = length xs - 1 then dedup_loop (i + 1) xs c l
           else if \<not> same_prop x (xs ! (i + 1)) then dedup_loop (i + 1) xs c l
           else dedup_loop (i + 1) (take i xs @ drop (i + 1) xs) c l
      else (xs, count_objs))"
  by pat_completeness auto
termination by (relation "measure (\<lambda>(i, xs, c, l). length xs - i)") auto

declare dedup_loop.simps [simp del]

text \<open>The arrays handed to the kernel. An object index outside the arrays is \<open>None\<close>.\<close>

record atomic_arrays =
  objs :: "u32 list"
  count_props :: "nat list"
  props :: "u32 list"
  prop_values :: "u64 list"

fun fill_loop :: "req_item list \<Rightarrow> u32 \<Rightarrow> int \<Rightarrow> atomic_arrays \<Rightarrow> atomic_arrays option" where
  "fill_loop [] last_obj_id obj_idx a = Some a"
| "fill_loop (x # xs) last_obj_id obj_idx a =
     (let new = object_id x \<noteq> last_obj_id;
          idx = (if new then obj_idx + 1 else obj_idx);
          l = (if new then object_id x else last_obj_id)
      in if 0 \<le> idx \<and> nat idx < length (objs a) \<and> nat idx < length (count_props a) then
           fill_loop xs l idx
             (a\<lparr>objs := (if new then (objs a)[nat idx := object_id x] else objs a),
               count_props := (count_props a)[nat idx := count_props a ! nat idx + 1],
               props := props a @ [property_id x], prop_values := prop_values a @ [pvalue x]\<rparr>)
         else None)"

text \<open>\<open>m1\<close>, \<open>m2\<close>: memory for the copy; \<open>ma\<close>: memory for the four arrays. The result is
  the return value and what the \<^verbatim>\<open>ioctl\<close> was called with.\<close>

definition drmModeAtomicCommit ::
  "(req_item list \<Rightarrow> req_item list) \<Rightarrow> (atomic_arrays \<Rightarrow> u32 \<Rightarrow> int) \<Rightarrow> bool \<times> bool \<times> bool \<Rightarrow> atomic_req option \<Rightarrow> u32
   \<Rightarrow> (int \<times> atomic_arrays option) option" where
  "drmModeAtomicCommit qsort ioctl mem req flags =
     (case req of
        None \<Rightarrow> Some (- EINVAL, None)
      | Some r \<Rightarrow>
          if cursor r = 0 then Some (0, None)
          else
            (case drmModeAtomicDuplicate (fst mem) (fst (snd mem)) req of
               None \<Rightarrow> Some (- ENOMEM, None)
             | Some s \<Rightarrow>
                 if length (items s) < unat (cursor s) then None
                 else
                   let (xs, count_objs) = dedup_loop 0 (qsort (take (unat (cursor s)) (items s))) 0 0
                   in if \<not> snd (snd mem) then Some (-1, None)
                      else (case fill_loop xs 0 (-1)
                                   \<lparr>objs = replicate count_objs 0, count_props = replicate count_objs 0, props = [], prop_values = []\<rparr> of
                              None \<Rightarrow> None
                            | Some a \<Rightarrow> Some (ioctl a flags, Some a))))"

section \<open>Removing duplicates\<close>

text \<open>What the loop computes: of two equal neighbours the first is dropped, and the second is not compared again.\<close>

fun dedup :: "req_item list \<Rightarrow> req_item list" where
  "dedup (x # y # xs) = (if same_prop x y then y # dedup xs else x # dedup (y # xs))"
| "dedup [x] = [x]"
| "dedup [] = []"

text \<open>The objects in the order they come up, after the object \<open>l\<close>.\<close>

fun objs_of :: "u32 \<Rightarrow> req_item list \<Rightarrow> u32 list" where
  "objs_of l [] = []"
| "objs_of l (x # xs) = (if object_id x \<noteq> l then object_id x # objs_of (object_id x) xs else objs_of l xs)"

lemma dedup_loop_spec:
  "dedup_loop (length pre) (pre @ xs) c l = (pre @ dedup xs, c + length (objs_of l xs))"
proof (induction xs arbitrary: pre c l rule: dedup.induct)
  case (1 x y xs)
  let ?c = "if object_id x \<noteq> l then c + 1 else c" and ?l = "if object_id x \<noteq> l then object_id x else l"
  show ?case
  proof (cases "same_prop x y")
    case True
    then have "dedup_loop (length pre) (pre @ x # y # xs) c l = dedup_loop (length (pre @ [y])) ((pre @ [y]) @ xs) ?c ?l"
      by (subst dedup_loop.simps) (simp add: Let_def nth_append)
    also have "\<dots> = ((pre @ [y]) @ dedup xs, ?c + length (objs_of ?l xs))" by (rule "1.IH"(1) [OF True])
    finally show ?thesis using True by (simp add: same_prop_def)
  next
    case False
    then have "dedup_loop (length pre) (pre @ x # y # xs) c l = dedup_loop (length (pre @ [x])) ((pre @ [x]) @ y # xs) ?c ?l"
      by (subst dedup_loop.simps) (simp add: Let_def nth_append)
    also have "\<dots> = ((pre @ [x]) @ dedup (y # xs), ?c + length (objs_of ?l (y # xs)))" by (rule "1.IH"(2) [OF False])
    finally show ?thesis using False by simp
  qed
next
  case (2 x)
  have "dedup_loop (length pre) (pre @ [x]) c l
      = dedup_loop (length (pre @ [x])) (pre @ [x]) (if object_id x \<noteq> l then c + 1 else c) (if object_id x \<noteq> l then object_id x else l)"
    by (subst dedup_loop.simps) (simp add: Let_def nth_append)
  also have "\<dots> = (pre @ [x], if object_id x \<noteq> l then c + 1 else c)" by (subst dedup_loop.simps) simp
  finally show ?case by simp
next
  case 3
  then show ?case by (subst dedup_loop.simps) simp
qed

lemma objs_of_dedup: "objs_of l (dedup xs) = objs_of l xs"
  by (induction xs arbitrary: l rule: dedup.induct) (auto simp: same_prop_def)

lemma set_dedup: "set (dedup xs) \<subseteq> set xs"
  by (induction xs rule: dedup.induct) auto

text \<open>The order of the comparison as a number: by object, then by property downwards.\<close>

definition rank :: "req_item \<Rightarrow> nat" where
  "rank x = unat (object_id x) * 2 ^ 32 + (2 ^ 32 - 1 - unat (property_id x))"

lemma unat32: "unat (w :: u32) < 2 ^ 32"
  using unsigned_less [of w] by simp

lemma rank_order:
  "rank a < rank b \<longleftrightarrow> object_id a < object_id b \<or> object_id a = object_id b \<and> property_id b < property_id a"
proof -
  let ?a = "unat (object_id a)" and ?b = "unat (object_id b)"
  have p: "unat (property_id a) < 2 ^ 32" "unat (property_id b) < 2 ^ 32" by (rule unat32)+
  consider "?a < ?b" | "?a = ?b" | "?b < ?a" by linarith
  then show ?thesis
  proof cases
    case 1
    then have "(?a + 1) * 2 ^ 32 \<le> ?b * 2 ^ 32" by (intro mult_right_mono) auto
    then have "rank a < rank b" using p unfolding rank_def add_mult_distrib by linarith
    then show ?thesis using 1 by (simp add: word_less_nat_alt)
  next
    case 2
    then show ?thesis using p by (auto simp: rank_def word_less_nat_alt word_unat_eq_iff)
  next
    case 3
    then have "(?b + 1) * 2 ^ 32 \<le> ?a * 2 ^ 32" by (intro mult_right_mono) auto
    then have "rank b < rank a" using p unfolding rank_def add_mult_distrib by linarith
    then show ?thesis using 3 by (auto simp: word_less_nat_alt)
  qed
qed

lemma rank_eq: "rank a = rank b \<longleftrightarrow> same_prop a b"
proof
  assume "rank a = rank b"
  then have "\<not> rank a < rank b" "\<not> rank b < rank a" by simp_all
  then show "same_prop a b"
    using less_linear [of "object_id a" "object_id b"] less_linear [of "property_id a" "property_id b"]
    by (auto simp: rank_order same_prop_def)
next
  assume "same_prop a b"
  then show "rank a = rank b" by (simp add: rank_def same_prop_def)
qed

lemma sort_req_list_rank:
  assumes "property_id a < 2 ^ 31" "property_id b < 2 ^ 31"
  shows "sort_req_list a b \<le> 0 \<longleftrightarrow> rank a \<le> rank b"
proof -
  have s: "sint (property_id b - property_id a) \<le> 0 \<longleftrightarrow> property_id b \<le> property_id a"
  proof -
    have u: "unat (property_id a) < 2147483648" "unat (property_id b) < 2147483648" using assms by (simp_all add: word_less_nat_alt)
    have two: "(2::int) ^ 31 = 2147483648" by simp
    have "property_id b - property_id a = word_of_int (int (unat (property_id b)) - int (unat (property_id a)))" by simp
    then have "sint (property_id b - property_id a) = signed_take_bit 31 (int (unat (property_id b)) - int (unat (property_id a)))"
      by (simp only: sint_sbintrunc') simp
    also have "\<dots> = int (unat (property_id b)) - int (unat (property_id a))"
      using u by (intro signed_take_bit_int_eq_self; unfold two) linarith+
    finally have "sint (property_id b - property_id a) = int (unat (property_id b)) - int (unat (property_id a))" .
    then show ?thesis by (simp add: word_le_def)
  qed
  have "rank a \<le> rank b \<longleftrightarrow> \<not> rank b < rank a" by linarith
  then show ?thesis unfolding rank_order sort_req_list_def using s by (auto simp: not_less)
qed

text \<open>In a sorted list every setting that was requested \<open>n\<close> times is left \<open>(n + 1) div 2\<close> times.\<close>

lemma dedup_count:
  "sorted (map rank xs) \<Longrightarrow> length (filter (\<lambda>x. rank x = k) (dedup xs)) = (length (filter (\<lambda>x. rank x = k) xs) + 1) div 2"
proof (induction xs rule: dedup.induct)
  case (1 x y xs)
  show ?case
  proof (cases "same_prop x y")
    case True
    then show ?thesis using 1 by (auto simp flip: rank_eq)
  next
    case False
    then have "rank x < rank z" if "z \<in> set (y # xs)" for z
      using that "1.prems" rank_eq [of x y] by (auto simp: order_le_less)
    then have "filter (\<lambda>z. rank z = rank x) (y # xs) = []" by (fastforce simp: filter_empty_conv)
    then show ?thesis using 1 False by (cases "rank x = k") auto
  qed
qed auto

section \<open>Packing the arrays\<close>

text \<open>How the kernel reads the arrays: for each object its number of properties and values.\<close>

fun decode :: "u32 list \<Rightarrow> nat list \<Rightarrow> u32 list \<Rightarrow> u64 list \<Rightarrow> (u32 \<times> u32 \<times> u64) list" where
  "decode (ob # os) (c # cs) ps vs =
     map (\<lambda>(p, v). (ob, p, v)) (zip (take c ps) (take c vs)) @ decode os cs (drop c ps) (drop c vs)"
| "decode os cs ps vs = []"

definition triple :: "req_item \<Rightarrow> u32 \<times> u32 \<times> u64" where
  "triple x = (object_id x, property_id x, pvalue x)"

lemma decode_append:
  "length os = length cs \<Longrightarrow> sum_list cs = length ps \<Longrightarrow> length vs = length ps \<Longrightarrow>
   decode (os @ os2) (cs @ cs2) (ps @ ps2) (vs @ vs2) = decode os cs ps vs @ decode os2 cs2 ps2 vs2"
proof (induction os cs arbitrary: ps vs rule: list_induct2')
  case (4 ob os c cs)
  have "decode (os @ os2) (cs @ cs2) (drop c ps @ ps2) (drop c vs @ vs2) = decode os cs (drop c ps) (drop c vs) @ decode os2 cs2 ps2 vs2"
    using "4.prems" by (intro "4.IH") auto
  then show ?case using "4.prems" by simp
qed auto

lemma decode_new:
  assumes "length os = length cs" "sum_list cs = length ps" "length vs = length ps"
  shows "decode (os @ [ob]) (cs @ [1]) (ps @ [p]) (vs @ [v]) = decode os cs ps vs @ [(ob, p, v)]"
  using decode_append [OF assms, of "[ob]" "[1]" "[p]" "[v]"] by simp

lemma decode_more:
  assumes "length os = length cs" "sum_list (cs @ [c]) = length ps" "length vs = length ps"
  shows "decode (os @ [ob]) (cs @ [c + 1]) (ps @ [p]) (vs @ [v]) = decode (os @ [ob]) (cs @ [c]) ps vs @ [(ob, p, v)]"
proof -
  let ?n = "sum_list cs"
  let ?ps = "take ?n ps" and ?qs = "drop ?n ps" and ?vs = "take ?n vs" and ?ws = "drop ?n vs"
  have l: "?n = length ?ps" "length ?vs = length ?ps" "length ?qs = c" "length ?ws = c" using assms(2,3) by auto
  have "decode (os @ [ob]) (cs @ [c + 1]) (?ps @ ?qs @ [p]) (?vs @ ?ws @ [v])
      = decode os cs ?ps ?vs @ map (\<lambda>(p, v). (ob, p, v)) (zip ?qs ?ws) @ [(ob, p, v)]"
    using decode_append [OF assms(1) l(1,2), of "[ob]" "[c + 1]" "?qs @ [p]" "?ws @ [v]"] l by simp
  moreover have "decode (os @ [ob]) (cs @ [c]) (?ps @ ?qs) (?vs @ ?ws) = decode os cs ?ps ?vs @ map (\<lambda>(p, v). (ob, p, v)) (zip ?qs ?ws)"
    using decode_append [OF assms(1) l(1,2), of "[ob]" "[c]" ?qs ?ws] l by simp
  ultimately show ?thesis by (simp flip: append_assoc)
qed

text \<open>The loop, from any point: \<open>os\<close> and \<open>cs\<close> are the parts of the arrays filled so far.\<close>

lemma fill_loop_spec:
  assumes "length os = length cs" "sum_list cs = length ps" "length vs = length ps"
    and "l = (if os = [] then 0 else last os)" "\<forall>x \<in> set xs. object_id x \<noteq> 0"
  shows "\<exists>cs'. fill_loop xs l (int (length os) - 1)
       \<lparr>objs = os @ replicate (length (objs_of l xs)) 0, count_props = cs @ replicate (length (objs_of l xs)) 0, props = ps, prop_values = vs\<rparr>
     = Some \<lparr>objs = os @ objs_of l xs, count_props = cs', props = ps @ map property_id xs, prop_values = vs @ map pvalue xs\<rparr>
     \<and> length cs' = length (os @ objs_of l xs) \<and> sum_list cs' = length ps + length xs \<and> (0 \<notin> set cs \<longrightarrow> 0 \<notin> set cs')
     \<and> decode (os @ objs_of l xs) cs' (ps @ map property_id xs) (vs @ map pvalue xs) = decode os cs ps vs @ map triple xs"
  using assms
proof (induction xs arbitrary: os cs ps vs l)
  case Nil
  then show ?case by simp
next
  case (Cons x xs)
  show ?case
  proof (cases "object_id x = l")
    case False
    let ?k = "length (objs_of (object_id x) xs)"
    have "fill_loop (x # xs) l (int (length os) - 1)
        \<lparr>objs = os @ replicate (Suc ?k) 0, count_props = cs @ replicate (Suc ?k) 0, props = ps, prop_values = vs\<rparr>
      = fill_loop xs (object_id x) (int (length (os @ [object_id x])) - 1)
        \<lparr>objs = (os @ [object_id x]) @ replicate ?k 0, count_props = (cs @ [1]) @ replicate ?k 0,
          props = ps @ [property_id x], prop_values = vs @ [pvalue x]\<rparr>"
      using False Cons.prems(1) by (simp add: Let_def list_update_append nth_append)
    moreover have "\<exists>cs'. fill_loop xs (object_id x) (int (length (os @ [object_id x])) - 1)
        \<lparr>objs = (os @ [object_id x]) @ replicate ?k 0, count_props = (cs @ [1]) @ replicate ?k 0,
          props = ps @ [property_id x], prop_values = vs @ [pvalue x]\<rparr>
       = Some \<lparr>objs = (os @ [object_id x]) @ objs_of (object_id x) xs, count_props = cs',
           props = (ps @ [property_id x]) @ map property_id xs, prop_values = (vs @ [pvalue x]) @ map pvalue xs\<rparr>
       \<and> length cs' = length ((os @ [object_id x]) @ objs_of (object_id x) xs)
       \<and> sum_list cs' = length (ps @ [property_id x]) + length xs \<and> (0 \<notin> set (cs @ [1]) \<longrightarrow> 0 \<notin> set cs')
       \<and> decode ((os @ [object_id x]) @ objs_of (object_id x) xs) cs' ((ps @ [property_id x]) @ map property_id xs) ((vs @ [pvalue x]) @ map pvalue xs)
         = decode (os @ [object_id x]) (cs @ [1]) (ps @ [property_id x]) (vs @ [pvalue x]) @ map triple xs"
      using Cons.prems by (intro Cons.IH) auto
    ultimately show ?thesis using False decode_new [OF Cons.prems(1-3)] by (auto simp: triple_def)
  next
    case True
    then have ne: "os \<noteq> []" using Cons.prems(4,5) by auto
    then obtain os1 cs1 c where os: "os = os1 @ [l]" and cs: "cs = cs1 @ [c]"
      using Cons.prems(1,4) by (metis append_butlast_last_id length_0_conv)
    let ?k = "length (objs_of l xs)"
    have len: "length os1 = length cs1" using Cons.prems(1) by (simp add: os cs)
    have "fill_loop (x # xs) l (int (length os) - 1)
        \<lparr>objs = os @ replicate ?k 0, count_props = cs @ replicate ?k 0, props = ps, prop_values = vs\<rparr>
      = fill_loop xs l (int (length os) - 1)
        \<lparr>objs = os @ replicate ?k 0, count_props = (cs1 @ [c + 1]) @ replicate ?k 0,
          props = ps @ [property_id x], prop_values = vs @ [pvalue x]\<rparr>"
      using True len by (simp add: Let_def list_update_append nth_append os cs)
    moreover have "\<exists>cs'. fill_loop xs l (int (length os) - 1)
        \<lparr>objs = os @ replicate ?k 0, count_props = (cs1 @ [c + 1]) @ replicate ?k 0,
          props = ps @ [property_id x], prop_values = vs @ [pvalue x]\<rparr>
       = Some \<lparr>objs = os @ objs_of l xs, count_props = cs',
           props = (ps @ [property_id x]) @ map property_id xs, prop_values = (vs @ [pvalue x]) @ map pvalue xs\<rparr>
       \<and> length cs' = length (os @ objs_of l xs)
       \<and> sum_list cs' = length (ps @ [property_id x]) + length xs \<and> (0 \<notin> set (cs1 @ [c + 1]) \<longrightarrow> 0 \<notin> set cs')
       \<and> decode (os @ objs_of l xs) cs' ((ps @ [property_id x]) @ map property_id xs) ((vs @ [pvalue x]) @ map pvalue xs)
         = decode os (cs1 @ [c + 1]) (ps @ [property_id x]) (vs @ [pvalue x]) @ map triple xs"
    proof (rule Cons.IH)
      show "l = (if os = [] then 0 else last os)" by (rule Cons.prems(4))
      show "length os = length (cs1 @ [c + 1])" using len by (simp add: os)
      show "sum_list (cs1 @ [c + 1]) = length (ps @ [property_id x])" using Cons.prems(2) by (simp add: cs)
    qed (use Cons.prems(3,5) in auto)
    moreover have "decode os (cs1 @ [c + 1]) (ps @ [property_id x]) (vs @ [pvalue x]) = decode os cs ps vs @ [triple x]"
      using decode_more [OF len, of c ps vs l] Cons.prems(2,3) True by (simp add: os cs triple_def)
    ultimately obtain cs' where "fill_loop (x # xs) l (int (length os) - 1)
        \<lparr>objs = os @ replicate ?k 0, count_props = cs @ replicate ?k 0, props = ps, prop_values = vs\<rparr>
       = Some \<lparr>objs = os @ objs_of l xs, count_props = cs',
           props = (ps @ [property_id x]) @ map property_id xs, prop_values = (vs @ [pvalue x]) @ map pvalue xs\<rparr>"
       "length cs' = length (os @ objs_of l xs)" "sum_list cs' = length (ps @ [property_id x]) + length xs"
       "0 \<notin> set (cs1 @ [c + 1]) \<longrightarrow> 0 \<notin> set cs'"
       "decode (os @ objs_of l xs) cs' ((ps @ [property_id x]) @ map property_id xs) ((vs @ [pvalue x]) @ map pvalue xs)
         = (decode os cs ps vs @ [triple x]) @ map triple xs"
      by (metis (no_types, lifting))
    moreover have "0 \<notin> set cs \<longrightarrow> 0 \<notin> set (cs1 @ [c + 1])" by (simp add: cs)
    ultimately show ?thesis using True by (intro exI [of _ cs']) simp
  qed
qed

lemma objs_of_props:
  assumes "sorted (map object_id xs)" "\<forall>x \<in> set xs. l \<le> object_id x"
  shows "sorted_wrt (<) (objs_of l xs)" "set (objs_of l xs) = object_id ` set xs - {l}"
proof -
  have "sorted_wrt (<) (objs_of l xs) \<and> set (objs_of l xs) = object_id ` set xs - {l} \<and> (\<forall>ob \<in> set (objs_of l xs). l < ob)"
    using assms
  proof (induction xs arbitrary: l)
    case (Cons x xs)
    have "sorted (map object_id xs)" "\<forall>y \<in> set xs. object_id x \<le> object_id y" using Cons.prems(1) by auto
    note ih = Cons.IH [OF this]
    show ?case
    proof (cases "object_id x = l")
      case True
      then show ?thesis using ih by auto
    next
      case False
      then have "l < object_id x" using Cons.prems(2) by (auto simp: order_le_less)
      moreover have "l \<notin> object_id ` set xs"
        using \<open>\<forall>y \<in> set xs. object_id x \<le> object_id y\<close> \<open>l < object_id x\<close> by force
      ultimately show ?thesis using ih False by (auto intro: less_trans)
    qed
  qed simp
  then show "sorted_wrt (<) (objs_of l xs)" "set (objs_of l xs) = object_id ` set xs - {l}" by auto
qed

section \<open>Well-formed requests\<close>

definition atomic_ok :: "atomic_req \<Rightarrow> bool" where
  "atomic_ok r \<longleftrightarrow> length (items r) = unat (size_items r) \<and> cursor r \<le> size_items r \<and> unat (size_items r) < 2 ^ 28"

definition settings :: "atomic_req \<Rightarrow> req_item list" where
  "settings r = take (unat (cursor r)) (items r)"

lemma items_alloc_small: "unat n < 2 ^ 28 \<Longrightarrow> items_alloc n = unat n"
  by (simp add: items_alloc_def unat_mult_no_wrap)

lemma items_realloc_grow:
  assumes "length xs \<le> unat n" "unat n < 2 ^ 28"
  shows "items_realloc junk xs n = xs @ replicate (unat n - length xs) junk"
  using assms by (simp add: items_realloc_def items_alloc_small)

text \<open>Growing the array keeps the settings.\<close>

lemma atomic_grow:
  fixes junk :: req_item
  assumes "atomic_ok r" "size_items r \<le> n" "unat n < 2 ^ 28"
  defines "r1 \<equiv> r\<lparr>size_items := n, items := items_realloc junk (items r) n\<rparr>"
  shows "atomic_ok r1" "settings r1 = settings r"
  using assms by (auto simp: atomic_ok_def settings_def items_realloc_grow word_le_nat_alt)

lemma atomic_add:
  assumes ok: "atomic_ok r" and ids: "obj \<noteq> 0" "prop \<noteq> 0" and room: "unat (size_items r) + 16 < 2 ^ 28"
  shows "\<exists>r'. drmModeAtomicAddProperty True junk (Some r) obj prop v = Some (int (length (settings r)) + 1, Some r')
     \<and> atomic_ok r' \<and> settings r' = settings r @ [\<lparr>object_id = obj, property_id = prop, pvalue = v\<rparr>]"
proof -
  let ?x = "\<lparr>object_id = obj, property_id = prop, pvalue = v\<rparr>"
  let ?n = "size_items r + 16"
  define r1 where "r1 = (if size_items r \<le> cursor r then r\<lparr>size_items := ?n, items := items_realloc junk (items r) ?n\<rparr> else r)"
  have n: "unat ?n = unat (size_items r) + 16" using room by (subst unat_add_no_wrap) auto
  then have "size_items r \<le> ?n" "unat ?n < 2 ^ 28" using room by (simp_all add: word_le_nat_alt)
  note g = atomic_grow [OF ok this, where junk = junk]
  have r1: "atomic_ok r1" "settings r1 = settings r" "cursor r1 = cursor r" "cursor r1 < size_items r1"
    using ok g n by (auto simp: r1_def atomic_ok_def word_less_nat_alt word_le_nat_alt)
  have c: "unat (cursor r) < length (items r1)" "unat (cursor r) < 2 ^ 28"
    using r1(1,3,4) by (auto simp: atomic_ok_def word_less_nat_alt)
  have c1: "unat (cursor r + 1) = unat (cursor r) + 1" using c(2) by (subst unat_add_no_wrap) auto
  have s1: "sint (cursor r + 1) = int (length (settings r)) + 1"
    using sint_small [of "cursor r + 1"] c c1 ok by (simp add: settings_def atomic_ok_def word_le_nat_alt min_absorb2)
  let ?r = "r1\<lparr>items := (items r1)[unat (cursor r1) := ?x], cursor := cursor r1 + 1\<rparr>"
  have "drmModeAtomicAddProperty True junk (Some r) obj prop v = Some (int (length (settings r)) + 1, Some ?r)"
    using ids c(1) s1 r1(3) by (simp add: drmModeAtomicAddProperty_def Let_def flip: r1_def)
  moreover have "atomic_ok ?r" using r1(1,3,4) c1 by (simp add: atomic_ok_def word_less_nat_alt word_le_nat_alt)
  moreover have "settings ?r = settings r @ [?x]"
    using c c1 r1(2,3) by (simp add: settings_def take_Suc_conv_app_nth flip: r1(2))
  ultimately show ?thesis by blast
qed

lemma atomic_merge:
  assumes ok: "atomic_ok b" "atomic_ok a" and room: "length (settings b) + length (settings a) < 2 ^ 28"
  shows "\<exists>b'. drmModeAtomicMerge True junk (Some b) (Some a) = Some (0, Some b')
     \<and> atomic_ok b' \<and> settings b' = settings b @ settings a"
proof (cases "cursor a = 0")
  case True
  then show ?thesis using ok by (simp add: drmModeAtomicMerge_def settings_def)
next
  case False
  let ?n = "cursor b + cursor a"
  have len: "length (settings b) = unat (cursor b)" "length (settings a) = unat (cursor a)"
    using ok by (auto simp: atomic_ok_def settings_def word_le_nat_alt)
  have n: "unat ?n = unat (cursor b) + unat (cursor a)" using room len by (subst unat_add_no_wrap) auto
  define b1 where "b1 = (if size_items b \<le> ?n then b\<lparr>size_items := ?n, items := items_realloc junk (items b) ?n\<rparr> else b)"
  have b1: "atomic_ok b1" "settings b1 = settings b" "cursor b1 = cursor b" "?n \<le> size_items b1"
    using ok(1) atomic_grow [OF ok(1), of ?n junk] n room len by (auto simp: b1_def)
  have fit: "unat (cursor b) + unat (cursor a) \<le> length (items b1)"
    using b1(1,4) n by (simp add: atomic_ok_def word_le_nat_alt)
  have la: "unat (cursor a) \<le> length (items a)" using ok(2) by (simp add: atomic_ok_def word_le_nat_alt)
  let ?xs = "take (unat (cursor b)) (items b1) @ settings a @ drop (unat (cursor b) + unat (cursor a)) (items b1)"
  have copy: "items_copy (items b1) (unat (cursor b1)) (take (unat (cursor a)) (items a)) = Some ?xs"
    using fit la by (simp add: items_copy_def b1(3) settings_def)
  let ?b = "b1\<lparr>items := ?xs, cursor := cursor b1 + cursor a\<rparr>"
  have "drmModeAtomicMerge True junk (Some b) (Some a) = Some (0, Some ?b)"
    using False la copy b1(3) by (simp add: drmModeAtomicMerge_def Let_def flip: b1_def)
  moreover have "atomic_ok ?b" using b1 n fit len by (auto simp: atomic_ok_def word_le_nat_alt)
  moreover have "settings ?b = settings b @ settings a"
    using n fit len b1(2,3) by (simp add: settings_def [of ?b]) (simp add: settings_def flip: b1(2))
  ultimately show ?thesis by blast
qed

lemma atomic_duplicate:
  assumes "atomic_ok r"
  shows "drmModeAtomicDuplicate True True (Some r) = Some r"
  using assms by (cases r) (auto simp: drmModeAtomicDuplicate_def atomic_ok_def items_alloc_small)

lemma settings_length: "atomic_ok r \<Longrightarrow> length (settings r) = unat (cursor r)"
  by (simp add: settings_def atomic_ok_def word_le_nat_alt)

lemma atomic_cursor: "atomic_ok r \<Longrightarrow> drmModeAtomicGetCursor (Some r) = int (length (settings r))"
  using sint_small [of "cursor r"]
  by (simp add: drmModeAtomicGetCursor_def settings_length) (simp add: atomic_ok_def word_le_nat_alt)

lemma atomic_merge_enomem:
  assumes ok: "atomic_ok b" "atomic_ok a" and room: "length (settings b) + length (settings a) < 2 ^ 28"
    and full: "length (items b) \<le> length (settings b @ settings a)" and some: "settings a \<noteq> []"
  shows "drmModeAtomicMerge False junk (Some b) (Some a) = Some (- ENOMEM, Some b)"
proof -
  note len = settings_length [OF ok(1)] settings_length [OF ok(2)]
  have "unat (cursor b + cursor a) = unat (cursor b) + unat (cursor a)" using room len by (subst unat_add_no_wrap) auto
  then have "size_items b \<le> cursor b + cursor a" using ok(1) full len by (simp add: atomic_ok_def word_le_nat_alt)
  moreover have "cursor a \<noteq> 0" using some len(2) by auto
  ultimately show ?thesis by (simp add: drmModeAtomicMerge_def Let_def)
qed

section \<open>What a commit sends\<close>

text \<open>The number of times a property of an object is set, in a request and in what the kernel reads.\<close>

definition requested :: "u32 \<Rightarrow> u32 \<Rightarrow> req_item list \<Rightarrow> nat" where
  "requested ob p xs = length (filter (\<lambda>x. object_id x = ob \<and> property_id x = p) xs)"

definition sent :: "u32 \<Rightarrow> u32 \<Rightarrow> (u32 \<times> u32 \<times> u64) list \<Rightarrow> nat" where
  "sent ob p ts = length (filter (\<lambda>(ob', p', v). ob' = ob \<and> p' = p) ts)"

lemma sent_triple: "sent ob p (map triple xs) = requested ob p xs"
  by (simp add: sent_def requested_def filter_map comp_def triple_def)

lemma requested_mset: "mset xs = mset ys \<Longrightarrow> requested ob p xs = requested ob p ys"
  unfolding requested_def size_mset [symmetric] mset_filter by simp

lemma dedup_requested:
  assumes "sorted (map rank xs)"
  shows "requested ob p (dedup xs) = (requested ob p xs + 1) div 2"
proof -
  let ?k = "rank \<lparr>object_id = ob, property_id = p, pvalue = 0\<rparr>"
  have "requested ob p ys = length (filter (\<lambda>x. rank x = ?k) ys)" for ys
    by (simp add: requested_def rank_eq same_prop_def)
  then show ?thesis using dedup_count [OF assms, of ?k] by simp
qed

lemma commit_arrays:
  assumes ok: "atomic_ok r" "cursor r \<noteq> 0" and nz: "\<forall>x \<in> set (qsort (settings r)). object_id x \<noteq> 0"
  shows "\<exists>a. drmModeAtomicCommit qsort ioctl (True, True, True) (Some r) flags = Some (ioctl a flags, Some a)
     \<and> length (count_props a) = length (objs a) \<and> sum_list (count_props a) = length (props a)
     \<and> length (prop_values a) = length (props a) \<and> 0 \<notin> set (count_props a)
     \<and> objs a = objs_of 0 (qsort (settings r))
     \<and> decode (objs a) (count_props a) (props a) (prop_values a) = map triple (dedup (qsort (settings r)))"
proof -
  let ?ys = "qsort (settings r)"
  let ?n = "length (objs_of 0 ?ys)"
  have nz': "\<forall>x \<in> set (dedup ?ys). object_id x \<noteq> 0" using nz set_dedup by blast
  obtain cs where cs: "fill_loop (dedup ?ys) 0 (-1)
       \<lparr>objs = replicate ?n 0, count_props = replicate ?n 0, props = [], prop_values = []\<rparr>
     = Some \<lparr>objs = objs_of 0 ?ys, count_props = cs, props = map property_id (dedup ?ys), prop_values = map pvalue (dedup ?ys)\<rparr>"
     "length cs = ?n" "sum_list cs = length (dedup ?ys)" "0 \<notin> set cs"
     "decode (objs_of 0 ?ys) cs (map property_id (dedup ?ys)) (map pvalue (dedup ?ys)) = map triple (dedup ?ys)"
    using fill_loop_spec [of "[]" "[]" "[]" "[]" 0 "dedup ?ys"] nz' by (auto simp: objs_of_dedup)
  have loop: "dedup_loop 0 ?ys 0 0 = (dedup ?ys, ?n)" using dedup_loop_spec [of "[]" ?ys 0 0] by simp
  have len: "\<not> length (items r) < unat (cursor r)" using ok(1) by (simp add: atomic_ok_def word_le_nat_alt)
  show ?thesis
    using ok(2) len cs loop atomic_duplicate [OF ok(1)]
    by (simp add: drmModeAtomicCommit_def Let_def flip: settings_def)
qed

lemma qsort_rank:
  assumes "sorted_wrt (\<lambda>a b. sort_req_list a b \<le> 0) ys" "\<forall>x \<in> set ys. property_id x < 2 ^ 31"
  shows "sorted (map rank ys)"
  using assms by (auto simp: sorted_map sort_req_list_rank intro: sorted_wrt_mono_rel [rotated])

lemma rank_object: "sorted (map rank ys) \<Longrightarrow> sorted (map object_id ys)"
proof (simp only: sorted_map, elim sorted_wrt_mono_rel [rotated])
  fix a b assume "rank a \<le> rank b"
  then show "object_id a \<le> object_id b" using rank_order [of b a] by (metis not_less)
qed

text \<open>C11. A commit of a well-formed request of non-zero objects and property ids below \<open>2^31\<close>, with a \<^verbatim>\<open>qsort\<close> that
  permutes the settings into the order of the comparison, makes one \<^verbatim>\<open>ioctl\<close> and returns its answer.
  The four arrays it hands over fit together: each object comes up once, in increasing order, with a positive number of
  properties, and the objects are those of the request. What the kernel decodes are settings of the request,
  and a property requested \<open>n\<close> times is sent \<open>(n + 1) div 2\<close> times: once for one or two settings, twice for three or four. So
  duplicates are not all eliminated, against the comment on the loop, as soon as a property is set three times.\<close>

theorem drmModeAtomicCommit_sends:
  assumes ok: "atomic_ok r" "cursor r \<noteq> 0"
    and ids: "\<forall>x \<in> set (settings r). object_id x \<noteq> 0 \<and> property_id x < 2 ^ 31"
    and perm: "mset (qsort (settings r)) = mset (settings r)"
    and ordered: "sorted_wrt (\<lambda>a b. sort_req_list a b \<le> 0) (qsort (settings r))"
  shows "\<exists>a. drmModeAtomicCommit qsort ioctl (True, True, True) (Some r) flags = Some (ioctl a flags, Some a)
     \<and> length (count_props a) = length (objs a) \<and> sum_list (count_props a) = length (props a)
     \<and> length (prop_values a) = length (props a) \<and> 0 \<notin> set (count_props a)
     \<and> sorted_wrt (<) (objs a) \<and> set (objs a) = object_id ` set (settings r)
     \<and> set (decode (objs a) (count_props a) (props a) (prop_values a)) \<subseteq> triple ` set (settings r)
     \<and> (\<forall>ob p. sent ob p (decode (objs a) (count_props a) (props a) (prop_values a)) = (requested ob p (settings r) + 1) div 2)"
proof -
  let ?ys = "qsort (settings r)"
  have set: "set ?ys = set (settings r)" using perm by (rule mset_eq_setD)
  obtain a where a: "drmModeAtomicCommit qsort ioctl (True, True, True) (Some r) flags = Some (ioctl a flags, Some a)"
     "length (count_props a) = length (objs a)" "sum_list (count_props a) = length (props a)"
     "length (prop_values a) = length (props a)" "0 \<notin> set (count_props a)" "objs a = objs_of 0 ?ys"
     "decode (objs a) (count_props a) (props a) (prop_values a) = map triple (dedup ?ys)"
    using commit_arrays [OF ok, of qsort ioctl flags] ids set by auto
  have rank: "sorted (map rank ?ys)" using ordered ids set by (intro qsort_rank) auto
  have "sorted_wrt (<) (objs a)" "set (objs a) = object_id ` set (settings r)"
    using objs_of_props [OF rank_object [OF rank], of 0] ids set by (auto simp: a(6))
  moreover have "triple ` set (dedup ?ys) \<subseteq> triple ` set (settings r)" using set_dedup set by blast
  moreover have "sent ob p (map triple (dedup ?ys)) = (requested ob p (settings r) + 1) div 2" for ob p
    using dedup_requested [OF rank] requested_mset [OF perm] by (simp add: sent_triple)
  ultimately show ?thesis using a by (intro exI [of _ a]) simp
qed

definition three_settings :: atomic_req where
  "three_settings = \<lparr>cursor = 3, size_items = 3,
     items = [\<lparr>object_id = 9, property_id = 2, pvalue = 5\<rparr>, \<lparr>object_id = 4, property_id = 1, pvalue = 6\<rparr>,
              \<lparr>object_id = 9, property_id = 2, pvalue = 7\<rparr>]\<rparr>"

theorem drmModeAtomicCommit_sends_witness:
  "\<exists>a. drmModeAtomicCommit (sort_key rank) (\<lambda>a f. 0) (True, True, True) (Some three_settings) 0 = Some (0, Some a)
     \<and> set (objs a) = {4, 9} \<and> sent 9 2 (decode (objs a) (count_props a) (props a) (prop_values a)) = 1"
proof -
  have s: "settings three_settings = items three_settings" by (simp add: settings_def three_settings_def)
  have small: "\<forall>x \<in> set (settings three_settings). object_id x \<noteq> 0 \<and> property_id x < 2 ^ 31"
    unfolding s by (simp add: three_settings_def)
  have "sorted (map rank (sort_key rank (settings three_settings)))" by simp
  then have sorted: "sorted_wrt (\<lambda>a b. sort_req_list a b \<le> 0) (sort_key rank (settings three_settings))"
    unfolding sorted_map by (rule sorted_wrt_mono_rel [rotated]) (use small in \<open>simp add: sort_req_list_rank\<close>)
  have ok: "atomic_ok three_settings" "cursor three_settings \<noteq> 0" by (simp_all add: atomic_ok_def three_settings_def)
  have m: "mset (sort_key rank (settings three_settings)) = mset (settings three_settings)" by simp
  have "object_id ` set (settings three_settings) = {4, 9}" "requested 9 2 (settings three_settings) = 2"
    unfolding s by (auto simp: three_settings_def requested_def)
  then show ?thesis using drmModeAtomicCommit_sends [where qsort = "sort_key rank", OF ok small m sorted, of "\<lambda>a f. 0" 0] by auto
qed

section \<open>Building a request\<close>

text \<open>A new request has no settings. While there are fewer than \<open>2^28\<close> of them, adding a property appends the setting and
  returns the new count, merging appends the settings of the other request, duplicating
  gives an equal request, and all keep requests well-formed. A zero object or property, or a missing request, is \<open>-EINVAL\<close>; an exhausted
  memory is \<open>-ENOMEM\<close> and leaves the request as it was.\<close>

theorem drmModeAtomic_requests:
  assumes ok: "atomic_ok r" "atomic_ok r2"
    and room: "unat (size_items r) + 16 < 2 ^ 28" "length (settings r) + length (settings r2) < 2 ^ 28"
    and ids: "obj \<noteq> 0" "prop \<noteq> 0"
  shows "(\<exists>r0. drmModeAtomicAlloc True = Some r0 \<and> atomic_ok r0 \<and> settings r0 = [])
    \<and> (\<exists>r'. drmModeAtomicAddProperty True junk (Some r) obj prop v = Some (int (length (settings r)) + 1, Some r')
         \<and> atomic_ok r' \<and> settings r' = settings r @ [\<lparr>object_id = obj, property_id = prop, pvalue = v\<rparr>]
         \<and> drmModeAtomicGetCursor (Some r') = int (length (settings r)) + 1)
    \<and> (\<exists>r'. drmModeAtomicMerge True junk (Some r) (Some r2) = Some (0, Some r') \<and> atomic_ok r' \<and> settings r' = settings r @ settings r2)
    \<and> drmModeAtomicDuplicate True True (Some r) = Some r
    \<and> drmModeAtomicAddProperty mem junk (Some r) 0 prop v = Some (- EINVAL, Some r)
    \<and> drmModeAtomicAddProperty mem junk (Some r) obj 0 v = Some (- EINVAL, Some r)
    \<and> drmModeAtomicAddProperty mem junk None obj prop v = Some (- EINVAL, None)
    \<and> (size_items r \<le> cursor r \<longrightarrow> drmModeAtomicAddProperty False junk (Some r) obj prop v = Some (- ENOMEM, Some r))
    \<and> (length (items r) \<le> length (settings r @ settings r2) \<longrightarrow> settings r2 \<noteq> [] \<longrightarrow>
         drmModeAtomicMerge False junk (Some r) (Some r2) = Some (- ENOMEM, Some r))"
proof (intro conjI impI)
  show "\<exists>r0. drmModeAtomicAlloc True = Some r0 \<and> atomic_ok r0 \<and> settings r0 = []"
    by (simp add: drmModeAtomicAlloc_def atomic_ok_def settings_def)
  show "\<exists>r'. drmModeAtomicAddProperty True junk (Some r) obj prop v = Some (int (length (settings r)) + 1, Some r')
       \<and> atomic_ok r' \<and> settings r' = settings r @ [\<lparr>object_id = obj, property_id = prop, pvalue = v\<rparr>]
       \<and> drmModeAtomicGetCursor (Some r') = int (length (settings r)) + 1"
    using atomic_add [OF ok(1) ids room(1), of junk v] by (auto simp: atomic_cursor)
qed (use ids in \<open>simp_all add: drmModeAtomicAddProperty_def atomic_merge [OF ok room(2)] atomic_merge_enomem [OF ok room(2)] atomic_duplicate [OF ok(1)]\<close>)

theorem drmModeAtomic_requests_witness:
  "\<exists>r'. drmModeAtomicAddProperty True \<lparr>object_id = 0, property_id = 0, pvalue = 0\<rparr> (Some three_settings) 9 3 8 = Some (4, Some r')
     \<and> atomic_ok r' \<and> length (settings r') = 4"
proof -
  have ok: "atomic_ok three_settings" by (simp add: atomic_ok_def three_settings_def)
  have l: "length (settings three_settings) = 3" "size_items three_settings = 3" by (simp_all add: settings_def three_settings_def)
  have room: "unat (size_items three_settings) + 16 < 2 ^ 28" "length (settings three_settings) + length (settings three_settings) < 2 ^ 28"
    by (simp_all add: l)
  let ?junk = "\<lparr>object_id = 0, property_id = 0, pvalue = 0\<rparr>"
  have "\<exists>r'. drmModeAtomicAddProperty True ?junk (Some three_settings) 9 3 8 = Some (int (length (settings three_settings)) + 1, Some r')
      \<and> atomic_ok r' \<and> settings r' = settings three_settings @ [\<lparr>object_id = 9, property_id = 3, pvalue = 8\<rparr>]"
    using drmModeAtomic_requests [OF ok ok room, of 9 3 ?junk 8 True] by simp blast
  then show ?thesis by (auto simp: l)
qed

end
