(* ===== verification/Gps_Nmea.thy ===== *)
theory Gps_Nmea
  imports Complex_Main Prelude
begin

text \<open>
  The NMEA half of the GPS HAL, \<^verbatim>\<open>hals/gps/gps_qemu.c\<close>: the tokenizer, the field
  parsers and the reader that collects bytes into sentences and turns them into fixes.
  A \<^verbatim>\<open>Token\<close> is a pair of positions in the reader's buffer, or the static empty string
  that \<^verbatim>\<open>nmea_tokenizer_get\<close> hands out for a missing field. Doubles are a parameter: the record
  \<open>fpu\<close> holds the operations the code applies to them, in the order the code applies them, so
  nothing here depends on how a double rounds (\<open>f_float\<close> is the narrowing to the
  \<^verbatim>\<open>float\<close> fields of a location). The clock and the calendar functions of the C
  library are the record \<open>env\<close>. A function that may call the location callback returns
  the fixes it passed on.
\<close>

section \<open>What the code takes from its environment\<close>

record 'd fpu =
  f_zero :: 'd
  f_strtod :: "string \<Rightarrow> 'd"
  f_of_int :: "int \<Rightarrow> 'd"
  f_add :: "'d \<Rightarrow> 'd \<Rightarrow> 'd"
  f_sub :: "'d \<Rightarrow> 'd \<Rightarrow> 'd"
  f_mul :: "'d \<Rightarrow> 'd \<Rightarrow> 'd"
  f_div :: "'d \<Rightarrow> 'd \<Rightarrow> 'd"
  f_neg :: "'d \<Rightarrow> 'd"
  f_floor :: "'d \<Rightarrow> 'd"
  f_trunc :: "'d \<Rightarrow> int"
  f_float :: "'d \<Rightarrow> 'd"

record tm =
  tm_sec :: int
  tm_min :: int
  tm_hour :: int
  tm_mday :: int
  tm_mon :: int
  tm_year :: int
  tm_yday :: int
  tm_isdst :: int

record env =
  e_now :: int
  e_gmtime :: "int \<Rightarrow> tm"
  e_localtime :: "int \<Rightarrow> tm"
  e_mktime :: "tm \<Rightarrow> int"

section \<open>Tokenizer\<close>

datatype token = TokBuf nat nat | TokDummy

definition MAX_NMEA_TOKENS :: nat where "MAX_NMEA_TOKENS = 16"

definition NL :: char where "NL = CHR 0x0A"
definition CR :: char where "CR = CHR 0x0D"
definition NUL :: char where "NUL = CHR 0x00"

fun tok_len :: "token \<Rightarrow> nat" where
  "tok_len (TokBuf p e) = e - p"
| "tok_len TokDummy = 0"

text \<open>\<^verbatim>\<open>tok.p[0]\<close>\<close>

fun tok_first :: "char list \<Rightarrow> token \<Rightarrow> char" where
  "tok_first buf (TokBuf p e) = buf ! p"
| "tok_first buf TokDummy = NUL"

fun memchr :: "char list \<Rightarrow> char \<Rightarrow> nat \<Rightarrow> nat \<Rightarrow> nat option" where
  "memchr buf c p 0 = None"
| "memchr buf c p (Suc n) = (if buf ! p = c then Some p else memchr buf c (Suc p) n)"

lemma memchr_bounds: "memchr buf c p n = Some q \<Longrightarrow> p \<le> q \<and> q < p + n"
  by (induction buf c p n rule: memchr.induct) (fastforce split: if_splits)+

function tok_loop :: "char list \<Rightarrow> nat \<Rightarrow> nat \<Rightarrow> token list \<Rightarrow> token list" where
  "tok_loop buf p end tokens =
     (if p < end then
        let q = (case memchr buf (CHR '','') p (end - p) of None \<Rightarrow> end | Some q \<Rightarrow> q);
            tokens' = (if length tokens < MAX_NMEA_TOKENS then tokens @ [TokBuf p q] else tokens);
            q' = (if q < end then q + 1 else q)
        in tok_loop buf q' end tokens'
      else tokens)"
  by pat_completeness auto
termination
  by (relation "measure (\<lambda>(buf, p, end, tokens). end - p)")
     (auto split: option.splits dest: memchr_bounds)

declare tok_loop.simps [simp del]

text \<open>The window \<open>(p, end)\<close> that is left after the prefix, the line end and the checksum are cut.\<close>

definition tok_window :: "char list \<Rightarrow> nat \<Rightarrow> nat \<Rightarrow> nat \<times> nat" where
  "tok_window buf p end =
     (let p1 = (if p < end \<and> buf ! p = CHR ''$'' then p + 1 else p);
          e1 = (if end > p1 \<and> buf ! (end - 1) = NL
                then (if end - 1 > p1 \<and> buf ! (end - 2) = CR then end - 2 else end - 1)
                else end);
          e2 = (if e1 \<ge> p1 + 3 \<and> buf ! (e1 - 3) = CHR ''*'' then e1 - 3 else e1)
      in (p1, e2))"

definition nmea_tokenizer_init :: "char list \<Rightarrow> nat \<Rightarrow> nat \<Rightarrow> token list" where
  "nmea_tokenizer_init buf p end = (case tok_window buf p end of (p', e') \<Rightarrow> tok_loop buf p' e' [])"

definition nmea_tokenizer_get :: "token list \<Rightarrow> int \<Rightarrow> token" where
  "nmea_tokenizer_get t index =
     (if index < 0 \<or> index \<ge> int (length t) then TokDummy else t ! nat index)"

section \<open>Numbers\<close>

function str2int_loop :: "char list \<Rightarrow> nat \<Rightarrow> nat \<Rightarrow> int \<Rightarrow> int \<Rightarrow> int" where
  "str2int_loop buf p end len result =
     (if len > 0 then
        if p \<ge> end then -1
        else let c = int (of_char (buf ! p)) - 48
             in if c < 0 \<or> c \<ge> 10 then -1
                else str2int_loop buf (p + 1) end (len - 1) (result * 10 + c)
      else result)"
  by pat_completeness auto
termination
  by (relation "measure (\<lambda>(buf, p, end, len, result). nat len)") auto

declare str2int_loop.simps [simp del]

definition str2int :: "char list \<Rightarrow> nat \<Rightarrow> nat \<Rightarrow> int" where
  "str2int buf p end = str2int_loop buf p end (int end - int p) 0"

definition str2float :: "'d fpu \<Rightarrow> char list \<Rightarrow> nat \<Rightarrow> nat \<Rightarrow> 'd" where
  "str2float F buf p end =
     (let len = end - p
      in if len \<ge> 16 then f_zero F else f_strtod F (take len (drop p buf)))"

definition tok_float :: "'d fpu \<Rightarrow> char list \<Rightarrow> token \<Rightarrow> 'd" where
  "tok_float F buf tok =
     (case tok of TokBuf p e \<Rightarrow> str2float F buf p e | TokDummy \<Rightarrow> f_strtod F [])"

definition convert_from_hhmm :: "'d fpu \<Rightarrow> char list \<Rightarrow> token \<Rightarrow> 'd" where
  "convert_from_hhmm F buf tok =
     (let val = tok_float F buf tok;
          degrees = f_trunc F (f_div F (f_floor F val) (f_of_int F 100));
          minutes = f_sub F val (f_mul F (f_of_int F degrees) (f_of_int F 100))
      in f_add F (f_of_int F degrees) (f_div F minutes (f_of_int F 60)))"

section \<open>The reader\<close>

definition NMEA_MAX_SIZE :: nat where "NMEA_MAX_SIZE = 83"

datatype gps_flag = HAS_LAT_LONG | HAS_ALTITUDE | HAS_SPEED | HAS_BEARING | HAS_ACCURACY

record 'd GpsLocation =
  gl_flags :: "gps_flag set"
  gl_latitude :: 'd
  gl_longitude :: 'd
  gl_altitude :: 'd
  gl_speed :: 'd
  gl_bearing :: 'd
  gl_accuracy :: 'd
  gl_timestamp :: int

record 'd NmeaReader =
  nr_pos :: nat
  nr_overflow :: bool
  nr_utc_year :: int
  nr_utc_mon :: int
  nr_utc_day :: int
  nr_utc_diff :: int
  nr_fix :: "'d GpsLocation"
  nr_callback :: bool
  nr_in :: "char list"

text \<open>
  32-bit two's complement. The seconds since 1900 are summed in \<^verbatim>\<open>int\<close>, where they do
  not fit: the model wraps, as the target does.
\<close>

definition wrap32 :: "int \<Rightarrow> int" where
  "wrap32 x = (x + 2 ^ 31) mod 2 ^ 32 - 2 ^ 31"

definition tm_seconds_exact :: "tm \<Rightarrow> int" where
  "tm_seconds_exact t =
     tm_sec t + 60 * (tm_min t + 60 * (tm_hour t + 24 * (tm_yday t + 365 * tm_year t)))"

definition tm_seconds :: "tm \<Rightarrow> int" where
  "tm_seconds t =
     wrap32 (tm_sec t + wrap32 (60 * wrap32 (tm_min t + wrap32 (60 * wrap32 (tm_hour t
       + wrap32 (24 * wrap32 (tm_yday t + wrap32 (365 * tm_year t))))))))"

definition nmea_reader_update_utc_diff :: "env \<Rightarrow> 'd NmeaReader \<Rightarrow> 'd NmeaReader" where
  "nmea_reader_update_utc_diff E r =
     (let now = e_now E;
          tm_utc = e_gmtime E now;
          tm_local = e_localtime E now;
          time_local = tm_seconds tm_local;
          time_utc = tm_seconds tm_utc
      in r\<lparr>nr_utc_diff := wrap32 (time_utc - time_local)\<rparr>)"

definition zero_fix :: "'d fpu \<Rightarrow> 'd GpsLocation" where
  "zero_fix F = \<lparr>gl_flags = {}, gl_latitude = f_zero F, gl_longitude = f_zero F,
     gl_altitude = f_zero F, gl_speed = f_zero F, gl_bearing = f_zero F, gl_accuracy = f_zero F,
     gl_timestamp = 0\<rparr>"

definition nmea_reader_init :: "'d fpu \<Rightarrow> env \<Rightarrow> 'd NmeaReader" where
  "nmea_reader_init F E =
     nmea_reader_update_utc_diff E
       \<lparr>nr_pos = 0, nr_overflow = False, nr_utc_year = -1, nr_utc_mon = -1, nr_utc_day = -1,
        nr_utc_diff = 0, nr_fix = zero_fix F, nr_callback = False,
        nr_in = replicate (NMEA_MAX_SIZE + 1) NUL\<rparr>"

definition nmea_reader_set_callback ::
  "'d NmeaReader \<Rightarrow> bool \<Rightarrow> 'd NmeaReader \<times> 'd GpsLocation list" where
  "nmea_reader_set_callback r cb =
     (let r' = r\<lparr>nr_callback := cb\<rparr>
      in if cb \<and> gl_flags (nr_fix r) \<noteq> {} then (r', [nr_fix r']) else (r', []))"

definition nmea_reader_update_time ::
  "'d fpu \<Rightarrow> env \<Rightarrow> 'd NmeaReader \<Rightarrow> token \<Rightarrow> int \<times> 'd NmeaReader" where
  "nmea_reader_update_time F E r tok =
     (case tok of
        TokDummy \<Rightarrow> (-1, r)
      | TokBuf p e \<Rightarrow>
          if p + 6 > e then (-1, r)
          else
            let g = e_gmtime E (e_now E);
                r1 = (if nr_utc_year r < 0
                      then r\<lparr>nr_utc_year := tm_year g + 1900, nr_utc_mon := tm_mon g + 1,
                             nr_utc_day := tm_mday g\<rparr>
                      else r);
                hour = str2int (nr_in r) p (p + 2);
                minute = str2int (nr_in r) (p + 2) (p + 4);
                seconds = str2float F (nr_in r) (p + 4) e;
                t = \<lparr>tm_sec = f_trunc F seconds, tm_min = minute, tm_hour = hour,
                     tm_mday = nr_utc_day r1, tm_mon = nr_utc_mon r1 - 1,
                     tm_year = nr_utc_year r1 - 1900, tm_yday = 0, tm_isdst = -1\<rparr>;
                fix_time = wrap32 (e_mktime E t - nr_utc_diff r1)
            in (0, r1\<lparr>nr_fix := (nr_fix r1)\<lparr>gl_timestamp := fix_time * 1000\<rparr>\<rparr>))"

definition nmea_reader_update_date ::
  "'d fpu \<Rightarrow> env \<Rightarrow> 'd NmeaReader \<Rightarrow> token \<Rightarrow> token \<Rightarrow> int \<times> 'd NmeaReader" where
  "nmea_reader_update_date F E r date time =
     (case date of
        TokDummy \<Rightarrow> (-1, r)
      | TokBuf p e \<Rightarrow>
          if p + 6 \<noteq> e then (-1, r)
          else
            let day = str2int (nr_in r) p (p + 2);
                mon = str2int (nr_in r) (p + 2) (p + 4);
                year = str2int (nr_in r) (p + 4) (p + 6) + 2000
            in if (day OR mon OR year) < 0 then (-1, r)
               else nmea_reader_update_time F E
                      (r\<lparr>nr_utc_year := year, nr_utc_mon := mon, nr_utc_day := day\<rparr>) time)"

definition nmea_reader_update_latlong ::
  "'d fpu \<Rightarrow> 'd NmeaReader \<Rightarrow> token \<Rightarrow> char \<Rightarrow> token \<Rightarrow> char \<Rightarrow> int \<times> 'd NmeaReader" where
  "nmea_reader_update_latlong F r latitude latitudeHemi longitude longitudeHemi =
     (if tok_len latitude < 6 then (-1, r)
      else
        let lat = convert_from_hhmm F (nr_in r) latitude;
            lat' = (if latitudeHemi = CHR ''S'' then f_neg F lat else lat)
        in if tok_len longitude < 6 then (-1, r)
           else
             let lon = convert_from_hhmm F (nr_in r) longitude;
                 lon' = (if longitudeHemi = CHR ''W'' then f_neg F lon else lon);
                 f = nr_fix r
             in (0, r\<lparr>nr_fix := f\<lparr>gl_flags := insert HAS_LAT_LONG (gl_flags f),
                                 gl_latitude := lat', gl_longitude := lon'\<rparr>\<rparr>))"

definition nmea_reader_update_altitude ::
  "'d fpu \<Rightarrow> 'd NmeaReader \<Rightarrow> token \<Rightarrow> token \<Rightarrow> int \<times> 'd NmeaReader" where
  "nmea_reader_update_altitude F r altitude units =
     (if tok_len altitude = 0 then (-1, r)
      else let f = nr_fix r
           in (0, r\<lparr>nr_fix := f\<lparr>gl_flags := insert HAS_ALTITUDE (gl_flags f),
                               gl_altitude := tok_float F (nr_in r) altitude\<rparr>\<rparr>))"

definition nmea_reader_update_bearing ::
  "'d fpu \<Rightarrow> 'd NmeaReader \<Rightarrow> token \<Rightarrow> int \<times> 'd NmeaReader" where
  "nmea_reader_update_bearing F r bearing =
     (if tok_len bearing = 0 then (-1, r)
      else let f = nr_fix r
           in (0, r\<lparr>nr_fix := f\<lparr>gl_flags := insert HAS_BEARING (gl_flags f),
                               gl_bearing := f_float F (tok_float F (nr_in r) bearing)\<rparr>\<rparr>))"

definition nmea_reader_update_speed ::
  "'d fpu \<Rightarrow> 'd NmeaReader \<Rightarrow> token \<Rightarrow> int \<times> 'd NmeaReader" where
  "nmea_reader_update_speed F r speed =
     (if tok_len speed = 0 then (-1, r)
      else let f = nr_fix r
           in (0, r\<lparr>nr_fix := f\<lparr>gl_flags := insert HAS_SPEED (gl_flags f),
                               gl_speed := f_float F (tok_float F (nr_in r) speed)\<rparr>\<rparr>))"

definition nmea_reader_update_accuracy :: "'d fpu \<Rightarrow> 'd NmeaReader \<Rightarrow> int \<times> 'd NmeaReader" where
  "nmea_reader_update_accuracy F r =
     (let f = nr_fix r
      in (0, r\<lparr>nr_fix := f\<lparr>gl_flags := insert HAS_ACCURACY (gl_flags f),
                          gl_accuracy := f_float F (f_of_int F 20)\<rparr>\<rparr>))"

definition clear_flags :: "'d NmeaReader \<Rightarrow> 'd NmeaReader" where
  "clear_flags r = r\<lparr>nr_fix := (nr_fix r)\<lparr>gl_flags := {}\<rparr>\<rparr>"

text \<open>The body of \<^verbatim>\<open>nmea_reader_parse\<close> between the length checks and the common tail: one
  branch per sentence type, the identifier being the characters 2 to 4 of the first token.\<close>

definition nmea_sentence :: "'d fpu \<Rightarrow> env \<Rightarrow> 'd NmeaReader \<Rightarrow> token list \<Rightarrow> string \<Rightarrow> 'd NmeaReader" where
  "nmea_sentence F E r tzer ident =
     (let get = nmea_tokenizer_get tzer; first = tok_first (nr_in r)
      in if ident = ''GGA'' then
           let r1 = clear_flags r;
               r2 = snd (nmea_reader_update_time F E r1 (get 1));
               r3 = snd (nmea_reader_update_latlong F r2 (get 2) (first (get 3)) (get 4) (first (get 5)))
           in snd (nmea_reader_update_altitude F r3 (get 9) (get 10))
         else if ident = ''GSA'' then r
         else if ident = ''RMC'' then
           if first (get 2) = CHR ''A'' then
             let r1 = clear_flags r;
                 r2 = snd (nmea_reader_update_date F E r1 (get 9) (get 1));
                 r3 = snd (nmea_reader_update_latlong F r2 (get 3) (first (get 4)) (get 5) (first (get 6)));
                 r4 = snd (nmea_reader_update_bearing F r3 (get 8))
             in snd (nmea_reader_update_speed F r4 (get 7))
           else r
         else r)"

definition nmea_reader_parse ::
  "'d fpu \<Rightarrow> env \<Rightarrow> 'd NmeaReader \<Rightarrow> 'd NmeaReader \<times> 'd GpsLocation list" where
  "nmea_reader_parse F E r =
     (if nr_pos r < 9 then (r, [])
      else
        let tzer = nmea_tokenizer_init (nr_in r) 0 (nr_pos r);
            tok = nmea_tokenizer_get tzer 0
        in case tok of
             TokDummy \<Rightarrow> (r, [])
           | TokBuf p e \<Rightarrow>
               if p + 5 > e then (r, [])
               else
                 let r1 = nmea_sentence F E r tzer (take 3 (drop (p + 2) (nr_in r)));
                     r2 = snd (nmea_reader_update_accuracy F r1)
                 in if gl_flags (nr_fix r2) \<noteq> {} \<and> nr_callback r2 then (r2, [nr_fix r2]) else (r2, []))"

definition nmea_reader_addc ::
  "'d fpu \<Rightarrow> env \<Rightarrow> 'd NmeaReader \<Rightarrow> char \<Rightarrow> 'd NmeaReader \<times> 'd GpsLocation list" where
  "nmea_reader_addc F E r c =
     (if nr_overflow r then (r\<lparr>nr_overflow := (c \<noteq> NL)\<rparr>, [])
      else if nr_pos r \<ge> NMEA_MAX_SIZE then (r\<lparr>nr_overflow := True, nr_pos := 0\<rparr>, [])
      else
        let r1 = r\<lparr>nr_in := (nr_in r)[nr_pos r := c], nr_pos := nr_pos r + 1\<rparr>
        in if c = NL
           then (case nmea_reader_parse F E r1 of (r2, out) \<Rightarrow> (r2\<lparr>nr_pos := 0\<rparr>, out))
           else (r1, []))"

text \<open>The loop that feeds the bytes of one \<^verbatim>\<open>read\<close> to the reader.\<close>

fun nmea_feed ::
  "'d fpu \<Rightarrow> env \<Rightarrow> 'd NmeaReader \<Rightarrow> char list \<Rightarrow> 'd NmeaReader \<times> 'd GpsLocation list" where
  "nmea_feed F E r [] = (r, [])"
| "nmea_feed F E r (c # cs) =
     (case nmea_reader_addc F E r c of
        (r1, out1) \<Rightarrow> (case nmea_feed F E r1 cs of (r2, out2) \<Rightarrow> (r2, out1 @ out2)))"

section \<open>The tokenizer splits at commas\<close>

definition slice :: "char list \<Rightarrow> nat \<Rightarrow> nat \<Rightarrow> char list" where
  "slice buf p e = take (e - p) (drop p buf)"

fun tok_text :: "char list \<Rightarrow> token \<Rightarrow> string" where
  "tok_text buf (TokBuf p e) = slice buf p e"
| "tok_text buf TokDummy = []"

text \<open>Reference definition: cut at every comma; a comma at the very end opens no field.\<close>

function csv_fields :: "string \<Rightarrow> string list" where
  "csv_fields s =
     (if s = [] then []
      else takeWhile (\<lambda>c. c \<noteq> CHR '','') s # csv_fields (tl (dropWhile (\<lambda>c. c \<noteq> CHR '','') s)))"
  by pat_completeness auto
termination
proof (relation "measure length")
  fix s :: string
  assume "s \<noteq> []"
  then have "0 < length s" by simp
  then have "length (tl (dropWhile (\<lambda>c. c \<noteq> CHR '','') s)) < length s"
    using length_dropWhile_le [of "\<lambda>c. c \<noteq> CHR '',''" s]
    unfolding length_tl by linarith
  then show "(tl (dropWhile (\<lambda>c. c \<noteq> CHR '','') s), s) \<in> measure length" by simp
qed simp

declare csv_fields.simps [simp del]

fun csv_join :: "string list \<Rightarrow> string" where
  "csv_join [] = []"
| "csv_join [f] = f"
| "csv_join (f # g # fs) = f @ CHR '','' # csv_join (g # fs)"

lemma csv_fields_Nil [simp]: "csv_fields [] = []"
  by (simp add: csv_fields.simps)

lemma csv_fields_single:
  assumes "s \<noteq> []" and "CHR '','' \<notin> set s"
  shows "csv_fields s = [s]"
proof -
  have "takeWhile (\<lambda>c. c \<noteq> CHR '','') s = s" "dropWhile (\<lambda>c. c \<noteq> CHR '','') s = []"
    using assms(2) by (auto simp: takeWhile_eq_all_conv)
  then show ?thesis using assms(1) by (subst csv_fields.simps) (simp only: if_False list.sel csv_fields_Nil)
qed

lemma csv_fields_comma:
  assumes "CHR '','' \<notin> set f"
  shows "csv_fields (f @ CHR '','' # s) = f # csv_fields s"
proof -
  have "\<forall>c\<in>set f. c \<noteq> CHR '',''" using assms by auto
  then have "takeWhile (\<lambda>c. c \<noteq> CHR '','') (f @ CHR '','' # s) = f"
    and "dropWhile (\<lambda>c. c \<noteq> CHR '','') (f @ CHR '','' # s) = CHR '','' # s"
    by (auto simp: takeWhile_append2 dropWhile_append2)
  then show ?thesis by (subst csv_fields.simps) simp
qed

lemma csv_fields_join:
  "fs \<noteq> [] \<Longrightarrow> \<forall>f\<in>set fs. CHR '','' \<notin> set f \<Longrightarrow> last fs \<noteq> [] \<Longrightarrow> csv_fields (csv_join fs) = fs"
proof (induction fs rule: csv_join.induct)
  case 1
  then show ?case by simp
next
  case (2 f)
  then show ?case by (simp add: csv_fields_single)
next
  case (3 f g fs)
  then show ?case by (simp add: csv_fields_comma)
qed

lemma slice_Cons:
  "p < e \<Longrightarrow> e \<le> length buf \<Longrightarrow> slice buf p e = buf ! p # slice buf (Suc p) e"
  by (simp add: slice_def Cons_nth_drop_Suc [symmetric] Suc_diff_Suc [symmetric] del: Suc_diff_Suc)

lemma slice_same [simp]: "slice buf p p = []"
  by (simp add: slice_def)

lemma memchr_slice:
  "p + n \<le> length buf \<Longrightarrow>
   (case memchr buf c p n of
      None \<Rightarrow> c \<notin> set (slice buf p (p + n))
    | Some q \<Rightarrow> slice buf p (p + n) = slice buf p q @ c # slice buf (Suc q) (p + n)
              \<and> c \<notin> set (slice buf p q))"
proof (induction buf c p n rule: memchr.induct)
  case (1 buf c p)
  then show ?case by simp
next
  case (2 buf c p n)
  have s: "slice buf p (p + Suc n) = buf ! p # slice buf (Suc p) (Suc p + n)"
    using 2 by (simp add: slice_Cons)
  show ?case
  proof (cases "buf ! p = c")
    case True
    then show ?thesis using s by simp
  next
    case False
    have "slice buf p q = buf ! p # slice buf (Suc p) q" if "Suc p \<le> q" "q < Suc p + n" for q
      using that 2(2) by (simp add: slice_Cons)
    with False 2 s show ?thesis
      by (auto split: option.splits dest!: memchr_bounds)
  qed
qed

text \<open>One round of the loop, on the text of the window.\<close>

lemma tok_round:
  assumes "p < e" and "e \<le> length buf"
  defines "q \<equiv> (case memchr buf (CHR '','') p (e - p) of None \<Rightarrow> e | Some q \<Rightarrow> q)"
  shows "p \<le> q" and "q \<le> e"
    and "csv_fields (slice buf p e)
         = slice buf p q # csv_fields (slice buf (if q < e then q + 1 else q) e)"
    and "p = q \<Longrightarrow> buf ! p = CHR '',''"
proof -
  have sl: "slice buf p e \<noteq> []" using assms(1,2) by (simp add: slice_def)
  have pe: "p + (e - p) = e" using assms(1) by simp
  note M = memchr_slice [of p "e - p" buf "CHR '',''", unfolded pe, OF assms(2)]
  have "p \<le> q \<and> q \<le> e \<and> csv_fields (slice buf p e)
         = slice buf p q # csv_fields (slice buf (if q < e then q + 1 else q) e)
       \<and> (p = q \<longrightarrow> buf ! p = CHR '','')"
  proof (cases "memchr buf (CHR '','') p (e - p)")
    case None
    then have no: "CHR '','' \<notin> set (slice buf p e)" and q: "q = e" using M by (auto simp: q_def)
    then show ?thesis
      using sl q assms(1) by (simp add: csv_fields_single)
  next
    case (Some k)
    then have q: "q = k" and b: "p \<le> k" "k < e" using memchr_bounds [OF Some] assms(1)
      by (auto simp: q_def)
    have dec: "slice buf p e = slice buf p k @ CHR '','' # slice buf (Suc k) e"
      and no: "\<forall>c\<in>set (slice buf p k). c \<noteq> CHR '',''" using M Some by auto
    have "csv_fields (slice buf p e) = slice buf p k # csv_fields (slice buf (Suc k) e)"
      unfolding dec using no by (intro csv_fields_comma) auto
    moreover have "buf ! p = CHR '',''" if "p = k"
      using dec that slice_Cons [OF assms(1,2)] by simp
    ultimately show ?thesis using q b by simp
  qed
  then show "p \<le> q" "q \<le> e" "csv_fields (slice buf p e)
         = slice buf p q # csv_fields (slice buf (if q < e then q + 1 else q) e)"
    "p = q \<Longrightarrow> buf ! p = CHR '',''" by auto
qed

text \<open>A token that lies in the window, and starts at a comma when it is empty.\<close>

fun tok_ok :: "char list \<Rightarrow> nat \<Rightarrow> token \<Rightarrow> bool" where
  "tok_ok buf e (TokBuf p q) = (p \<le> q \<and> q \<le> e \<and> p < e \<and> e \<le> length buf \<and> (p = q \<longrightarrow> buf ! p = CHR '',''))"
| "tok_ok buf e TokDummy = True"

lemma tok_loop_spec:
  "e \<le> length buf \<Longrightarrow> length tokens \<le> MAX_NMEA_TOKENS \<Longrightarrow>
   map (tok_text buf) (tok_loop buf p e tokens)
     = map (tok_text buf) tokens @ take (MAX_NMEA_TOKENS - length tokens) (csv_fields (slice buf p e))
   \<and> (list_all (tok_ok buf e) tokens \<longrightarrow> list_all (tok_ok buf e) (tok_loop buf p e tokens))"
proof (induction buf p e tokens rule: tok_loop.induct)
  case (1 buf p e tokens)
  show ?case
  proof (cases "p < e")
    case False
    then have "csv_fields (slice buf p e) = []" by (simp add: slice_def csv_fields.simps)
    with False show ?thesis by (simp add: tok_loop.simps [of buf p e])
  next
    case True
    let ?q = "case memchr buf (CHR '','') p (e - p) of None \<Rightarrow> e | Some q \<Rightarrow> q"
    let ?toks = "if length tokens < MAX_NMEA_TOKENS then tokens @ [TokBuf p ?q] else tokens"
    let ?p = "if ?q < e then ?q + 1 else ?q"
    note R = tok_round [OF True 1(2)]
    have unf: "tok_loop buf p e tokens = tok_loop buf ?p e ?toks"
      using True by (simp add: tok_loop.simps [of buf p e tokens] Let_def)
    have len: "length ?toks \<le> MAX_NMEA_TOKENS" using 1(3) by simp
    have ok: "list_all (tok_ok buf e) tokens \<Longrightarrow> list_all (tok_ok buf e) ?toks"
      using R(1,2,4) True 1(2) by simp
    note IH = "1.IH" [OF True refl refl refl 1(2) len, folded unf]
    have "map (tok_text buf) ?toks @ take (MAX_NMEA_TOKENS - length ?toks) (csv_fields (slice buf ?p e))
        = map (tok_text buf) tokens @ take (MAX_NMEA_TOKENS - length tokens) (csv_fields (slice buf p e))"
    proof (cases "length tokens < MAX_NMEA_TOKENS")
      case True
      then obtain k where "MAX_NMEA_TOKENS - length tokens = Suc k"
        and "MAX_NMEA_TOKENS - Suc (length tokens) = k"
        by (metis Suc_diff_Suc)
      then show ?thesis using True by (simp add: R(3))
    next
      case False
      then show ?thesis using 1(3) by simp
    qed
    then show ?thesis using IH ok by auto
  qed
qed

text \<open>The window, on its text: the prefix, the line end and the checksum cut off.\<close>

definition nmea_body :: "string \<Rightarrow> string" where
  "nmea_body s =
     (let s1 = (if s \<noteq> [] \<and> hd s = CHR ''$'' then tl s else s);
          s2 = (if s1 \<noteq> [] \<and> last s1 = NL
                then (if butlast s1 \<noteq> [] \<and> last (butlast s1) = CR then butlast (butlast s1) else butlast s1)
                else s1)
      in if length s2 \<ge> 3 \<and> s2 ! (length s2 - 3) = CHR ''*'' then take (length s2 - 3) s2 else s2)"

lemma length_slice: "e \<le> length buf \<Longrightarrow> length (slice buf p e) = e - p"
  by (simp add: slice_def)

lemma slice_Nil_iff: "e \<le> length buf \<Longrightarrow> slice buf p e = [] \<longleftrightarrow> e \<le> p"
  by (auto simp: slice_def)

lemma slice_nth: "e \<le> length buf \<Longrightarrow> i < e - p \<Longrightarrow> slice buf p e ! i = buf ! (p + i)"
  by (simp add: slice_def)

lemma slice_take: "n \<le> e - p \<Longrightarrow> take n (slice buf p e) = slice buf p (p + n)"
  by (simp add: slice_def min_def)

lemma slice_snoc:
  "p < e \<Longrightarrow> e \<le> length buf \<Longrightarrow>
   last (slice buf p e) = buf ! (e - 1) \<and> butlast (slice buf p e) = slice buf p (e - 1)"
  by (auto simp: last_conv_nth slice_Nil_iff length_slice slice_nth butlast_conv_take slice_take)

lemma tok_window_body:
  assumes "p \<le> e" and "e \<le> length buf" and "tok_window buf p e = (p', e')"
  shows "slice buf p' e' = nmea_body (slice buf p e)" and "p \<le> p'" and "p' \<le> e'" and "e' \<le> e"
proof -
  define p1 where "p1 = (if p < e \<and> buf ! p = CHR ''$'' then p + 1 else p)"
  define e1 where "e1 = (if e > p1 \<and> buf ! (e - 1) = NL
                then (if e - 1 > p1 \<and> buf ! (e - 2) = CR then e - 2 else e - 1) else e)"
  define e2 where "e2 = (if e1 \<ge> p1 + 3 \<and> buf ! (e1 - 3) = CHR ''*'' then e1 - 3 else e1)"
  define s1 where "s1 = (let s = slice buf p e in if s \<noteq> [] \<and> hd s = CHR ''$'' then tl s else s)"
  define s2 where "s2 = (if s1 \<noteq> [] \<and> last s1 = NL
                then (if butlast s1 \<noteq> [] \<and> last (butlast s1) = CR then butlast (butlast s1) else butlast s1)
                else s1)"
  have w: "p' = p1" "e' = e2"
    using assms(3) by (auto simp: tok_window_def Let_def p1_def e1_def e2_def)
  have p1: "p \<le> p1" "p1 \<le> e" using assms(1) by (auto simp: p1_def)
  have s1: "s1 = slice buf p1 e"
    using assms(1,2) slice_Cons [of p e buf]
    by (auto simp: s1_def p1_def Let_def slice_Nil_iff)
  have e1: "p1 \<le> e1" "e1 \<le> e" using p1 by (auto simp: e1_def)
  have s2: "s2 = slice buf p1 e1"
    using assms(2) slice_snoc [of p1 e buf] slice_snoc [of p1 "e - 1" buf] p1
      le_trans [OF diff_le_self assms(2), of "Suc 0"]
    by (auto simp: s2_def e1_def s1 slice_Nil_iff numeral_2_eq_2)
  have "nmea_body (slice buf p e) = slice buf p1 e2"
    using assms(2) e1
    by (auto simp: nmea_body_def Let_def s2_def [symmetric] s1_def [unfolded Let_def, symmetric]
          s2 length_slice slice_nth slice_take e2_def)
  then show "slice buf p' e' = nmea_body (slice buf p e)" using w by simp
  show "p \<le> p'" "p' \<le> e'" "e' \<le> e" using w p1 e1 by (auto simp: e2_def)
qed

lemma tokenizer_spec:
  assumes "p \<le> e" and "e \<le> length buf"
  shows "map (tok_text buf) (nmea_tokenizer_init buf p e)
         = take MAX_NMEA_TOKENS (csv_fields (nmea_body (slice buf p e)))"
    and "list_all (tok_ok buf e) (nmea_tokenizer_init buf p e)"
proof -
  obtain p' e' where w: "tok_window buf p e = (p', e')" by fastforce
  note B = tok_window_body [OF assms w]
  have e': "e' \<le> length buf" using B(4) assms(2) by simp
  note S = tok_loop_spec [OF e', of "[]" p', simplified]
  show "map (tok_text buf) (nmea_tokenizer_init buf p e)
        = take MAX_NMEA_TOKENS (csv_fields (nmea_body (slice buf p e)))"
    using S B(1) by (simp add: nmea_tokenizer_init_def w)
  have "tok_ok buf e' t \<Longrightarrow> tok_ok buf e t" for t
    using B(4) assms(2) by (cases t) auto
  then show "list_all (tok_ok buf e) (nmea_tokenizer_init buf p e)"
    using S by (auto simp: nmea_tokenizer_init_def w list_all_iff)
qed

lemma tokenizer_no_dummy:
  "TokDummy \<notin> set (nmea_tokenizer_init buf p e)"
proof -
  have "TokDummy \<notin> set tokens \<Longrightarrow> TokDummy \<notin> set (tok_loop buf p e tokens)" for p e tokens
    by (induction buf p e tokens rule: tok_loop.induct)
       (subst tok_loop.simps, auto simp: Let_def)
  then show ?thesis by (simp add: nmea_tokenizer_init_def split: prod.split)
qed

text \<open>A sentence as the receiver prints it.\<close>

definition nmea_print :: "string list \<Rightarrow> char \<Rightarrow> char \<Rightarrow> string" where
  "nmea_print fs h l = CHR ''$'' # csv_join fs @ [CHR ''*'', h, l, CR, NL]"

lemma nmea_body_print: "nmea_body (nmea_print fs h l) = csv_join fs"
  by (simp add: nmea_body_def nmea_print_def Let_def butlast_append NL_def CR_def nth_append)

section \<open>The parser on strings\<close>

text \<open>
  A reference for the whole parser that knows no buffer and no pointer: it works on the list of
  field texts. A missing field is the empty string; the first character of an empty field is the
  comma behind it.
\<close>

definition is_digit :: "char \<Rightarrow> bool" where
  "is_digit c \<longleftrightarrow> (48::nat) \<le> of_char c \<and> of_char c < (58::nat)"

definition dec :: "string \<Rightarrow> int" where
  "dec s = (if list_all is_digit s then foldl (\<lambda>n c. n * 10 + (int (of_char c) - 48)) 0 s else -1)"

definition str_float :: "'d fpu \<Rightarrow> string \<Rightarrow> 'd" where
  "str_float F s = (if length s \<ge> 16 then f_zero F else f_strtod F s)"

definition hhmm :: "'d fpu \<Rightarrow> 'd \<Rightarrow> 'd" where
  "hhmm F val =
     (let degrees = f_of_int F (f_trunc F (f_div F (f_floor F val) (f_of_int F 100)))
      in f_add F degrees (f_div F (f_sub F val (f_mul F degrees (f_of_int F 100))) (f_of_int F 60)))"

definition field :: "string list \<Rightarrow> nat \<Rightarrow> string" where
  "field fs i = (if i < length fs then fs ! i else [])"

definition field_first :: "string list \<Rightarrow> nat \<Rightarrow> char" where
  "field_first fs i = (if i < length fs then (if fs ! i = [] then CHR '','' else hd (fs ! i)) else NUL)"

definition spec_time :: "'d fpu \<Rightarrow> env \<Rightarrow> string \<Rightarrow> 'd NmeaReader \<Rightarrow> 'd NmeaReader" where
  "spec_time F E s r =
     (if length s < 6 then r
      else
        let g = e_gmtime E (e_now E);
            r1 = (if nr_utc_year r < 0
                  then r\<lparr>nr_utc_year := tm_year g + 1900, nr_utc_mon := tm_mon g + 1,
                         nr_utc_day := tm_mday g\<rparr>
                  else r);
            t = \<lparr>tm_sec = f_trunc F (str_float F (drop 4 s)), tm_min = dec (take 2 (drop 2 s)),
                 tm_hour = dec (take 2 s), tm_mday = nr_utc_day r1, tm_mon = nr_utc_mon r1 - 1,
                 tm_year = nr_utc_year r1 - 1900, tm_yday = 0, tm_isdst = -1\<rparr>
        in r1\<lparr>nr_fix := (nr_fix r1)\<lparr>gl_timestamp := wrap32 (e_mktime E t - nr_utc_diff r1) * 1000\<rparr>\<rparr>)"

definition spec_date :: "'d fpu \<Rightarrow> env \<Rightarrow> string \<Rightarrow> string \<Rightarrow> 'd NmeaReader \<Rightarrow> 'd NmeaReader" where
  "spec_date F E d s r =
     (if length d = 6 \<and> 0 \<le> dec (take 2 d) \<and> 0 \<le> dec (take 2 (drop 2 d))
      then spec_time F E s (r\<lparr>nr_utc_year := dec (drop 4 d) + 2000,
             nr_utc_mon := dec (take 2 (drop 2 d)), nr_utc_day := dec (take 2 d)\<rparr>)
      else r)"

definition spec_latlong ::
  "'d fpu \<Rightarrow> string \<Rightarrow> char \<Rightarrow> string \<Rightarrow> char \<Rightarrow> 'd NmeaReader \<Rightarrow> 'd NmeaReader" where
  "spec_latlong F lat ns lon ew r =
     (if length lat < 6 \<or> length lon < 6 then r
      else let a = hhmm F (str_float F lat); b = hhmm F (str_float F lon)
           in r\<lparr>nr_fix := (nr_fix r)\<lparr>gl_flags := insert HAS_LAT_LONG (gl_flags (nr_fix r)),
                  gl_latitude := (if ns = CHR ''S'' then f_neg F a else a),
                  gl_longitude := (if ew = CHR ''W'' then f_neg F b else b)\<rparr>\<rparr>)"

definition spec_altitude :: "'d fpu \<Rightarrow> string \<Rightarrow> 'd NmeaReader \<Rightarrow> 'd NmeaReader" where
  "spec_altitude F s r =
     (if s = [] then r
      else r\<lparr>nr_fix := (nr_fix r)\<lparr>gl_flags := insert HAS_ALTITUDE (gl_flags (nr_fix r)),
               gl_altitude := str_float F s\<rparr>\<rparr>)"

definition spec_bearing :: "'d fpu \<Rightarrow> string \<Rightarrow> 'd NmeaReader \<Rightarrow> 'd NmeaReader" where
  "spec_bearing F s r =
     (if s = [] then r
      else r\<lparr>nr_fix := (nr_fix r)\<lparr>gl_flags := insert HAS_BEARING (gl_flags (nr_fix r)),
               gl_bearing := f_float F (str_float F s)\<rparr>\<rparr>)"

definition spec_speed :: "'d fpu \<Rightarrow> string \<Rightarrow> 'd NmeaReader \<Rightarrow> 'd NmeaReader" where
  "spec_speed F s r =
     (if s = [] then r
      else r\<lparr>nr_fix := (nr_fix r)\<lparr>gl_flags := insert HAS_SPEED (gl_flags (nr_fix r)),
               gl_speed := f_float F (str_float F s)\<rparr>\<rparr>)"

definition spec_sentence :: "'d fpu \<Rightarrow> env \<Rightarrow> string list \<Rightarrow> 'd NmeaReader \<Rightarrow> 'd NmeaReader" where
  "spec_sentence F E fs r =
     (let ident = take 3 (drop 2 (field fs 0)) in
      if ident = ''GGA'' then
        spec_altitude F (field fs 9)
          (spec_latlong F (field fs 2) (field_first fs 3) (field fs 4) (field_first fs 5)
            (spec_time F E (field fs 1) (clear_flags r)))
      else if ident = ''RMC'' \<and> field_first fs 2 = CHR ''A'' then
        spec_speed F (field fs 7) (spec_bearing F (field fs 8)
          (spec_latlong F (field fs 3) (field_first fs 4) (field fs 5) (field_first fs 6)
            (spec_date F E (field fs 9) (field fs 1) (clear_flags r))))
      else r)"

definition spec_accuracy :: "'d fpu \<Rightarrow> 'd NmeaReader \<Rightarrow> 'd NmeaReader" where
  "spec_accuracy F r =
     r\<lparr>nr_fix := (nr_fix r)\<lparr>gl_flags := insert HAS_ACCURACY (gl_flags (nr_fix r)),
         gl_accuracy := f_float F (f_of_int F 20)\<rparr>\<rparr>"

text \<open>The effect of one line: nothing for a line that is too short or has no identifier, and
  otherwise the fix it describes is passed on whenever a callback is set.\<close>

definition spec_line :: "'d fpu \<Rightarrow> env \<Rightarrow> string \<Rightarrow> 'd NmeaReader \<Rightarrow> 'd NmeaReader \<times> 'd GpsLocation list" where
  "spec_line F E s r =
     (let fs = take MAX_NMEA_TOKENS (csv_fields (nmea_body s)) in
      if length s < 9 \<or> length (field fs 0) < 5 then (r, [])
      else let r' = spec_accuracy F (spec_sentence F E fs r)
           in (r', if nr_callback r then [nr_fix r'] else []))"

text \<open>The parser refines its reference.\<close>

named_theorems nmea_spec \<open>an operation on tokens equals the operation on their texts\<close>

lemma str2int_loop_dec:
  "p + n \<le> length buf \<Longrightarrow>
   str2int_loop buf p (p + n) (int n) acc =
     (if list_all is_digit (slice buf p (p + n))
      then foldl (\<lambda>n c. n * 10 + (int (of_char c) - 48)) acc (slice buf p (p + n)) else -1)"
proof (induction n arbitrary: p acc)
  case 0
  then show ?case by (simp add: str2int_loop.simps)
next
  case (Suc n)
  have sl: "slice buf p (p + Suc n) = buf ! p # slice buf (Suc p) (Suc p + n)"
    using Suc.prems by (simp add: slice_Cons)
  have "str2int_loop buf p (p + Suc n) (int (Suc n)) acc
      = (if is_digit (buf ! p)
         then str2int_loop buf (Suc p) (Suc p + n) (int n) (acc * 10 + (int (of_char (buf ! p)) - 48))
         else -1)"
    by (subst str2int_loop.simps) (auto simp: Let_def is_digit_def simp del: of_nat_of_char)
  then show ?case
    unfolding sl using Suc.IH [of "Suc p"] Suc.prems
    by (simp del: of_nat_of_char)
qed

lemma str2int_dec [nmea_spec]:
  assumes "e \<le> length buf" and "p \<le> e"
  shows "str2int buf p e = dec (slice buf p e)"
  using str2int_loop_dec [of p "e - p" buf 0] assms by (simp add: str2int_def dec_def)

lemma tok_len_text [nmea_spec]: "tok_ok buf e tok \<Longrightarrow> tok_len tok = length (tok_text buf tok)"
  by (cases tok) (auto simp: length_slice)

lemma tok_float_text [nmea_spec]: "tok_ok buf e tok \<Longrightarrow> tok_float F buf tok = str_float F (tok_text buf tok)"
  by (cases tok) (auto simp: tok_float_def str2float_def str_float_def slice_def Let_def min_def)

lemma convert_from_hhmm_text [nmea_spec]:
  "tok_ok buf e tok \<Longrightarrow> convert_from_hhmm F buf tok = hhmm F (str_float F (tok_text buf tok))"
  by (simp add: convert_from_hhmm_def hhmm_def Let_def tok_float_text)

lemma slice_sub: "e \<le> length buf \<Longrightarrow> p + i \<le> e \<Longrightarrow> p + i + n \<le> e \<Longrightarrow>
   slice buf (p + i) (p + i + n) = take n (drop i (slice buf p e))"
  by (simp add: slice_def drop_take min_def add.commute)

lemma update_time_spec [nmea_spec]:
  assumes "tok_ok (nr_in r) e tok"
  shows "snd (nmea_reader_update_time F E r tok) = spec_time F E (tok_text (nr_in r) tok) r"
proof (cases tok)
  case (TokBuf p q)
  have q: "q \<le> length (nr_in r)" "p \<le> q" using assms TokBuf by auto
  have len: "length (slice (nr_in r) p q) = q - p" using q by (simp add: length_slice)
  show ?thesis
  proof (cases "p + 6 > q")
    case True
    then show ?thesis using len TokBuf by (simp add: nmea_reader_update_time_def spec_time_def)
  next
    case False
    have "slice (nr_in r) p (p + 2) = take 2 (slice (nr_in r) p q)"
      "slice (nr_in r) (p + 2) (p + 4) = take 2 (drop 2 (slice (nr_in r) p q))"
      "slice (nr_in r) (p + 4) q = drop 4 (slice (nr_in r) p q)"
      using False by (auto simp: slice_def drop_take min_def add.commute)
    moreover have "str2float F (nr_in r) (p + 4) q = str_float F (slice (nr_in r) (p + 4) q)"
      using q False by (simp add: str2float_def str_float_def length_slice slice_def)
    ultimately show ?thesis
      using False len TokBuf q
      by (simp add: nmea_reader_update_time_def spec_time_def str2int_dec Let_def not_less)
  qed
qed (simp add: nmea_reader_update_time_def spec_time_def)

lemma dec_nonneg:
  assumes "list_all is_digit s"
  shows "0 \<le> dec s"
proof -
  have "0 \<le> n \<Longrightarrow> 0 \<le> foldl (\<lambda>n c. n * 10 + (int (of_char c) - 48)) n s" for n
    using assms
  proof (induction s arbitrary: n)
    case (Cons c s)
    then have "0 \<le> int (of_char c) - 48" by (simp add: is_digit_def)
    then show ?case using Cons by (simp del: of_nat_of_char)
  qed simp
  then show ?thesis using assms unfolding dec_def by simp
qed

lemma dec_ge: "- 1 \<le> dec s"
  using dec_nonneg [of s] by (cases "list_all is_digit s") (auto simp: dec_def)

lemma update_date_spec [nmea_spec]:
  assumes "tok_ok (nr_in r) e dt" and "tok_ok (nr_in r) e' tm"
  shows "snd (nmea_reader_update_date F E r dt tm)
         = spec_date F E (tok_text (nr_in r) dt) (tok_text (nr_in r) tm) r"
proof (cases dt)
  case (TokBuf p q)
  have q: "q \<le> length (nr_in r)" "p \<le> q" using assms TokBuf by auto
  have len: "length (slice (nr_in r) p q) = q - p" using q by (simp add: length_slice)
  show ?thesis
  proof (cases "p + 6 = q")
    case False
    then show ?thesis using len q TokBuf by (auto simp: nmea_reader_update_date_def spec_date_def)
  next
    case True
    have "slice (nr_in r) p (p + 2) = take 2 (slice (nr_in r) p q)"
      "slice (nr_in r) (p + 2) (p + 4) = take 2 (drop 2 (slice (nr_in r) p q))"
      "slice (nr_in r) (p + 4) (p + 6) = drop 4 (slice (nr_in r) p q)"
      using True by (auto simp: slice_def drop_take min_def add.commute)
    moreover have "\<not> dec (drop 4 (slice (nr_in r) p q)) + 2000 < 0"
      using dec_ge [of "drop 4 (slice (nr_in r) p q)"] by linarith
    ultimately show ?thesis
      using True len TokBuf q assms(2)
      by (auto simp: nmea_reader_update_date_def spec_date_def str2int_dec Let_def update_time_spec)
  qed
qed (simp add: nmea_reader_update_date_def spec_date_def)

lemma update_latlong_spec [nmea_spec]:
  "tok_ok (nr_in r) e lat \<Longrightarrow> tok_ok (nr_in r) e' lon \<Longrightarrow>
   snd (nmea_reader_update_latlong F r lat ns lon ew)
     = spec_latlong F (tok_text (nr_in r) lat) ns (tok_text (nr_in r) lon) ew r"
  by (simp add: nmea_reader_update_latlong_def spec_latlong_def tok_len_text
        convert_from_hhmm_text Let_def)

lemma update_altitude_spec [nmea_spec]:
  "tok_ok (nr_in r) e t \<Longrightarrow>
   snd (nmea_reader_update_altitude F r t u) = spec_altitude F (tok_text (nr_in r) t) r"
  by (simp add: nmea_reader_update_altitude_def spec_altitude_def tok_len_text tok_float_text Let_def)

lemma update_bearing_spec [nmea_spec]:
  "tok_ok (nr_in r) e t \<Longrightarrow>
   snd (nmea_reader_update_bearing F r t) = spec_bearing F (tok_text (nr_in r) t) r"
  by (simp add: nmea_reader_update_bearing_def spec_bearing_def tok_len_text tok_float_text Let_def)

lemma update_speed_spec [nmea_spec]:
  "tok_ok (nr_in r) e t \<Longrightarrow>
   snd (nmea_reader_update_speed F r t) = spec_speed F (tok_text (nr_in r) t) r"
  by (simp add: nmea_reader_update_speed_def spec_speed_def tok_len_text tok_float_text Let_def)

lemma update_accuracy_spec [nmea_spec]: "snd (nmea_reader_update_accuracy F r) = spec_accuracy F r"
  by (simp add: nmea_reader_update_accuracy_def spec_accuracy_def Let_def)

text \<open>What no operation of the parser touches.\<close>

definition frame :: "'d NmeaReader \<Rightarrow> nat \<times> bool \<times> int \<times> bool \<times> char list" where
  "frame r = (nr_pos r, nr_overflow r, nr_utc_diff r, nr_callback r, nr_in r)"

lemma frame_spec [simp]:
  "frame (clear_flags r) = frame r"
  "frame (spec_time F E s r) = frame r"
  "frame (spec_date F E d s r) = frame r"
  "frame (spec_latlong F a b c d' r) = frame r"
  "frame (spec_altitude F s r) = frame r"
  "frame (spec_bearing F s r) = frame r"
  "frame (spec_speed F s r) = frame r"
  "frame (spec_accuracy F r) = frame r"
  by (auto simp: frame_def clear_flags_def spec_time_def spec_date_def spec_latlong_def
        spec_altitude_def spec_bearing_def spec_speed_def spec_accuracy_def Let_def)

lemma frame_sentence [simp]: "frame (spec_sentence F E fs r) = frame r"
  by (simp add: spec_sentence_def Let_def)

lemma frame_fields:
  assumes "frame a = frame b"
  shows "nr_pos a = nr_pos b" "nr_overflow a = nr_overflow b" "nr_utc_diff a = nr_utc_diff b"
    "nr_callback a = nr_callback b" "nr_in a = nr_in b"
  using assms by (auto simp: frame_def)

lemmas nr_in_keep [simp] = frame_spec [THEN frame_fields(5)]
lemmas nr_callback_keep [simp] =
  frame_spec [THEN frame_fields(4)] frame_sentence [THEN frame_fields(4)]

lemma get_field:
  assumes "list_all (tok_ok buf e) ts" and "TokDummy \<notin> set ts"
  shows "tok_ok buf e (nmea_tokenizer_get ts i)"
    and "0 \<le> i \<Longrightarrow> tok_text buf (nmea_tokenizer_get ts i) = field (map (tok_text buf) ts) (nat i)"
    and "0 \<le> i \<Longrightarrow> tok_first buf (nmea_tokenizer_get ts i) = field_first (map (tok_text buf) ts) (nat i)"
proof -
  show "tok_ok buf e (nmea_tokenizer_get ts i)"
    using assms(1) by (auto simp: nmea_tokenizer_get_def list_all_length nat_less_iff)
  show "tok_text buf (nmea_tokenizer_get ts i) = field (map (tok_text buf) ts) (nat i)" if "0 \<le> i"
    using that by (auto simp: nmea_tokenizer_get_def field_def nat_less_iff)
  show "tok_first buf (nmea_tokenizer_get ts i) = field_first (map (tok_text buf) ts) (nat i)" if "0 \<le> i"
  proof (cases "nat i < length ts")
    case True
    then have in_set: "ts ! nat i \<in> set ts" by simp
    then obtain p q where t: "ts ! nat i = TokBuf p q" using assms(2) by (metis token.exhaust)
    have ok: "tok_ok buf e (TokBuf p q)" using assms(1) True t by (metis list_all_length)
    then have "buf ! p = (if slice buf p q = [] then CHR '','' else hd (slice buf p q))"
      using slice_Cons [of p q buf] by (cases "p = q") (auto simp: slice_Nil_iff)
    then show ?thesis using True t that by (simp add: nmea_tokenizer_get_def field_first_def nat_less_iff)
  next
    case False
    then show ?thesis using that by (simp add: nmea_tokenizer_get_def field_first_def nat_less_iff)
  qed
qed

lemma sentence_spec:
  assumes "list_all (tok_ok (nr_in r) e) ts" and "TokDummy \<notin> set ts"
    and fs: "fs = map (tok_text (nr_in r)) ts" and id: "ident = take 3 (drop 2 (field fs 0))"
  shows "nmea_sentence F E r ts ident = spec_sentence F E fs r"
proof -
  note G = get_field [OF assms(1,2), folded fs]
  have ok: "tok_ok (nr_in r') e (nmea_tokenizer_get ts i)"
    and text_of: "0 \<le> i \<Longrightarrow> tok_text (nr_in r') (nmea_tokenizer_get ts i) = field fs (nat i)"
    if "nr_in r' = nr_in r" for r' i
    using G(1,2) that by auto
  show ?thesis
    by (simp add: nmea_sentence_def spec_sentence_def Let_def id [symmetric] G(3)
          update_time_spec [where e = e] update_date_spec [where e = e and e' = e]
          update_latlong_spec [where e = e and e' = e] update_altitude_spec [where e = e]
          update_bearing_spec [where e = e] update_speed_spec [where e = e] ok text_of)
qed

lemma parse_spec:
  assumes "nr_pos r \<le> length (nr_in r)"
  shows "nmea_reader_parse F E r = spec_line F E (take (nr_pos r) (nr_in r)) r"
proof -
  let ?ts = "nmea_tokenizer_init (nr_in r) 0 (nr_pos r)"
  let ?fs = "take MAX_NMEA_TOKENS (csv_fields (nmea_body (take (nr_pos r) (nr_in r))))"
  have fs: "?fs = map (tok_text (nr_in r)) ?ts"
    and ok: "list_all (tok_ok (nr_in r) (nr_pos r)) ?ts"
    using tokenizer_spec [of 0 "nr_pos r" "nr_in r"] assms by (simp_all add: slice_def)
  note nd = tokenizer_no_dummy [of "nr_in r" 0 "nr_pos r"]
  note G = get_field [OF ok nd, folded fs]
  show ?thesis
  proof (cases "nmea_tokenizer_get ?ts 0")
    case TokDummy
    have "field ?fs 0 = []" using G(2) [of 0] TokDummy by simp
    then show ?thesis using TokDummy assms
      by (simp add: nmea_reader_parse_def spec_line_def Let_def)
  next
    case (TokBuf p q)
    have f0: "field ?fs 0 = slice (nr_in r) p q" using G(2) [of 0] TokBuf by simp
    have q: "p \<le> q" "q \<le> length (nr_in r)" using G(1) [of 0] TokBuf by auto
    then have len: "length (field ?fs 0) = q - p" using f0 by (simp add: length_slice)
    show ?thesis
    proof (cases "nr_pos r < 9 \<or> p + 5 > q")
      case True
      then show ?thesis using TokBuf assms len
        by (auto simp: nmea_reader_parse_def spec_line_def Let_def)
    next
      case False
      have ident: "take 3 (drop (p + 2) (nr_in r)) = take 3 (drop 2 (field ?fs 0))"
        using False unfolding f0 by (auto simp: slice_def drop_take min_def)
      have "nmea_reader_parse F E r
          = (let r2 = spec_accuracy F (spec_sentence F E ?fs r)
             in (r2, if nr_callback r2 then [nr_fix r2] else []))"
        using False TokBuf sentence_spec [OF ok nd fs ident, of F E]
        by (simp add: nmea_reader_parse_def Let_def update_accuracy_spec)
           (simp add: spec_accuracy_def)
      moreover have "\<not> length (field ?fs 0) < 5" using False len by linarith
      ultimately show ?thesis using False assms by (simp add: spec_line_def Let_def)
    qed
  qed
qed

section \<open>From bytes to lines\<close>

definition nmea_ok :: "'d NmeaReader \<Rightarrow> bool" where
  "nmea_ok r \<longleftrightarrow> length (nr_in r) = NMEA_MAX_SIZE + 1 \<and> nr_pos r \<le> NMEA_MAX_SIZE
     \<and> (nr_overflow r \<longrightarrow> nr_pos r = 0)"

text \<open>The reader at the start of a line, and what is left of a reader when its buffer is forgotten.\<close>

definition line_start :: "'d NmeaReader \<Rightarrow> bool" where
  "line_start r \<longleftrightarrow> nmea_ok r \<and> nr_pos r = 0 \<and> \<not> nr_overflow r"

definition no_buf :: "'d NmeaReader \<Rightarrow> 'd NmeaReader" where
  "no_buf r = r\<lparr>nr_pos := 0, nr_in := []\<rparr>"

fun spec_lines ::
  "'d fpu \<Rightarrow> env \<Rightarrow> string list \<Rightarrow> 'd NmeaReader \<Rightarrow> 'd NmeaReader \<times> 'd GpsLocation list" where
  "spec_lines F E [] r = (r, [])"
| "spec_lines F E (l # ls) r =
     (case spec_line F E l r of (r1, out1) \<Rightarrow> (case spec_lines F E ls r1 of (r2, out2) \<Rightarrow> (r2, out1 @ out2)))"

lemma no_buf_pos: "no_buf (r\<lparr>nr_pos := n\<rparr>) = no_buf r"
  by (simp add: no_buf_def)

lemma spec_no_buf:
  "spec_time F E s (no_buf r) = no_buf (spec_time F E s r)"
  "clear_flags (no_buf r) = no_buf (clear_flags r)"
  "spec_latlong F a b c d (no_buf r) = no_buf (spec_latlong F a b c d r)"
  "spec_altitude F s (no_buf r) = no_buf (spec_altitude F s r)"
  "spec_bearing F s (no_buf r) = no_buf (spec_bearing F s r)"
  "spec_speed F s (no_buf r) = no_buf (spec_speed F s r)"
  "spec_accuracy F (no_buf r) = no_buf (spec_accuracy F r)"
  by (simp_all add: spec_time_def clear_flags_def spec_latlong_def spec_altitude_def
        spec_bearing_def spec_speed_def spec_accuracy_def no_buf_def Let_def)

lemma spec_date_no_buf: "spec_date F E d s (no_buf r) = no_buf (spec_date F E d s r)"
proof -
  have "(no_buf r)\<lparr>nr_utc_year := y, nr_utc_mon := m, nr_utc_day := k\<rparr>
      = no_buf (r\<lparr>nr_utc_year := y, nr_utc_mon := m, nr_utc_day := k\<rparr>)" for y m k
    by (simp add: no_buf_def)
  then show ?thesis by (simp add: spec_date_def spec_no_buf)
qed

lemma spec_line_no_buf:
  "spec_line F E s (no_buf r) = (case spec_line F E s r of (r', out) \<Rightarrow> (no_buf r', out))"
proof -
  have "spec_sentence F E fs (no_buf r) = no_buf (spec_sentence F E fs r)" for fs
    by (simp add: spec_sentence_def Let_def spec_no_buf spec_date_no_buf)
  moreover have "nr_fix (no_buf r) = nr_fix r" "nr_callback (no_buf r) = nr_callback r" for r :: "'a NmeaReader"
    by (simp_all add: no_buf_def)
  ultimately show ?thesis by (simp add: spec_line_def Let_def spec_no_buf)
qed

lemma frame_line: "frame (fst (spec_line F E s r)) = frame r"
  by (simp add: spec_line_def Let_def)

lemma nmea_feed_append:
  "nmea_feed F E r (xs @ ys)
   = (case nmea_feed F E r xs of (r1, o1) \<Rightarrow> (case nmea_feed F E r1 ys of (r2, o2) \<Rightarrow> (r2, o1 @ o2)))"
  by (induction xs arbitrary: r) (auto split: prod.splits)

lemma nmea_addc_ok:
  assumes "nmea_ok r"
  shows "nmea_ok (fst (nmea_reader_addc F E r c))"
proof -
  let ?r = "r\<lparr>nr_in := (nr_in r)[nr_pos r := c], nr_pos := nr_pos r + 1\<rparr>"
  have "frame (fst (nmea_reader_parse F E ?r)) = frame ?r"
    if "\<not> nr_overflow r" "nr_pos r < NMEA_MAX_SIZE"
    using assms that parse_spec [of ?r F E] by (simp add: frame_line nmea_ok_def)
  then have "\<not> nr_overflow r \<Longrightarrow> nr_pos r < NMEA_MAX_SIZE \<Longrightarrow>
      nr_in (fst (nmea_reader_parse F E ?r)) = nr_in ?r \<and> \<not> nr_overflow (fst (nmea_reader_parse F E ?r))"
    by (simp add: frame_def)
  then show ?thesis
    using assms by (auto simp: nmea_reader_addc_def nmea_ok_def Let_def split_beta not_le)
qed

lemma nmea_feed_ok: "nmea_ok r \<Longrightarrow> nmea_ok (fst (nmea_feed F E r cs))"
proof (induction cs arbitrary: r)
  case (Cons c cs)
  then show ?case using nmea_addc_ok [OF Cons.prems, of F E c]
    by (auto split: prod.splits) (metis fst_conv)
qed simp

text \<open>Bytes of a line that fits are only collected.\<close>

lemma feed_collect:
  "nmea_ok r \<Longrightarrow> \<not> nr_overflow r \<Longrightarrow> NL \<notin> set cs \<Longrightarrow> nr_pos r + length cs \<le> NMEA_MAX_SIZE \<Longrightarrow>
   nmea_feed F E r cs =
     (r\<lparr>nr_in := take (nr_pos r) (nr_in r) @ cs @ drop (nr_pos r + length cs) (nr_in r),
        nr_pos := nr_pos r + length cs\<rparr>, [])"
proof (induction cs arbitrary: r)
  case Nil
  then show ?case by simp
next
  case (Cons c cs)
  let ?r = "r\<lparr>nr_in := (nr_in r)[nr_pos r := c], nr_pos := nr_pos r + 1\<rparr>"
  have pos: "nr_pos r < length (nr_in r)" using Cons.prems by (simp add: nmea_ok_def)
  have step: "nmea_reader_addc F E r c = (?r, [])"
    using Cons.prems by (auto simp: nmea_reader_addc_def)
  then have "nmea_ok ?r" using nmea_addc_ok [OF Cons.prems(1), of F E c] by simp
  from Cons.IH [OF this] show ?case
    using Cons.prems step pos
    by (simp add: list_update_nth_split take_Suc_conv_app_nth min_def add.commute)
qed

lemma feed_skip:
  "nr_overflow r \<Longrightarrow> NL \<notin> set cs \<Longrightarrow>
   nmea_feed F E r cs = (r, []) \<and> nmea_feed F E r (cs @ [NL]) = (r\<lparr>nr_overflow := False\<rparr>, [])"
proof (induction cs arbitrary: r)
  case Nil
  then show ?case by (simp add: nmea_reader_addc_def)
next
  case (Cons c cs)
  have "nmea_reader_addc F E r c = (r, [])" using Cons.prems by (auto simp: nmea_reader_addc_def)
  then show ?case using Cons by simp
qed

lemma feed_line:
  assumes "line_start r" and "NL \<notin> set l" and "length l < NMEA_MAX_SIZE"
  shows "line_start (fst (nmea_feed F E r (l @ [NL])))"
    and "no_buf (fst (nmea_feed F E r (l @ [NL]))) = fst (spec_line F E (l @ [NL]) (no_buf r))"
    and "snd (nmea_feed F E r (l @ [NL])) = snd (spec_line F E (l @ [NL]) (no_buf r))"
proof -
  have ok: "nmea_ok r" and st: "nr_pos r = 0" "\<not> nr_overflow r" using assms(1) by (auto simp: line_start_def)
  define r1 where "r1 = r\<lparr>nr_in := l @ drop (length l) (nr_in r), nr_pos := length l\<rparr>"
  define r2 where "r2 = r1\<lparr>nr_in := (nr_in r1)[length l := NL], nr_pos := Suc (length l)\<rparr>"
  have len: "length (nr_in r) = NMEA_MAX_SIZE + 1" using ok by (simp add: nmea_ok_def)
  have "nmea_feed F E r l = (r1, [])"
    using feed_collect [OF ok st(2) assms(2)] st assms(3) by (simp add: r1_def)
  moreover have "nmea_reader_addc F E r1 NL
      = (case nmea_reader_parse F E r2 of (r3, out) \<Rightarrow> (r3\<lparr>nr_pos := 0\<rparr>, out))"
    using st assms(3) by (simp add: nmea_reader_addc_def r2_def Let_def) (simp add: r1_def)
  ultimately have feed: "nmea_feed F E r (l @ [NL])
      = (case nmea_reader_parse F E r2 of (r3, out) \<Rightarrow> (r3\<lparr>nr_pos := 0\<rparr>, out))"
    by (simp add: nmea_feed_append split: prod.splits)
  have r2_in: "take (Suc (length l)) (nr_in r2) = l @ [NL]"
    using assms(3) len by (simp add: r2_def r1_def list_update_append take_Suc_conv_app_nth)
  have parse: "nmea_reader_parse F E r2 = spec_line F E (l @ [NL]) r2"
    using parse_spec [of r2 F E] assms(3) len r2_in by (simp add: r2_def r1_def)
  have "no_buf r2 = no_buf r" by (simp add: no_buf_def r1_def r2_def)
  then have nb: "spec_line F E (l @ [NL]) (no_buf r)
      = (case spec_line F E (l @ [NL]) r2 of (r', out) \<Rightarrow> (no_buf r', out))"
    by (metis spec_line_no_buf)
  show "line_start (fst (nmea_feed F E r (l @ [NL])))"
    using nmea_feed_ok [OF ok, of F E "l @ [NL]"] frame_fields(2) [OF frame_line, of F E "l @ [NL]" r2] st
    by (simp add: line_start_def feed parse split_beta) (simp add: r1_def r2_def)
  show "no_buf (fst (nmea_feed F E r (l @ [NL]))) = fst (spec_line F E (l @ [NL]) (no_buf r))"
    by (simp add: feed parse nb split_beta no_buf_pos)
  show "snd (nmea_feed F E r (l @ [NL])) = snd (spec_line F E (l @ [NL]) (no_buf r))"
    by (simp add: feed parse nb split_beta)
qed

text \<open>A line that fills the buffer before its end is dropped, and the reader is left in
  overflow; one more character decides whether its newline ends the overflow.\<close>

lemma feed_overlong:
  assumes "line_start r" and "NL \<notin> set l" and "length l = NMEA_MAX_SIZE"
  shows "nmea_feed F E r (l @ [c]) = (r\<lparr>nr_in := l @ drop NMEA_MAX_SIZE (nr_in r), nr_overflow := True, nr_pos := 0\<rparr>, [])"
proof -
  have ok: "nmea_ok r" and st: "nr_pos r = 0" "\<not> nr_overflow r" using assms(1) by (auto simp: line_start_def)
  have "nmea_feed F E r l = (r\<lparr>nr_in := l @ drop NMEA_MAX_SIZE (nr_in r), nr_pos := NMEA_MAX_SIZE\<rparr>, [])"
    using feed_collect [OF ok st(2) assms(2)] st assms(3) by simp
  then show ?thesis using st by (simp add: nmea_feed_append nmea_reader_addc_def)
qed

lemma feed_overlong_line:
  assumes "line_start r" and "NL \<notin> set l" and "NMEA_MAX_SIZE < length l"
  shows "nmea_feed F E r (l @ [NL]) = (r\<lparr>nr_in := take NMEA_MAX_SIZE l @ drop NMEA_MAX_SIZE (nr_in r)\<rparr>, [])"
proof -
  obtain a c b where l: "l = a @ c # b" and a: "length a = NMEA_MAX_SIZE"
    using assms(3) by (metis id_take_nth_drop length_take min.absorb4)
  have st: "nr_pos r = 0" "\<not> nr_overflow r" using assms(1) by (auto simp: line_start_def)
  have "nmea_feed F E r ((a @ [c]) @ (b @ [NL]))
      = (r\<lparr>nr_in := a @ drop NMEA_MAX_SIZE (nr_in r), nr_overflow := False, nr_pos := 0\<rparr>, [])"
    using feed_overlong [OF assms(1) _ a, of F E c] feed_skip [of "r\<lparr>nr_in := a @ drop NMEA_MAX_SIZE (nr_in r), nr_overflow := True, nr_pos := 0\<rparr>" b F E] assms(2) l
    by (subst nmea_feed_append) auto
  moreover have "r\<lparr>nr_in := x, nr_overflow := False, nr_pos := 0\<rparr> = r\<lparr>nr_in := x\<rparr>" for x
    using st by simp
  ultimately show ?thesis using l a by simp
qed

lemma feed_lines:
  "line_start r \<Longrightarrow> \<forall>l\<in>set ls. NL \<notin> set l \<and> length l \<noteq> NMEA_MAX_SIZE \<Longrightarrow>
   line_start (fst (nmea_feed F E r (concat (map (\<lambda>l. l @ [NL]) ls))))
   \<and> (case nmea_feed F E r (concat (map (\<lambda>l. l @ [NL]) ls)) of (r', out) \<Rightarrow> (no_buf r', out))
     = spec_lines F E (map (\<lambda>l. l @ [NL]) (filter (\<lambda>l. length l < NMEA_MAX_SIZE) ls)) (no_buf r)"
proof (induction ls arbitrary: r)
  case Nil
  then show ?case by simp
next
  case (Cons l ls)
  obtain r1 o1 where f1: "nmea_feed F E r (l @ [NL]) = (r1, o1)" by fastforce
  have split: "nmea_feed F E r (concat (map (\<lambda>l. l @ [NL]) (l # ls)))
      = (case nmea_feed F E r1 (concat (map (\<lambda>l. l @ [NL]) ls)) of (r2, o2) \<Rightarrow> (r2, o1 @ o2))"
    using f1 nmea_feed_append [of F E r "l @ [NL]"] by simp
  show ?case
  proof (cases "length l < NMEA_MAX_SIZE")
    case True
    have "line_start r1" "spec_line F E (l @ [NL]) (no_buf r) = (no_buf r1, o1)"
      using feed_line [OF Cons.prems(1) _ True, of F E] Cons.prems(2) f1 by (auto simp: prod_eq_iff)
    then show ?thesis
      using Cons.IH [of r1] Cons.prems True unfolding split by (auto split: prod.splits)
  next
    case False
    then have "r1 = r\<lparr>nr_in := take NMEA_MAX_SIZE l @ drop NMEA_MAX_SIZE (nr_in r)\<rparr>" "o1 = []"
      using feed_overlong_line [OF Cons.prems(1), of l F E] Cons.prems(2) f1 by auto
    then have "line_start r1" "no_buf r1 = no_buf r" "o1 = []"
      using Cons.prems(1) False by (auto simp: line_start_def nmea_ok_def no_buf_def)
    then show ?thesis
      using Cons.IH [of r1] Cons.prems False unfolding split by (auto split: prod.splits)
  qed
qed

section \<open>Properties\<close>

text \<open>An exact instance of the number operations, for concrete runs: rationals, decimals without
  sign or exponent.\<close>

definition rat_dec :: "string \<Rightarrow> rat" where
  "rat_dec s = (let frac = drop 1 (dropWhile (\<lambda>c. c \<noteq> CHR ''.'') s)
     in of_int (dec (takeWhile (\<lambda>c. c \<noteq> CHR ''.'') s)) + of_int (dec frac) / 10 ^ length frac)"

definition rat_fpu :: "(string \<Rightarrow> rat) \<Rightarrow> rat fpu" where
  "rat_fpu sd = \<lparr>f_zero = 0, f_strtod = sd, f_of_int = of_int, f_add = (+), f_sub = (-), f_mul = (*),
     f_div = (/), f_neg = uminus, f_floor = (\<lambda>x. of_int \<lfloor>x\<rfloor>),
     f_trunc = (\<lambda>x. if 0 \<le> x then \<lfloor>x\<rfloor> else \<lceil>x\<rceil>), f_float = (\<lambda>x. x)\<rparr>"

definition epoch_env :: env where
  "epoch_env = (let t = \<lparr>tm_sec = 0, tm_min = 0, tm_hour = 0, tm_mday = 1, tm_mon = 0, tm_year = 70,
       tm_yday = 0, tm_isdst = 0\<rparr>
     in \<lparr>e_now = 0, e_gmtime = (\<lambda>_. t), e_localtime = (\<lambda>_. t),
         e_mktime = (\<lambda>t. tm_sec t + 60 * (tm_min t + 60 * tm_hour t))\<rparr>)"

lemma init_line_start: "line_start (nmea_reader_init F E)"
  by (simp add: line_start_def nmea_ok_def nmea_reader_init_def nmea_reader_update_utc_diff_def Let_def)

text \<open>C22. Whatever bytes arrive, the reader stays inside its buffer: it starts with
  \<^verbatim>\<open>pos\<close> at 0, \<^verbatim>\<open>pos\<close> never exceeds 83 in a buffer of 84 characters, overflow
  is only ever recorded with an empty buffer, and all tokens of a line that is parsed
  lie between the start of the buffer and \<^verbatim>\<open>pos\<close>.\<close>

theorem nmea_reader_in_bounds:
  fixes F :: "'d fpu"
  shows "nmea_ok (nmea_reader_init F E)
     \<and> (\<forall>r :: 'd NmeaReader. nmea_ok r \<longrightarrow>
          nmea_ok (fst (nmea_feed F E r cs))
        \<and> length (nmea_tokenizer_init (nr_in r) 0 (nr_pos r)) \<le> MAX_NMEA_TOKENS
        \<and> list_all (\<lambda>t. case t of TokBuf p e \<Rightarrow> p \<le> e \<and> e \<le> nr_pos r \<and> p < nr_pos r | TokDummy \<Rightarrow> False)
             (nmea_tokenizer_init (nr_in r) 0 (nr_pos r)))"
proof -
  have "length (nmea_tokenizer_init (nr_in r) 0 (nr_pos r)) \<le> MAX_NMEA_TOKENS
      \<and> list_all (\<lambda>t. case t of TokBuf p e \<Rightarrow> p \<le> e \<and> e \<le> nr_pos r \<and> p < nr_pos r | TokDummy \<Rightarrow> False)
           (nmea_tokenizer_init (nr_in r) 0 (nr_pos r))" if "nmea_ok r" for r :: "'d NmeaReader"
  proof -
    have le: "nr_pos r \<le> length (nr_in r)" using that by (simp add: nmea_ok_def)
    note S = tokenizer_spec [OF _ le, of 0, simplified]
    have "length (map (tok_text (nr_in r)) (nmea_tokenizer_init (nr_in r) 0 (nr_pos r))) \<le> MAX_NMEA_TOKENS"
      unfolding S(1) by simp
    then show ?thesis
      using S(2) tokenizer_no_dummy [of "nr_in r" 0 "nr_pos r"]
      by (fastforce simp: list_all_iff split: token.splits)
  qed
  then show ?thesis using nmea_feed_ok init_line_start [of F E] by (auto simp: line_start_def)
qed

theorem nmea_reader_in_bounds_witness:
  "nmea_ok (fst (nmea_feed (rat_fpu rat_dec) epoch_env (nmea_reader_init (rat_fpu rat_dec) epoch_env) ''$GPGSA''))"
  using nmea_reader_in_bounds [of "rat_fpu rat_dec" epoch_env "''$GPGSA''"] by blast

text \<open>C7. The byte-wise reader implements a line-wise one: fed any number of lines, none of
  exactly 83 characters, it ends at a line start in the state, and calls the callback with exactly
  the fixes, that come from interpreting the lines shorter than 83 characters one after the other;
  longer lines are discarded whole. The interpretation of a line works on the text of its
  fields and mentions neither buffer nor positions.\<close>

theorem nmea_reader_refines_lines:
  assumes "line_start r" and "\<forall>l\<in>set ls. NL \<notin> set l \<and> length l \<noteq> NMEA_MAX_SIZE"
  shows "line_start (fst (nmea_feed F E r (concat (map (\<lambda>l. l @ [NL]) ls))))
   \<and> (case nmea_feed F E r (concat (map (\<lambda>l. l @ [NL]) ls)) of (r', out) \<Rightarrow> (no_buf r', out))
     = spec_lines F E (map (\<lambda>l. l @ [NL]) (filter (\<lambda>l. length l < NMEA_MAX_SIZE) ls)) (no_buf r)"
  using assms by (rule feed_lines)

theorem nmea_reader_refines_lines_witness:
  "(case nmea_feed (rat_fpu rat_dec) epoch_env (nmea_reader_init (rat_fpu rat_dec) epoch_env)
          (concat (map (\<lambda>l. l @ [NL]) [''$GPGSA,A,3'', replicate 90 (CHR ''x'')]))
    of (r', out) \<Rightarrow> (no_buf r', out))
   = spec_lines (rat_fpu rat_dec) epoch_env [''$GPGSA,A,3'' @ [NL]]
       (no_buf (nmea_reader_init (rat_fpu rat_dec) epoch_env))"
proof -
  let ?ls = "[''$GPGSA,A,3'', replicate 90 (CHR ''x'')]"
  have fl: "filter (\<lambda>l. length l < NMEA_MAX_SIZE) ?ls = [''$GPGSA,A,3'']"
    by (simp add: NMEA_MAX_SIZE_def)
  have "\<forall>l\<in>set ?ls. NL \<notin> set l \<and> length l \<noteq> NMEA_MAX_SIZE"
    by (simp add: NL_def NMEA_MAX_SIZE_def)
  note T = nmea_reader_refines_lines [OF init_line_start this, THEN conjunct2, unfolded fl]
  show ?thesis by (rule T [unfolded list.map(2) [of _ "''$GPGSA,A,3''" "[]"] list.map(1)])
qed

text \<open>Tokenizing undoes printing: for fields without commas, the last one not empty, the
  tokens of the sentence \<open>$f1,...,fn*hh\<close> with its line end are the texts of the
  first sixteen fields, in order.\<close>

theorem nmea_tokenizer_roundtrip:
  assumes "fs \<noteq> []" and "\<forall>f\<in>set fs. CHR '','' \<notin> set f" and "last fs \<noteq> []"
    and "buf = nmea_print fs h l @ rest"
  shows "map (tok_text buf) (nmea_tokenizer_init buf 0 (length (nmea_print fs h l))) = take 16 fs"
  using tokenizer_spec(1) [of 0 "length (nmea_print fs h l)" buf] csv_fields_join [OF assms(1-3)] assms(4)
  by (simp add: slice_def nmea_body_print MAX_NMEA_TOKENS_def)

theorem nmea_tokenizer_roundtrip_witness:
  "map (tok_text (nmea_print [''GPRMC'', [], ''A''] (CHR ''4'') (CHR ''7'') @ ''x''))
     (nmea_tokenizer_init (nmea_print [''GPRMC'', [], ''A''] (CHR ''4'') (CHR ''7'') @ ''x'') 0
        (length (nmea_print [''GPRMC'', [], ''A''] (CHR ''4'') (CHR ''7''))))
   = [''GPRMC'', [], ''A'']"
  using nmea_tokenizer_roundtrip [of "[''GPRMC'', [], ''A'']", OF _ _ _ refl, of "CHR ''4''" "CHR ''7''" "''x''"]
  by simp

lemma csv_join_set: "set (csv_join fs) \<subseteq> insert (CHR '','') (\<Union> (set ` set fs))"
  by (induction fs rule: csv_join.induct) auto

lemma feed_sentence:
  assumes "line_start r" and "fs \<noteq> []" and "\<forall>f\<in>set fs. CHR '','' \<notin> set f \<and> NL \<notin> set f"
    and "last fs \<noteq> []" and "length (csv_join fs) \<le> 77" and "h \<noteq> NL" and "l \<noteq> NL"
    and "5 \<le> length (hd fs)"
  shows "(case nmea_feed F E r (nmea_print fs h l) of (r', out) \<Rightarrow> (no_buf r', out))
     = (let r' = spec_accuracy F (spec_sentence F E (take 16 fs) (no_buf r))
        in (r', if nr_callback r then [nr_fix r'] else []))"
proof -
  let ?l = "CHR ''$'' # csv_join fs @ [CHR ''*'', h, l, CR]"
  have p: "nmea_print fs h l = ?l @ [NL]" by (simp add: nmea_print_def)
  have nl: "NL \<notin> set ?l"
    using csv_join_set [of fs] assms(3,6,7) by (auto simp: NL_def CR_def)
  have len: "length ?l < NMEA_MAX_SIZE" using assms(5) by (simp add: NMEA_MAX_SIZE_def)
  have fs: "csv_fields (nmea_body (?l @ [NL])) = fs"
    using csv_fields_join [of fs] assms(2-4) unfolding p [symmetric] nmea_body_print by blast
  have f0: "field (take MAX_NMEA_TOKENS fs) 0 = hd fs"
    using assms(2) by (simp add: field_def MAX_NMEA_TOKENS_def hd_conv_nth)
  have big: "5 \<le> length (csv_join fs)"
    using assms(2,8) by (cases fs rule: csv_join.cases) auto
  have "spec_line F E (?l @ [NL]) (no_buf r) = (let r' = spec_accuracy F (spec_sentence F E (take 16 fs) (no_buf r))
        in (r', if nr_callback r then [nr_fix r'] else []))"
    using assms(8) big unfolding spec_line_def fs Let_def f0
    by (simp add: MAX_NMEA_TOKENS_def) (simp add: no_buf_def)
  then show ?thesis
    using feed_line [OF assms(1) nl len, of F E] p by (simp add: split_beta prod_eq_iff)
qed

lemma rat_hhmm:
  assumes "0 \<le> d" and "0 \<le> m" and "m < 100"
  shows "hhmm (rat_fpu sd) (100 * of_int d + m) = of_int d + m / 60"
proof -
  have f: "\<lfloor>100 * of_int d + m\<rfloor> = 100 * d + \<lfloor>m\<rfloor>"
    using floor_add_int [of m "100 * d"] by (simp add: add.commute)
  have m: "0 \<le> \<lfloor>m\<rfloor>" "\<lfloor>m\<rfloor> < 100" using assms(2,3) by (simp_all add: floor_less_iff)
  then have "\<lfloor>of_int (100 * d + \<lfloor>m\<rfloor>) / (100::rat)\<rfloor> = d"
    by (auto simp: floor_eq_iff field_simps)
  moreover have "0 \<le> (of_int (100 * d + \<lfloor>m\<rfloor>) / 100 :: rat)" using assms(1) m(1) by simp
  ultimately have "f_trunc (rat_fpu sd) (of_int (100 * d + \<lfloor>m\<rfloor>) / 100) = d"
    by (simp only: rat_fpu_def fpu.simps if_True)
  then show ?thesis unfolding hhmm_def Let_def by (simp add: rat_fpu_def f)
qed

text \<open>In exact arithmetic the conversion of an NMEA coordinate is the one
  intended: a field that reads as \<open>100 d + m\<close> with minutes \<open>m\<close> below 60 becomes
  \<open>d + m/60\<close> degrees, whose integer part is \<open>d\<close>.\<close>

theorem convert_from_hhmm_exact:
  assumes "tok_ok buf e tok" and "length (tok_text buf tok) < 16"
    and "sd (tok_text buf tok) = 100 * of_int d + m" and "0 \<le> d" and "0 \<le> m" and "m < 60"
  shows "convert_from_hhmm (rat_fpu sd) buf tok = of_int d + m / 60
    \<and> \<lfloor>convert_from_hhmm (rat_fpu sd) buf tok\<rfloor> = d"
proof -
  have "str_float (rat_fpu sd) (tok_text buf tok) = 100 * of_int d + m"
    using assms(2,3) by (simp add: str_float_def rat_fpu_def)
  then have "convert_from_hhmm (rat_fpu sd) buf tok = of_int d + m / 60"
    using assms(4-6) by (simp add: convert_from_hhmm_text [OF assms(1)] rat_hhmm)
  then show ?thesis using assms(5,6) by (simp add: floor_eq_iff)
qed

theorem convert_from_hhmm_exact_witness:
  "convert_from_hhmm (rat_fpu rat_dec) ''4807.5,N'' (TokBuf 0 6) = 48 + 1 / 8"
proof -
  have "rat_dec ''4807.5'' = 100 * of_int 48 + 15 / 2"
    by (simp add: rat_dec_def dec_def is_digit_def of_char_def)
  then show ?thesis
    using convert_from_hhmm_exact [of "''4807.5,N''" 8 "TokBuf 0 6" rat_dec 48 "15 / 2"]
    by (simp add: slice_def)
qed

text \<open>C23. A GGA sentence becomes a fix: when a printed sentence of at least ten fields arrives at
  a line start, with coordinates of at least six characters and an altitude, the reader's
  fix has exactly the latitude and longitude of the
  sentence, negated for hemispheres S and W, its altitude and an accuracy of 20, with the flags
  for these three and no others, and goes to the callback once if one is set.\<close>

theorem nmea_gga_fix:
  assumes "line_start r"
    and fs: "fs = [ident, tim, lat, ns, lon, ew, q, sats, hdop, alt] @ rest"
    and "\<forall>f\<in>set fs. CHR '','' \<notin> set f \<and> NL \<notin> set f" and "last fs \<noteq> []"
    and "length (csv_join fs) \<le> 77" and "h \<noteq> NL" and "l \<noteq> NL"
    and ident: "length ident = 5" "drop 2 ident = ''GGA''"
    and "6 \<le> length lat" and "6 \<le> length lon" and "ns \<noteq> []" and "ew \<noteq> []" and "alt \<noteq> []"
  shows "case nmea_feed F E r (nmea_print fs h l) of (r', out) \<Rightarrow>
      gl_latitude (nr_fix r') = (if hd ns = CHR ''S'' then f_neg F (hhmm F (str_float F lat)) else hhmm F (str_float F lat))
    \<and> gl_longitude (nr_fix r') = (if hd ew = CHR ''W'' then f_neg F (hhmm F (str_float F lon)) else hhmm F (str_float F lon))
    \<and> gl_altitude (nr_fix r') = str_float F alt
    \<and> gl_accuracy (nr_fix r') = f_float F (f_of_int F 20)
    \<and> gl_flags (nr_fix r') = {HAS_LAT_LONG, HAS_ALTITUDE, HAS_ACCURACY}
    \<and> out = (if nr_callback r then [nr_fix r'] else [])"
proof -
  obtain r' out where R: "nmea_feed F E r (nmea_print fs h l) = (r', out)" by fastforce
  have hd: "fs \<noteq> []" "5 \<le> length (hd fs)" using fs ident(1) by auto
  define r0 where "r0 = spec_time F E tim (clear_flags (no_buf r))"
  have flags: "gl_flags (nr_fix r0) = {}"
    by (simp add: r0_def spec_time_def clear_flags_def Let_def)
  have "spec_sentence F E (take 16 fs) (no_buf r)
      = spec_altitude F alt (spec_latlong F lat (hd ns) lon (hd ew) r0)"
    using assms(12,13) ident
    by (simp add: spec_sentence_def fs field_def field_first_def r0_def numeral_eq_Suc)
  with feed_sentence [OF assms(1) hd(1) assms(3-7) hd(2), of F E] R
  have nb: "no_buf r' = spec_accuracy F (spec_altitude F alt (spec_latlong F lat (hd ns) lon (hd ew) r0))"
    and out: "out = (if nr_callback r then [nr_fix (no_buf r')] else [])"
    by (auto simp: Let_def)
  have "nr_fix r' = nr_fix (no_buf r')" by (simp add: no_buf_def)
  then show ?thesis
    using assms(10,11,14) R out flags unfolding nb
    by (simp add: spec_accuracy_def spec_altitude_def spec_latlong_def Let_def insert_commute)
qed

theorem nmea_gga_fix_witness:
  "case nmea_feed (rat_fpu rat_dec) epoch_env (nmea_reader_init (rat_fpu rat_dec) epoch_env)
     (nmea_print [''GPGGA'', ''123519'', ''4807.5'', ''N'', ''01131.0'', ''W'', ''1'', ''8'', ''1'', ''545''] (CHR ''4'') (CHR ''7''))
   of (r', out) \<Rightarrow> gl_latitude (nr_fix r') = 48 + 1 / 8 \<and> gl_longitude (nr_fix r') = - (11 + 31 / 60)
     \<and> gl_altitude (nr_fix r') = 545 \<and> out = []"
proof -
  let ?fs = "[''GPGGA'', ''123519'', ''4807.5'', ''N'', ''01131.0'', ''W'', ''1'', ''8'', ''1'', ''545'']"
  have ok: "\<forall>f\<in>set ?fs. CHR '','' \<notin> set f \<and> NL \<notin> set f" by (simp add: NL_def)
  have num: "str_float (rat_fpu rat_dec) ''4807.5'' = 9615 / 2" "str_float (rat_fpu rat_dec) ''01131.0'' = 1131"
    "str_float (rat_fpu rat_dec) ''545'' = 545"
    by (simp_all add: str_float_def rat_fpu_def rat_dec_def dec_def is_digit_def of_char_def)
  have deg: "hhmm (rat_fpu rat_dec) (9615 / 2) = 48 + 1 / 8" "hhmm (rat_fpu rat_dec) 1131 = 11 + 31 / 60"
    using rat_hhmm [of 48 "15 / 2" rat_dec] rat_hhmm [of 11 31 rat_dec] by simp_all
  have cb: "\<not> nr_callback (nmea_reader_init (rat_fpu rat_dec) epoch_env)"
    by (simp add: nmea_reader_init_def nmea_reader_update_utc_diff_def Let_def)
  show ?thesis
    using nmea_gga_fix [where F = "rat_fpu rat_dec" and E = epoch_env and fs = ?fs and rest = "[]"
        and ident = "''GPGGA''" and tim = "''123519''" and lat = "''4807.5''" and ns = "''N''"
        and lon = "''01131.0''" and ew = "''W''" and q = "''1''" and sats = "''8''" and hdop = "''1''"
        and alt = "''545''" and h = "CHR ''4''" and l = "CHR ''7''", OF init_line_start _ ok,
        of "rat_fpu rat_dec" epoch_env] cb
    by (simp add: num deg NL_def split_beta) (simp add: rat_fpu_def)
qed

text \<open>A line of exactly 83 characters costs the next line as well: its newline is the
  character that turns overflow on, so the reader skips to the newline after that. Nothing of
  either line reaches the parser, and the reader is back at a line start with its fix unchanged.\<close>

theorem nmea_exact_overflow_drops_two:
  assumes "line_start r" and "NL \<notin> set l1" and "length l1 = NMEA_MAX_SIZE" and "NL \<notin> set l2"
  shows "case nmea_feed F E r (l1 @ [NL] @ l2 @ [NL]) of (r', out) \<Rightarrow>
      out = [] \<and> no_buf r' = no_buf r \<and> line_start r'"
proof -
  let ?r = "r\<lparr>nr_in := l1 @ drop NMEA_MAX_SIZE (nr_in r), nr_overflow := True, nr_pos := 0\<rparr>"
  have "nmea_feed F E r ((l1 @ [NL]) @ (l2 @ [NL])) = (?r\<lparr>nr_overflow := False\<rparr>, [])"
    using feed_overlong [OF assms(1-3), of F E NL] feed_skip [of ?r l2 F E] assms(4)
    by (subst nmea_feed_append) simp
  moreover have "line_start (?r\<lparr>nr_overflow := False\<rparr>)" "no_buf (?r\<lparr>nr_overflow := False\<rparr>) = no_buf r"
    using assms(1,3) by (auto simp: line_start_def nmea_ok_def no_buf_def)
  ultimately show ?thesis by simp
qed

theorem nmea_exact_overflow_drops_two_witness:
  "case nmea_feed (rat_fpu rat_dec) epoch_env (nmea_reader_init (rat_fpu rat_dec) epoch_env)
      (replicate 83 (CHR ''x'') @ [NL] @ ''$GPRMC,1,A'' @ [NL])
   of (r', out) \<Rightarrow> out = [] \<and> line_start r'"
  using nmea_exact_overflow_drops_two [OF init_line_start, of "replicate 83 (CHR ''x'')" "''$GPRMC,1,A''"
      "rat_fpu rat_dec" epoch_env "rat_fpu rat_dec" epoch_env]
  by (auto simp: NL_def NMEA_MAX_SIZE_def split: prod.splits)

text \<open>When an RMC date is accepted: exactly when it has six characters and its day
  and month are digits; a refused date leaves the reader as it was. The year is not
  checked: the code adds 2000 before it looks at the sign, so a year that is no number passes as 1999.\<close>

theorem nmea_date_validation:
  assumes "tok_ok (nr_in r) e dt" and "tok_ok (nr_in r) e' tm" and "d = tok_text (nr_in r) dt"
  shows "let good = (length d = 6 \<and> list_all is_digit (take 4 d)); r' = snd (nmea_reader_update_date F E r dt tm)
     in (\<not> good \<longrightarrow> r' = r)
      \<and> (good \<longrightarrow> nr_utc_day r' = dec (take 2 d) \<and> nr_utc_mon r' = dec (take 2 (drop 2 d))
          \<and> nr_utc_year r' = (if list_all is_digit (drop 4 d) then 2000 + dec (drop 4 d) else 1999))"
proof -
  have dec0: "0 \<le> dec s \<longleftrightarrow> list_all is_digit s" for s
    using dec_nonneg [of s] by (auto simp: dec_def)
  have "take 4 d = take 2 d @ take 2 (drop 2 d)" by (simp flip: take_add)
  then have good: "list_all is_digit (take 4 d) \<longleftrightarrow> 0 \<le> dec (take 2 d) \<and> 0 \<le> dec (take 2 (drop 2 d))"
    by (simp add: dec0)
  have "dec (drop 4 d) + 2000 = (if list_all is_digit (drop 4 d) then 2000 + dec (drop 4 d) else 1999)"
    by (simp add: dec_def)
  moreover have "\<not> dec (drop 4 d) + 2000 < 0" using dec_ge [of "drop 4 d"] by linarith
  ultimately show ?thesis
    unfolding update_date_spec [OF assms(1,2), folded assms(3)] good Let_def
    by (auto simp: spec_date_def spec_time_def Let_def)
qed

theorem nmea_date_validation_witness:
  "nr_utc_year (snd (nmea_reader_update_date (rat_fpu rat_dec) epoch_env
      ((nmea_reader_init (rat_fpu rat_dec) epoch_env)\<lparr>nr_in := ''2503x4,''\<rparr>) (TokBuf 0 6) TokDummy)) = 1999"
proof -
  have t: "tok_text ''2503x4,'' (TokBuf 0 6) = ''2503x4''" by (simp add: slice_def)
  show ?thesis
    using nmea_date_validation [of "(nmea_reader_init (rat_fpu rat_dec) epoch_env)\<lparr>nr_in := ''2503x4,''\<rparr>" 6
        "TokBuf 0 6" 6 TokDummy "''2503x4''" "rat_fpu rat_dec" epoch_env] t
    by (simp add: Let_def is_digit_def of_char_def)
qed

section \<open>The offset between UTC and local time\<close>

text \<open>Seconds since 1900 with the leap days counted, for a broken-down time of the proleptic
  Gregorian calendar; the code counts 365 days for every year.\<close>

definition leap_days :: "int \<Rightarrow> int" where
  "leap_days y = (1899 + y) div 4 - (1899 + y) div 100 + (1899 + y) div 400 - 460"

definition tm_epoch :: "tm \<Rightarrow> int" where
  "tm_epoch t = tm_seconds_exact t + 86400 * leap_days (tm_year t)"

lemma wrap32_mod_eq: "x mod 2 ^ 32 = y mod 2 ^ 32 \<Longrightarrow> wrap32 x = wrap32 y"
  unfolding wrap32_def by (metis mod_add_left_eq)

lemma wrap32_mod: "wrap32 x mod 2 ^ 32 = x mod 2 ^ 32"
  unfolding wrap32_def by (simp add: mod_diff_left_eq)

lemma wrap32_add [simp]: "wrap32 (a + wrap32 b) = wrap32 (a + b)"
  by (rule wrap32_mod_eq) (metis mod_add_right_eq wrap32_mod)

lemma wrap32_mult [simp]: "wrap32 (k * wrap32 b) = wrap32 (k * b)"
  by (rule wrap32_mod_eq) (metis mod_mult_right_eq wrap32_mod)

lemma wrap32_diff [simp]: "wrap32 (wrap32 a - wrap32 b) = wrap32 (a - b)"
  by (rule wrap32_mod_eq) (metis mod_diff_eq wrap32_mod)

lemma wrap32_id: "- (2 ^ 31) \<le> x \<Longrightarrow> x < 2 ^ 31 \<Longrightarrow> wrap32 x = x"
  by (simp add: wrap32_def)

lemma tm_seconds_wrap: "tm_seconds t = wrap32 (tm_seconds_exact t)"
  by (simp add: tm_seconds_def tm_seconds_exact_def)

text \<open>The offset the reader subtracts from \<^verbatim>\<open>mktime\<close>: although the seconds since 1900
  overflow an \<^verbatim>\<open>int\<close>, their difference is the true offset between UTC and local time
  whenever both dates have the same number of leap days behind them; when only one of them lies
  past the end of a leap year the offset is wrong by a whole day.\<close>

theorem utc_diff_leap:
  assumes "utc = e_gmtime E (e_now E)" and "loc = e_localtime E (e_now E)"
    and "\<bar>tm_epoch utc - tm_epoch loc\<bar> \<le> 86400"
    and "\<bar>leap_days (tm_year utc) - leap_days (tm_year loc)\<bar> \<le> 1"
  shows "nr_utc_diff (nmea_reader_update_utc_diff E r)
     = (tm_epoch utc - tm_epoch loc) - 86400 * (leap_days (tm_year utc) - leap_days (tm_year loc))"
proof -
  have "nr_utc_diff (nmea_reader_update_utc_diff E r) = wrap32 (tm_seconds_exact utc - tm_seconds_exact loc)"
    by (simp add: nmea_reader_update_utc_diff_def Let_def tm_seconds_wrap assms(1,2))
  also have "\<dots> = tm_seconds_exact utc - tm_seconds_exact loc"
    using assms(3,4) unfolding tm_epoch_def by (intro wrap32_id) simp_all
  finally show ?thesis by (simp add: tm_epoch_def)
qed

text \<open>New Year 2017 in a zone an hour ahead of UTC.\<close>

definition new_year_utc :: tm where
  "new_year_utc = \<lparr>tm_sec = 0, tm_min = 30, tm_hour = 23, tm_mday = 31, tm_mon = 11, tm_year = 116,
     tm_yday = 365, tm_isdst = 0\<rparr>"

definition new_year_local :: tm where
  "new_year_local = \<lparr>tm_sec = 0, tm_min = 30, tm_hour = 0, tm_mday = 1, tm_mon = 0, tm_year = 117,
     tm_yday = 0, tm_isdst = 0\<rparr>"

theorem utc_diff_leap_witness:
  "tm_epoch new_year_utc - tm_epoch new_year_local = - 3600
   \<and> nr_utc_diff (nmea_reader_update_utc_diff
        (epoch_env\<lparr>e_gmtime := (\<lambda>_. new_year_utc), e_localtime := (\<lambda>_. new_year_local)\<rparr>)
        (nmea_reader_init (rat_fpu rat_dec) epoch_env)) = 82800"
proof -
  have ep: "tm_epoch new_year_utc - tm_epoch new_year_local = - 3600"
    "leap_days (tm_year new_year_utc) - leap_days (tm_year new_year_local) = -1"
    by (simp_all add: tm_epoch_def tm_seconds_exact_def leap_days_def new_year_utc_def new_year_local_def)
  show ?thesis
    using utc_diff_leap [of new_year_utc
        "epoch_env\<lparr>e_gmtime := (\<lambda>_. new_year_utc), e_localtime := (\<lambda>_. new_year_local)\<rparr>"
        new_year_local "nmea_reader_init (rat_fpu rat_dec) epoch_env"]
    by (simp add: ep)
qed

end
