(* ===== verification/Gps_Thread.thy ===== *)
theory Gps_Thread
  imports Gps_Nmea
begin

text \<open>
  The other half of \<^verbatim>\<open>hals/gps/gps_qemu.c\<close>: the thread that polls the control socket and the
  GPS channel and feeds the reader of \<open>Gps_Nmea\<close>, the connection state, and the functions
  of the \<^verbatim>\<open>GpsInterface\<close>. What the system calls return is an input: a list of outcomes, one
  per call, in order. A loop that has used up its list is still inside its system call.
  What the code does to its surroundings (callbacks, system calls) is a list of outputs.
\<close>

section \<open>The thread\<close>

datatype gps_cmd = CMD_QUIT | CMD_START | CMD_STOP | CMD_OTHER

datatype session = SESSION_BEGIN | SESSION_END

record gps_callbacks =
  cb_location :: bool
  cb_status :: bool
  cb_sv_status :: bool

datatype 'd gps_out = OutSv | OutStatus session | OutFix "'d GpsLocation"

text \<open>Outcomes of one \<^verbatim>\<open>read\<close> of the control socket and of the GPS channel.\<close>

datatype ctl_read = CtlIntr | CtlFail | CtlCmd gps_cmd

datatype gps_read = RdIntr | RdWouldBlock | RdError | RdBytes "char list"

datatype epoll_event = EvErrHup | EvControl "ctl_read list" | EvGps "gps_read list" | EvUnknownFd | EvNoInput

datatype epoll_result = WaitFailed | WaitEvents "epoll_event list"

text \<open>\<open>th_status = None\<close> is the status word before its first assignment.\<close>

record 'd gps_thread =
  th_reader :: "'d NmeaReader"
  th_started :: bool
  th_status :: "session option"

datatype 'd th_result = Running "'d gps_thread" | Returned "'d gps_thread" | InRead "'d gps_thread"

fun control_read :: "ctl_read list \<Rightarrow> gps_cmd option" where
  "control_read [] = None"
| "control_read (CtlIntr # rs) = control_read rs"
| "control_read (CtlFail # rs) = Some CMD_OTHER"
| "control_read (CtlCmd c # rs) = Some c"

text \<open>The inner loop on the GPS channel; the flag says that the loop was left.\<close>

fun gps_read_loop ::
  "'d fpu \<Rightarrow> env \<Rightarrow> 'd NmeaReader \<Rightarrow> gps_read list \<Rightarrow> bool \<times> 'd NmeaReader \<times> 'd GpsLocation list" where
  "gps_read_loop F E r [] = (False, r, [])"
| "gps_read_loop F E r (RdIntr # rs) = gps_read_loop F E r rs"
| "gps_read_loop F E r (RdWouldBlock # rs) = (True, r, [])"
| "gps_read_loop F E r (RdError # rs) = (True, r, [])"
| "gps_read_loop F E r (RdBytes bs # rs) =
     (case nmea_feed F E r bs of (r1, out1) \<Rightarrow>
        (case gps_read_loop F E r1 rs of (fin, r2, out2) \<Rightarrow> (fin, r2, out1 @ out2)))"

definition thread_command ::
  "gps_callbacks \<Rightarrow> 'd gps_thread \<Rightarrow> gps_cmd \<Rightarrow> 'd th_result \<times> 'd gps_out list" where
  "thread_command C th cmd =
     (case cmd of
        CMD_QUIT \<Rightarrow> (Returned th, [])
      | CMD_START \<Rightarrow>
          if th_started th then (Running th, [])
          else (case nmea_reader_set_callback (th_reader th) (cb_location C) of (r, out) \<Rightarrow>
                  (Running (th\<lparr>th_started := True, th_reader := r, th_status := Some SESSION_BEGIN\<rparr>),
                   map OutFix out @ (if cb_status C then [OutStatus SESSION_BEGIN] else [])))
      | CMD_STOP \<Rightarrow>
          if th_started th
          then (case nmea_reader_set_callback (th_reader th) False of (r, out) \<Rightarrow>
                  (Running (th\<lparr>th_started := False, th_reader := r, th_status := Some SESSION_END\<rparr>),
                   map OutFix out @ (if cb_status C then [OutStatus SESSION_END] else [])))
          else (Running th, [])
      | CMD_OTHER \<Rightarrow> (Running th, []))"

definition thread_event ::
  "'d fpu \<Rightarrow> env \<Rightarrow> gps_callbacks \<Rightarrow> 'd gps_thread \<Rightarrow> epoll_event \<Rightarrow> 'd th_result \<times> 'd gps_out list" where
  "thread_event F E C th ev =
     (case ev of
        EvErrHup \<Rightarrow> (Returned th, [])
      | EvControl rs \<Rightarrow>
          (case control_read rs of None \<Rightarrow> (InRead th, []) | Some cmd \<Rightarrow> thread_command C th cmd)
      | EvGps rs \<Rightarrow>
          (case gps_read_loop F E (th_reader th) rs of (fin, r, out) \<Rightarrow>
             ((if fin then Running else InRead) (th\<lparr>th_reader := r\<rparr>), map OutFix out))
      | EvUnknownFd \<Rightarrow> (Running th, [])
      | EvNoInput \<Rightarrow> (Running th, []))"

fun thread_events ::
  "'d fpu \<Rightarrow> env \<Rightarrow> gps_callbacks \<Rightarrow> 'd gps_thread \<Rightarrow> epoll_event list \<Rightarrow> 'd th_result \<times> 'd gps_out list" where
  "thread_events F E C th [] = (Running th, [])"
| "thread_events F E C th (ev # evs) =
     (case thread_event F E C th ev of
        (Running th1, out1) \<Rightarrow> (case thread_events F E C th1 evs of (res, out2) \<Rightarrow> (res, out1 @ out2))
      | (res, out1) \<Rightarrow> (res, out1))"

text \<open>One round of the main loop: the satellite status goes out after every \<^verbatim>\<open>epoll_wait\<close>.\<close>

definition thread_round ::
  "'d fpu \<Rightarrow> env \<Rightarrow> gps_callbacks \<Rightarrow> 'd gps_thread \<Rightarrow> epoll_result \<Rightarrow> 'd th_result \<times> 'd gps_out list" where
  "thread_round F E C th w =
     (let sv = (if cb_sv_status C then [OutSv] else [])
      in case w of
           WaitFailed \<Rightarrow> (Running th, sv)
         | WaitEvents evs \<Rightarrow> (case thread_events F E C th evs of (res, out) \<Rightarrow> (res, sv @ out)))"

text \<open>The timeout of the next \<^verbatim>\<open>epoll_wait\<close>; before the first command the status word holds
  whatever was in memory, and \<open>junk\<close> says whether that happens to be the BEGIN code.\<close>

definition thread_timeout :: "bool \<Rightarrow> 'd gps_thread \<Rightarrow> int" where
  "thread_timeout junk th =
     (case th_status th of
        None \<Rightarrow> (if junk then 10 * 1000 else -1)
      | Some SESSION_BEGIN \<Rightarrow> 10 * 1000
      | Some SESSION_END \<Rightarrow> -1)"

definition gps_state_thread :: "'d fpu \<Rightarrow> env \<Rightarrow> 'd gps_thread" where
  "gps_state_thread F E = \<lparr>th_reader = nmea_reader_init F E, th_started = False, th_status = None\<rparr>"

fun thread_run ::
  "'d fpu \<Rightarrow> env \<Rightarrow> gps_callbacks \<Rightarrow> 'd gps_thread \<Rightarrow> epoll_result list \<Rightarrow> 'd th_result \<times> 'd gps_out list" where
  "thread_run F E C th [] = (Running th, [])"
| "thread_run F E C th (w # ws) =
     (case thread_round F E C th w of
        (Running th1, out1) \<Rightarrow> (case thread_run F E C th1 ws of (res, out2) \<Rightarrow> (res, out1 @ out2))
      | (res, out1) \<Rightarrow> (res, out1))"

section \<open>The connection state\<close>

datatype write_result = WrDone | WrIntr | WrFailed

text \<open>System calls and callbacks, as they are made.\<close>

datatype sys_call =
    SysWrite int gps_cmd
  | SysJoin nat
  | SysClose int
  | SysSocketpair
  | SysCreateThread
  | CbSetCapabilities nat
  | CbSetSystemInfo nat

record GpsState =
  gs_init :: bool
  gs_fd :: int
  gs_callbacks :: "gps_callbacks option"
  gs_thread :: nat
  gs_control :: "int \<times> int"

text \<open>\<^verbatim>\<open>_gps_state\<close> in static storage.\<close>

definition gps_state_zero :: GpsState where
  "gps_state_zero = \<lparr>gs_init = False, gs_fd = 0, gs_callbacks = None, gs_thread = 0, gs_control = (0, 0)\<rparr>"

definition gps_state_done :: "GpsState \<Rightarrow> GpsState \<times> sys_call list" where
  "gps_state_done s =
     (s\<lparr>gs_init := False, gs_fd := -1, gs_control := (-1, -1)\<rparr>,
      [SysWrite (fst (gs_control s)) CMD_QUIT, SysJoin (gs_thread s),
       SysClose (fst (gs_control s)), SysClose (snd (gs_control s)), SysClose (gs_fd s)])"

text \<open>The write loop of \<^verbatim>\<open>gps_state_start\<close> and \<^verbatim>\<open>gps_state_stop\<close>: \<open>None\<close>
  while it is still being interrupted, else whether the command went out.\<close>

fun send_cmd :: "int \<Rightarrow> gps_cmd \<Rightarrow> write_result list \<Rightarrow> bool option \<times> sys_call list" where
  "send_cmd fd c [] = (None, [SysWrite fd c])"
| "send_cmd fd c (WrDone # ws) = (Some True, [SysWrite fd c])"
| "send_cmd fd c (WrFailed # ws) = (Some False, [SysWrite fd c])"
| "send_cmd fd c (WrIntr # ws) = (case send_cmd fd c ws of (r, l) \<Rightarrow> (r, SysWrite fd c # l))"

definition gps_state_start :: "GpsState \<Rightarrow> write_result list \<Rightarrow> bool option \<times> sys_call list" where
  "gps_state_start s ws = send_cmd (fst (gs_control s)) CMD_START ws"

definition gps_state_stop :: "GpsState \<Rightarrow> write_result list \<Rightarrow> bool option \<times> sys_call list" where
  "gps_state_stop s ws = send_cmd (fst (gs_control s)) CMD_STOP ws"

datatype ctl_result = CtlOk | CtlEintr | CtlError

fun epoll_register :: "ctl_result list \<Rightarrow> int option" where
  "epoll_register [] = None"
| "epoll_register (CtlEintr # rs) = epoll_register rs"
| "epoll_register (CtlOk # rs) = Some 0"
| "epoll_register (CtlError # rs) = Some (-1)"

fun epoll_deregister :: "ctl_result list \<Rightarrow> int option" where
  "epoll_deregister [] = None"
| "epoll_deregister (CtlEintr # rs) = epoll_deregister rs"
| "epoll_deregister (CtlOk # rs) = Some 0"
| "epoll_deregister (CtlError # rs) = Some (-1)"

text \<open>\<^verbatim>\<open>gps_state_init\<close> with the descriptor of the channel as a parameter. \<open>pair\<close> is the
  result of \<^verbatim>\<open>socketpair\<close>, \<open>tid\<close> what \<^verbatim>\<open>create_thread_cb\<close> returns, 0 for no thread.\<close>

definition gps_state_init_fd ::
  "int \<Rightarrow> (int \<times> int) option \<Rightarrow> nat \<Rightarrow> GpsState \<Rightarrow> gps_callbacks \<Rightarrow> GpsState \<times> sys_call list" where
  "gps_state_init_fd fd pair tid state callbacks =
     (let s0 = state\<lparr>gs_init := True, gs_control := (-1, -1), gs_fd := fd\<rparr>
      in if fd < 0 then (s0, [])
         else case pair of
                None \<Rightarrow> (case gps_state_done s0 of (s, l) \<Rightarrow> (s, SysSocketpair # l))
              | Some ctl \<Rightarrow>
                  let s1 = s0\<lparr>gs_control := ctl, gs_thread := tid\<rparr>
                  in if tid = 0
                     then (case gps_state_done s1 of (s, l) \<Rightarrow> (s, SysSocketpair # SysCreateThread # l))
                     else (s1\<lparr>gs_callbacks := Some callbacks\<rparr>,
                           [SysSocketpair, SysCreateThread, CbSetCapabilities 0, CbSetSystemInfo 2015]))"

text \<open>As it is in the source, with the call that opened the channel commented out.\<close>

definition gps_state_init ::
  "(int \<times> int) option \<Rightarrow> nat \<Rightarrow> GpsState \<Rightarrow> gps_callbacks \<Rightarrow> GpsState \<times> sys_call list" where
  "gps_state_init = gps_state_init_fd (-1)"

section \<open>The interface\<close>

definition qemu_gps_init ::
  "(int \<times> int) option \<Rightarrow> nat \<Rightarrow> GpsState \<Rightarrow> gps_callbacks \<Rightarrow> int \<times> GpsState \<times> sys_call list" where
  "qemu_gps_init pair tid s callbacks =
     (case (if gs_init s then (s, []) else gps_state_init pair tid s callbacks) of
        (s', l) \<Rightarrow> (if gs_fd s' < 0 then -1 else 0, s', l))"

definition qemu_gps_cleanup :: "GpsState \<Rightarrow> GpsState \<times> sys_call list" where
  "qemu_gps_cleanup s = (if gs_init s then gps_state_done s else (s, []))"

text \<open>The return code, when the write loop ends.\<close>

definition qemu_gps_start :: "GpsState \<Rightarrow> write_result list \<Rightarrow> int option \<times> sys_call list" where
  "qemu_gps_start s ws =
     (if \<not> gs_init s then (Some (-1), [])
      else case gps_state_start s ws of (r, l) \<Rightarrow> (map_option (\<lambda>_. 0) r, l))"

definition qemu_gps_stop :: "GpsState \<Rightarrow> write_result list \<Rightarrow> int option \<times> sys_call list" where
  "qemu_gps_stop s ws =
     (if \<not> gs_init s then (Some (-1), [])
      else case gps_state_stop s ws of (r, l) \<Rightarrow> (map_option (\<lambda>_. 0) r, l))"

text \<open>The calls a framework can make, with the results of their system calls.\<close>

datatype gps_call =
    CallInit "(int \<times> int) option" nat gps_callbacks
  | CallStart "write_result list"
  | CallStop "write_result list"
  | CallCleanup

fun gps_do :: "GpsState \<Rightarrow> gps_call \<Rightarrow> int option \<times> GpsState \<times> sys_call list" where
  "gps_do s (CallInit pair tid cbs) = (case qemu_gps_init pair tid s cbs of (r, s', l) \<Rightarrow> (Some r, s', l))"
| "gps_do s (CallStart ws) = (case qemu_gps_start s ws of (r, l) \<Rightarrow> (r, s, l))"
| "gps_do s (CallStop ws) = (case qemu_gps_stop s ws of (r, l) \<Rightarrow> (r, s, l))"
| "gps_do s CallCleanup = (case qemu_gps_cleanup s of (s', l) \<Rightarrow> (None, s', l))"

section \<open>Invariant of the thread\<close>

definition th_ok :: "gps_callbacks \<Rightarrow> 'd gps_thread \<Rightarrow> bool" where
  "th_ok C th \<longleftrightarrow> nmea_ok (th_reader th)
     \<and> nr_callback (th_reader th) = (th_started th \<and> cb_location C)
     \<and> (th_status th = Some SESSION_BEGIN \<longleftrightarrow> th_started th)"

fun th_of :: "'d th_result \<Rightarrow> 'd gps_thread" where
  "th_of (Running th) = th"
| "th_of (Returned th) = th"
| "th_of (InRead th) = th"

text \<open>The callbacks a framework may see: sessions begin and end in alternation, fixes come only
  inside a session, except that the last known fix may come right before a BEGIN.\<close>

fun sessions :: "bool \<Rightarrow> 'd gps_out list \<Rightarrow> bool option" where
  "sessions s [] = Some s"
| "sessions s (OutSv # xs) = sessions s xs"
| "sessions False (OutStatus SESSION_BEGIN # xs) = sessions True xs"
| "sessions False (OutFix l # OutStatus SESSION_BEGIN # xs) = sessions True xs"
| "sessions True (OutFix l # xs) = sessions True xs"
| "sessions True (OutStatus SESSION_END # xs) = sessions False xs"
| "sessions _ _ = None"

lemma sessions_append: "sessions s xs = Some s' \<Longrightarrow> sessions s (xs @ ys) = sessions s' ys"
  by (induction s xs rule: sessions.induct) auto

lemma sessions_fixes: "sessions True (map OutFix ls) = Some True"
  by (induction ls) auto

lemma parse_callback:
  assumes "nr_pos r \<le> length (nr_in r)"
  shows "nr_callback (fst (nmea_reader_parse F E r)) = nr_callback r"
    and "\<not> nr_callback r \<Longrightarrow> snd (nmea_reader_parse F E r) = []"
  using frame_fields(4) [OF frame_line, of F E "take (nr_pos r) (nr_in r)" r]
  by (auto simp: parse_spec [OF assms] spec_line_def Let_def)

lemma addc_callback:
  assumes "nmea_ok r"
  shows "nr_callback (fst (nmea_reader_addc F E r c)) = nr_callback r
    \<and> (\<not> nr_callback r \<longrightarrow> snd (nmea_reader_addc F E r c) = [])"
proof -
  let ?r = "r\<lparr>nr_in := (nr_in r)[nr_pos r := c], nr_pos := nr_pos r + 1\<rparr>"
  have "nr_pos r < NMEA_MAX_SIZE \<Longrightarrow> nr_pos ?r \<le> length (nr_in ?r)" using assms by (simp add: nmea_ok_def)
  from parse_callback [OF this] show ?thesis
    by (auto simp: nmea_reader_addc_def Let_def split_beta)
qed

lemma feed_callback:
  "nmea_ok r \<Longrightarrow> nr_callback (fst (nmea_feed F E r cs)) = nr_callback r
    \<and> (\<not> nr_callback r \<longrightarrow> snd (nmea_feed F E r cs) = [])"
proof (induction cs arbitrary: r)
  case (Cons c cs)
  have ok: "nmea_ok (fst (nmea_reader_addc F E r c))" by (rule nmea_addc_ok [OF Cons.prems])
  show ?case using addc_callback [OF Cons.prems, of F E c] Cons.IH [OF ok] by (simp add: split_beta)
qed simp

text \<open>How the bytes are cut into reads does not matter.\<close>

fun rd_stops :: "gps_read \<Rightarrow> bool" where
  "rd_stops RdWouldBlock = True"
| "rd_stops RdError = True"
| "rd_stops _ = False"

fun rd_bytes :: "gps_read \<Rightarrow> char list" where
  "rd_bytes (RdBytes bs) = bs"
| "rd_bytes _ = []"

lemma read_loop_feed:
  "gps_read_loop F E r rs =
     ((\<exists>x\<in>set rs. rd_stops x),
      nmea_feed F E r (concat (map rd_bytes (takeWhile (\<lambda>x. \<not> rd_stops x) rs))))"
proof (induction rs arbitrary: r)
  case (Cons x rs)
  then show ?case by (cases x) (auto simp: nmea_feed_append split_beta)
qed simp

lemma command_ok:
  assumes "th_ok C th" and "cb_status C"
  shows "th_ok C (th_of (fst (thread_command C th cmd)))
    \<and> sessions (th_started th) (snd (thread_command C th cmd)) = Some (th_started (th_of (fst (thread_command C th cmd))))"
  using assms
  by (cases cmd) (auto simp: thread_command_def nmea_reader_set_callback_def th_ok_def nmea_ok_def Let_def)

lemma event_ok:
  assumes "th_ok C th" and "cb_status C"
  shows "th_ok C (th_of (fst (thread_event F E C th ev)))
    \<and> sessions (th_started th) (snd (thread_event F E C th ev)) = Some (th_started (th_of (fst (thread_event F E C th ev))))"
proof (cases ev)
  case (EvGps rs)
  obtain r out where f: "nmea_feed F E (th_reader th) (concat (map rd_bytes (takeWhile (\<lambda>x. \<not> rd_stops x) rs))) = (r, out)"
    by fastforce
  have ok: "nmea_ok (th_reader th)" using assms(1) by (simp add: th_ok_def)
  have cb: "nr_callback r = nr_callback (th_reader th)" "\<not> nr_callback (th_reader th) \<Longrightarrow> out = []" "nmea_ok r"
    using feed_callback [OF ok, of F E] nmea_feed_ok [OF ok, of F E] f by (metis fst_conv snd_conv)+
  have "sessions (th_started th) (map OutFix out) = Some (th_started th)"
    using cb(2) assms(1) sessions_fixes [of out] by (cases "th_started th") (auto simp: th_ok_def)
  then show ?thesis
    using EvGps assms(1) cb by (auto simp: thread_event_def read_loop_feed f th_ok_def)
next
  case (EvControl rs)
  then show ?thesis using assms command_ok [OF assms]
    by (auto simp: thread_event_def split: option.splits)
qed (use assms in \<open>auto simp: thread_event_def\<close>)

lemma events_ok:
  "th_ok C th \<Longrightarrow> cb_status C \<Longrightarrow>
   th_ok C (th_of (fst (thread_events F E C th evs)))
    \<and> sessions (th_started th) (snd (thread_events F E C th evs)) = Some (th_started (th_of (fst (thread_events F E C th evs))))"
proof (induction evs arbitrary: th)
  case (Cons ev evs)
  note S = event_ok [OF Cons.prems, of F E ev]
  show ?case
  proof (cases "thread_event F E C th ev")
    case (Pair res out)
    then show ?thesis using S Cons.IH Cons.prems(2)
      by (cases res) (auto simp: split_beta sessions_append)
  qed
qed simp

lemma round_ok:
  assumes "th_ok C th" and "cb_status C"
  shows "th_ok C (th_of (fst (thread_round F E C th w)))
    \<and> sessions (th_started th) (snd (thread_round F E C th w)) = Some (th_started (th_of (fst (thread_round F E C th w))))"
  using assms events_ok [OF assms, of F E] by (auto simp: thread_round_def Let_def split_beta split: epoll_result.split)

lemma run_ok:
  "th_ok C th \<Longrightarrow> cb_status C \<Longrightarrow>
   th_ok C (th_of (fst (thread_run F E C th ws)))
    \<and> sessions (th_started th) (snd (thread_run F E C th ws)) = Some (th_started (th_of (fst (thread_run F E C th ws))))"
proof (induction ws arbitrary: th)
  case (Cons w ws)
  note S = round_ok [OF Cons.prems, of F E w]
  show ?case
  proof (cases "thread_round F E C th w")
    case (Pair res out)
    then show ?thesis using S Cons.IH Cons.prems(2)
      by (cases res) (auto simp: split_beta sessions_append)
  qed
qed simp

lemma thread_init_ok: "th_ok C (gps_state_thread F E)"
  using init_line_start [of F E]
  by (simp add: th_ok_def gps_state_thread_def line_start_def)
     (simp add: nmea_reader_init_def nmea_reader_update_utc_diff_def Let_def)

section \<open>Properties\<close>

text \<open>C15. What the framework sees of the thread, for any sequence of polls, commands, reads and
  errors: session BEGIN and END callbacks alternate, starting with BEGIN, repeated START and STOP
  commands have no effect, and fixes are only delivered inside a session, except that the
  fix known from before may be delivered immediately before BEGIN. The thread is in a session
  exactly when its status says so and its reader has the framework's callback.\<close>

theorem gps_thread_sessions:
  assumes "cb_status C"
  shows "case thread_run F E C (gps_state_thread F E) ws of (res, out) \<Rightarrow>
     sessions False out = Some (th_started (th_of res)) \<and> th_ok C (th_of res)"
  using run_ok [OF thread_init_ok assms, of F E F E ws] by (auto simp: gps_state_thread_def)

theorem gps_thread_sessions_witness:
  "case thread_run (rat_fpu rat_dec) epoch_env \<lparr>cb_location = True, cb_status = True, cb_sv_status = True\<rparr>
     (gps_state_thread (rat_fpu rat_dec) epoch_env)
     [WaitEvents [EvControl [CtlIntr, CtlCmd CMD_START]], WaitFailed, WaitEvents [EvControl [CtlCmd CMD_STOP]]]
   of (res, out) \<Rightarrow> sessions False out = Some False
     \<and> out = [OutSv, OutStatus SESSION_BEGIN, OutSv, OutSv, OutStatus SESSION_END]"
proof -
  let ?C = "\<lparr>cb_location = True, cb_status = True, cb_sv_status = True\<rparr>"
  let ?ws = "[WaitEvents [EvControl [CtlIntr, CtlCmd CMD_START]], WaitFailed, WaitEvents [EvControl [CtlCmd CMD_STOP]]]"
  have "case thread_run (rat_fpu rat_dec) epoch_env ?C (gps_state_thread (rat_fpu rat_dec) epoch_env) ?ws
    of (res, out) \<Rightarrow> th_started (th_of res) = False
      \<and> out = [OutSv, OutStatus SESSION_BEGIN, OutSv, OutSv, OutStatus SESSION_END]"
    by (simp add: thread_round_def thread_event_def thread_command_def gps_state_thread_def nmea_reader_init_def
          nmea_reader_update_utc_diff_def nmea_reader_set_callback_def zero_fix_def Let_def)
  then show ?thesis
    using gps_thread_sessions [of ?C "rat_fpu rat_dec" epoch_env ?ws] by (auto simp: split_beta)
qed

text \<open>How the channel cuts the bytes into reads does not matter, nor do interrupted reads: the
  inner loop leaves the reader, and delivers the fixes, of feeding it all bytes in one go up to the first
  read that would block or fails. It ends exactly if there is such a read: at end of file,
  where \<^verbatim>\<open>read\<close> keeps returning 0, the thread stays in the loop however often it
  reads.\<close>

theorem gps_read_fragmentation:
  "gps_read_loop F E r rs =
     ((\<exists>x\<in>set rs. rd_stops x),
      nmea_feed F E r (concat (map rd_bytes (takeWhile (\<lambda>x. \<not> rd_stops x) rs))))
   \<and> gps_read_loop F E r (replicate n (RdBytes [])) = (False, r, [])"
proof -
  have "concat (map rd_bytes (takeWhile (\<lambda>x. \<not> rd_stops x) (replicate n (RdBytes [])))) = []"
    by (induction n) auto
  then show ?thesis by (auto simp: read_loop_feed)
qed

theorem gps_read_fragmentation_witness:
  "gps_read_loop (rat_fpu rat_dec) epoch_env (nmea_reader_init (rat_fpu rat_dec) epoch_env)
     [RdBytes ''$GP'', RdIntr, RdBytes ''GSA'', RdWouldBlock]
   = (True, nmea_feed (rat_fpu rat_dec) epoch_env (nmea_reader_init (rat_fpu rat_dec) epoch_env) ''$GPGSA'')"
  using gps_read_fragmentation [of "rat_fpu rat_dec" epoch_env "nmea_reader_init (rat_fpu rat_dec) epoch_env"
      "[RdBytes ''$GP'', RdIntr, RdBytes ''GSA'', RdWouldBlock]" 0]
  by simp

text \<open>The states a framework can reach.\<close>

inductive gps_reach :: "GpsState \<Rightarrow> bool" where
  zero: "gps_reach gps_state_zero"
| step: "gps_reach s \<Longrightarrow> gps_do s c = (r, s', l) \<Longrightarrow> gps_reach s'"

lemma send_cmd_writes: "set (snd (send_cmd fd c ws)) = {SysWrite fd c}"
proof (induction ws)
  case (Cons w ws)
  then show ?case by (cases w) (simp_all add: split_beta)
qed simp

definition gs_ok :: "GpsState \<Rightarrow> bool" where
  "gs_ok s \<longleftrightarrow> gs_thread s = 0 \<and> (gs_init s \<longrightarrow> gs_fd s = -1 \<and> gs_control s = (-1, -1))"

lemmas gps_ops = qemu_gps_init_def qemu_gps_start_def qemu_gps_stop_def qemu_gps_cleanup_def
  gps_state_init_def gps_state_init_fd_def gps_state_done_def gps_state_start_def gps_state_stop_def

lemma gps_reach_ok: "gps_reach s \<Longrightarrow> gs_ok s"
proof (induction rule: gps_reach.induct)
  case zero
  then show ?case by (simp add: gs_ok_def gps_state_zero_def)
next
  case (step s c r s' l)
  then show ?case
    by (cases c) (auto simp: gs_ok_def gps_ops Let_def split: if_splits prod.splits)
qed

text \<open>As built, the HAL never connects, whatever sequence of calls is made: \<^verbatim>\<open>init\<close> always
  returns -1, no thread is ever created, and every command goes to descriptor -1. Still
  \<^verbatim>\<open>start\<close> and \<^verbatim>\<open>stop\<close> return 0 once \<^verbatim>\<open>init\<close> was called, even if their write fails, and
  \<^verbatim>\<open>cleanup\<close> joins a thread that does not exist.\<close>

theorem gps_hal_never_connects:
  assumes "gps_reach s" and "gps_do s c = (r, s', l)"
  shows "(case c of CallInit pair tid cbs \<Rightarrow> r = Some (-1) | _ \<Rightarrow> True)
    \<and> SysCreateThread \<notin> set l
    \<and> (\<forall>fd cmd. SysWrite fd cmd \<in> set l \<longrightarrow> fd = -1)
    \<and> (gs_init s \<and> (c = CallStart [WrFailed] \<or> c = CallStop [WrFailed]) \<longrightarrow> r = Some 0)
    \<and> (gs_init s \<and> c = CallCleanup \<longrightarrow> SysJoin 0 \<in> set l)"
proof -
  have writes: "(r', l') = send_cmd fd cmd ws \<Longrightarrow> set l' = {SysWrite fd cmd}" for r' l' fd cmd ws
    by (metis send_cmd_writes snd_conv)
  have "gs_init s \<and> (c = CallStart [WrFailed] \<or> c = CallStop [WrFailed]) \<longrightarrow> r = Some 0"
    using assms(2) by (auto simp: gps_ops)
  then show ?thesis
    using gps_reach_ok [OF assms(1)] assms(2)
    by (cases c) (auto simp: gs_ok_def gps_ops Let_def dest!: writes [OF sym] split: if_splits prod.splits)
qed

theorem gps_hal_never_connects_witness:
  "case gps_do gps_state_zero (CallInit (Some (5, 6)) 1 \<lparr>cb_location = True, cb_status = True, cb_sv_status = True\<rparr>)
   of (r, s', l) \<Rightarrow> r = Some (-1) \<and> gps_reach s' \<and> fst (gps_do s' (CallStart [WrFailed])) = Some 0"
proof -
  let ?c = "CallInit (Some (5, 6)) 1 \<lparr>cb_location = True, cb_status = True, cb_sv_status = True\<rparr>"
  obtain r s' l where d: "gps_do gps_state_zero ?c = (r, s', l)" by (metis prod_cases3)
  have reach: "gps_reach s'" using gps_reach.step [OF gps_reach.zero d] .
  have "gs_init s'" using d by (auto simp: gps_ops gps_state_zero_def Let_def)
  moreover obtain r2 s2 l2 where d2: "gps_do s' (CallStart [WrFailed]) = (r2, s2, l2)" by (metis prod_cases3)
  ultimately have "r2 = Some 0" using gps_hal_never_connects [OF reach d2] by simp
  moreover have "r = Some (-1)" using gps_hal_never_connects [OF gps_reach.zero d] by simp
  ultimately show ?thesis using d d2 reach by simp
qed

text \<open>The initialisation with a channel, should one be opened: it succeeds exactly if both the socket
  pair and the thread can be made, and then the state holds them and the callbacks. If either
  fails, the state is closed down again; but this sends QUIT to, and joins, the thread that was
  never created.\<close>

theorem gps_state_init_outcome:
  assumes "0 \<le> fd" and "gps_state_init_fd fd pair tid s cbs = (s', l)"
  shows "(\<exists>ctl. pair = Some ctl \<and> tid \<noteq> 0 \<and> gs_init s' \<and> gs_fd s' = fd \<and> gs_control s' = ctl
            \<and> gs_thread s' = tid \<and> gs_callbacks s' = Some cbs \<and> (\<forall>t. SysJoin t \<notin> set l))
      \<or> ((pair = None \<or> tid = 0) \<and> \<not> gs_init s' \<and> gs_fd s' = -1 \<and> gs_control s' = (-1, -1)
            \<and> SysClose fd \<in> set l \<and> CbSetCapabilities 0 \<notin> set l
            \<and> SysJoin (if pair = None then gs_thread s else 0) \<in> set l)"
  using assms by (cases pair; cases "tid = 0") (auto simp: gps_state_init_fd_def gps_state_done_def Let_def)

theorem gps_state_init_outcome_witness:
  "case gps_state_init_fd 3 (Some (5, 6)) 0 gps_state_zero \<lparr>cb_location = True, cb_status = True, cb_sv_status = True\<rparr>
   of (s', l) \<Rightarrow> \<not> gs_init s' \<and> SysJoin 0 \<in> set l"
  using gps_state_init_outcome [of 3 "Some (5, 6)" 0 gps_state_zero
      "\<lparr>cb_location = True, cb_status = True, cb_sv_status = True\<rparr>"]
  by (auto split: prod.splits)

end
