(* ===== verification/Bt_Addr.thy ===== *)
theory Bt_Addr
  imports Prelude
begin

text \<open>
  Bluetooth device addresses in \<^verbatim>\<open>hals/bluetooth/btuart/hciattach_rpi3.c\<close>: the check and the
  conversion of the textual form, and the address that \<^verbatim>\<open>main\<close> derives from a serial
  number. A C string is the list of its characters before the terminator; an address
  is the six bytes of a \<^verbatim>\<open>bdaddr_t\<close>, least significant first.
\<close>

section \<open>Hexadecimal digits\<close>

definition isxdigit :: "char \<Rightarrow> bool" where
  "isxdigit c \<longleftrightarrow> (let n = of_char c :: nat in (48 \<le> n \<and> n \<le> 57) \<or> (65 \<le> n \<and> n \<le> 70) \<or> (97 \<le> n \<and> n \<le> 102))"

text \<open>The value of a character as \<^verbatim>\<open>main\<close> computes it: 0 for anything that is no digit.\<close>

definition xval :: "char \<Rightarrow> nat" where
  "xval c = (let n = of_char c in
     if 48 \<le> n \<and> n \<le> 57 then n - 48
     else if 65 \<le> n \<and> n \<le> 70 then n - 65 + 10
     else if 97 \<le> n \<and> n \<le> 102 then n - 97 + 10 else 0)"

text \<open>\<^verbatim>\<open>strtol(str, NULL, 16)\<close> on a text that starts with a digit: the digits up to the first other
  character.\<close>

definition strtol16 :: "string \<Rightarrow> nat" where
  "strtol16 s = foldl (\<lambda>n c. n * 16 + xval c) 0 (takeWhile isxdigit s)"

section \<open>Check and conversion\<close>

fun bachk_loop :: "string \<Rightarrow> bool" where
  "bachk_loop [] = True"
| "bachk_loop [a] = False"
| "bachk_loop [a, b] = (isxdigit a \<and> isxdigit b)"
| "bachk_loop (a # b # c # s) = (isxdigit a \<and> isxdigit b \<and> c = CHR '':'' \<and> bachk_loop s)"

definition bachk :: "string option \<Rightarrow> int" where
  "bachk str =
     (case str of
        None \<Rightarrow> -1
      | Some s \<Rightarrow> if length s \<noteq> 17 then -1 else if bachk_loop s then 0 else -1)"

text \<open>\<^verbatim>\<open>ba->b[i] = strtol(str, NULL, 16)\<close> for \<open>i\<close> from 5 down to 0, the text advancing by three.\<close>

fun str2ba_loop :: "nat \<Rightarrow> string \<Rightarrow> u8 list \<Rightarrow> u8 list" where
  "str2ba_loop 0 s b = b"
| "str2ba_loop (Suc i) s b = str2ba_loop i (drop 3 s) (b[i := of_nat (strtol16 s)])"

definition str2ba :: "string option \<Rightarrow> int \<times> u8 list" where
  "str2ba str =
     (if bachk str < 0 then (-1, replicate 6 0)
      else (0, str2ba_loop 6 (case str of None \<Rightarrow> [] | Some s \<Rightarrow> s) (replicate 6 0)))"

section \<open>The address made from a serial number\<close>

definition hexdigit :: "nat \<Rightarrow> char" where
  "hexdigit n = char_of (if n < 10 then 48 + n else 87 + n)"

text \<open>\<^verbatim>\<open>%02x\<close> of a byte.\<close>

definition fmt02x :: "u8 \<Rightarrow> string" where
  "fmt02x b = [hexdigit (unat b div 16), hexdigit (unat b mod 16)]"

fun serial_loop :: "nat \<Rightarrow> string \<Rightarrow> u8 list \<Rightarrow> u8 list" where
  "serial_loop idx [] b = b"
| "serial_loop idx (ch # p) b = serial_loop (Suc idx) p (b[idx div 2 := b ! (idx div 2) * 16 + of_nat (xval ch)])"

definition serial_bytes :: "string \<Rightarrow> u8 list" where
  "serial_bytes arg =
     (if length arg \<ge> 6 then serial_loop 0 (drop (length arg - 6) arg) [0, 0, 0] else [0, 0, 0])"

definition serial_bdaddr :: "string \<Rightarrow> string" where
  "serial_bdaddr arg =
     (let b = serial_bytes arg
      in ''b8:27:eb:'' @ fmt02x (b ! 0 XOR 0xaa) @ '':'' @ fmt02x (b ! 1 XOR 0xaa) @ '':'' @ fmt02x (b ! 2 XOR 0xaa))"

section \<open>Printing and reading back\<close>

fun colon_join :: "string list \<Rightarrow> string" where
  "colon_join [] = []"
| "colon_join [f] = f"
| "colon_join (f # g # fs) = f @ CHR '':'' # colon_join (g # fs)"

text \<open>\<^verbatim>\<open>ba2str\<close>: an address as text, most significant byte first.\<close>

definition fmt_ba :: "u8 list \<Rightarrow> string" where
  "fmt_ba ba = colon_join (map fmt02x (rev ba))"

lemma of_char_hexdigit: "n < 16 \<Longrightarrow> of_char (hexdigit n) = (if n < 10 then 48 + n else 87 + n :: nat)"
  by (simp add: hexdigit_def)

lemma hexdigit_ok [simp]: "n < 16 \<Longrightarrow> isxdigit (hexdigit n)" "n < 16 \<Longrightarrow> xval (hexdigit n) = n"
  by (auto simp: isxdigit_def xval_def Let_def of_char_hexdigit)

lemma unat_u8_bounds [simp]: "unat (b :: u8) div 16 < 16" "unat (b :: u8) mod 16 < 16"
proof -
  have "unat b < 2 ^ LENGTH(8)" by (rule unsigned_less)
  then show "unat b div 16 < 16" by simp
qed simp

lemma colon_not_xdigit [simp]: "\<not> isxdigit (CHR '':'')"
  by (simp add: isxdigit_def of_char_def)

lemma strtol16_two:
  assumes "isxdigit a" and "isxdigit b" and "s = [] \<or> hd s = CHR '':''"
  shows "strtol16 (a # b # s) = xval a * 16 + xval b"
  using assms by (cases s) (auto simp: strtol16_def)

lemma strtol16_fmt:
  "s = [] \<or> hd s = CHR '':'' \<Longrightarrow> of_nat (strtol16 (fmt02x b @ s)) = b"
  unfolding fmt02x_def by (simp add: strtol16_two)

text \<open>Six fields, one after the other.\<close>

lemma six_cases:
  assumes "length ba = 6"
  obtains b0 b1 b2 b3 b4 b5 where "ba = [b0, b1, b2, b3, b4, b5]"
  using assms by (auto simp: numeral_eq_Suc length_Suc_conv)

lemma bachk_fmt_ba: "length ba = 6 \<Longrightarrow> bachk (Some (fmt_ba ba)) = 0"
  by (erule six_cases) (simp add: bachk_def fmt_ba_def fmt02x_def)

lemma str2ba_loop_fmt:
  "str2ba_loop (Suc i) (fmt02x x @ CHR '':'' # s) b = str2ba_loop i s (b[i := x])"
  "str2ba_loop (Suc i) (fmt02x x) b = str2ba_loop i [] (b[i := x])"
  using strtol16_fmt [of "CHR '':'' # s" x] strtol16_fmt [of "[]" x] by (auto simp: fmt02x_def)

lemma str2ba_fmt_ba: "length ba = 6 \<Longrightarrow> str2ba (Some (fmt_ba ba)) = (0, ba)"
proof (erule six_cases)
  fix b0 b1 b2 b3 b4 b5
  assume ba: "ba = [b0, b1, b2, b3, b4, b5]"
  have "str2ba_loop (Suc (Suc (Suc (Suc (Suc (Suc 0)))))) (fmt_ba ba) [0, 0, 0, 0, 0, 0] = ba"
    unfolding fmt_ba_def ba by (simp add: str2ba_loop_fmt del: str2ba_loop.simps(2))
  then show ?thesis using bachk_fmt_ba [of ba] ba by (simp add: str2ba_def numeral_eq_Suc del: str2ba_loop.simps(2))
qed

text \<open>What the check accepts, said without the loop.\<close>

definition ba_text :: "string \<Rightarrow> bool" where
  "ba_text s \<longleftrightarrow> length s = 17 \<and> (\<forall>i<17. if i mod 3 = 2 then s ! i = CHR '':'' else isxdigit (s ! i))"

lemma bachk_loop_iff:
  "length s mod 3 = 2 \<Longrightarrow>
   bachk_loop s \<longleftrightarrow> (\<forall>i<length s. if i mod 3 = 2 then s ! i = CHR '':'' else isxdigit (s ! i))"
proof (induction s rule: bachk_loop.induct)
  case (4 a b c s)
  have split: "(\<forall>i<length (a # b # c # s). P i) \<longleftrightarrow> P 0 \<and> P 1 \<and> P 2 \<and> (\<forall>i<length s. P (i + 3))" for P
    by (auto simp: numeral_eq_Suc less_Suc_eq_0_disj)
  have "length s mod 3 = 2 \<or> s = []" using 4(2) by (simp add: mod_add_self2 numeral_3_eq_3 [symmetric])
  then show ?case using 4 by (subst split) auto
qed (auto simp: less_Suc_eq)

lemma str2ba_loop_nth:
  "n \<le> length b \<Longrightarrow> length (str2ba_loop n s b) = length b \<and>
   (\<forall>i<length b. str2ba_loop n s b ! i = (if i < n then of_nat (strtol16 (drop (3 * (n - 1 - i)) s)) else b ! i))"
proof (induction n arbitrary: s b)
  case (Suc n)
  let ?b = "b[n := of_nat (strtol16 s)]"
  have "n \<le> length ?b" using Suc.prems by simp
  note IH = Suc.IH [OF this, of "drop 3 s"]
  have "drop (3 * (n - Suc i) + 3) s = drop (3 * (n - i)) s" if "i < n" for i
    by (rule arg_cong [where f = "\<lambda>k. drop k s"]) (use that in auto)
  then show ?case using IH Suc.prems by (auto simp: nth_list_update less_Suc_eq)
qed simp

lemma strtol16_field:
  assumes "ba_text s" and "k < 6"
  shows "strtol16 (drop (3 * k) s) = xval (s ! (3 * k)) * 16 + xval (s ! (3 * k + 1))"
proof -
  have len: "length s = 17" and P: "\<And>i. i < 17 \<Longrightarrow> if i mod 3 = 2 then s ! i = CHR '':'' else isxdigit (s ! i)"
    using assms(1) by (auto simp: ba_text_def)
  have mod: "(3 * k) mod 3 = 0" "(3 * k + 1) mod 3 = 1" "(3 * k + 2) mod 3 = 2" by presburger+
  have d: "drop (3 * k) s = s ! (3 * k) # s ! (3 * k + 1) # drop (3 * k + 2) s"
    using len assms(2) by (simp add: Cons_nth_drop_Suc)
  have "isxdigit (s ! (3 * k))" "isxdigit (s ! (3 * k + 1))"
    using P [of "3 * k"] P [of "3 * k + 1"] assms(2) mod by auto
  moreover have "drop (3 * k + 2) s = [] \<or> hd (drop (3 * k + 2) s) = CHR '':''"
    using P [of "3 * k + 2"] mod(3) len by (cases "3 * k + 2 < 17") (auto simp: hd_drop_conv_nth)
  ultimately show ?thesis unfolding d by (rule strtol16_two)
qed

section \<open>Properties\<close>

text \<open>C24. An address in text form is accepted exactly if it is six pairs of hexadecimal digits
  separated by colons, and then the six bytes are the values of the pairs, last pair first; anything else, a
  null pointer included, is refused with -1 and six zero bytes.\<close>

theorem str2ba_correct:
  "str2ba str = (case str of
      Some s \<Rightarrow> if ba_text s
               then (0, map (\<lambda>i. of_nat (xval (s ! (15 - 3 * i)) * 16 + xval (s ! (16 - 3 * i)))) [0..<6])
               else (-1, replicate 6 0)
    | None \<Rightarrow> (-1, replicate 6 0))"
proof (cases str)
  case None
  then show ?thesis by (simp add: str2ba_def bachk_def)
next
  case (Some s)
  have ok: "bachk str < 0 \<longleftrightarrow> \<not> ba_text s"
    using Some bachk_loop_iff [of s] by (auto simp: bachk_def ba_text_def)
  show ?thesis
  proof (cases "ba_text s")
    case True
    note N = str2ba_loop_nth [of 6 "replicate 6 0" s, simplified]
    have "str2ba_loop 6 s (replicate 6 0)
        = map (\<lambda>i. of_nat (xval (s ! (15 - 3 * i)) * 16 + xval (s ! (16 - 3 * i)))) [0..<6]"
    proof (rule nth_equalityI)
      fix i assume "i < length (str2ba_loop 6 s (replicate 6 0))"
      then have i: "i < 6" using N by simp
      have idx: "3 * (5 - i) = 15 - 3 * i" "Suc (15 - 3 * i) = 16 - 3 * i" using i by auto
      show "str2ba_loop 6 s (replicate 6 0) ! i
          = map (\<lambda>i. of_nat (xval (s ! (15 - 3 * i)) * 16 + xval (s ! (16 - 3 * i)))) [0..<6] ! i"
        using N i strtol16_field [OF True, of "5 - i"] unfolding idx by (simp add: idx)
    qed (use N in simp)
    then show ?thesis using Some True ok by (simp add: str2ba_def)
  next
    case False
    then show ?thesis using Some ok by (simp add: str2ba_def)
  qed
qed

text \<open>Printing an address and reading the text back gives the address.\<close>

theorem str2ba_roundtrip:
  assumes "length ba = 6"
  shows "str2ba (Some (fmt_ba ba)) = (0, ba)"
  using assms by (rule str2ba_fmt_ba)

theorem str2ba_roundtrip_witness: "str2ba (Some (fmt_ba [0xb6, 0x75, 0x90, 0xeb, 0x27, 0xb8])) = (0, [0xb6, 0x75, 0x90, 0xeb, 0x27, 0xb8])"
  by (rule str2ba_roundtrip) simp

lemma fmt02x_values: "fmt02x 0xb8 = ''b8''" "fmt02x 0x27 = ''27''" "fmt02x 0xeb = ''eb''"
  by (simp_all add: fmt02x_def hexdigit_def char_of_def bit_0)

lemma length_serial: "length (serial_bytes arg) = 3"
proof -
  have "length (serial_loop i p b) = length b" for i p b by (induction i p b rule: serial_loop.induct) auto
  then show ?thesis by (simp add: serial_bytes_def)
qed

lemma serial_bytes_six:
  "serial_bytes (prefix @ [a, b, c, d, e, f])
     = [of_nat (xval a * 16 + xval b), of_nat (xval c * 16 + xval d), of_nat (xval e * 16 + xval f)]"
  by (simp add: serial_bytes_def)

text \<open>Whatever string is given as serial number, the address \<^verbatim>\<open>main\<close> makes of it is a valid
  address: it passes the check and is converted to the vendor prefix B8:27:EB and three
  bytes, each with AA exclusive-or-ed, that are the last six characters of the serial number
  read as hexadecimal, most significant digit first, or 0 for a serial number that is too short.\<close>

theorem serial_bdaddr_valid:
  "\<exists>b0 b1 b2. str2ba (Some (serial_bdaddr arg)) = (0, [b2 XOR 0xaa, b1 XOR 0xaa, b0 XOR 0xaa, 0xeb, 0x27, 0xb8])
     \<and> (if length arg < 6 then b0 = 0 \<and> b1 = 0 \<and> b2 = 0
        else let d = (\<lambda>i. xval (drop (length arg - 6) arg ! i))
             in b0 = of_nat (d 0 * 16 + d 1) \<and> b1 = of_nat (d 2 * 16 + d 3) \<and> b2 = of_nat (d 4 * 16 + d 5))"
proof -
  let ?b = "serial_bytes arg"
  let ?ba = "[?b ! 2 XOR 0xaa, ?b ! 1 XOR 0xaa, ?b ! 0 XOR 0xaa, 0xeb, 0x27, 0xb8] :: u8 list"
  have "serial_bdaddr arg = fmt_ba ?ba"
    by (simp add: serial_bdaddr_def fmt_ba_def Let_def fmt02x_values)
  then have conv: "str2ba (Some (serial_bdaddr arg)) = (0, ?ba)" using str2ba_fmt_ba [of ?ba] by simp
  show ?thesis
  proof (cases "length arg < 6")
    case True
    then show ?thesis using conv by (intro exI [of _ 0]) (simp add: serial_bytes_def numeral_2_eq_2)
  next
    case False
    then obtain p a b c d e f where arg: "arg = p @ [a, b, c, d, e, f]"
      using append_take_drop_id [of "length arg - 6" arg] six_cases [of "drop (length arg - 6) arg"]
      by (metis diff_diff_cancel length_drop not_less)
    show ?thesis
      using conv unfolding arg serial_bytes_six
      by (intro exI [of _ "of_nat (xval a * 16 + xval b)"] exI [of _ "of_nat (xval c * 16 + xval d)"]
            exI [of _ "of_nat (xval e * 16 + xval f)"]) (simp add: Let_def numeral_eq_Suc)
  qed
qed

end
