(* ===== verification/Bt_Hci.thy ===== *)
theory Bt_Hci
  imports Bt_Addr
begin

text \<open>
  The HCI dialogue of \<^verbatim>\<open>hals/bluetooth/btuart/hciattach_rpi3.c\<close>: reading an event from the serial line,
  the vendor commands, the firmware download and the sequence \<^verbatim>\<open>bcm43xx_init\<close>. The
  serial line is a record: the input that has arrived and was not read yet, what each
  coming \<^verbatim>\<open>write\<close> will return and bring in as an answer, the results of the coming terminal
  calls, and a log of what was done. A \<^verbatim>\<open>read\<close> may return any part of what was asked
  for: input comes in chunks, and a chunk is never joined with the next one.
\<close>

section \<open>The serial line\<close>

datatype rx = Chunk "u8 list" | RxError

datatype line_act =
    Flushed
  | Wrote "u8 list"
  | Speed int
  | Slept nat
  | Attributes bool
  | SentBreak
  | SetDiscipline int
  | SetFlags u32
  | SetProto int
  | Closed

record serial =
  s_in :: "rx list"
  s_answers :: "(bool \<times> rx list) list"
  s_tty :: "int list"
  s_log :: "line_act list"

text \<open>\<^verbatim>\<open>read\<close>: \<open>None\<close> for -1, the empty list for 0. Nothing left is end of file.\<close>

fun rx_read :: "nat \<Rightarrow> rx list \<Rightarrow> u8 list option \<times> rx list" where
  "rx_read n [] = (Some [], [])"
| "rx_read n (RxError # rs) = (None, rs)"
| "rx_read n (Chunk bs # rs) =
     (if length bs \<le> n then (Some bs, rs) else (Some (take n bs), Chunk (drop n bs) # rs))"

definition tcflush :: "serial \<Rightarrow> serial" where
  "tcflush s = s\<lparr>s_in := [], s_log := s_log s @ [Flushed]\<rparr>"

text \<open>\<^verbatim>\<open>write\<close>: whether all bytes went out. What the controller answers is there to be read next.\<close>

definition serial_write :: "serial \<Rightarrow> u8 list \<Rightarrow> bool \<times> serial" where
  "serial_write s bs =
     (let s' = s\<lparr>s_log := s_log s @ [Wrote bs]\<rparr>
      in case s_answers s of
           [] \<Rightarrow> (False, s')
         | (ok, rs) # as \<Rightarrow> (ok, s'\<lparr>s_answers := as, s_in := s_in s @ rs\<rparr>))"

text \<open>One terminal call (\<^verbatim>\<open>cfsetospeed\<close>, \<^verbatim>\<open>tcsetattr\<close>, ...): 0, or the error number.\<close>

definition tty_call :: "serial \<Rightarrow> int \<times> serial" where
  "tty_call s = (case s_tty s of [] \<Rightarrow> (0, s) | e # es \<Rightarrow> (e, s\<lparr>s_tty := es\<rparr>))"

section \<open>Speeds\<close>

datatype baud = B0 | BAUD int

definition tty_speeds :: "int list" where
  "tty_speeds = [9600, 19200, 38400, 57600, 115200, 230400, 460800, 500000, 576000, 921600, 1000000,
     1152000, 1500000, 2000000, 2500000, 3000000, 3500000, 3710000, 4000000]"

text \<open>\<^verbatim>\<open>tty_get_speed\<close>; \<open>have\<close> are the constants the platform's header defines among the last five.\<close>

definition tty_get_speed :: "(int \<Rightarrow> bool) \<Rightarrow> int \<Rightarrow> baud" where
  "tty_get_speed have speed =
     (if speed \<in> set (take 14 tty_speeds) then BAUD speed
      else if speed \<in> set (drop 14 tty_speeds) \<and> have speed then BAUD speed
      else B0)"

definition set_speed :: "serial \<Rightarrow> int \<Rightarrow> int \<times> serial" where
  "set_speed s speed =
     (case tty_call s of (e1, s1) \<Rightarrow>
        if e1 \<noteq> 0 then (- e1, s1)
        else case tty_call s1 of (e2, s2) \<Rightarrow>
          if e2 \<noteq> 0 then (- e2, s2)
          else case tty_call s2 of (e3, s3) \<Rightarrow>
            if e3 \<noteq> 0 then (- e3, s3) else (0, s3\<lparr>s_log := s_log s3 @ [Speed speed]\<rparr>))"

section \<open>Reading an event\<close>

text \<open>What is left to read, to show that the loops end.\<close>

fun rx_size :: "rx list \<Rightarrow> nat" where
  "rx_size [] = 0"
| "rx_size (RxError # rs) = Suc (rx_size rs)"
| "rx_size (Chunk bs # rs) = Suc (length bs + rx_size rs)"

lemma rx_read_size:
  "rx_read n rs = (Some bs, rs') \<Longrightarrow> bs \<noteq> [] \<Longrightarrow> rx_size rs' < rx_size rs"
  by (cases "(n, rs)" rule: rx_read.cases) (auto split: if_splits)

lemma rx_read_size_le: "rx_read n rs = (x, rs') \<Longrightarrow> rx_size rs' \<le> rx_size rs"
  by (cases "(n, rs)" rule: rx_read.cases) (auto split: if_splits)

lemma rx_read_len: "rx_read n rs = (Some bs, rs') \<Longrightarrow> length bs \<le> n"
  by (cases "(n, rs)" rule: rx_read.cases) (auto split: if_splits)

text \<open>Storing bytes: \<open>None\<close> when one would lie outside the array.\<close>

definition store :: "u8 list \<Rightarrow> nat \<Rightarrow> u8 list \<Rightarrow> u8 list option" where
  "store buf p bs =
     (if p + length bs \<le> length buf then Some (take p buf @ bs @ drop (p + length bs) buf) else None)"

datatype 'a mem = Ok 'a | OutOfBounds

text \<open>Skip to the packet type. The result is -1 or the count so far, with buffer and input.\<close>

function hci_sync :: "rx list \<Rightarrow> u8 list \<Rightarrow> (int \<times> u8 list \<times> rx list) mem" where
  "hci_sync rs buf =
     (case rx_read 1 rs of
        (None, rs') \<Rightarrow> Ok (-1, buf, rs')
      | (Some bs, rs') \<Rightarrow>
          if bs = [] then Ok (-1, buf, rs')
          else case store buf 0 bs of
                 None \<Rightarrow> OutOfBounds
               | Some buf' \<Rightarrow> if buf' ! 0 = 0x04 then Ok (1, buf', rs') else hci_sync rs' buf')"
  by pat_completeness auto
termination by (relation "measure (\<lambda>(rs, buf). rx_size rs)") (auto dest: rx_read_size [OF sym])

declare hci_sync.simps [simp del]

text \<open>Fill the buffer from \<open>count\<close> to \<open>target\<close>: the second and the third loop.\<close>

function hci_fill :: "rx list \<Rightarrow> u8 list \<Rightarrow> nat \<Rightarrow> nat \<Rightarrow> (int \<times> u8 list \<times> rx list) mem" where
  "hci_fill rs buf count target =
     (if count < target then
        (case rx_read (target - count) rs of
           (None, rs') \<Rightarrow> Ok (-1, buf, rs')
         | (Some bs, rs') \<Rightarrow>
             if bs = [] then Ok (-1, buf, rs')
             else case store buf count bs of
                    None \<Rightarrow> OutOfBounds
                  | Some buf' \<Rightarrow> hci_fill rs' buf' (count + length bs) target)
      else Ok (int count, buf, rs))"
  by pat_completeness auto
termination
  by (relation "measure (\<lambda>(rs, buf, count, target). target - count)")
     (auto simp flip: length_greater_0_conv)

declare hci_fill.simps [simp del]

definition read_hci_event :: "rx list \<Rightarrow> u8 list \<Rightarrow> int \<Rightarrow> (int \<times> u8 list \<times> rx list) mem" where
  "read_hci_event rs buf sz =
     (if sz \<le> 0 then Ok (-1, buf, rs)
      else (case hci_sync rs buf of
              OutOfBounds \<Rightarrow> OutOfBounds
            | Ok (c1, buf1, rs1) \<Rightarrow>
                if c1 < 0 then Ok (-1, buf1, rs1)
                else (case hci_fill rs1 buf1 1 3 of
                        OutOfBounds \<Rightarrow> OutOfBounds
                      | Ok (c2, buf2, rs2) \<Rightarrow>
                          if c2 < 0 then Ok (-1, buf2, rs2)
                          else let n = int (unat (buf2 ! 2)); remain = (if n < sz - 3 then n else sz - 3)
                               in hci_fill rs2 buf2 3 (nat (3 + remain)))))"

section \<open>Commands\<close>

definition HCI_COMMAND_PKT :: u8 where "HCI_COMMAND_PKT = 0x01"
definition CMD_SUCCESS :: u8 where "CMD_SUCCESS = 0x00"
definition CC_MIN_SIZE :: nat where "CC_MIN_SIZE = 7"

text \<open>\<^verbatim>\<open>read_hci_event\<close> on the line. A store outside the buffer is undefined behaviour in C; it is shown
  below that none happens here, so what the model returns in that case does not matter.\<close>

definition recv_event :: "serial \<Rightarrow> u8 list \<Rightarrow> int \<Rightarrow> int \<times> u8 list \<times> serial" where
  "recv_event s buf sz =
     (case read_hci_event (s_in s) buf sz of
        Ok (c, buf', rs) \<Rightarrow> (c, buf', s\<lparr>s_in := rs\<rparr>)
      | OutOfBounds \<Rightarrow> (-1, buf, s))"

text \<open>What every command does after its preparations: write it, read the answer into seven
  bytes, compare the opcode and look at the status.\<close>

definition hci_command :: "serial \<Rightarrow> u8 list \<Rightarrow> int \<times> serial" where
  "hci_command s cmd =
     (case serial_write s cmd of (ok, s1) \<Rightarrow>
        if \<not> ok then (-1, s1)
        else (case recv_event s1 (replicate CC_MIN_SIZE 0) (int CC_MIN_SIZE) of (n, resp, s2) \<Rightarrow>
                if n < int CC_MIN_SIZE then (-1, s2)
                else if resp ! 4 \<noteq> cmd ! 1 \<or> resp ! 5 \<noteq> cmd ! 2 \<or> resp ! 6 \<noteq> CMD_SUCCESS then (-1, s2)
                else (0, s2)))"

text \<open>\<^verbatim>\<open>strncpy\<close> into an array: the characters up to a zero byte, then zeros, \<open>n\<close> bytes in all.\<close>

definition strncpy :: "u8 list \<Rightarrow> u8 list \<Rightarrow> nat \<Rightarrow> u8 list" where
  "strncpy dst src n =
     (let t = takeWhile (\<lambda>b. b \<noteq> 0) (take n src)
      in t @ replicate (n - length t) 0 @ drop n dst)"

text \<open>\<open>resp\<close> and \<open>name\<close> are the arrays as they are handed out: \<^verbatim>\<open>malloc\<close>ed and on the
  stack, with whatever they hold. \<open>size\<close> is the length of \<open>name\<close>; \<open>alloc\<close> whether there is memory.\<close>

definition bcm43xx_read_local_name ::
  "serial \<Rightarrow> bool \<Rightarrow> u8 list \<Rightarrow> u8 list \<Rightarrow> int \<times> u8 list \<times> serial" where
  "bcm43xx_read_local_name s alloc resp0 name =
     (if \<not> alloc then (-1, name, s)
      else
        let sz = length name; cmd = [HCI_COMMAND_PKT, 0x14, 0x0C, 0x00]
        in case serial_write (tcflush s) cmd of (ok, s1) \<Rightarrow>
             if \<not> ok then (-1, name, s1)
             else (case recv_event s1 resp0 (int sz) of (n, resp, s2) \<Rightarrow>
                     if n < int CC_MIN_SIZE then (-1, name, s2)
                     else if resp ! 4 \<noteq> cmd ! 1 \<or> resp ! 5 \<noteq> cmd ! 2 \<or> resp ! 6 \<noteq> CMD_SUCCESS then (-1, name, s2)
                     else
                       let name_len = unat (of_int (int (unat (resp ! 2)) - 1) :: u32);
                           k = (if name_len < sz then name_len else sz)
                       in (0, (strncpy name (drop 7 resp) k)[sz - 1 := 0], s2)))"

definition bcm43xx_reset :: "serial \<Rightarrow> int \<times> serial" where
  "bcm43xx_reset s = hci_command s [HCI_COMMAND_PKT, 0x03, 0x0C, 0x00]"

definition bcm43xx_set_bdaddr :: "serial \<Rightarrow> string option \<Rightarrow> int \<times> serial" where
  "bcm43xx_set_bdaddr s bdaddr =
     (case str2ba bdaddr of (r, ba) \<Rightarrow>
        if r < 0 then (-1, s)
        else hci_command (tcflush s) ([HCI_COMMAND_PKT, 0x01, 0xfc, 0x06] @ ba))"

definition bcm43xx_set_clock :: "serial \<Rightarrow> u8 \<Rightarrow> int \<times> serial" where
  "bcm43xx_set_clock s clock = hci_command (tcflush s) [HCI_COMMAND_PKT, 0x45, 0xfc, 0x01, clock]"

definition speed_command :: "u32 \<Rightarrow> u8 list" where
  "speed_command speed = [HCI_COMMAND_PKT, 0x18, 0xfc, 0x06, 0x00, 0x00,
     ucast speed, ucast (drop_bit 8 speed), ucast (drop_bit 16 speed), ucast (drop_bit 24 speed)]"

definition bcm43xx_set_speed :: "serial \<Rightarrow> u32 \<Rightarrow> int \<times> serial" where
  "bcm43xx_set_speed s speed =
     (case (if speed > 3000000 then bcm43xx_set_clock s 1 else (0, s)) of (r0, s0) \<Rightarrow>
        if r0 \<noteq> 0 then (-1, s0)
        else (case hci_command (tcflush s0) (speed_command speed) of (r1, s1) \<Rightarrow>
                if r1 \<noteq> 0 then (-1, s1)
                else (case set_speed s1 (sint speed) of (r2, s2) \<Rightarrow> if r2 < 0 then (-1, s2) else (0, s2))))"

section \<open>Firmware\<close>

text \<open>One array for all records, never cleared; \<open>fw\<close> is what remains of the file.\<close>

function fw_loop :: "serial \<Rightarrow> rx list \<Rightarrow> u8 list \<Rightarrow> int \<times> serial" where
  "fw_loop s fw tx =
     (case rx_read 3 fw of
        (None, fw1) \<Rightarrow> (-1, s)
      | (Some hdr, fw1) \<Rightarrow>
          if hdr = [] then (0, s)
          else
            let tx1 = HCI_COMMAND_PKT # hdr @ drop (1 + length hdr) tx;
                len = unat (tx1 ! 3)
            in case rx_read len fw1 of
                 (None, fw2) \<Rightarrow> (-1, s)
               | (Some body, fw2) \<Rightarrow>
                   let tx2 = take 4 tx1 @ body @ drop (4 + length body) tx1
                   in case serial_write s (take (len + 4) tx2) of (ok, s1) \<Rightarrow>
                        if \<not> ok then (-1, s1)
                        else fw_loop (tcflush (snd (snd (recv_event s1 (replicate CC_MIN_SIZE 0) (int CC_MIN_SIZE))))) fw2 tx2)"
  by pat_completeness auto
termination
proof (relation "measure (\<lambda>(s, fw, tx). rx_size fw)", simp, goal_cases)
  case (1 s fw tx r fw1 hdr tx1 len r' fw2 body tx2 ok s1)
  then have "rx_read 3 fw = (Some hdr, fw1)" "hdr \<noteq> []" "rx_read len fw1 = (Some body, fw2)" by auto
  then have "rx_size fw1 < rx_size fw" "rx_size fw2 \<le> rx_size fw1"
    by (blast dest: rx_read_size rx_read_size_le)+
  then show ?case by simp
qed

declare fw_loop.simps [simp del]

text \<open>\<open>fw\<close> is \<open>None\<close> if the file cannot be opened; \<open>tx\<close> the uninitialised 1024 bytes of the buffer.\<close>

definition bcm43xx_load_firmware :: "serial \<Rightarrow> rx list option \<Rightarrow> u8 list \<Rightarrow> int \<times> serial" where
  "bcm43xx_load_firmware s fw tx =
     (case fw of
        None \<Rightarrow> (-1, s)
      | Some content \<Rightarrow>
          (case hci_command (tcflush s) [HCI_COMMAND_PKT, 0x2e, 0xfc, 0x00] of (r, s1) \<Rightarrow>
             if r \<noteq> 0 then (-1, s1)
             else (case fw_loop (tcflush (s1\<lparr>s_log := s_log s1 @ [Slept 50000]\<rparr>)) content tx of (r2, s2) \<Rightarrow>
                     if r2 \<noteq> 0 then (-1, s2) else (0, s2\<lparr>s_log := s_log s2 @ [Slept 2000000]\<rparr>))))"

section \<open>The initialisation\<close>

record bcm_env =
  be_alloc :: bool
  be_resp :: "u8 list"
  be_name :: "u8 list"
  be_tx :: "u8 list"

text \<open>The branch with a firmware file.\<close>

definition bcm43xx_patch :: "bcm_env \<Rightarrow> serial \<Rightarrow> rx list option \<Rightarrow> int \<Rightarrow> int \<Rightarrow> int \<times> serial" where
  "bcm43xx_patch B s fw def_speed speed =
     (case bcm43xx_set_speed s (word_of_int speed) of (r3, s3) \<Rightarrow>
      if r3 \<noteq> 0 then (-1, s3)
      else case bcm43xx_load_firmware s3 fw (be_tx B) of (r4, s4) \<Rightarrow>
      if r4 \<noteq> 0 then (-1, s4)
      else case set_speed (s4\<lparr>s_log := s_log s4 @ [Slept 500000000]\<rparr>) def_speed of (r5, s5) \<Rightarrow>
      if r5 < 0 then (-1, s5)
      else case bcm43xx_reset s5 of (r6, s6) \<Rightarrow> if r6 \<noteq> 0 then (-1, s6) else (0, s6))"

text \<open>\<open>locate\<close> is the search for a firmware file by chip name (\<^verbatim>\<open>bcm43xx_locate_patch\<close>), giving the
  content when a file is found.\<close>

definition bcm43xx_init ::
  "bcm_env \<Rightarrow> (string \<Rightarrow> rx list option option) \<Rightarrow> serial \<Rightarrow> int \<Rightarrow> int \<Rightarrow> string option \<Rightarrow> int \<times> serial" where
  "bcm43xx_init B locate s def_speed speed bdaddr =
     (case bcm43xx_reset s of (r1, s1) \<Rightarrow>
      if r1 \<noteq> 0 then (-1, s1)
      else case bcm43xx_read_local_name s1 (be_alloc B) (be_resp B) (be_name B) of (r2, name, s2) \<Rightarrow>
      if r2 \<noteq> 0 then (-1, s2)
      else case (case locate (map (\<lambda>b. char_of (unat b)) (takeWhile (\<lambda>b. b \<noteq> 0) name)) of
              None \<Rightarrow> (0, s2)
            | Some fw \<Rightarrow> bcm43xx_patch B s2 fw def_speed speed) of (r6, s6) \<Rightarrow>
      if r6 \<noteq> 0 then (-1, s6)
      else
        let s7 = (case bdaddr of None \<Rightarrow> s6 | Some a \<Rightarrow> snd (bcm43xx_set_bdaddr s6 (Some a)))
        in case bcm43xx_set_speed s7 (word_of_int speed) of (r8, s8) \<Rightarrow>
           if r8 \<noteq> 0 then (-1, s8) else (0, s8))"

section \<open>Events, on the stream of bytes\<close>

text \<open>The bytes that can be read before a read fails or returns nothing.\<close>

fun rx_bytes :: "rx list \<Rightarrow> u8 list" where
  "rx_bytes [] = []"
| "rx_bytes (RxError # rs) = []"
| "rx_bytes (Chunk bs # rs) = (if bs = [] then [] else bs @ rx_bytes rs)"

text \<open>The reference: the first event of the stream, cut to the size of the buffer, and the rest.\<close>

definition first_event :: "nat \<Rightarrow> u8 list \<Rightarrow> (u8 list \<times> u8 list) option" where
  "first_event sz bs =
     (let ev = dropWhile (\<lambda>b. b \<noteq> 0x04) bs; n = 3 + min (unat (ev ! 2)) (sz - 3)
      in if length ev < 3 \<or> length ev < n then None else Some (take n ev, drop n ev))"

lemma rx_read_bytes:
  assumes "rx_read n rs = (x, rs')" and "0 < n"
  shows "case x of Some bs \<Rightarrow> (if bs = [] then rx_bytes rs = [] else rx_bytes rs = bs @ rx_bytes rs' \<and> length bs \<le> n)
         | None \<Rightarrow> rx_bytes rs = []"
  using assms by (cases "(n, rs)" rule: rx_read.cases) (auto split: if_splits)

lemma store_at:
  "p + length bs \<le> length buf \<Longrightarrow> store buf p bs = Some (take p buf @ bs @ drop (p + length bs) buf)"
  by (simp add: store_def)

lemma hci_sync_spec:
  assumes "1 \<le> length buf"
  shows "\<exists>c buf' rs'. hci_sync rs buf = Ok (c, buf', rs') \<and> length buf' = length buf \<and> drop 1 buf' = drop 1 buf \<and>
     (let ev = dropWhile (\<lambda>b. b \<noteq> 0x04) (rx_bytes rs)
      in if ev = [] then c = -1 else c = 1 \<and> buf' ! 0 = 0x04 \<and> ev = 0x04 # rx_bytes rs')"
  using assms
proof (induction rs buf rule: hci_sync.induct)
  case (1 rs buf)
  obtain x rs' where r: "rx_read 1 rs = (x, rs')" by fastforce
  note B = rx_read_bytes [OF r]
  show ?case
  proof (cases "x = None \<or> x = Some []")
    case True
    then show ?thesis using r B by (auto simp: hci_sync.simps [of rs buf])
  next
    case False
    then obtain b where x: "x = Some [b]" and bs: "rx_bytes rs = b # rx_bytes rs'"
      using B by (cases x) (auto simp: neq_Nil_conv)
    have st: "store buf 0 [b] = Some (b # drop 1 buf)" using 1(2) by (simp add: store_at)
    show ?thesis
    proof (cases "b = 0x04")
      case True
      then show ?thesis using r x st bs 1(2) by (simp add: hci_sync.simps [of rs buf])
    next
      case False
      have unf: "hci_sync rs buf = hci_sync rs' (b # drop 1 buf)"
        using False r x st by (simp add: hci_sync.simps [of rs buf])
      have dw: "dropWhile (\<lambda>b. b \<noteq> 0x04) (rx_bytes rs) = dropWhile (\<lambda>b. b \<noteq> 0x04) (rx_bytes rs')"
        using bs False by simp
      have len: "length (b # drop 1 buf) = length buf" "drop 1 (b # drop 1 buf) = drop 1 buf"
        using 1(2) by simp_all
      have "1 \<le> length (b # drop 1 buf)" "[b] \<noteq> []" "(b # drop 1 buf) ! 0 \<noteq> 0x04" using False by simp_all
      from "1.IH" [OF r [symmetric] x this(2) st this(3) this(1)]
      show ?thesis unfolding unf dw len .
    qed
  qed
qed

lemma hci_fill_spec:
  "target \<le> length buf \<Longrightarrow> count \<le> target \<Longrightarrow>
   \<exists>c buf' rs'. hci_fill rs buf count target = Ok (c, buf', rs') \<and> length buf' = length buf
     \<and> take count buf' = take count buf \<and> drop target buf' = drop target buf
     \<and> (if length (rx_bytes rs) < target - count then c = -1
        else c = int target \<and> take (target - count) (drop count buf') = take (target - count) (rx_bytes rs)
             \<and> rx_bytes rs' = drop (target - count) (rx_bytes rs))"
proof (induction rs buf count target rule: hci_fill.induct)
  case (1 rs buf count target)
  show ?case
  proof (cases "count < target")
    case False
    then show ?thesis using 1(3) by (simp add: hci_fill.simps [of rs buf])
  next
    case True
    obtain x rs' where r: "rx_read (target - count) rs = (x, rs')" by fastforce
    note B = rx_read_bytes [OF r]
    show ?thesis
    proof (cases "x = None \<or> x = Some []")
      case True
      then show ?thesis using r B \<open>count < target\<close> by (auto simp: hci_fill.simps [of rs buf])
    next
      case False
      then obtain bs where x: "x = Some bs" "bs \<noteq> []" and bs: "rx_bytes rs = bs @ rx_bytes rs'"
        and len: "length bs \<le> target - count"
        using B True by (cases x) (auto split: if_splits)
      let ?buf = "take count buf @ bs @ drop (count + length bs) buf"
      have st: "store buf count bs = Some ?buf" using len True 1(2) by (simp add: store_at)
      have lb: "length ?buf = length buf" using len True 1(2) by simp
      have pre: "target \<le> length ?buf" "count + length bs \<le> target" using lb len True 1(2) by auto
      have unf: "hci_fill rs buf count target = hci_fill rs' ?buf (count + length bs) target"
        using True r x st by (simp add: hci_fill.simps [of rs buf])
      obtain c buf' rs'' where IH: "hci_fill rs' ?buf (count + length bs) target = Ok (c, buf', rs'')"
        "length buf' = length ?buf" "take (count + length bs) buf' = take (count + length bs) ?buf"
        "drop target buf' = drop target ?buf"
        "if length (rx_bytes rs') < target - (count + length bs) then c = -1
         else c = int target \<and> take (target - (count + length bs)) (drop (count + length bs) buf')
                  = take (target - (count + length bs)) (rx_bytes rs')
             \<and> rx_bytes rs'' = drop (target - (count + length bs)) (rx_bytes rs')"
        using "1.IH" [OF True r [symmetric] x(1) x(2) st pre] by blast
      have cnt: "count \<le> length buf" using True 1(2) by simp
      have t1: "take count buf' = take count buf"
      proof -
        have "take count buf' = take count (take (count + length bs) buf')" by simp
        also have "\<dots> = take count buf" unfolding IH(3) using cnt by simp
        finally show ?thesis .
      qed
      have t2: "take (length bs) (drop count buf') = bs"
      proof -
        have "take (length bs) (drop count buf') = drop count (take (count + length bs) buf')" by (simp add: drop_take)
        also have "\<dots> = bs" unfolding IH(3) using cnt by simp
        finally show ?thesis .
      qed
      have t3: "take (target - count) (drop count buf')
          = bs @ take (target - (count + length bs)) (drop (count + length bs) buf')"
      proof -
        have e: "target - count = length bs + (target - (count + length bs))" using len by simp
        show ?thesis unfolding e take_add t2 by (simp add: add.commute)
      qed
      have d: "drop target buf' = drop target buf" unfolding IH(4) using pre lb cnt by simp
      show ?thesis
        unfolding unf using IH(1,2,5) lb t1 t3 d bs len
        by (intro exI [of _ c] exI [of _ buf'] exI [of _ rs'']) (auto split: if_splits)
    qed
  qed
qed

lemma remain_nat:
  fixes sz u :: nat
  shows "nat (3 + (if int u < int sz - 3 then int u else int sz - 3)) = 3 + min u (sz - 3)
    \<or> (nat (3 + (if int u < int sz - 3 then int u else int sz - 3)) \<le> 3 \<and> 3 + min u (sz - 3) \<le> 3)"
  by (simp add: min_def) linarith

lemma hci_fill_target: "a = b \<or> (a \<le> count \<and> b \<le> count) \<Longrightarrow> hci_fill rs buf count a = hci_fill rs buf count b"
  by (auto simp: hci_fill.simps [of rs buf count])

lemma read_hci_event_spec:
  assumes "0 < sz" and "max 3 sz \<le> length buf"
  shows "\<exists>c buf' rs'. read_hci_event rs buf (int sz) = Ok (c, buf', rs') \<and> length buf' = length buf
     \<and> (case first_event sz (rx_bytes rs) of
          None \<Rightarrow> c = -1
        | Some (ev, rest) \<Rightarrow> c = int (length ev) \<and> buf' = ev @ drop (length ev) buf \<and> rx_bytes rs' = rest)"
proof -
  let ?ev = "dropWhile (\<lambda>b. b \<noteq> 0x04) (rx_bytes rs)"
  have "1 \<le> length buf" using assms(2) by simp
  from hci_sync_spec [OF this, of rs] obtain c1 b1 r1 where S: "hci_sync rs buf = Ok (c1, b1, r1)"
    "length b1 = length buf" "drop 1 b1 = drop 1 buf"
    "if ?ev = [] then c1 = -1 else c1 = 1 \<and> b1 ! 0 = 0x04 \<and> ?ev = 0x04 # rx_bytes r1"
    unfolding Let_def by blast
  show ?thesis
  proof (cases "?ev = []")
    case True
    then show ?thesis using S assms(1) by (simp add: read_hci_event_def first_event_def del: dropWhile_eq_Nil_conv)
  next
    case False
    then have ev: "?ev = 0x04 # rx_bytes r1" and c1: "c1 = 1" "b1 ! 0 = 0x04" using S(4) by auto
    have "3 \<le> length b1" "(1::nat) \<le> 3" using S(2) assms(2) by simp_all
    from hci_fill_spec [OF this, of r1] obtain c2 b2 r2 where F: "hci_fill r1 b1 1 3 = Ok (c2, b2, r2)"
      "length b2 = length b1" "take 1 b2 = take 1 b1" "drop 3 b2 = drop 3 b1"
      "if length (rx_bytes r1) < 3 - 1 then c2 = -1
       else c2 = int 3 \<and> take (3 - 1) (drop 1 b2) = take (3 - 1) (rx_bytes r1) \<and> rx_bytes r2 = drop (3 - 1) (rx_bytes r1)"
      by blast
    show ?thesis
    proof (cases "length (rx_bytes r1) < 2")
      case True
      then show ?thesis using S F assms(1) ev c1
        by (simp add: read_hci_event_def first_event_def)
    next
      case False
      have c2: "c2 = 3" "take 2 (drop 1 b2) = take 2 (rx_bytes r1)" "rx_bytes r2 = drop 2 (rx_bytes r1)"
        using F(5) False by auto
      have t3: "take 3 b2 = take 3 ?ev"
      proof -
        have "take 3 b2 = take 1 b2 @ take 2 (drop 1 b2)" using take_add [of 1 2 b2] by (simp add: numeral_3_eq_3)
        also have "take 1 b2 = [0x04]" using F(3) c1(2) S(2) assms(2) by (cases b1) auto
        finally show ?thesis using c2(2) ev by (simp add: numeral_eq_Suc)
      qed
      have n2: "b2 ! 2 = ?ev ! 2" using t3 by (metis nth_take lessI numeral_3_eq_3 numeral_2_eq_2)
      have ev3: "drop 3 ?ev = rx_bytes r2" "3 \<le> length ?ev"
        unfolding ev c2(3) using False by (simp_all add: numeral_eq_Suc)
      define n where "n = 3 + min (unat (?ev ! 2)) (sz - 3)"
      let ?t = "nat (3 + (if int (unat (b2 ! 2)) < int sz - 3 then int (unat (b2 ! 2)) else int sz - 3))"
      have same: "hci_fill r2 b2 3 ?t = hci_fill r2 b2 3 n"
        using remain_nat [of "unat (?ev ! 2)" sz] unfolding n_def n2 by (rule hci_fill_target)
      have "n \<le> length b2" "3 \<le> n" using assms(2) S(2) F(2) by (auto simp: n_def)
      from hci_fill_spec [OF this, of r2] obtain c3 b3 r3 where G: "hci_fill r2 b2 3 n = Ok (c3, b3, r3)"
        "length b3 = length b2" "take 3 b3 = take 3 b2" "drop n b3 = drop n b2"
        "if length (rx_bytes r2) < n - 3 then c3 = -1
         else c3 = int n \<and> take (n - 3) (drop 3 b3) = take (n - 3) (rx_bytes r2) \<and> rx_bytes r3 = drop (n - 3) (rx_bytes r2)"
        by auto
      have res: "read_hci_event rs buf (int sz) = Ok (c3, b3, r3)"
        using S(1) c1(1) F(1) c2(1) G(1) same assms(1) by (simp add: read_hci_event_def Let_def del: of_nat_unat split del: if_split)
      have short: "length ?ev < n \<longleftrightarrow> length (rx_bytes r2) < n - 3"
        using ev3 by (metis \<open>3 \<le> n\<close> length_drop less_diff_iff)
      have fe: "first_event sz (rx_bytes rs) = (if length ?ev < n then None else Some (take n ?ev, drop n ?ev))"
        using ev3(2) by (simp add: first_event_def n_def Let_def)
      have tail: "drop n b3 = drop n buf"
      proof -
        have "drop 3 b2 = drop 3 buf" using F(4) S(3) by (metis drop_drop one_plus_numeral semiring_norm(3) numeral_plus_one add.commute)
        then show ?thesis using G(4) \<open>3 \<le> n\<close> by (metis drop_drop le_add_diff_inverse2)
      qed
      show ?thesis
      proof (cases "length ?ev < n")
        case True
        then show ?thesis using res fe short G(2,5) F(2) S(2) by simp
      next
        case False
        have "take n b3 = take 3 b3 @ take (n - 3) (drop 3 b3)"
          using \<open>3 \<le> n\<close> by (metis le_add_diff_inverse take_add)
        also have "\<dots> = take 3 ?ev @ take (n - 3) (drop 3 ?ev)" using G(3,5) t3 ev3(1) short False by simp
        also have "\<dots> = take n ?ev" using \<open>3 \<le> n\<close> by (metis le_add_diff_inverse take_add)
        finally have "b3 = take n ?ev @ drop n buf" using tail by (metis append_take_drop_id)
        moreover have "rx_bytes r3 = drop n ?ev"
          using G(5) short False ev3(1) \<open>3 \<le> n\<close> by (metis drop_drop le_add_diff_inverse2)
        ultimately show ?thesis using res fe short False G(2,5) F(2) S(2) by simp
      qed
    qed
  qed
qed

lemma recv_event_spec:
  assumes "0 < sz" and "max 3 sz \<le> length buf"
  shows "\<exists>c buf' rs'. recv_event s buf (int sz) = (c, buf', s\<lparr>s_in := rs'\<rparr>) \<and> length buf' = length buf
     \<and> (case first_event sz (rx_bytes (s_in s)) of
          None \<Rightarrow> c = -1
        | Some (ev, rest) \<Rightarrow> c = int (length ev) \<and> buf' = ev @ drop (length ev) buf \<and> rx_bytes rs' = rest)"
  using read_hci_event_spec [OF assms, of "s_in s"] by (auto simp: recv_event_def)

section \<open>What is written\<close>

fun wrote :: "line_act \<Rightarrow> u8 list list" where
  "wrote (Wrote bs) = [bs]"
| "wrote _ = []"

definition writes :: "serial \<Rightarrow> u8 list list" where
  "writes s = concat (map wrote (s_log s))"

lemma writes_log [simp]: "writes (s\<lparr>s_log := s_log s @ l\<rparr>) = writes s @ concat (map wrote l)"
  by (simp add: writes_def)

lemma writes_upd [simp]:
  "writes (s\<lparr>s_in := x\<rparr>) = writes s" "writes (s\<lparr>s_tty := y\<rparr>) = writes s" "writes (s\<lparr>s_answers := z\<rparr>) = writes s"
  by (simp_all add: writes_def)

lemma writes_tcflush [simp]: "writes (tcflush s) = writes s" "s_answers (tcflush s) = s_answers s"
  "s_in (tcflush s) = []"
  by (simp_all add: tcflush_def writes_def)

lemma writes_recv [simp]: "writes (snd (snd (recv_event s buf n))) = writes s"
  "s_answers (snd (snd (recv_event s buf n))) = s_answers s"
  by (auto simp: recv_event_def split: mem.splits prod.splits)

lemma serial_write_writes [simp]: "writes (snd (serial_write s bs)) = writes s @ [bs]"
  by (auto simp: serial_write_def writes_def Let_def split: list.splits prod.splits)

lemma tty_call_writes [simp]: "writes (snd (tty_call s)) = writes s"
  by (simp add: tty_call_def split: list.split)

lemma set_speed_writes [simp]: "writes (snd (set_speed s v)) = writes s"
  by (auto simp: set_speed_def split_beta)

lemma hci_command_writes [simp]: "writes (snd (hci_command s cmd)) = writes s @ [cmd]"
  by (auto simp: hci_command_def split_beta)

lemma set_clock_writes: "writes (snd (bcm43xx_set_clock s k)) = writes s @ [[1, 0x45, 0xfc, 0x01, k]]"
  by (simp add: bcm43xx_set_clock_def HCI_COMMAND_PKT_def)

definition speed_writes :: "u32 \<Rightarrow> u8 list list" where
  "speed_writes v = (if v > 3000000 then [[1, 0x45, 0xfc, 0x01, 1]] else []) @ [speed_command v]"

lemma set_speed_ok_writes:
  "fst (bcm43xx_set_speed s v) = 0 \<Longrightarrow> writes (snd (bcm43xx_set_speed s v)) = writes s @ speed_writes v"
  by (auto simp: bcm43xx_set_speed_def speed_writes_def split_beta set_clock_writes split: if_splits)

lemma local_name_writes:
  "be_alloc_ok \<Longrightarrow> writes (snd (snd (bcm43xx_read_local_name s be_alloc_ok r n))) = writes s @ [[1, 0x14, 0x0C, 0x00]]"
  by (auto simp: bcm43xx_read_local_name_def HCI_COMMAND_PKT_def split_beta Let_def)

text \<open>Firmware files are a sequence of records: opcode, length, parameters.\<close>

definition fw_enc :: "u8 \<times> u8 \<times> u8 list \<Rightarrow> u8 list" where
  "fw_enc r = (case r of (lo, hi, ps) \<Rightarrow> [lo, hi, of_nat (length ps)] @ ps)"

definition fw_file :: "u8 list \<Rightarrow> rx list" where
  "fw_file bs = (if bs = [] then [] else [Chunk bs])"

lemma rx_read_file: "rx_read n (fw_file bs) = (Some (take n bs), fw_file (drop n bs))"
  by (auto simp: fw_file_def)

lemma fw_loop_record:
  assumes "length ps \<le> 255"
  shows "\<exists>tx'. fw_loop s (fw_file (fw_enc (lo, hi, ps) @ bs)) tx =
     (case serial_write s (1 # fw_enc (lo, hi, ps)) of (ok, s1) \<Rightarrow>
        if \<not> ok then (-1, s1)
        else fw_loop (tcflush (snd (snd (recv_event s1 (replicate CC_MIN_SIZE 0) (int CC_MIN_SIZE))))) (fw_file bs) tx')"
proof -
  have "unat (of_nat (length ps) :: u8) = length ps" using assms by (simp add: unat_of_nat)
  then show ?thesis
    by (subst fw_loop.simps)
       (auto simp: rx_read_file fw_enc_def HCI_COMMAND_PKT_def numeral_eq_Suc split_beta Let_def)
qed

lemma fw_loop_records:
  "\<forall>(lo, hi, ps) \<in> set recs. length ps \<le> 255 \<Longrightarrow>
   (fst (fw_loop s (fw_file (concat (map fw_enc recs))) tx) = 0 \<longrightarrow>
      writes (snd (fw_loop s (fw_file (concat (map fw_enc recs))) tx)) = writes s @ map (Cons 1) (map fw_enc recs))
   \<and> (length recs \<le> length (takeWhile fst (s_answers s)) \<longrightarrow>
      fst (fw_loop s (fw_file (concat (map fw_enc recs))) tx) = 0)"
proof (induction recs arbitrary: s tx)
  case Nil
  then show ?case by (subst (1 2 3) fw_loop.simps) (simp add: fw_file_def)
next
  case (Cons r recs)
  obtain lo hi ps where r: "r = (lo, hi, ps)" by (metis prod_cases3)
  have "length ps \<le> 255" using Cons.prems r by simp
  from fw_loop_record [OF this, of s lo hi "concat (map fw_enc recs)" tx]
  obtain tx' where unf: "fw_loop s (fw_file (concat (map fw_enc (r # recs)))) tx =
     (case serial_write s (1 # fw_enc r) of (ok, s1) \<Rightarrow>
        if \<not> ok then (-1, s1)
        else fw_loop (tcflush (snd (snd (recv_event s1 (replicate CC_MIN_SIZE 0) (int CC_MIN_SIZE)))))
               (fw_file (concat (map fw_enc recs))) tx')"
    unfolding r by auto
  obtain ok s1 where w: "serial_write s (1 # fw_enc r) = (ok, s1)" by fastforce
  have w1: "writes s1 = writes s @ [1 # fw_enc r]" using serial_write_writes [of s "1 # fw_enc r"] w by simp
  have w2: "length (r # recs) \<le> length (takeWhile fst (s_answers s)) \<Longrightarrow>
      ok \<and> length recs \<le> length (takeWhile fst (s_answers s1))"
    using w by (cases "s_answers s") (auto simp: serial_write_def Let_def split: prod.splits if_splits)
  have prem: "\<forall>(lo, hi, ps) \<in> set recs. length ps \<le> 255" using Cons.prems by simp
  show ?case
    using Cons.IH [OF prem, of "tcflush (snd (snd (recv_event s1 (replicate CC_MIN_SIZE 0) (int CC_MIN_SIZE))))" tx'] w1 w2
    unfolding unf w by auto
qed

definition fw_ok :: "rx list option \<Rightarrow> (u8 \<times> u8 \<times> u8 list) list \<Rightarrow> bool" where
  "fw_ok fw recs \<longleftrightarrow> (\<forall>(lo, hi, ps) \<in> set recs. length ps \<le> 255) \<and> fw = Some (fw_file (concat (map fw_enc recs)))"

lemma load_firmware_writes:
  assumes "fw_ok fw recs" and "fst (bcm43xx_load_firmware s fw tx) = 0"
  shows "writes (snd (bcm43xx_load_firmware s fw tx)) = writes s @ [1, 0x2e, 0xfc, 0x00] # map (Cons 1) (map fw_enc recs)"
proof -
  obtain r1 s1 where h: "hci_command (tcflush s) [HCI_COMMAND_PKT, 0x2e, 0xfc, 0x00] = (r1, s1)" by fastforce
  have w: "writes s1 = writes s @ [[1, 0x2e, 0xfc, 0x00]]"
    using hci_command_writes [of "tcflush s" "[HCI_COMMAND_PKT, 0x2e, 0xfc, 0x00]"] unfolding h
    by (simp add: HCI_COMMAND_PKT_def)
  show ?thesis
    using assms fw_loop_records [of recs "tcflush (s1\<lparr>s_log := s_log s1 @ [Slept 50000]\<rparr>)" tx] w h
    by (auto simp: bcm43xx_load_firmware_def fw_ok_def split_beta split: if_splits)
qed

section \<open>Properties\<close>

text \<open>C13. Reading an event does not depend on how the line cuts the input: from a buffer of at least
  three bytes and of the given size, the bytes before the first 04 are skipped, the header and as many parameter
  bytes as are announced and fit are stored at the start of the buffer, their
  number is returned and the rest of the input is left to read; -1 is returned exactly if the
  input ends or fails before that. No byte is stored outside the buffer.\<close>

theorem read_hci_event_stream:
  assumes "0 < sz" and "max 3 sz \<le> length buf"
  shows "\<exists>c buf' rs'. read_hci_event rs buf (int sz) = Ok (c, buf', rs') \<and> length buf' = length buf
     \<and> (case first_event sz (rx_bytes rs) of
          None \<Rightarrow> c = -1
        | Some (ev, rest) \<Rightarrow> c = int (length ev) \<and> buf' = ev @ drop (length ev) buf \<and> rx_bytes rs' = rest)"
  using assms by (rule read_hci_event_spec)

theorem read_hci_event_stream_witness:
  "\<exists>buf' rs'. read_hci_event [Chunk [0xff, 0x04], Chunk [0x0e], Chunk [0x04, 0x01, 0x03, 0x0c], Chunk [0x00, 0x99]]
       (replicate 7 0) (int 7) = Ok (7, buf', rs')
     \<and> buf' = [0x04, 0x0e, 0x04, 0x01, 0x03, 0x0c, 0x00]"
proof -
  let ?rs = "[Chunk [0xff, 0x04], Chunk [0x0e], Chunk [0x04, 0x01, 0x03, 0x0c], Chunk [0x00, 0x99]]"
  have ev: "first_event 7 (rx_bytes ?rs) = Some ([0x04, 0x0e, 0x04, 0x01, 0x03, 0x0c, 0x00], [0x99])"
    by (simp add: first_event_def Let_def)
  have "max 3 7 \<le> length (replicate 7 (0::u8))" by simp
  from read_hci_event_stream [of 7, OF _ this, of ?rs] show ?thesis unfolding ev by auto
qed

text \<open>A command succeeds exactly if its bytes went out and the first event of the answer has the
  seven bytes of a command-complete event with the command's opcode and status 0; its bytes are
  sent once either way.\<close>

theorem hci_command_outcome:
  "fst (hci_command s cmd) =
     (case s_answers s of
        (True, rs) # _ \<Rightarrow>
          (case first_event 7 (rx_bytes (s_in s @ rs)) of
             Some (ev, rest) \<Rightarrow>
               if length ev = 7 \<and> ev ! 4 = cmd ! 1 \<and> ev ! 5 = cmd ! 2 \<and> ev ! 6 = 0 then 0 else -1
           | None \<Rightarrow> -1)
      | _ \<Rightarrow> -1)
   \<and> writes (snd (hci_command s cmd)) = writes s @ [cmd]"
proof -
  have ev7: "length ev \<le> 7" if "first_event 7 bs = Some (ev, rest)" for bs ev rest
    using that by (auto simp: first_event_def Let_def split: if_splits)
  obtain ok s1 where w: "serial_write s cmd = (ok, s1)" by fastforce
  have sw: "s_answers s = [] \<Longrightarrow> \<not> ok" "s_answers s = (b, rs) # as \<Longrightarrow> ok = b \<and> s_in s1 = s_in s @ rs" for b rs as
    using w by (auto simp: serial_write_def Let_def)
  obtain c buf' rs' where R: "recv_event s1 (replicate 7 0) (int 7) = (c, buf', s1\<lparr>s_in := rs'\<rparr>)"
    "case first_event 7 (rx_bytes (s_in s1)) of None \<Rightarrow> c = -1
     | Some (ev, rest) \<Rightarrow> c = int (length ev) \<and> buf' = ev @ drop (length ev) (replicate 7 0)"
    using recv_event_spec [of 7 "replicate 7 0" s1] by (auto split: option.splits)
  have "fst (hci_command s cmd) = (if ok \<and> 7 \<le> c \<and> buf' ! 4 = cmd ! 1 \<and> buf' ! 5 = cmd ! 2 \<and> buf' ! 6 = 0 then 0 else -1)"
    using R(1) w by (auto simp: hci_command_def CC_MIN_SIZE_def CMD_SUCCESS_def)
  moreover have "(ok \<and> 7 \<le> c \<and> buf' ! 4 = cmd ! 1 \<and> buf' ! 5 = cmd ! 2 \<and> buf' ! 6 = 0) \<longleftrightarrow>
      (\<exists>rs as ev rest. s_answers s = (True, rs) # as \<and> first_event 7 (rx_bytes (s_in s @ rs)) = Some (ev, rest)
        \<and> length ev = 7 \<and> ev ! 4 = cmd ! 1 \<and> ev ! 5 = cmd ! 2 \<and> ev ! 6 = 0)" (is "?L \<longleftrightarrow> ?R")
  proof (cases "s_answers s")
    case Nil
    then show ?thesis using sw(1) by simp
  next
    case (Cons a as)
    obtain b rs where a: "a = (b, rs)" by fastforce
    note sw2 = sw(2) [OF Cons [unfolded a]]
    show ?thesis
    proof (cases "first_event 7 (rx_bytes (s_in s @ rs))")
      case None
      then show ?thesis using R(2) sw2 Cons a by auto
    next
      case (Some p)
      obtain ev rest where p: "p = (ev, rest)" by fastforce
      note E = Some [unfolded p]
      have "length ev \<le> 7" using ev7 E by blast
      moreover have "c = int (length ev)" "length ev = 7 \<Longrightarrow> buf' = ev" using R(2) E sw2 by simp_all
      ultimately show ?thesis using E sw2 Cons a by auto
    qed
  qed
  ultimately show ?thesis
    by (auto split: list.splits option.splits bool.splits)
qed

theorem hci_command_outcome_witness:
  "fst (hci_command \<lparr>s_in = [], s_answers = [(True, [Chunk [0x04, 0x0e, 0x04, 0x01, 0x03, 0x0c, 0x00]])], s_tty = [], s_log = []\<rparr>
     [0x01, 0x03, 0x0c, 0x00]) = 0"
  using hci_command_outcome [of "\<lparr>s_in = [], s_answers = [(True, [Chunk [0x04, 0x0e, 0x04, 0x01, 0x03, 0x0c, 0x00]])], s_tty = [], s_log = []\<rparr>"
      "[0x01, 0x03, 0x0c, 0x00]"]
  by (simp add: first_event_def Let_def)

lemma le_bytes:
  "n = n mod 256 + 256 * (n div 256 mod 256) + 65536 * (n div 65536 mod 256) + 16777216 * (n div 16777216)" for n :: nat
proof -
  have "n div 65536 = n div 256 div 256" "n div 16777216 = n div 65536 div 256"
    using div_mult2_eq [of n 256 256] div_mult2_eq [of n 65536 256] by simp_all
  then have "n div 256 = n div 256 mod 256 + 256 * (n div 65536)"
    "n div 65536 = n div 65536 mod 256 + 256 * (n div 16777216)" by simp_all
  then show ?thesis using mod_mult_div_eq [of n 256] by linarith
qed

text \<open>The speed command carries the speed in little-endian order: the last four of its ten bytes,
  weighted with powers of 256, add up to the speed, for every 32-bit value.\<close>

theorem speed_command_le:
  "length (speed_command v) = 10
   \<and> (\<Sum>i<4. unat (speed_command v ! (6 + i)) * 256 ^ i) = unat v"
proof -
  have lt: "unat v div 16777216 < 256"
  proof -
    have "unat v < 2 ^ LENGTH(32)" by (rule unsigned_less)
    then show ?thesis by (simp add: less_mult_imp_div_less)
  qed
  have v: "unat (ucast v :: u8) = unat v mod 256" "unat (ucast (drop_bit 8 v) :: u8) = unat v div 256 mod 256"
    "unat (ucast (drop_bit 16 v) :: u8) = unat v div 65536 mod 256"
    "unat (ucast (drop_bit 24 v) :: u8) = unat v div 16777216"
    using lt by (simp_all add: unsigned_ucast_eq unsigned_drop_bit_eq take_bit_eq_mod drop_bit_eq_div unat_div_distrib)
  have sum4: "(\<Sum>i<4. f i) = f 0 + f 1 + f 2 + f 3" for f :: "nat \<Rightarrow> nat"
    by (simp add: eval_nat_numeral)
  have "(\<Sum>i<4. unat (speed_command v ! (6 + i)) * 256 ^ i)
      = unat v mod 256 + 256 * (unat v div 256 mod 256) + 65536 * (unat v div 65536 mod 256)
        + 16777216 * (unat v div 16777216)"
    unfolding sum4 speed_command_def by (simp add: v)
  then show ?thesis using le_bytes [of "unat v"] by (simp add: speed_command_def)
qed

text \<open>A firmware file that is a sequence of records is sent record by record, in order and unchanged, each as
  one command packet, and the download returns 0 as soon as all writes succeed, whatever the
  controller answers and whatever the transmit buffer held before.\<close>

theorem load_firmware_sends_records:
  assumes "\<forall>(lo, hi, ps) \<in> set recs. length ps \<le> 255"
    and "length recs \<le> length (takeWhile fst (s_answers s))"
  shows "\<exists>s'. fw_loop s (fw_file (concat (map fw_enc recs))) tx = (0, s')
     \<and> writes s' = writes s @ map (\<lambda>r. HCI_COMMAND_PKT # fw_enc r) recs"
  using fw_loop_records [OF assms(1), of s tx] assms(2)
  by (intro exI [of _ "snd (fw_loop s (fw_file (concat (map fw_enc recs))) tx)"])
     (simp add: prod_eq_iff HCI_COMMAND_PKT_def comp_def)

theorem load_firmware_sends_records_witness:
  "\<exists>s'. fw_loop \<lparr>s_in = [], s_answers = [(True, []), (True, [RxError])], s_tty = [], s_log = []\<rparr>
      (fw_file (concat (map fw_enc [(0x4c, 0xfc, [1, 2, 3]), (0x4e, 0xfc, [])]))) [] = (0, s')
    \<and> writes s' = [[0x01, 0x4c, 0xfc, 3, 1, 2, 3], [0x01, 0x4e, 0xfc, 0]]"
  using load_firmware_sends_records [of "[(0x4c, 0xfc, [1, 2, 3]), (0x4e, 0xfc, [])]"
      "\<lparr>s_in = [], s_answers = [(True, []), (True, [RxError])], s_tty = [], s_log = []\<rparr>" "[]"]
  by (simp add: fw_enc_def HCI_COMMAND_PKT_def writes_def)

lemma reset_writes: "writes (snd (bcm43xx_reset s)) = writes s @ [[1, 0x03, 0x0C, 0x00]]"
  by (simp add: bcm43xx_reset_def HCI_COMMAND_PKT_def)

lemma set_bdaddr_writes:
  "writes (snd (bcm43xx_set_bdaddr s a)) = writes s @ (if bachk a = 0 then [[1, 0x01, 0xfc, 0x06] @ snd (str2ba a)] else [])"
proof -
  have "bachk a = 0 \<or> bachk a < 0" by (auto simp: bachk_def split: option.split)
  then show ?thesis by (auto simp: bcm43xx_set_bdaddr_def str2ba_def HCI_COMMAND_PKT_def)
qed

lemma patch_writes:
  assumes "fw_ok fw recs" and "fst (bcm43xx_patch B s fw d v) = 0"
  shows "writes (snd (bcm43xx_patch B s fw d v)) = writes s @ speed_writes (word_of_int v) @ [[1, 0x2e, 0xfc, 0x00]]
     @ map (Cons 1) (map fw_enc recs) @ [[1, 0x03, 0x0C, 0x00]]"
proof -
  obtain r3 s3 r4 s4 r5 s5 where
    a: "bcm43xx_set_speed s (word_of_int v) = (r3, s3)"
    and b: "bcm43xx_load_firmware s3 fw (be_tx B) = (r4, s4)"
    and c: "set_speed (s4\<lparr>s_log := s_log s4 @ [Slept 500000000]\<rparr>) d = (r5, s5)" by (meson surj_pair)
  have z: "r3 = 0" "r4 = 0" "\<not> r5 < 0"
    using assms(2) a b c by (auto simp: bcm43xx_patch_def split: if_splits)
  have "writes s3 = writes s @ speed_writes (word_of_int v)"
    using set_speed_ok_writes [of s "word_of_int v"] a z by simp
  moreover have "writes s4 = writes s3 @ [1, 0x2e, 0xfc, 0x00] # map (Cons 1) (map fw_enc recs)"
    using load_firmware_writes [OF assms(1), of s3 "be_tx B"] b z by simp
  moreover have "writes s5 = writes s4"
    using set_speed_writes [of "s4\<lparr>s_log := s_log s4 @ [Slept 500000000]\<rparr>" d] unfolding c by simp
  ultimately show ?thesis
    using a b c z reset_writes [of s5] by (simp add: bcm43xx_patch_def split_beta)
qed

text \<open>The order of the initialisation: when it succeeds it has sent, after what was sent before,
  the reset and the name request; if a firmware was found, the speed, the download command, the
  records and a second reset; the address if one is given and well formed; and the speed. A failure
  to set the address does not stop it.\<close>

theorem bcm43xx_init_sequence:
  assumes "fst (bcm43xx_init B locate s def_speed speed bdaddr) = 0"
    and "\<forall>name fw. locate name = Some fw \<longrightarrow> fw_ok fw recs"
  shows "\<exists>name. writes (snd (bcm43xx_init B locate s def_speed speed bdaddr)) = writes s
     @ [[1, 0x03, 0x0C, 0x00], [1, 0x14, 0x0C, 0x00]]
     @ (if locate name = None then []
        else speed_writes (word_of_int speed) @ [[1, 0x2e, 0xfc, 0x00]]
             @ map (Cons 1) (map fw_enc recs) @ [[1, 0x03, 0x0C, 0x00]])
     @ (if bachk bdaddr = 0 then [[1, 0x01, 0xfc, 0x06] @ snd (str2ba bdaddr)] else [])
     @ speed_writes (word_of_int speed)"
proof -
  obtain r1 s1 where a: "bcm43xx_reset s = (r1, s1)" by fastforce
  obtain r2 name s2 where b: "bcm43xx_read_local_name s1 (be_alloc B) (be_resp B) (be_name B) = (r2, name, s2)"
    by (metis prod_cases3)
  define chip where "chip = (map (\<lambda>b. char_of (unat b)) (takeWhile (\<lambda>b. b \<noteq> 0) name) :: string)"
  obtain r6 s6 where c: "(case locate chip of None \<Rightarrow> (0, s2) | Some fw \<Rightarrow> bcm43xx_patch B s2 fw def_speed speed) = (r6, s6)"
    by fastforce
  define s7 where "s7 = (case bdaddr of None \<Rightarrow> s6 | Some x \<Rightarrow> snd (bcm43xx_set_bdaddr s6 (Some x)))"
  obtain r8 s8 where e: "bcm43xx_set_speed s7 (word_of_int speed) = (r8, s8)" by fastforce
  have "bcm43xx_init B locate s def_speed speed bdaddr = (if r1 \<noteq> 0 then (-1, s1) else if r2 \<noteq> 0 then (-1, s2)
      else if r6 \<noteq> 0 then (-1, s6) else if r8 \<noteq> 0 then (-1, s8) else (0, s8))"
    by (simp add: bcm43xx_init_def a b c chip_def [symmetric] s7_def [symmetric] e Let_def)
  then have z: "r1 = 0" "r2 = 0" "r6 = 0" "r8 = 0" and fin: "snd (bcm43xx_init B locate s def_speed speed bdaddr) = s8"
    using assms(1) by (auto split: if_splits)
  have "be_alloc B" using b z(2) by (cases "be_alloc B") (simp_all add: bcm43xx_read_local_name_def)
  then have w2: "writes s2 = writes s @ [[1, 0x03, 0x0C, 0x00], [1, 0x14, 0x0C, 0x00]]"
    using reset_writes [of s] local_name_writes [of "be_alloc B" s1 "be_resp B" "be_name B"] a b by simp
  have w6: "writes s6 = writes s2 @ (if locate chip = None then []
        else speed_writes (word_of_int speed) @ [[1, 0x2e, 0xfc, 0x00]]
             @ map (Cons 1) (map fw_enc recs) @ [[1, 0x03, 0x0C, 0x00]])"
  proof (cases "locate chip")
    case None
    then show ?thesis using c by simp
  next
    case (Some fw)
    then have "fw_ok fw recs" using assms(2) by blast
    then show ?thesis using patch_writes [of fw recs B s2 def_speed speed] Some c z(3) by simp
  qed
  have w7: "writes s7 = writes s6 @ (if bachk bdaddr = 0 then [[1, 0x01, 0xfc, 0x06] @ snd (str2ba bdaddr)] else [])"
    using set_bdaddr_writes by (cases bdaddr) (auto simp: s7_def bachk_def)
  have "writes s8 = writes s7 @ speed_writes (word_of_int speed)"
    using set_speed_ok_writes [of s7 "word_of_int speed"] e z(4) by simp
  then show ?thesis using w2 w6 w7 fin by (intro exI [of _ chip]) simp
qed

definition demo_line :: serial where
  "demo_line = \<lparr>s_in = [],
     s_answers = [(True, [Chunk [0x04, 0x0e, 0x04, 0x01, 0x03, 0x0c, 0x00]]),
       (True, [Chunk [0x04, 0x0e, 0x06, 0x01, 0x14, 0x0c, 0x00, 0x41, 0x00]]),
       (True, [Chunk [0x04, 0x0e, 0x04, 0x01, 0x18, 0xfc, 0x00]])],
     s_tty = [], s_log = []\<rparr>"

definition demo_env :: bcm_env where
  "demo_env = \<lparr>be_alloc = True, be_resp = replicate 27 0, be_name = replicate 20 0, be_tx = []\<rparr>"

lemma demo_init: "fst (bcm43xx_init demo_env (\<lambda>_. None) demo_line 115200 3000000 None) = 0"
  by code_simp

theorem bcm43xx_init_sequence_witness:
  "writes (snd (bcm43xx_init demo_env (\<lambda>_. None) demo_line 115200 3000000 None))
   = [[1, 0x03, 0x0C, 0x00], [1, 0x14, 0x0C, 0x00], speed_command 3000000]"
proof -
  obtain name :: string where "writes (snd (bcm43xx_init demo_env (\<lambda>_. None) demo_line 115200 3000000 None)) = writes demo_line
     @ [[1, 0x03, 0x0C, 0x00], [1, 0x14, 0x0C, 0x00]] @ [] @ [] @ speed_writes 3000000"
    using bcm43xx_init_sequence [OF demo_init, of "[]"] by (auto simp: bachk_def)
  then show ?thesis by (simp add: writes_def demo_line_def speed_writes_def)
qed

lemma strncpy_split:
  assumes "length src = n"
  shows "strncpy dst (src @ rest) (n + m) =
     (if 0 \<in> set src then takeWhile (\<lambda>b. b \<noteq> 0) src @ replicate (n + m - length (takeWhile (\<lambda>b. b \<noteq> 0) src)) 0
      else src @ takeWhile (\<lambda>b. b \<noteq> 0) (take m rest) @ replicate (m - length (takeWhile (\<lambda>b. b \<noteq> 0) (take m rest))) 0)
     @ drop (n + m) dst"
proof (cases "0 \<in> set src")
  case True
  then show ?thesis using assms by (simp add: strncpy_def Let_def takeWhile_append1)
next
  case False
  then have "takeWhile (\<lambda>b. b \<noteq> 0) (src @ xs) = src @ takeWhile (\<lambda>b. b \<noteq> 0) xs" for xs
    by (intro takeWhile_append2) auto
  then show ?thesis using False assms by (simp add: strncpy_def Let_def)
qed

lemma length_takeWhile_stop: "x \<in> set xs \<Longrightarrow> \<not> P x \<Longrightarrow> length (takeWhile P xs) < length xs"
  by (induction xs) auto

lemma takeWhile_padded: "takeWhile (\<lambda>b. b \<noteq> 0) ((takeWhile (\<lambda>b. b \<noteq> 0) xs @ replicate (Suc k) 0)) = takeWhile (\<lambda>b. b \<noteq> 0) xs"
  by (induction xs) auto

lemma nth_takeWhile_pad:
  "0 < m \<Longrightarrow> (takeWhile (\<lambda>b. b \<noteq> 0) xs @ replicate (m - length (takeWhile (\<lambda>b. b \<noteq> 0) xs)) 0) ! 0 = (if xs = [] then 0 else hd xs)"
  by (cases xs) (auto simp: nth_append)

text \<open>The chip name: when the answer brings the zero byte that ends the name within the twenty bytes
  that are read, the result is the name in the answer. The buffer has room for seven
  bytes more than are read, and the copy runs over them: if the answer announces a longer name and has no zero
  byte among the thirteen name bytes that fit, the fourteenth character of the result is the uninitialised byte
  of the heap.\<close>

theorem local_name_uninitialised:
  assumes "length resp0 = 27" and "length name0 = 20"
    and "s_answers s = (True, rs) # as" and "first_event 20 (rx_bytes rs) = Some (ev, rest)"
    and "7 \<le> length ev" and "ev ! 4 = 0x14" and "ev ! 5 = 0x0C" and "ev ! 6 = 0"
    and "21 \<le> unat (ev ! 2)"
    and "(r, name, s') = bcm43xx_read_local_name s True resp0 name0"
  shows "r = 0 \<and> length name = 20
    \<and> (0 \<in> set (drop 7 ev) \<longrightarrow> takeWhile (\<lambda>b. b \<noteq> 0) name = takeWhile (\<lambda>b. b \<noteq> 0) (drop 7 ev))
    \<and> (0 \<notin> set (drop 7 ev) \<longrightarrow> take 13 name = drop 7 ev \<and> name ! 13 = resp0 ! 20)"
proof -
  have len: "length ev = 20"
    using assms(4,9) by (auto simp: first_event_def Let_def nth_append split: if_splits)
  obtain ok s1 where w: "serial_write (tcflush s) [HCI_COMMAND_PKT, 0x14, 0x0C, 0x00] = (ok, s1)" by fastforce
  then have "ok" "s_in s1 = rs" using assms(3) by (auto simp: serial_write_def Let_def)
  have "max 3 20 \<le> length resp0" using assms(1) by simp
  from recv_event_spec [of 20, OF _ this, of s1] obtain rs' where
    R: "recv_event s1 resp0 20 = (20, ev @ drop 20 resp0, s1\<lparr>s_in := rs'\<rparr>)"
    using assms(4) len \<open>s_in s1 = rs\<close> by auto
  have nl: "20 \<le> unat (of_int (int (unat (ev ! 2)) - 1) :: u32)"
  proof -
    have "unat (ev ! 2) < 2 ^ LENGTH(8)" by (rule unsigned_less)
    moreover have "of_int (int (unat (ev ! 2)) - 1) = (of_nat (unat (ev ! 2) - 1) :: u32)"
      using assms(9) by (simp add: of_nat_diff)
    ultimately show ?thesis using assms(9) by (simp add: unat_of_nat del: of_nat_diff)
  qed
  have res: "r = 0" "name = (strncpy name0 (drop 7 ev @ drop 20 resp0) (13 + 7))[19 := 0]"
    using assms(2,5-10) w \<open>ok\<close> R len nl
    by (auto simp: bcm43xx_read_local_name_def Let_def CC_MIN_SIZE_def CMD_SUCCESS_def nth_append split: if_splits)
  have l13: "length (drop 7 ev) = 13" "length (drop 20 resp0) = 7" using len assms(1) by simp_all
  note sp = strncpy_split [OF l13(1), of name0 "drop 20 resp0" 7]
  show ?thesis
  proof (cases "0 \<in> set (drop 7 ev)")
    case True
    define t where "t = takeWhile (\<lambda>b. b \<noteq> 0) (drop 7 ev)"
    have "length t < 13" using True l13(1) unfolding t_def
      by (metis (mono_tags, lifting) length_takeWhile_stop)
    then obtain k where k: "20 - length t = Suc k" "length t < 13"
      by (intro that [of "19 - length t"]) auto
    have "strncpy name0 (drop 7 ev @ drop 20 resp0) (13 + 7) = t @ replicate (Suc k) 0"
      unfolding sp using True k(1) assms(2) by (simp add: t_def)
    moreover have "(t @ replicate (Suc k) 0) ! 19 = 0"
      using k by (auto simp: nth_append simp del: replicate_Suc)
    ultimately have "name = t @ replicate (Suc k) 0"
      using res(2) by (metis list_update_id)
    then show ?thesis using res(1) True k takeWhile_padded [of "drop 7 ev" k] unfolding t_def by auto
  next
    case False
    have "name = (drop 7 ev @ takeWhile (\<lambda>b. b \<noteq> 0) (drop 20 resp0)
        @ replicate (7 - length (takeWhile (\<lambda>b. b \<noteq> 0) (drop 20 resp0))) 0)[19 := 0]"
      using res(2) sp False assms(2) l13 by simp
    moreover have "hd (drop 20 resp0) = resp0 ! 20" using assms(1) by (simp add: hd_drop_conv_nth)
    ultimately show ?thesis
      using res(1) False l13 assms(1) nth_takeWhile_pad [of 7 "drop 20 resp0"] length_takeWhile_le [of "\<lambda>b. b \<noteq> 0" "drop 20 resp0"]
      by (auto simp: list_update_append nth_append hd_drop_conv_nth)
  qed
qed

definition long_name :: "u8 list" where
  "long_name = [0x04, 0x0e, 0xfc, 0x01, 0x14, 0x0c, 0x00] @ replicate 13 0x41"

theorem local_name_uninitialised_witness:
  "case bcm43xx_read_local_name \<lparr>s_in = [], s_answers = [(True, [Chunk (long_name @ replicate 20 0x41)])], s_tty = [], s_log = []\<rparr>
     True (replicate 27 0x7e) (replicate 20 0) of (r, name, s') \<Rightarrow> r = 0 \<and> take 14 name = replicate 13 0x41 @ [0x7e]"
proof -
  let ?s = "\<lparr>s_in = [], s_answers = [(True, [Chunk (long_name @ replicate 20 0x41)])], s_tty = [], s_log = []\<rparr>"
  obtain r name s' where d: "bcm43xx_read_local_name ?s True (replicate 27 0x7e) (replicate 20 0) = (r, name, s')"
    by (metis prod_cases3)
  have ev: "first_event 20 (rx_bytes [Chunk (long_name @ replicate 20 0x41)]) = Some (long_name, replicate 20 0x41)"
    by (simp add: first_event_def Let_def long_name_def)
  have "r = 0 \<and> length name = 20 \<and> take 13 name = replicate 13 0x41 \<and> name ! 13 = 0x7e"
    using local_name_uninitialised [OF _ _ _ ev _ _ _ _ _ d [symmetric]] by (simp add: long_name_def)
  then show ?thesis using d take_Suc_conv_app_nth [of 13 name] by simp
qed

end
