(* ===== verification/Bt_Attach.thy ===== *)
theory Bt_Attach
  imports Bt_Hci
begin

text \<open>
  The rest of \<^verbatim>\<open>hals/bluetooth/btuart/hciattach_rpi3.c\<close>: the search for a firmware file, the device table,
  the set-up of the serial line and \<^verbatim>\<open>main\<close>. A directory is the list of entries that
  \<^verbatim>\<open>readdir\<close> returns, in that order; an entry carries its name, its type byte and what
  \<^verbatim>\<open>opendir\<close> on it gives. What \<^verbatim>\<open>getopt\<close>, \<^verbatim>\<open>sscanf\<close> and \<^verbatim>\<open>ppoll\<close> return are inputs.
\<close>

section \<open>Looking for the firmware\<close>

datatype dirent = Dirent (d_name: string) (d_type: nat) (d_sub: "dirent list option")

definition PATH_MAX :: nat where "PATH_MAX = 4096"
definition FW_EXT :: string where "FW_EXT = ''.hcd''"

definition path_join :: "string \<Rightarrow> string \<Rightarrow> string" where
  "path_join dir name = take (PATH_MAX - 1) (dir @ ''/'' @ name)"

text \<open>\<^verbatim>\<open>entry->d_type & DT_DIR\<close>\<close>

definition is_dir :: "nat \<Rightarrow> bool" where
  "is_dir ty \<longleftrightarrow> ty AND 4 \<noteq> 0"

text \<open>The extension test; \<^verbatim>\<open>curs_ext\<close> wraps for a name shorter than the extension.\<close>

definition has_ext :: "string \<Rightarrow> bool" where
  "has_ext name =
     (let name_len = of_nat (length name) :: u32; curs_ext = name_len - 5 + 1
      in if curs_ext > name_len then False else take 5 (drop (unat curs_ext) name) = FW_EXT)"

definition is_prefix :: "string \<Rightarrow> string \<Rightarrow> bool" where
  "is_prefix p s \<longleftrightarrow> take (length p) s = p"

fun locate_loop :: "string \<Rightarrow> string \<Rightarrow> int \<Rightarrow> dirent list \<Rightarrow> int \<times> string option" where
  "locate_loop dir chip ret [] = (ret, None)"
| "locate_loop dir chip ret (Dirent name ty sub # es) =
     (if is_dir ty then
        if name = ''..'' \<or> name = ''.'' then locate_loop dir chip ret es
        else (case (case sub of None \<Rightarrow> (-1, None) | Some es' \<Rightarrow> locate_loop (path_join dir name) chip (-1) es')
              of (r, loc) \<Rightarrow> if r = 0 then (0, loc) else locate_loop dir chip r es)
      else if is_prefix chip name then
        if has_ext name then (0, Some (path_join dir name)) else (ret, None)
      else locate_loop dir chip ret es)"

definition bcm43xx_locate_patch :: "string \<Rightarrow> string \<Rightarrow> dirent list option \<Rightarrow> int \<times> string option" where
  "bcm43xx_locate_patch dir chip sub =
     (case sub of None \<Rightarrow> (-1, None) | Some es \<Rightarrow> locate_loop dir chip (-1) es)"

section \<open>The device table\<close>

record uart_t =
  ut_type :: string
  ut_m_id :: int
  ut_p_id :: int
  ut_proto :: int
  ut_init_speed :: int
  ut_speed :: int
  ut_flags :: u32
  ut_pm :: bool
  ut_bdaddr :: "string option"

definition FLOW_CTL :: u32 where "FLOW_CTL = 0x0001"
definition AMP_DEV :: u32 where "AMP_DEV = 0x0002"
definition HCI_UART_RAW_DEVICE :: nat where "HCI_UART_RAW_DEVICE = 0"
definition HCI_UART_CREATE_AMP :: nat where "HCI_UART_CREATE_AMP = 2"
definition N_HCI :: int where "N_HCI = 15"
definition N_TTY :: int where "N_TTY = 0"

definition uart :: "uart_t list" where
  "uart = [\<lparr>ut_type = ''bcm43xx'', ut_m_id = 0, ut_p_id = 0, ut_proto = 0, ut_init_speed = 115200,
     ut_speed = 3000000, ut_flags = FLOW_CTL, ut_pm = False, ut_bdaddr = None\<rparr>]"

text \<open>The search stops at an entry without type; past the end of the array there is none to read.\<close>

fun scan_table :: "(uart_t \<Rightarrow> bool) \<Rightarrow> uart_t list \<Rightarrow> uart_t option mem" where
  "scan_table P [] = OutOfBounds"
| "scan_table P (u # us) = (if ut_type u = [] then Ok None else if P u then Ok (Some u) else scan_table P us)"

definition get_by_id :: "int \<Rightarrow> int \<Rightarrow> uart_t option mem" where
  "get_by_id m p = scan_table (\<lambda>u. ut_m_id u = m \<and> ut_p_id u = p) uart"

definition get_by_type :: "string \<Rightarrow> uart_t option mem" where
  "get_by_type t = scan_table (\<lambda>u. ut_type u = t) uart"

section \<open>Setting up the line\<close>

definition logged :: "serial \<Rightarrow> line_act \<Rightarrow> serial" where
  "logged s a = s\<lparr>s_log := s_log s @ [a]\<rparr>"

text \<open>\<open>fd\<close> is what \<^verbatim>\<open>open\<close> returns; the calls on the terminal take their results from the line.\<close>

definition init_uart_open ::
  "bcm_env \<Rightarrow> (string \<Rightarrow> rx list option option) \<Rightarrow> serial \<Rightarrow> uart_t \<Rightarrow> bool \<Rightarrow> u32 \<Rightarrow> bool \<times> serial" where
  "init_uart_open B locate s u send_break flags =
     (case tty_call (tcflush s) of (e1, s1) \<Rightarrow>
      if e1 \<noteq> 0 then (False, s1)
      else case tty_call s1 of (e2, s2) \<Rightarrow>
      if e2 \<noteq> 0 then (False, s2)
      else case set_speed (logged s2 (Attributes (ut_flags u AND FLOW_CTL \<noteq> 0))) (ut_init_speed u) of (r3, s3) \<Rightarrow>
      if r3 < 0 then (False, s3)
      else let s4 = tcflush s3;
               s5 = (if send_break then logged (logged s4 SentBreak) (Slept 500000000) else s4)
      in case bcm43xx_init B locate s5 (ut_init_speed u) (ut_speed u) (ut_bdaddr u) of (r6, s6) \<Rightarrow>
      if r6 < 0 then (False, s6)
      else case set_speed (tcflush s6) (ut_speed u) of (r7, s7) \<Rightarrow>
      if r7 < 0 then (False, s7)
      else case tty_call s7 of (e8, s8) \<Rightarrow>
      if e8 \<noteq> 0 then (False, s8)
      else case (if flags \<noteq> 0 then tty_call (logged s8 (SetDiscipline N_HCI)) else (0, logged s8 (SetDiscipline N_HCI))) of (e9, s9) \<Rightarrow>
      if e9 \<noteq> 0 then (False, s9)
      else case tty_call (if flags \<noteq> 0 then logged s9 (SetFlags flags) else s9) of (e10, s10) \<Rightarrow>
      if e10 \<noteq> 0 then (False, s10)
      else (True, logged s10 (SetProto (ut_proto u))))"

definition init_uart ::
  "bcm_env \<Rightarrow> (string \<Rightarrow> rx list option option) \<Rightarrow> int \<Rightarrow> serial \<Rightarrow> uart_t \<Rightarrow> bool \<Rightarrow> bool \<Rightarrow> int \<times> serial" where
  "init_uart B locate fd s u send_break raw =
     (let f1 = (if raw then push_bit HCI_UART_RAW_DEVICE 1 else 0 :: u32);
          flags = (if ut_flags u AND AMP_DEV \<noteq> 0 then f1 OR push_bit HCI_UART_CREATE_AMP 1 else f1)
      in if fd < 0 then (-1, s)
         else case init_uart_open B locate s u send_break flags of (ok, s') \<Rightarrow>
                if ok then (fd, s') else (-1, logged s' Closed))"

section \<open>The command line\<close>

definition atoi :: "string \<Rightarrow> int" where
  "atoi s = (let t = dropWhile (\<lambda>c. c = CHR '' '') s;
       neg = (t \<noteq> [] \<and> hd t = CHR ''-'');
       d = takeWhile (\<lambda>c. (48::nat) \<le> of_char c \<and> of_char c \<le> (57::nat))
             (if t \<noteq> [] \<and> (hd t = CHR ''-'' \<or> hd t = CHR ''+'') then tl t else t);
       v = foldl (\<lambda>n c. n * 10 + (int (of_char c) - 48)) 0 d
     in if neg then - v else v)"

datatype gopt = OptBreak | OptTimeout string | OptSpeed string | OptRaw | OptOther

record options =
  o_to :: int
  o_break :: bool
  o_speed :: int
  o_raw :: bool

text \<open>The options as \<^verbatim>\<open>getopt\<close> returns them; \<open>None\<close> is the exit on an unknown one.\<close>

fun parse_opts :: "gopt list \<Rightarrow> options \<Rightarrow> options option" where
  "parse_opts [] opts = Some opts"
| "parse_opts (OptBreak # gs) opts = parse_opts gs (opts\<lparr>o_break := True\<rparr>)"
| "parse_opts (OptTimeout a # gs) opts = parse_opts gs (opts\<lparr>o_to := atoi a\<rparr>)"
| "parse_opts (OptSpeed a # gs) opts = parse_opts gs (opts\<lparr>o_speed := atoi a\<rparr>)"
| "parse_opts (OptRaw # gs) opts = parse_opts gs (opts\<lparr>o_raw := True\<rparr>)"
| "parse_opts (OptOther # gs) opts = None"

datatype 'a exec = Go 'a | Exit int | Undefined

text \<open>One positional argument: \<open>n\<close> is its number, the state the device path and the chosen entry.
  \<open>scan\<close> stands for \<^verbatim>\<open>sscanf\<close> of two hexadecimal numbers.\<close>

definition parse_arg ::
  "(string \<Rightarrow> int \<times> int) \<Rightarrow> nat \<Rightarrow> string \<Rightarrow> string \<times> uart_t option \<Rightarrow> (string \<times> uart_t option) exec" where
  "parse_arg scan n arg st =
     (case st of (dev, u) \<Rightarrow>
      if n = 0 then
        let pre = (if CHR ''/'' \<notin> set arg then ''/dev/'' else [])
        in if int (length arg) > int PATH_MAX - (int (length pre) + 1) then Exit 1 else Go (pre @ arg, u)
      else if n = 1 then
        (case (if CHR '','' \<in> set arg then (case scan arg of (m, p) \<Rightarrow> get_by_id m p) else get_by_type arg) of
           OutOfBounds \<Rightarrow> Undefined
         | Ok None \<Rightarrow> Exit 1
         | Ok (Some v) \<Rightarrow> Go (dev, Some v))
      else case u of
             None \<Rightarrow> Undefined
           | Some v \<Rightarrow>
               if n = 2 then Go (dev, Some (v\<lparr>ut_speed := atoi arg\<rparr>))
               else if n = 3 then
                 Go (dev, Some (v\<lparr>ut_flags := (if arg = ''flow'' then ut_flags v OR FLOW_CTL else ut_flags v AND NOT FLOW_CTL)\<rparr>))
               else if n = 4 then Go (dev, Some (v\<lparr>ut_pm := (arg = ''sleep'')\<rparr>))
               else if n = 5 then Go (dev, Some (v\<lparr>ut_bdaddr := Some (serial_bdaddr arg)\<rparr>))
               else Go (dev, Some v))"

fun parse_args ::
  "(string \<Rightarrow> int \<times> int) \<Rightarrow> nat \<Rightarrow> string list \<Rightarrow> string \<times> uart_t option \<Rightarrow> (nat \<times> string \<times> uart_t option) exec" where
  "parse_args scan n [] st = Go (n, st)"
| "parse_args scan n (a # as) st =
     (case parse_arg scan n a st of
        Go st' \<Rightarrow> parse_args scan (Suc n) as st'
      | Exit c \<Rightarrow> Exit c
      | Undefined \<Rightarrow> Undefined)"

section \<open>main\<close>

text \<open>What \<^verbatim>\<open>ppoll\<close> returns: interrupted (by a terminating signal or not), 0, an error or an event.\<close>

datatype poll_result = PollIntr bool | PollZero | PollError | PollEvent

fun poll_loop :: "poll_result list \<Rightarrow> bool" where
  "poll_loop [] = False"
| "poll_loop (PollIntr canceled # ps) = (if canceled then True else poll_loop ps)"
| "poll_loop (PollZero # ps) = poll_loop ps"
| "poll_loop (PollError # ps) = True"
| "poll_loop (PollEvent # ps) = True"

text \<open>A run of the program: the exit code when it ends, with the descriptor of the last
  \<^verbatim>\<open>ioctl\<close>, or that it is still waiting in \<^verbatim>\<open>ppoll\<close>.\<close>

datatype main_result = MExit int | MUndefined | MWaiting serial | MReturn int int serial

record world =
  w_env :: bcm_env
  w_locate :: "string \<Rightarrow> rx list option option"
  w_scan :: "string \<Rightarrow> int \<times> int"
  w_open :: "string \<Rightarrow> int"
  w_poll :: "poll_result list"
  w_restore :: bool

definition main :: "world \<Rightarrow> serial \<Rightarrow> gopt list \<Rightarrow> string list \<Rightarrow> main_result" where
  "main W s gopts args =
     (case parse_opts gopts \<lparr>o_to = 10, o_break = False, o_speed = 0, o_raw = False\<rparr> of
        None \<Rightarrow> MExit 1
      | Some opts \<Rightarrow>
          if length args < 2 then MExit 1
          else (case parse_args (w_scan W) 0 args ([], None) of
                  Exit c \<Rightarrow> MExit c
                | Undefined \<Rightarrow> MUndefined
                | Go (n, dev, None) \<Rightarrow> MExit 1
                | Go (n, dev, Some u) \<Rightarrow>
                    let u' = (if o_speed opts \<noteq> 0 then u\<lparr>ut_init_speed := o_speed opts\<rparr> else u)
                    in case init_uart (w_env W) (w_locate W) (w_open W dev) s u' (o_break opts) (o_raw opts) of
                         (fd, s1) \<Rightarrow>
                           if fd < 0 then MExit 1
                           else if poll_loop (w_poll W)
                           then MReturn (if w_restore W then 0 else 1) (int n) s1
                           else MWaiting s1))"

section \<open>The search, as a relation\<close>

text \<open>A firmware file for a chip somewhere below a directory, with its path.\<close>

inductive fw_at :: "string \<Rightarrow> string \<Rightarrow> dirent list \<Rightarrow> string \<Rightarrow> bool" for chip where
  here: "Dirent name ty sub \<in> set es \<Longrightarrow> \<not> is_dir ty \<Longrightarrow> is_prefix chip name \<Longrightarrow> has_ext name \<Longrightarrow>
     fw_at chip dir es (path_join dir name)"
| below: "Dirent name ty (Some es') \<in> set es \<Longrightarrow> is_dir ty \<Longrightarrow> name \<noteq> ''.'' \<Longrightarrow> name \<noteq> ''..'' \<Longrightarrow>
     fw_at chip (path_join dir name) es' loc \<Longrightarrow> fw_at chip dir es loc"

lemma fw_at_Cons: "fw_at chip dir es loc \<Longrightarrow> fw_at chip dir (e # es) loc"
  by (induction rule: fw_at.cases) (auto intro: fw_at.intros)

inductive_cases fw_at_NilE: "fw_at chip dir [] loc"

lemma fw_at_ConsE:
  assumes "fw_at chip dir (Dirent name ty sub # es) loc"
  obtains "\<not> is_dir ty" "is_prefix chip name" "has_ext name" "loc = path_join dir name"
  | es' where "is_dir ty" "name \<noteq> ''.''" "name \<noteq> ''..''" "sub = Some es'" "fw_at chip (path_join dir name) es' loc"
  | "fw_at chip dir es loc"
  using assms by (cases rule: fw_at.cases) (auto intro: fw_at.intros)

text \<open>Every file named like the chip has the extension.\<close>

fun no_decoys :: "string \<Rightarrow> dirent list \<Rightarrow> bool" where
  "no_decoys chip [] = True"
| "no_decoys chip (Dirent name ty sub # es) =
     ((if is_dir ty then (case sub of None \<Rightarrow> True | Some es' \<Rightarrow> no_decoys chip es')
       else is_prefix chip name \<longrightarrow> has_ext name) \<and> no_decoys chip es)"

lemma locate_loop_cases:
  "ret = -1 \<Longrightarrow> (case locate_loop dir chip ret es of (r, loc) \<Rightarrow>
     (r = 0 \<and> (\<exists>l. loc = Some l \<and> fw_at chip dir es l)) \<or> (r = -1 \<and> loc = None
        \<and> (no_decoys chip es \<longrightarrow> (\<forall>l. \<not> fw_at chip dir es l))))"
proof (induction dir chip ret es rule: locate_loop.induct)
  case (1 dir chip ret)
  then show ?case by (auto elim: fw_at_NilE)
next
  case (2 dir chip ret name ty sub es)
  show ?case
  proof (cases "is_dir ty \<and> name \<noteq> ''..'' \<and> name \<noteq> ''.''")
    case True
    define q where "q = (case sub of None \<Rightarrow> (-1, None) | Some es' \<Rightarrow> locate_loop (path_join dir name) chip (-1) es')"
    obtain r l where q: "q = (r, l)" by fastforce
    have sub: "(r = 0 \<and> (\<exists>es' x. sub = Some es' \<and> l = Some x \<and> fw_at chip (path_join dir name) es' x))
        \<or> (r = -1 \<and> l = None \<and> (\<forall>es'. sub = Some es' \<longrightarrow> no_decoys chip es' \<longrightarrow> (\<forall>x. \<not> fw_at chip (path_join dir name) es' x)))"
      using "2.IH"(2) True q by (cases sub) (auto simp: q_def split: prod.splits)
    have unf: "locate_loop dir chip ret (Dirent name ty sub # es) = (if r = 0 then (0, l) else locate_loop dir chip r es)"
      using True q by (simp add: q_def)
    show ?thesis
    proof (cases "r = 0")
      case True': True
      then obtain es' x where "sub = Some es'" "l = Some x" "fw_at chip (path_join dir name) es' x" using sub by auto
      then have "fw_at chip dir (Dirent name ty sub # es) x" using True by (auto intro: fw_at.below)
      then show ?thesis using unf True' \<open>l = Some x\<close> by simp
    next
      case False
      then have r: "r = -1" using sub by simp
      have "(r, l) = (case sub of None \<Rightarrow> (-1, None) | Some es' \<Rightarrow> locate_loop (path_join dir name) chip (-1) es')"
        using q by (simp add: q_def)
      note IH = "2.IH"(3) [OF _ _ this False r]
      show ?thesis
        unfolding unf using IH True r sub
        by (auto split: prod.splits option.splits elim!: fw_at_ConsE intro: fw_at_Cons)
    qed
  next
    case False
    show ?thesis
      using "2.IH"(1) "2.IH"(4) False "2.prems"
      by (cases "is_dir ty"; cases "is_prefix chip name"; cases "has_ext name")
         (auto split: prod.splits elim!: fw_at_ConsE intro: fw_at.here fw_at_Cons)
  qed
qed

lemma has_ext_suffix:
  assumes "length name \<le> 255"
  shows "has_ext name \<longleftrightarrow> 4 \<le> length name \<and> drop (length name - 4) name = FW_EXT"
proof -
  let ?n = "of_nat (length name) :: u32"
  have n: "unat ?n = length name" using assms by (simp add: unat_of_nat)
  have c: "?n - 5 + 1 = ?n - 4" by simp
  show ?thesis
  proof (cases "4 \<le> length name")
    case True
    then have u: "unat (?n - 4) = length name - 4"
      using n by (subst unat_sub) (auto simp: word_le_nat_alt)
    then have "\<not> ?n - 4 > ?n" using n by (simp add: word_less_nat_alt)
    then show ?thesis using True u unfolding has_ext_def Let_def c by simp
  next
    case False
    then have "?n - 4 > ?n" using n by (simp add: word_less_nat_alt unat_sub_if')
    then show ?thesis using False unfolding has_ext_def Let_def c by simp
  qed
qed

section \<open>Properties\<close>

text \<open>The search for a firmware file is sound: it returns 0 only with the path of a file, in the
  directory or below it, whose name starts with the chip's name and ends in .hcd, and -1 otherwise. It
  is complete as long as every file named like the chip has the extension: then -1
  means that there is no such file.\<close>

theorem locate_patch_correct:
  assumes "bcm43xx_locate_patch dir chip (Some es) = (r, loc)"
  shows "(r = 0 \<and> (\<exists>l. loc = Some l \<and> fw_at chip dir es l)) \<or> (r = -1 \<and> loc = None
        \<and> (no_decoys chip es \<longrightarrow> (\<forall>l. \<not> fw_at chip dir es l)))"
  using locate_loop_cases [of "-1" chip dir es] assms by (simp add: bcm43xx_locate_patch_def)

theorem locate_patch_correct_witness:
  "fw_at ''BCM'' ''/etc'' [Dirent ''sub'' 4 (Some [Dirent ''BCM4345.hcd'' 8 None])] ''/etc/sub/BCM4345.hcd''"
proof -
  let ?es = "[Dirent ''sub'' 4 (Some [Dirent ''BCM4345.hcd'' 8 None])]"
  have "bcm43xx_locate_patch ''/etc'' ''BCM'' (Some ?es) = (0, Some ''/etc/sub/BCM4345.hcd'')" by code_simp
  from locate_patch_correct [OF this] show ?thesis by simp
qed

text \<open>One file named like the chip but without the extension hides the firmware: if such a file comes in the
  directory after entries that match nothing, the search ends there with -1, whatever follows.\<close>

theorem locate_patch_decoy:
  assumes "\<forall>e\<in>set pre. \<not> is_dir (d_type e) \<and> \<not> is_prefix chip (d_name e)"
    and "\<not> is_dir ty" and "is_prefix chip name" and "\<not> has_ext name"
  shows "bcm43xx_locate_patch dir chip (Some (pre @ Dirent name ty sub # post)) = (-1, None)"
proof -
  have "locate_loop dir chip (-1) (pre @ Dirent name ty sub # post) = (-1, None)"
    using assms
  proof (induction pre)
    case (Cons e pre)
    then show ?case by (cases e) simp
  qed simp
  then show ?thesis by (simp add: bcm43xx_locate_patch_def)
qed

theorem locate_patch_decoy_witness:
  "bcm43xx_locate_patch ''/etc'' ''BCM'' (Some ([] @ Dirent ''BCM.txt'' 8 None # [Dirent ''BCM.hcd'' 8 None])) = (-1, None)"
  by (rule locate_patch_decoy) (simp_all add: is_dir_def is_prefix_def has_ext_suffix FW_EXT_def)

text \<open>The device table has no terminating entry: a look-up by type or by id either finds the one
  device or reads past the end of the array; the null pointer that the callers test for is never
  returned.\<close>

theorem uart_lookup_unterminated:
  "get_by_type t = (if t = ''bcm43xx'' then Ok (Some (hd uart)) else OutOfBounds)
   \<and> get_by_id m p = (if m = 0 \<and> p = 0 then Ok (Some (hd uart)) else OutOfBounds)"
  by (auto simp: get_by_type_def get_by_id_def uart_def)

lemma tty_call_log [simp]: "s_log (snd (tty_call s)) = s_log s"
  by (simp add: tty_call_def split: list.split)

lemma init_uart_open_log:
  assumes "init_uart_open B locate s u send_break flags = (True, s')"
  shows "\<exists>l. s_log s' = l @ [SetDiscipline N_HCI] @ (if flags = 0 then [] else [SetFlags flags]) @ [SetProto (ut_proto u)]"
  using assms by (auto simp: init_uart_open_def split_beta Let_def logged_def split: if_splits)

text \<open>Setting up the line never leaks the descriptor: a negative result after the port was opened
  comes with a close as the last thing done, and success returns the descriptor, not closed, with the
  HCI line discipline, the optional flags and the protocol set in this order at the end.\<close>

theorem init_uart_outcome:
  assumes "0 \<le> fd" and "init_uart B locate fd s u send_break raw = (r, s')"
  shows "(r = -1 \<and> last (s_log s') = Closed)
    \<or> (r = fd \<and> (\<exists>l flags. s_log s' = l @ [SetDiscipline N_HCI] @ (if flags = 0 then [] else [SetFlags flags]) @ [SetProto (ut_proto u)]
          \<and> (flags = 0 \<longleftrightarrow> \<not> raw \<and> ut_flags u AND AMP_DEV = 0)))"
proof -
  define flags where "flags = (let f1 = (if raw then push_bit HCI_UART_RAW_DEVICE 1 else 0 :: u32)
     in if ut_flags u AND AMP_DEV \<noteq> 0 then f1 OR push_bit HCI_UART_CREATE_AMP 1 else f1)"
  have z: "flags = 0 \<longleftrightarrow> \<not> raw \<and> ut_flags u AND AMP_DEV = 0"
    by (auto simp: flags_def Let_def HCI_UART_RAW_DEVICE_def HCI_UART_CREATE_AMP_def)
  obtain ok s1 where o: "init_uart_open B locate s u send_break flags = (ok, s1)" by fastforce
  have r: "(r, s') = (if ok then (fd, s1) else (-1, logged s1 Closed))"
    using assms o by (simp add: init_uart_def flags_def Let_def)
  show ?thesis
  proof (cases ok)
    case True
    then have "init_uart_open B locate s u send_break flags = (True, s1)" using o by simp
    then obtain l where "s_log s1 = l @ [SetDiscipline N_HCI] @ (if flags = 0 then [] else [SetFlags flags]) @ [SetProto (ut_proto u)]"
      using init_uart_open_log by blast
    then show ?thesis using True r z by (intro disjI2 conjI exI [of _ l] exI [of _ flags]) simp_all
  qed (use r in \<open>simp add: logged_def\<close>)
qed

theorem init_uart_outcome_witness:
  "case init_uart demo_env (\<lambda>_. None) 7 (demo_line\<lparr>s_tty := [0, 5]\<rparr>) (hd uart) False False of (r, s') \<Rightarrow>
     r = -1 \<and> last (s_log s') = Closed"
proof -
  obtain r s' where d: "init_uart demo_env (\<lambda>_. None) 7 (demo_line\<lparr>s_tty := [0, 5]\<rparr>) (hd uart) False False = (r, s')"
    by fastforce
  have "r = -1" using d by (auto simp: init_uart_def init_uart_open_def tty_call_def tcflush_def demo_line_def Let_def)
  then show ?thesis using init_uart_outcome [OF _ d] d by auto
qed

lemma parse_args_count: "parse_args scan n as st = Go (k, st') \<Longrightarrow> k = n + length as"
  by (induction scan n as st rule: parse_args.induct) (auto split: exec.splits)

text \<open>A run that ends after the set-up has restored the line discipline on a descriptor whose number is
  the number of positional arguments, at least two, instead of the port's: the variable that counted the
  arguments is passed to \<^verbatim>\<open>ioctl\<close>.\<close>

theorem main_restores_argument_count:
  assumes "main W s gopts args = MReturn code desc s'"
  shows "desc = int (length args) \<and> 2 \<le> desc"
  using assms
  by (auto simp: main_def Let_def split: option.splits if_splits exec.splits prod.splits dest!: parse_args_count)

theorem main_restores_argument_count_witness:
  "case main \<lparr>w_env = demo_env, w_locate = (\<lambda>_. None), w_scan = (\<lambda>_. (0, 0)), w_open = (\<lambda>_. 7), w_poll = [PollEvent], w_restore = True\<rparr>
     demo_line [] [''ttyS0'', ''bcm43xx'', ''3000000''] of MReturn code desc s' \<Rightarrow> desc = 3 | _ \<Rightarrow> False"
proof -
  let ?W = "\<lparr>w_env = demo_env, w_locate = (\<lambda>_. None), w_scan = (\<lambda>_. (0, 0)), w_open = (\<lambda>_. 7), w_poll = [PollEvent], w_restore = True\<rparr>"
  let ?args = "[''ttyS0'', ''bcm43xx'', ''3000000'']"
  have "case main ?W demo_line [] ?args of MReturn code desc s' \<Rightarrow> True | _ \<Rightarrow> False" by code_simp
  then obtain code desc s' where m: "main ?W demo_line [] ?args = MReturn code desc s'"
    by (auto split: main_result.splits)
  then show ?thesis using main_restores_argument_count [OF m] by simp
qed

end
