(* ===== verification/Audio_Hw.thy ===== *)
theory Audio_Hw
  imports Prelude
begin

text \<open>
  The audio HAL, \<^verbatim>\<open>hals/audio/audio_hw.c\<close>: the output stream with its standby state and
  the device. Streams are objects in a heap (a map from addresses), the device has the address of
  the active output. The sound library (tinyalsa) and the inline functions of the audio
  headers are parameters: what \<^verbatim>\<open>pcm_open\<close>, \<^verbatim>\<open>pcm_mmap_write\<close> and the others return is an
  input of the call that makes them. Each operation returns the actions it performs, lock operations included,
  in order; the set of open pcm handles is kept beside the state so that a use of a closed
  handle can be told.
\<close>

section \<open>State\<close>

definition PERIOD_SIZE :: u32 where "PERIOD_SIZE = 32 * 32"
definition PLAYBACK_PERIOD_COUNT :: u32 where "PLAYBACK_PERIOD_COUNT = 4"
definition PLAYBACK_PERIOD_START_THRESHOLD :: u32 where "PLAYBACK_PERIOD_START_THRESHOLD = 2"
definition CODEC_SAMPLING_RATE :: u32 where "CODEC_SAMPLING_RATE = 48000"
definition CHANNEL_STEREO :: u32 where "CHANNEL_STEREO = 2"

datatype pcm_format = PCM_FORMAT_S16_LE | PCM_FORMAT_OTHER

record pcm_config =
  pc_channels :: u32
  pc_rate :: u32
  pc_period_size :: u32
  pc_period_count :: u32
  pc_format :: pcm_format
  pc_start_threshold :: u32
  pc_avail_min :: u32

record alsa_stream_out =
  so_config :: pcm_config
  so_pcm :: "nat option"
  so_unavailable :: bool
  so_standby :: bool
  so_write_threshold :: u32
  so_written :: u32

record alsa_audio_device =
  ad_devices :: u32
  ad_active_output :: "addr option"
  ad_mic_mute :: bool

record audio_state =
  as_dev :: alsa_audio_device
  as_streams :: "addr \<Rightarrow> alsa_stream_out option"
  as_open :: "nat set"

datatype audio_act =
    LockDev | UnlockDev | LockOut | UnlockOut
  | PcmOpen nat | PcmClose nat | PcmWrite nat u32 | PcmTimestamp nat
  | Usleep int | FreeStream addr

text \<open>What \<^verbatim>\<open>pcm_open\<close> gives: a handle, and whether it is ready. Closing a handle that is not
  ready is what the library asks for, and leaves nothing open.\<close>

type_synonym pcm_result = "nat \<times> bool"

definition put_stream :: "audio_state \<Rightarrow> addr \<Rightarrow> alsa_stream_out \<Rightarrow> audio_state" where
  "put_stream st h out = st\<lparr>as_streams := (as_streams st)(h \<mapsto> out)\<rparr>"

definition set_active :: "audio_state \<Rightarrow> addr option \<Rightarrow> audio_state" where
  "set_active st a = st\<lparr>as_dev := (as_dev st)\<lparr>ad_active_output := a\<rparr>\<rparr>"

section \<open>Output stream\<close>

definition start_output_stream ::
  "audio_state \<Rightarrow> addr \<Rightarrow> alsa_stream_out \<Rightarrow> pcm_result \<Rightarrow> int \<times> audio_state \<times> alsa_stream_out \<times> audio_act list" where
  "start_output_stream st h out pr =
     (if so_unavailable out then (- ENODEV, st, out, [])
      else
        let out1 = out\<lparr>so_write_threshold := PLAYBACK_PERIOD_COUNT * PERIOD_SIZE,
              so_config := (so_config out)\<lparr>pc_start_threshold := PLAYBACK_PERIOD_START_THRESHOLD * PERIOD_SIZE,
                 pc_avail_min := PERIOD_SIZE\<rparr>,
              so_pcm := Some (fst pr)\<rparr>
        in if \<not> snd pr
           then let out2 = out1\<lparr>so_unavailable := True\<rparr>
                in (- ENODEV, put_stream (set_active st None) h out2, out2, [PcmOpen (fst pr), PcmClose (fst pr)])
           else (0, put_stream (set_active (st\<lparr>as_open := insert (fst pr) (as_open st)\<rparr>) (Some h)) h out1, out1,
                 [PcmOpen (fst pr)]))"

definition do_output_standby ::
  "audio_state \<Rightarrow> addr \<Rightarrow> alsa_stream_out \<Rightarrow> int \<times> audio_state \<times> audio_act list" where
  "do_output_standby st h out =
     (if \<not> so_standby out
      then (0,
            put_stream (set_active (st\<lparr>as_open := as_open st - set_option (so_pcm out)\<rparr>) None) h
              (out\<lparr>so_pcm := None, so_standby := True\<rparr>),
            (case so_pcm out of None \<Rightarrow> [] | Some p \<Rightarrow> [PcmClose p]))
      else (0, st, []))"

definition out_standby :: "audio_state \<Rightarrow> addr \<Rightarrow> alsa_stream_out \<Rightarrow> int \<times> audio_state \<times> audio_act list" where
  "out_standby st h out =
     (case do_output_standby st h out of (status, st', acts) \<Rightarrow>
        (status, st', [LockDev, LockOut] @ acts @ [UnlockOut, UnlockDev]))"

text \<open>\<open>fs\<close> is the size of a frame, \<open>wr\<close> the result of \<^verbatim>\<open>pcm_mmap_write\<close>.\<close>

definition out_write ::
  "u32 \<Rightarrow> pcm_result \<Rightarrow> int \<Rightarrow> audio_state \<Rightarrow> addr \<Rightarrow> alsa_stream_out \<Rightarrow> u32 \<Rightarrow> u32 \<times> audio_state \<times> audio_act list" where
  "out_write fs pr wr st h out bytes =
     (case (if so_standby out
            then (case start_output_stream st h out pr of (ret, st', out', acts) \<Rightarrow>
                    if ret \<noteq> 0 then (ret, st', out', acts)
                    else (0, put_stream st' h (out'\<lparr>so_standby := False\<rparr>), out'\<lparr>so_standby := False\<rparr>, acts))
            else (0, st, out, [])) of (ret, st1, out1, acts1) \<Rightarrow>
      case (if ret \<noteq> 0 then (ret, st1, [UnlockDev])
            else (wr,
                  if wr = 0 then put_stream st1 h (out1\<lparr>so_written := so_written out1 + bytes div fs\<rparr>) else st1,
                  UnlockDev # (case so_pcm out1 of None \<Rightarrow> [] | Some p \<Rightarrow> [PcmWrite p (bytes div fs * fs)])))
      of (ret2, st2, acts2) \<Rightarrow>
        (bytes, st2, [LockDev, LockOut] @ acts1 @ acts2 @ [UnlockOut]
           @ (if ret2 \<noteq> 0
              then [Usleep (int (unat bytes) * 1000000 div int (unat fs) div int (unat (pc_rate (so_config out))))]
              else [])))"

definition out_get_sample_rate :: "alsa_stream_out \<Rightarrow> u32" where
  "out_get_sample_rate out = pc_rate (so_config out)"

definition out_set_sample_rate :: int where "out_set_sample_rate = - ENOSYS"
definition out_set_format :: int where "out_set_format = - ENOSYS"

definition out_get_buffer_size :: "u32 \<Rightarrow> u32" where
  "out_get_buffer_size fs = (let s = PERIOD_SIZE; s' = ((s + 15) div 16) * 16 in s' * fs)"

definition out_get_latency :: "alsa_stream_out \<Rightarrow> u32" where
  "out_get_latency out = (PERIOD_SIZE * PLAYBACK_PERIOD_COUNT * 1000) div pc_rate (so_config out)"

text \<open>\<open>ts\<close> is the result of \<^verbatim>\<open>pcm_get_htimestamp\<close> with the available frames. The frame count is
  computed in 32-bit unsigned arithmetic and only then widened to a signed 64-bit number.\<close>

definition out_get_presentation_position ::
  "alsa_stream_out \<Rightarrow> int \<times> u32 \<Rightarrow> int \<times> u64 option \<times> audio_act list" where
  "out_get_presentation_position out ts =
     (case so_pcm out of
        None \<Rightarrow> (-1, None, [])
      | Some p \<Rightarrow>
          if fst ts = 0 then
            let kernel_buffer_size = pc_period_size (so_config out) * pc_period_count (so_config out);
                signed_frames = int (unat (so_written out - kernel_buffer_size + snd ts))
            in if signed_frames \<ge> 0 then (0, Some (of_int signed_frames), [PcmTimestamp p])
               else (-1, None, [PcmTimestamp p])
          else (-1, None, [PcmTimestamp p]))"

definition out_get_render_position :: "int \<times> u32" where "out_get_render_position = (- EINVAL, 0)"
definition out_get_next_write_timestamp :: "int \<times> int" where "out_get_next_write_timestamp = (- EINVAL, 0)"

text \<open>\<open>val\<close> is the routing value found in the parameters with the return code of the look-up,
  \<open>out_all\<close> the mask of all output devices.\<close>

definition out_set_parameters ::
  "u32 \<Rightarrow> int \<times> u32 \<Rightarrow> audio_state \<Rightarrow> int \<times> audio_state \<times> audio_act list" where
  "out_set_parameters out_all pv st =
     (case pv of (ret, val) \<Rightarrow>
      if ret \<ge> 0 then
        let d = ad_devices (as_dev st);
            d' = (if (d AND out_all) \<noteq> val \<and> val \<noteq> 0 then (d AND NOT out_all) OR val else d)
        in (ret, st\<lparr>as_dev := (as_dev st)\<lparr>ad_devices := d'\<rparr>\<rparr>, [LockDev, LockOut, UnlockOut, UnlockDev])
      else (ret, st, []))"

section \<open>Device\<close>

record audio_config =
  ac_sample_rate :: u32
  ac_channels :: u32
  ac_format :: pcm_format

definition new_stream :: alsa_stream_out where
  "new_stream = \<lparr>so_config = \<lparr>pc_channels = CHANNEL_STEREO, pc_rate = CODEC_SAMPLING_RATE,
       pc_period_size = PERIOD_SIZE, pc_period_count = PLAYBACK_PERIOD_COUNT, pc_format = PCM_FORMAT_S16_LE,
       pc_start_threshold = 0, pc_avail_min = 0\<rparr>,
     so_pcm = None, so_unavailable = False, so_standby = True, so_write_threshold = 0, so_written = 0\<rparr>"

text \<open>The configuration is in terms of the channel count and the pcm format it stands for;
  \<open>params\<close> says whether the card has parameters to ask for, \<open>mem\<close> what \<^verbatim>\<open>calloc\<close> returns.\<close>

definition adev_open_output_stream ::
  "audio_state \<Rightarrow> bool \<Rightarrow> addr option \<Rightarrow> audio_config \<Rightarrow> int \<times> addr option \<times> audio_config \<times> audio_state" where
  "adev_open_output_stream st params mem config =
     (if \<not> params then (- ENOSYS, None, config, st)
      else (case mem of
              None \<Rightarrow> (- ENOMEM, None, config, st)
            | Some h \<Rightarrow>
                let out = new_stream; c = so_config out;
                    config1 = (if pc_rate c \<noteq> ac_sample_rate config \<or> ac_channels config \<noteq> CHANNEL_STEREO
                                  \<or> pc_format c \<noteq> ac_format config
                               then \<lparr>ac_sample_rate = pc_rate c, ac_channels = CHANNEL_STEREO, ac_format = pc_format c\<rparr>
                               else config);
                    config2 = \<lparr>ac_sample_rate = pc_rate c, ac_channels = pc_channels c, ac_format = pc_format c\<rparr>
                in (0, Some h, config2, put_stream st h out)))"

definition adev_close_output_stream :: "audio_state \<Rightarrow> addr \<Rightarrow> audio_state \<times> audio_act list" where
  "adev_close_output_stream st h = (st\<lparr>as_streams := (as_streams st)(h := None)\<rparr>, [FreeStream h])"

definition adev_open :: "bool \<Rightarrow> bool \<Rightarrow> int \<times> audio_state option" where
  "adev_open name_ok mem =
     (if \<not> name_ok then (- EINVAL, None)
      else if \<not> mem then (- ENOMEM, None)
      else (0, Some \<lparr>as_dev = \<lparr>ad_devices = 0, ad_active_output = None, ad_mic_mute = False\<rparr>,
                     as_streams = Map.empty, as_open = {}\<rparr>))"

section \<open>Runs\<close>

text \<open>The calls of the framework that change the state or use a pcm, on streams that exist. A new stream gets memory that is not in use,
  and a new pcm a handle that is not open.\<close>

datatype audio_call =
    OpenOutput addr audio_config
  | CloseOutput addr
  | Write addr u32 u32 pcm_result int
  | Standby addr
  | SetParameters u32 "int \<times> u32"
  | PresentationPosition addr "int \<times> u32"

inductive audio_step :: "audio_state \<Rightarrow> audio_call \<Rightarrow> audio_act list \<Rightarrow> audio_state \<Rightarrow> bool" where
  open_output: "as_streams st h = None \<Longrightarrow> adev_open_output_stream st True (Some h) cfg = (r, x, cfg', st') \<Longrightarrow>
     audio_step st (OpenOutput h cfg) [] st'"
| close_output: "as_streams st h = Some out \<Longrightarrow> adev_close_output_stream st h = (st', acts) \<Longrightarrow>
     audio_step st (CloseOutput h) acts st'"
| write_output: "as_streams st h = Some out \<Longrightarrow> fst pr \<notin> as_open st \<Longrightarrow> out_write fs pr wr st h out bytes = (r, st', acts) \<Longrightarrow>
     audio_step st (Write h bytes fs pr wr) acts st'"
| standby: "as_streams st h = Some out \<Longrightarrow> out_standby st h out = (r, st', acts) \<Longrightarrow>
     audio_step st (Standby h) acts st'"
| set_parameters: "out_set_parameters out_all pv st = (r, st', acts) \<Longrightarrow>
     audio_step st (SetParameters out_all pv) acts st'"
| presentation_position: "as_streams st h = Some out \<Longrightarrow> out_get_presentation_position out ts = (r, frames, acts) \<Longrightarrow>
     audio_step st (PresentationPosition h ts) acts st"

inductive audio_reach :: "audio_state \<Rightarrow> bool" where
  init: "adev_open True True = (0, Some st) \<Longrightarrow> audio_reach st"
| step: "audio_reach st \<Longrightarrow> audio_step st c acts st' \<Longrightarrow> audio_reach st'"

inductive_cases audio_stepE: "audio_step st c acts st'"
inductive_cases audio_positionE: "audio_step st (PresentationPosition h ts) acts st'"

section \<open>Handles and locks\<close>

text \<open>The open handles after a list of actions; \<open>None\<close> if a handle is written, closed or asked for its time stamp that is not open.\<close>

fun pcm_trace :: "nat set \<Rightarrow> audio_act list \<Rightarrow> nat set option" where
  "pcm_trace S [] = Some S"
| "pcm_trace S (PcmOpen p # as) = pcm_trace (insert p S) as"
| "pcm_trace S (PcmClose p # as) = (if p \<in> S then pcm_trace (S - {p}) as else None)"
| "pcm_trace S (PcmWrite p n # as) = (if p \<in> S then pcm_trace S as else None)"
| "pcm_trace S (PcmTimestamp p # as) = (if p \<in> S then pcm_trace S as else None)"
| "pcm_trace S (a # as) = pcm_trace S as"

text \<open>The locks held (device, stream) after a list of actions: the device lock is never taken while
  the stream lock is held, none is taken twice or released without being held, and the
  pcm is only used under the stream lock.\<close>

fun lock_trace :: "bool \<times> bool \<Rightarrow> audio_act list \<Rightarrow> (bool \<times> bool) option" where
  "lock_trace l [] = Some l"
| "lock_trace (d, out) (LockDev # as) = (if d \<or> out then None else lock_trace (True, out) as)"
| "lock_trace (d, out) (LockOut # as) = (if out then None else lock_trace (d, True) as)"
| "lock_trace (d, out) (UnlockDev # as) = (if d then lock_trace (False, out) as else None)"
| "lock_trace (d, out) (UnlockOut # as) = (if out then lock_trace (d, False) as else None)"
| "lock_trace (d, out) (PcmOpen p # as) = (if d \<and> out then lock_trace (d, out) as else None)"
| "lock_trace (d, out) (PcmClose p # as) = (if d \<and> out then lock_trace (d, out) as else None)"
| "lock_trace (d, out) (PcmWrite p n # as) = (if out then lock_trace (d, out) as else None)"
| "lock_trace (d, out) (PcmTimestamp p # as) = (if out then lock_trace (d, out) as else None)"
| "lock_trace (d, out) (a # as) = lock_trace (d, out) as"

text \<open>A stream out of standby holds an open handle; in standby it holds none, unless opening one has failed.\<close>

definition stream_ok :: "nat set \<Rightarrow> alsa_stream_out \<Rightarrow> bool" where
  "stream_ok S out \<longleftrightarrow> (if so_standby out then so_unavailable out \<or> so_pcm out = None
     else (case so_pcm out of None \<Rightarrow> False | Some p \<Rightarrow> p \<in> S))"

definition differs :: "alsa_stream_out \<Rightarrow> alsa_stream_out \<Rightarrow> bool" where
  "differs a b \<longleftrightarrow> so_standby a \<or> so_standby b \<or> so_pcm a \<noteq> so_pcm b"

definition audio_ok :: "audio_state \<Rightarrow> bool" where
  "audio_ok st \<longleftrightarrow>
     (\<forall>h out. as_streams st h = Some out \<longrightarrow> stream_ok (as_open st) out)
   \<and> (\<forall>h h' out out'. as_streams st h = Some out \<longrightarrow> as_streams st h' = Some out' \<longrightarrow> h \<noteq> h' \<longrightarrow> differs out out')"

lemma differs_commute: "differs a b = differs b a"
  by (auto simp: differs_def)

lemma audio_ok_put:
  assumes "audio_ok st" and "stream_ok S out"
    and "\<forall>h' out'. h' \<noteq> h \<longrightarrow> as_streams st h' = Some out' \<longrightarrow> differs out out' \<and> stream_ok S out'"
  shows "audio_ok (put_stream (set_active (st\<lparr>as_open := S\<rparr>) a) h out)"
proof -
  let ?st = "put_stream (set_active (st\<lparr>as_open := S\<rparr>) a) h out"
  have s: "as_streams ?st = (as_streams st)(h \<mapsto> out)" "as_open ?st = S"
    by (simp_all add: put_stream_def set_active_def)
  have "differs o1 o2" if "as_streams ?st h1 = Some o1" "as_streams ?st h2 = Some o2" "h1 \<noteq> h2" for h1 h2 o1 o2
    using that assms(1,3) unfolding s audio_ok_def
    by (cases "h1 = h"; cases "h2 = h") (auto intro: differs_commute [THEN iffD1])
  moreover have "stream_ok S o1" if "as_streams ?st h1 = Some o1" for h1 o1
    using that assms(2,3) unfolding s by (cases "h1 = h") auto
  ultimately show ?thesis unfolding audio_ok_def s(2) by blast
qed

lemma put_put [simp]: "put_stream (put_stream st h a) h b = put_stream st h b"
  by (simp add: put_stream_def)

lemma put_same_active: "put_stream st h out = put_stream (set_active (st\<lparr>as_open := as_open st\<rparr>) (ad_active_output (as_dev st))) h out"
  by (simp add: put_stream_def set_active_def)

lemma audio_ok_put_same:
  assumes "audio_ok st" and "stream_ok (as_open st) out"
    and "\<forall>h' out'. h' \<noteq> h \<longrightarrow> as_streams st h' = Some out' \<longrightarrow> differs out out' \<and> stream_ok (as_open st) out'"
  shows "audio_ok (put_stream st h out)"
  by (subst put_same_active) (rule audio_ok_put [OF assms])

lemma as_open_put [simp]: "as_open (put_stream st h out) = as_open st" "as_open (set_active st a) = as_open st"
  by (simp_all add: put_stream_def set_active_def)

lemma ok_streamD: "audio_ok st \<Longrightarrow> as_streams st h = Some out \<Longrightarrow> stream_ok (as_open st) out"
  by (simp add: audio_ok_def)

lemma ok_otherD: "audio_ok st \<Longrightarrow> as_streams st h = Some out \<Longrightarrow> h' \<noteq> h \<Longrightarrow> as_streams st h' = Some out' \<Longrightarrow>
   differs out out' \<and> stream_ok (as_open st) out'"
  by (simp add: audio_ok_def)

lemma standby_ok:
  assumes "audio_ok st" and "as_streams st h = Some out" and "out_standby st h out = (r, st', acts)"
  shows "audio_ok st' \<and> pcm_trace (as_open st) acts = Some (as_open st') \<and> lock_trace (False, False) acts = Some (False, False)"
proof (cases "so_standby out")
  case True
  then show ?thesis using assms by (auto simp: out_standby_def do_output_standby_def)
next
  case False
  then obtain p where p: "so_pcm out = Some p" "p \<in> as_open st"
    using ok_streamD [OF assms(1,2)] by (auto simp: stream_ok_def split: option.splits)
  have "audio_ok (put_stream (set_active (st\<lparr>as_open := as_open st - {p}\<rparr>) None) h (out\<lparr>so_pcm := None, so_standby := True\<rparr>))"
  proof (intro audio_ok_put [OF assms(1)] allI impI)
    fix h' o2 assume "h' \<noteq> h" "as_streams st h' = Some o2"
    from ok_otherD [OF assms(1,2) this] show "differs (out\<lparr>so_pcm := None, so_standby := True\<rparr>) o2 \<and> stream_ok (as_open st - {p}) o2"
      using False p(1) by (auto simp: stream_ok_def differs_def split: option.splits if_splits)
  qed (simp add: stream_ok_def)
  then show ?thesis
    using assms(3) False p by (auto simp: out_standby_def do_output_standby_def)
qed

lemma start_ok:
  assumes "audio_ok st" and "as_streams st h = Some out" and "so_standby out" and "fst pr \<notin> as_open st"
    and "start_output_stream st h out pr = (ret, st', out', acts)"
  shows "ret = 0 \<Longrightarrow> audio_ok (put_stream st' h (out'\<lparr>so_standby := False, so_written := w\<rparr>))
      \<and> so_pcm out' = Some (fst pr) \<and> as_open st' = insert (fst pr) (as_open st) \<and> acts = [PcmOpen (fst pr)]"
    and "ret \<noteq> 0 \<Longrightarrow> audio_ok st' \<and> as_open st' = as_open st \<and> (acts = [] \<or> acts = [PcmOpen (fst pr), PcmClose (fst pr)])"
proof -
  define out1 where "out1 = out\<lparr>so_write_threshold := PLAYBACK_PERIOD_COUNT * PERIOD_SIZE,
     so_config := (so_config out)\<lparr>pc_start_threshold := PLAYBACK_PERIOD_START_THRESHOLD * PERIOD_SIZE,
        pc_avail_min := PERIOD_SIZE\<rparr>, so_pcm := Some (fst pr)\<rparr>"
  have pcm1: "so_pcm out1 = Some (fst pr)" by (simp add: out1_def)
  have good: "audio_ok (put_stream (set_active (st\<lparr>as_open := insert (fst pr) (as_open st)\<rparr>) (Some h)) h
      (out1\<lparr>so_standby := False, so_written := w\<rparr>))"
  proof (intro audio_ok_put [OF assms(1)] allI impI)
    fix h' o2 assume "h' \<noteq> h" "as_streams st h' = Some o2"
    from ok_otherD [OF assms(1,2) this]
    show "differs (out1\<lparr>so_standby := False, so_written := w\<rparr>) o2 \<and> stream_ok (insert (fst pr) (as_open st)) o2"
      using assms(4) by (auto simp: out1_def stream_ok_def differs_def split: option.splits if_splits)
  qed (simp add: stream_ok_def out1_def)
  have bad: "audio_ok (put_stream (set_active (st\<lparr>as_open := as_open st\<rparr>) None) h (out1\<lparr>so_unavailable := True\<rparr>))"
    by (intro audio_ok_put [OF assms(1)])
       (use assms(3) ok_otherD [OF assms(1,2)] in \<open>auto simp: out1_def stream_ok_def differs_def\<close>)
  show "audio_ok (put_stream st' h (out'\<lparr>so_standby := False, so_written := w\<rparr>))
      \<and> so_pcm out' = Some (fst pr) \<and> as_open st' = insert (fst pr) (as_open st) \<and> acts = [PcmOpen (fst pr)]" if "ret = 0"
    using assms(5) that good pcm1
    by (auto simp: start_output_stream_def Let_def errno_defs out1_def [symmetric] split: if_splits)
  show "audio_ok st' \<and> as_open st' = as_open st \<and> (acts = [] \<or> acts = [PcmOpen (fst pr), PcmClose (fst pr)])" if "ret \<noteq> 0"
    using assms(1,5) that bad
    by (auto simp: start_output_stream_def Let_def errno_defs out1_def [symmetric] split: if_splits)
qed

lemma write_ok:
  assumes "audio_ok st" and "as_streams st h = Some out" and "fst pr \<notin> as_open st"
    and "out_write fs pr wr st h out bytes = (r, st', acts)"
  shows "audio_ok st' \<and> pcm_trace (as_open st) acts = Some (as_open st') \<and> lock_trace (False, False) acts = Some (False, False)"
proof (cases "so_standby out")
  case True
  obtain ret st1 out1 acts1 where s: "start_output_stream st h out pr = (ret, st1, out1, acts1)" by (rule prod_cases4)
  note S = start_ok [OF assms(1,2) True assms(3) s]
  show ?thesis
  proof (cases "ret = 0")
    case False
    have "out_write fs pr wr st h out bytes = (bytes, st1, [LockDev, LockOut] @ acts1 @ [UnlockDev, UnlockOut,
        Usleep (int (unat bytes) * 1000000 div int (unat fs) div int (unat (pc_rate (so_config out))))])"
      using True s False by (simp add: out_write_def Let_def del: of_nat_unat)
    then have "st' = st1" "acts = [LockDev, LockOut] @ acts1 @ [UnlockDev, UnlockOut,
        Usleep (int (unat bytes) * 1000000 div int (unat fs) div int (unat (pc_rate (so_config out))))]"
      using assms(4) by simp_all
    moreover have "audio_ok st1" "as_open st1 = as_open st" "acts1 = [] \<or> acts1 = [PcmOpen (fst pr), PcmClose (fst pr)]"
      using S(2) [OF False] by blast+
    ultimately show ?thesis using assms(3) by (elim disjE) simp_all
  next
    case True': True
    have wr_id: "out1\<lparr>so_standby := False, so_written := so_written out1\<rparr> = out1\<lparr>so_standby := False\<rparr>" by simp
    note S0 = S(1) [OF True', of "so_written out1", unfolded wr_id]
    note S1 = S(1) [OF True', of "so_written out1 + bytes div fs"]
    define n where "n = (if wr \<noteq> 0 then [Usleep (int (unat bytes) * 1000000 div int (unat fs)
        div int (unat (pc_rate (so_config out))))] else [])"
    have "out_write fs pr wr st h out bytes = (bytes,
        if wr = 0 then put_stream st1 h (out1\<lparr>so_standby := False, so_written := so_written out1 + bytes div fs\<rparr>)
        else put_stream st1 h (out1\<lparr>so_standby := False\<rparr>),
        [LockDev, LockOut, PcmOpen (fst pr), UnlockDev, PcmWrite (fst pr) (bytes div fs * fs), UnlockOut] @ n)"
      using True s S0 True' by (simp add: out_write_def n_def Let_def del: of_nat_unat)
    then have st': "st' = (if wr = 0 then put_stream st1 h (out1\<lparr>so_standby := False, so_written := so_written out1 + bytes div fs\<rparr>)
        else put_stream st1 h (out1\<lparr>so_standby := False\<rparr>))"
      and n: "acts = [LockDev, LockOut, PcmOpen (fst pr), UnlockDev, PcmWrite (fst pr) (bytes div fs * fs), UnlockOut] @ n"
      using assms(4) by simp_all
    have "audio_ok st'" "as_open st' = insert (fst pr) (as_open st)" using st' S0 S1 by simp_all
    then show ?thesis using n by (simp add: n_def)
  qed
next
  case False
  then obtain p where p: "so_pcm out = Some p" "p \<in> as_open st"
    using ok_streamD [OF assms(1,2)] by (auto simp: stream_ok_def split: option.splits)
  have "audio_ok (put_stream st h (out\<lparr>so_written := k\<rparr>))" for k
    by (intro audio_ok_put_same [OF assms(1)])
       (use False p ok_otherD [OF assms(1,2)] in \<open>auto simp: stream_ok_def differs_def\<close>)
  moreover define n where "n = (if wr \<noteq> 0 then [Usleep (int (unat bytes) * 1000000 div int (unat fs)
      div int (unat (pc_rate (so_config out))))] else [])"
  moreover have "out_write fs pr wr st h out bytes = (bytes,
      if wr = 0 then put_stream st h (out\<lparr>so_written := so_written out + bytes div fs\<rparr>) else st,
      [LockDev, LockOut, UnlockDev, PcmWrite p (bytes div fs * fs), UnlockOut] @ n)"
    using False p by (simp add: out_write_def n_def Let_def del: of_nat_unat)
  then have "st' = (if wr = 0 then put_stream st h (out\<lparr>so_written := so_written out + bytes div fs\<rparr>) else st)"
    "acts = [LockDev, LockOut, UnlockDev, PcmWrite p (bytes div fs * fs), UnlockOut] @ n"
    using assms(4) by simp_all
  ultimately show ?thesis using assms(1) p by simp
qed

lemma open_ok:
  assumes "audio_ok st" and "as_streams st h = None" and "adev_open_output_stream st True (Some h) cfg = (r, x, cfg', st')"
  shows "audio_ok st' \<and> as_open st' = as_open st"
proof -
  have "audio_ok (put_stream st h new_stream)"
    using assms(1) by (intro audio_ok_put_same [OF assms(1)]) (auto simp: stream_ok_def differs_def new_stream_def audio_ok_def)
  then show ?thesis using assms(3) by (auto simp: adev_open_output_stream_def Let_def)
qed

text \<open>The call that uses the pcm without a lock.\<close>

definition asks_position :: "audio_call \<Rightarrow> bool" where
  "asks_position c = (case c of PresentationPosition h ts \<Rightarrow> True | _ \<Rightarrow> False)"

lemma asks_position_simps [simp]:
  "\<not> asks_position (OpenOutput h cfg)" "\<not> asks_position (CloseOutput h)" "\<not> asks_position (Write h n fs pr wr)"
  "\<not> asks_position (Standby h)" "\<not> asks_position (SetParameters m pv)" "asks_position (PresentationPosition h ts)"
  by (simp_all add: asks_position_def)

lemma position_ok:
  assumes "audio_ok st" and "as_streams st h = Some out" and "out_get_presentation_position out ts = (r, frames, acts)"
  shows "acts = (case so_pcm out of None \<Rightarrow> [] | Some p \<Rightarrow> [PcmTimestamp p])"
    and "\<not> (so_standby out \<and> so_unavailable out) \<Longrightarrow> pcm_trace (as_open st) acts = Some (as_open st)"
proof -
  show a: "acts = (case so_pcm out of None \<Rightarrow> [] | Some p \<Rightarrow> [PcmTimestamp p])"
    using assms(3) by (auto simp: out_get_presentation_position_def Let_def split: option.splits if_splits)
  assume "\<not> (so_standby out \<and> so_unavailable out)"
  then show "pcm_trace (as_open st) acts = Some (as_open st)"
    using ok_streamD [OF assms(1,2)] by (auto simp: a stream_ok_def split: option.splits if_splits)
qed

lemma audio_step_ok:
  assumes "audio_step st c acts st'" and "audio_ok st" and "\<not> asks_position c"
  shows "audio_ok st' \<and> pcm_trace (as_open st) acts = Some (as_open st') \<and> lock_trace (False, False) acts = Some (False, False)"
  using assms
proof (cases rule: audio_step.cases)
  case (open_output h cfg r x cfg')
  then show ?thesis using open_ok assms(2) by auto
next
  case (close_output h out)
  then show ?thesis using assms(2) by (auto simp: adev_close_output_stream_def audio_ok_def split: if_splits)
next
  case (set_parameters out_all pv r)
  then show ?thesis using assms(2) by (auto simp: out_set_parameters_def audio_ok_def Let_def split: if_splits prod.splits)
next
  case (write_output h out pr fs wr bytes r)
  then show ?thesis using write_ok [OF assms(2)] by blast
next
  case (standby h out r)
  then show ?thesis using standby_ok [OF assms(2)] by blast
next
  case (presentation_position h out ts r frames)
  then show ?thesis using assms(3) by simp
qed

lemma audio_reach_ok: "audio_reach st \<Longrightarrow> audio_ok st"
proof (induction rule: audio_reach.induct)
  case (init st)
  then show ?case by (auto simp: adev_open_def audio_ok_def)
next
  case (step st c acts st')
  show ?case
  proof (cases "asks_position c")
    case True
    have "st' = st" using step.hyps(2) True by (cases rule: audio_step.cases) simp_all
    then show ?thesis using step.IH by simp
  next
    case False
    then show ?thesis using audio_step_ok step by blast
  qed
qed

section \<open>Properties\<close>

text \<open>C14. For any sequence of calls that open, close, write to and put in standby the output streams, set their parameters and ask
  for their presentation position, failing opens and writes included: every call but the last kind uses a
  pcm only while it is open, the set of open handles is
  the one the actions give, and the locks are used properly: the device lock is always taken before
  the stream lock, the pcm is used under the stream lock only, and all locks are
  released when a call returns. Asking for the presentation position changes nothing and uses the pcm of the stream, if it has one, without
  any lock; the pcm is open then, unless an earlier attempt of the stream to open one has failed.\<close>

theorem audio_calls_safe:
  assumes "audio_reach st" and "audio_step st c acts st'"
  shows "audio_ok st'
    \<and> (\<not> asks_position c \<longrightarrow>
         pcm_trace (as_open st) acts = Some (as_open st') \<and> lock_trace (False, False) acts = Some (False, False))
    \<and> (\<forall>h ts. c = PresentationPosition h ts \<longrightarrow> st' = st \<and> (\<exists>out. as_streams st h = Some out
         \<and> acts = (case so_pcm out of None \<Rightarrow> [] | Some p \<Rightarrow> [PcmTimestamp p])
         \<and> lock_trace (False, False) acts = (if so_pcm out = None then Some (False, False) else None)
         \<and> (pcm_trace (as_open st) acts = None \<longrightarrow> so_standby out \<and> so_unavailable out)))"
proof (intro conjI impI allI)
  have ok: "audio_ok st" by (rule audio_reach_ok [OF assms(1)])
  show "audio_ok st'" by (rule audio_reach_ok [OF audio_reach.step [OF assms]])
  show "pcm_trace (as_open st) acts = Some (as_open st')" "lock_trace (False, False) acts = Some (False, False)" if "\<not> asks_position c"
    using audio_step_ok [OF assms(2) ok that] by blast+
  fix h ts assume c: "c = PresentationPosition h ts"
  from assms(2)[unfolded c] obtain out r frames where o: "as_streams st h = Some out"
      "out_get_presentation_position out ts = (r, frames, acts)" and "st' = st"
    by (rule audio_positionE)
  note p = position_ok [OF ok o]
  show "st' = st" by fact
  have l: "lock_trace (False, False) acts = (if so_pcm out = None then Some (False, False) else None)"
    by (simp add: p(1) split: option.split)
  have "pcm_trace (as_open st) acts = None \<longrightarrow> so_standby out \<and> so_unavailable out"
    using p(2) by (cases "so_standby out \<and> so_unavailable out") simp_all
  then show "\<exists>out. as_streams st h = Some out \<and> acts = (case so_pcm out of None \<Rightarrow> [] | Some p \<Rightarrow> [PcmTimestamp p])
      \<and> lock_trace (False, False) acts = (if so_pcm out = None then Some (False, False) else None)
      \<and> (pcm_trace (as_open st) acts = None \<longrightarrow> so_standby out \<and> so_unavailable out)"
    using o(1) p(1) l by (intro exI [of _ out] conjI)
qed

definition audio_zero :: audio_state where
  "audio_zero = \<lparr>as_dev = \<lparr>ad_devices = 0, ad_active_output = None, ad_mic_mute = False\<rparr>, as_streams = Map.empty, as_open = {}\<rparr>"

lemma audio_zero_reach: "audio_reach audio_zero"
  by (rule audio_reach.init) (simp add: adev_open_def audio_zero_def)

definition cd_config :: audio_config where
  "cd_config = \<lparr>ac_sample_rate = 44100, ac_channels = 2, ac_format = PCM_FORMAT_S16_LE\<rparr>"

lemma open_step: "as_streams st h = None \<Longrightarrow> audio_step st (OpenOutput h cd_config) [] (put_stream st h new_stream)"
  by (rule audio_step.open_output) (auto simp: adev_open_output_stream_def Let_def)

theorem audio_calls_safe_witness:
  "case out_write 4 (7, True) 0 (put_stream audio_zero 1 new_stream) 1 new_stream 4096 of (r, st', acts) \<Rightarrow>
     pcm_trace {} acts = Some (as_open st') \<and> lock_trace (False, False) acts = Some (False, False)"
proof -
  let ?st = "put_stream audio_zero 1 new_stream"
  have reach: "audio_reach ?st"
    by (rule audio_reach.step [OF audio_zero_reach open_step]) (simp add: audio_zero_def)
  obtain r st' acts where w: "out_write 4 (7, True) 0 ?st 1 new_stream 4096 = (r, st', acts)" by (metis prod_cases3)
  have "audio_step ?st (Write 1 4096 4 (7, True) 0) acts st'"
    using w by (intro audio_step.write_output) (auto simp: put_stream_def audio_zero_def)
  from audio_calls_safe [OF reach this] w show ?thesis by (simp add: audio_zero_def put_stream_def)
qed

text \<open>After a failed open, asking for the presentation position uses a handle that is closed.\<close>

lemma position_uses_closed_pcm:
  "case out_write 4 (7, False) 0 (put_stream audio_zero 1 new_stream) 1 new_stream 4096 of (r, st', acts) \<Rightarrow>
     case out_get_presentation_position (the (as_streams st' 1)) (0, 0) of (r2, frames, acts2) \<Rightarrow>
       pcm_trace (as_open st') acts2 = None"
  by (simp add: out_write_def start_output_stream_def new_stream_def audio_zero_def put_stream_def set_active_def
      out_get_presentation_position_def errno_defs Let_def)

text \<open>A write always reports all bytes as written. The frame counter advances by the whole frames of the
  buffer exactly if the pcm takes them; if the pcm cannot be opened or the write
  fails, the call sleeps for the time the data would have played. A stream whose open failed once
  stays in standby for good: later writes open and write nothing.\<close>

theorem out_write_outcome:
  assumes "0 < fs" and "out_write fs pr wr st h out bytes = (r, st', acts)"
  shows "r = bytes
    \<and> (so_standby out \<and> so_unavailable out \<longrightarrow>
         st' = st \<and> (\<forall>p n. PcmOpen p \<notin> set acts \<and> PcmWrite p n \<notin> set acts)
         \<and> Usleep (int (unat bytes) * 1000000 div int (unat fs) div int (unat (pc_rate (so_config out)))) \<in> set acts)
    \<and> (so_standby out \<and> \<not> so_unavailable out \<and> \<not> snd pr \<longrightarrow>
         (\<exists>out'. as_streams st' h = Some out' \<and> so_unavailable out' \<and> so_standby out' \<and> so_written out' = so_written out))
    \<and> (\<not> so_standby out \<or> \<not> so_unavailable out \<and> snd pr \<longrightarrow> wr = 0 \<longrightarrow>
         (\<exists>out'. as_streams st' h = Some out' \<and> \<not> so_standby out' \<and> so_written out' = so_written out + bytes div fs))"
proof (intro conjI impI)
  note defs = out_write_def start_output_stream_def Let_def errno_defs
  show "r = bytes" using assms(2) by (simp add: out_write_def Let_def split: prod.splits)
  assume c: "so_standby out \<and> so_unavailable out"
  show "st' = st" "\<forall>p n. PcmOpen p \<notin> set acts \<and> PcmWrite p n \<notin> set acts"
    "Usleep (int (unat bytes) * 1000000 div int (unat fs) div int (unat (pc_rate (so_config out)))) \<in> set acts"
    using assms(2) c by (auto simp: defs)
next
  assume "so_standby out \<and> \<not> so_unavailable out \<and> \<not> snd pr"
  then show "\<exists>out'. as_streams st' h = Some out' \<and> so_unavailable out' \<and> so_standby out' \<and> so_written out' = so_written out"
    using assms(2) by (auto simp: out_write_def start_output_stream_def Let_def errno_defs put_stream_def)
next
  assume c: "\<not> so_standby out \<or> \<not> so_unavailable out \<and> snd pr" and "wr = 0"
  show "\<exists>out'. as_streams st' h = Some out' \<and> \<not> so_standby out' \<and> so_written out' = so_written out + bytes div fs"
  proof (cases "so_standby out")
    case True
    then show ?thesis using assms(2) c \<open>wr = 0\<close>
      by (auto simp: out_write_def start_output_stream_def Let_def put_stream_def)
  next
    case False
    then show ?thesis using assms(2) \<open>wr = 0\<close> by (auto simp: out_write_def Let_def put_stream_def)
  qed
qed

theorem out_write_outcome_witness:
  "case out_write 4 (7, True) 0 (put_stream audio_zero 1 new_stream) 1 new_stream 4099 of (r, st', acts) \<Rightarrow>
     r = 4099 \<and> (\<exists>out'. as_streams st' 1 = Some out' \<and> so_written out' = 1024)"
proof -
  obtain r st' acts where w: "out_write 4 (7, True) 0 (put_stream audio_zero 1 new_stream) 1 new_stream 4099 = (r, st', acts)"
    by (metis prod_cases3)
  from out_write_outcome [OF _ w] show ?thesis using w by (auto simp: new_stream_def)
qed

lemma int_unat_of_int:
  assumes "0 \<le> v" and "v < 2 ^ 64"
  shows "int (unat (of_int v :: u64)) = v"
  using assms by (simp add: unsigned_of_int take_bit_int_eq_self)

text \<open>The presentation position: whenever the pcm has a time stamp the call succeeds, because the
  difference is taken in 32-bit unsigned arithmetic and can not be negative; before the first buffer has been played
  out, when fewer frames are written than the kernel buffer holds free, the reported
  position is too large by \<open>2^32\<close>.\<close>

theorem presentation_position_wraps:
  assumes "so_pcm out = Some p"
    and "K = unat (pc_period_size (so_config out) * pc_period_count (so_config out))"
    and "unat (so_written out) + unat avail < 2 ^ 32"
  shows "\<exists>f. out_get_presentation_position out (0, avail) = (0, Some f, [PcmTimestamp p])
     \<and> int (unat f) = int (unat (so_written out)) + int (unat avail) - int K
          + (if unat (so_written out) + unat avail < K then 2 ^ 32 else 0)"
proof -
  define kb where "kb = pc_period_size (so_config out) * pc_period_count (so_config out)"
  define w a k where "w = uint (so_written out)" and "a = uint avail" and "k = uint kb"
  have b: "0 \<le> w" "0 \<le> a" "0 \<le> k" "k < 2 ^ 32"
    using unsigned_less [of kb, where ?'a = int] by (simp_all add: w_def a_def k_def)
  have K: "int K = k" "int (unat (so_written out)) = w" "int (unat avail) = a"
    using assms(2) by (simp_all add: kb_def k_def w_def a_def)
  have wa: "w + a < 2 ^ 32" using assms(3) K by (metis of_nat_add of_nat_less_iff of_nat_numeral of_nat_power)
  let ?v = "w + a - k + (if w + a < k then 2 ^ 32 else 0)"
  have "uint (so_written out - kb + avail) = (w - k + a) mod 2 ^ 32"
    by (simp add: uint_word_ariths mod_simps w_def a_def k_def)
  also have "\<dots> = (if w + a < k then (w + a - k + 2 ^ 32) mod 2 ^ 32 else (w + a - k) mod 2 ^ 32)"
    unfolding mod_add_self2 by (simp add: algebra_simps)
  also have "\<dots> = ?v"
  proof (cases "w + a < k")
    case True
    then have "(w + a - k + 2 ^ 32) mod 2 ^ 32 = w + a - k + 2 ^ 32"
      using b wa by (intro mod_pos_pos_trivial) auto
    then show ?thesis using True by (simp only: if_True)
  next
    case False
    then have "(w + a - k) mod 2 ^ 32 = w + a - k" using b wa by (intro mod_pos_pos_trivial) auto
    then show ?thesis using False by simp
  qed
  finally have v: "int (unat (so_written out - kb + avail)) = ?v" by simp
  have "out_get_presentation_position out (0, avail) = (0, Some (of_int ?v), [PcmTimestamp p])"
    using assms(1) by (simp add: out_get_presentation_position_def Let_def kb_def [symmetric] v [symmetric])
  moreover have "int (unat (of_int ?v :: u64)) = ?v"
    using b wa by (intro int_unat_of_int) auto
  moreover have "(unat (so_written out) + unat avail < K) = (w + a < k)" using K by linarith
  ultimately show ?thesis using K by auto
qed

theorem presentation_position_wraps_witness:
  "\<exists>f. out_get_presentation_position (new_stream\<lparr>so_pcm := Some 7, so_written := 1024\<rparr>) (0, 2048) = (0, Some f, [PcmTimestamp 7])
     \<and> int (unat f) = 2 ^ 32 - 1024"
  using presentation_position_wraps [of "new_stream\<lparr>so_pcm := Some 7, so_written := 1024\<rparr>" 7 4096 2048]
  by (simp add: new_stream_def PERIOD_SIZE_def PLAYBACK_PERIOD_COUNT_def)

text \<open>Handles that outlive their use. When the pcm of a stream cannot be opened, the stream keeps the closed handle,
  and asking for the presentation position then uses it. When a stream is closed that is not in
  standby, its pcm stays open with no stream left to close it, and the device still has the freed stream as
  its active output if it had it before.\<close>

theorem audio_stale_handles:
  assumes "audio_reach st" and "as_streams st h = Some out"
  shows "(so_standby out \<and> \<not> so_unavailable out \<and> p \<notin> as_open st \<longrightarrow>
       (case out_write fs (p, False) wr st h out bytes of (r, st', acts) \<Rightarrow>
          \<exists>out'. as_streams st' h = Some out' \<and> p \<notin> as_open st'
             \<and> PcmTimestamp p \<in> set (snd (snd (out_get_presentation_position out' ts)))))
    \<and> (\<not> so_standby out \<longrightarrow>
       (case adev_close_output_stream st h of (st', acts) \<Rightarrow>
          \<exists>q. so_pcm out = Some q \<and> q \<in> as_open st' \<and> as_streams st' h = None
            \<and> (\<forall>h' out'. as_streams st' h' = Some out' \<and> \<not> so_standby out' \<longrightarrow> so_pcm out' \<noteq> Some q)
            \<and> ad_active_output (as_dev st') = ad_active_output (as_dev st)))"
proof (intro conjI impI)
  note ok = audio_reach_ok [OF assms(1)]
  assume "so_standby out \<and> \<not> so_unavailable out \<and> p \<notin> as_open st"
  then show "case out_write fs (p, False) wr st h out bytes of (r, st', acts) \<Rightarrow>
          \<exists>out'. as_streams st' h = Some out' \<and> p \<notin> as_open st'
             \<and> PcmTimestamp p \<in> set (snd (snd (out_get_presentation_position out' ts)))"
    by (auto simp: out_write_def start_output_stream_def Let_def errno_defs put_stream_def set_active_def
          out_get_presentation_position_def)
next
  note ok = audio_reach_ok [OF assms(1)]
  assume ns: "\<not> so_standby out"
  then obtain q where q: "so_pcm out = Some q" "q \<in> as_open st"
    using ok_streamD [OF ok assms(2)] by (auto simp: stream_ok_def split: option.splits)
  have "so_pcm out' \<noteq> Some q" if "h' \<noteq> h" "as_streams st h' = Some out'" "\<not> so_standby out'" for h' out'
    using ok_otherD [OF ok assms(2) that(1,2)] ns that(3) q(1) by (auto simp: differs_def)
  then show "case adev_close_output_stream st h of (st', acts) \<Rightarrow>
          \<exists>q. so_pcm out = Some q \<and> q \<in> as_open st' \<and> as_streams st' h = None
            \<and> (\<forall>h' out'. as_streams st' h' = Some out' \<and> \<not> so_standby out' \<longrightarrow> so_pcm out' \<noteq> Some q)
            \<and> ad_active_output (as_dev st') = ad_active_output (as_dev st)"
    using q by (auto simp: adev_close_output_stream_def split: if_splits)
qed

theorem audio_stale_handles_witness:
  "case out_write 4 (7, False) 0 (put_stream audio_zero 1 new_stream) 1 new_stream 4096 of (r, st', acts) \<Rightarrow>
     \<exists>out'. as_streams st' 1 = Some out' \<and> 7 \<notin> as_open st'
        \<and> PcmTimestamp 7 \<in> set (snd (snd (out_get_presentation_position out' (0, 0))))"
proof -
  let ?st = "put_stream audio_zero 1 new_stream"
  have "audio_reach ?st"
    by (rule audio_reach.step [OF audio_zero_reach open_step]) (simp add: audio_zero_def)
  moreover have "as_streams ?st 1 = Some new_stream" by (simp add: put_stream_def)
  moreover have "so_standby new_stream" "\<not> so_unavailable new_stream" "7 \<notin> as_open ?st"
    by (simp_all add: new_stream_def audio_zero_def put_stream_def)
  ultimately have "(so_standby new_stream \<and> \<not> so_unavailable new_stream \<and> 7 \<notin> as_open ?st \<longrightarrow>
       (case out_write 4 (7, False) 0 ?st 1 new_stream 4096 of (r, st', acts) \<Rightarrow>
          \<exists>out'. as_streams st' 1 = Some out' \<and> 7 \<notin> as_open st'
             \<and> PcmTimestamp 7 \<in> set (snd (snd (out_get_presentation_position out' (0, 0))))))"
    using audio_stale_handles [where st = ?st and h = 1 and out = new_stream and p = 7 and fs = 4 and wr = 0
      and bytes = 4096 and ts = "(0, 0)", THEN conjunct1] by simp
  then show ?thesis
    using \<open>so_standby new_stream\<close> \<open>\<not> so_unavailable new_stream\<close> \<open>7 \<notin> as_open ?st\<close> by (rule mp [OF _ conjI [OF _ conjI]])
qed

end
