(* ===== verification/Net_Bytes.thy ===== *)
theory Net_Bytes
  imports Prelude
begin

text \<open>
  Words in memory: the byte sequences of 16-bit and 32-bit words on the little-endian target, the conversions
  \<^verbatim>\<open>htons\<close> and \<^verbatim>\<open>htonl\<close> between host and network order, and copying bytes into a buffer.
\<close>

section \<open>Words as bytes\<close>

definition le16 :: "u16 \<Rightarrow> u8 list" where
  "le16 w = [ucast w, ucast (drop_bit 8 w)]"

definition le32 :: "u32 \<Rightarrow> u8 list" where
  "le32 w = [ucast w, ucast (drop_bit 8 w), ucast (drop_bit 16 w), ucast (drop_bit 24 w)]"

fun of_le :: "u8 list \<Rightarrow> 'a::len word" where
  "of_le [] = 0"
| "of_le (b # bs) = ucast b OR push_bit 8 (of_le bs)"

definition htons :: "u16 \<Rightarrow> u16" where
  "htons w = of_le (rev (le16 w))"

definition htonl :: "u32 \<Rightarrow> u32" where
  "htonl w = of_le (rev (le32 w))"

lemma le_length [simp]: "length (le16 v) = 2" "length (le32 w) = 4"
  by (simp_all add: le16_def le32_def)

lemma of_le16 [simp]: "of_le (le16 w) = w"
  by (rule bit_word_eqI) (auto simp: le16_def bit_simps)

lemma of_le32 [simp]: "of_le (le32 w) = w"
proof (rule bit_word_eqI)
  fix n assume "n < LENGTH(32)"
  then consider "n < 8" | "8 \<le> n" "n < 16" | "16 \<le> n" "n < 24" | "24 \<le> n" "n < 32" by force
  then show "bit (of_le (le32 w) :: u32) n = bit w n" by cases (auto simp: le32_def bit_simps)
qed

lemma bit_u8_high: "\<not> bit (a :: u8) (8 + n)" "\<not> bit a (16 + n)" "\<not> bit a (24 + n)"
  by (auto dest: bit_imp_le_length)

lemma le16_of_le: "le16 (of_le [a, b]) = [a, b]"
  by (auto simp: le16_def bit_simps bit_u8_high intro!: bit_word_eqI)

lemma le32_of_le: "le32 (of_le [a, b, c, d]) = [a, b, c, d]"
  by (auto simp: le32_def bit_simps bit_u8_high intro!: bit_word_eqI)

declare of_le.simps(2) [simp del]

lemma le16_bytes: "length xs = 2 \<Longrightarrow> le16 (of_le xs) = xs"
  by (auto simp: length_Suc_conv numeral_2_eq_2 le16_of_le)

lemma le32_bytes: "length xs = 4 \<Longrightarrow> le32 (of_le xs) = xs"
  by (auto simp: length_Suc_conv numeral_eq_Suc le32_of_le)

lemma htonl_htonl [simp]: "htonl (htonl w) = w"
  by (simp add: htonl_def le32_bytes)

lemma htons_htons [simp]: "htons (htons w) = w"
  by (simp add: htons_def le16_bytes)

lemma htonl_eq_iff: "htonl a = htonl b \<longleftrightarrow> a = b"
  by (metis htonl_htonl)

lemma htonl_0 [simp]: "htonl 0 = 0"
  by (simp add: htonl_def le32_def of_le.simps)

lemma htonl_eq_0: "htonl a = 0 \<longleftrightarrow> a = 0"
  by (metis htonl_htonl htonl_0)

lemma le32_inj: "le32 a = le32 b \<longleftrightarrow> a = b"
  by (metis of_le32)

section \<open>Buffers\<close>

text \<open>\<^verbatim>\<open>memcpy\<close> of some bytes to an offset of a buffer that has room for them.\<close>

definition overlay :: "nat \<Rightarrow> 'a list \<Rightarrow> 'a list \<Rightarrow> 'a list" where
  "overlay i xs buf = take i buf @ xs @ drop (i + length xs) buf"

lemma overlay_length [simp]: "i + length xs \<le> length buf \<Longrightarrow> length (overlay i xs buf) = length buf"
  by (simp add: overlay_def)

lemma overlay_append: "overlay (length as) xs (as @ bs) = as @ overlay 0 xs bs"
  by (simp add: overlay_def)

lemma overlay_behind:
  assumes "length as \<le> i"
  shows "overlay i xs (as @ bs) = as @ overlay (i - length as) xs bs"
  using assms by (simp add: overlay_def)

lemma overlay_zeros:
  assumes "length as + length xs \<le> n"
  shows "overlay (length as) xs (as @ replicate (n - length as) z) = (as @ xs) @ replicate (n - length (as @ xs)) z"
  using assms by (simp add: overlay_def)

text \<open>The four bytes at a position; \<open>None\<close> is a read outside the array.\<close>

definition read32 :: "u8 list \<Rightarrow> nat \<Rightarrow> u32 option" where
  "read32 xs i = (if i + 4 \<le> length xs then Some (of_le (take 4 (drop i xs))) else None)"

definition read16 :: "u8 list \<Rightarrow> nat \<Rightarrow> u16 option" where
  "read16 xs i = (if i + 2 \<le> length xs then Some (of_le (take 2 (drop i xs))) else None)"

lemma read32_le [simp]: "read32 (as @ le32 w @ bs) (length as) = Some w"
  by (simp add: read32_def)

end
