(* ===== verification/Dhcp_Message.thy ===== *)
theory Dhcp_Message
  imports Net_Bytes "HOL-Library.Monad_Syntax"
begin

text \<open>
  The DHCP messages of \<^verbatim>\<open>dhcp/common/message.cpp\<close>, which the client and the server share: the packed
  structure, the builders of the five kinds of message, the validity tests and the search for an option.
  Addresses are words as the program holds them, in network byte order. The counter of transaction ids is threaded through the builders.
  \<open>None\<close> as a result is a read or a write outside the structure.
\<close>

section \<open>Constants of dhcp.h\<close>

definition PORT_BOOTP_SERVER :: u16 where "PORT_BOOTP_SERVER = 67"
definition PORT_BOOTP_CLIENT :: u16 where "PORT_BOOTP_CLIENT = 68"
definition OP_BOOTREQUEST :: u8 where "OP_BOOTREQUEST = 1"
definition OP_BOOTREPLY :: u8 where "OP_BOOTREPLY = 2"
definition FLAGS_BROADCAST :: u16 where "FLAGS_BROADCAST = 0x8000"
definition HTYPE_ETHER :: u8 where "HTYPE_ETHER = 1"
definition OPT_COOKIE :: "u8 list" where "OPT_COOKIE = [0x63, 0x82, 0x53, 0x63]"
definition OPT_SUBNET_MASK :: u8 where "OPT_SUBNET_MASK = 1"
definition OPT_GATEWAY :: u8 where "OPT_GATEWAY = 3"
definition OPT_DNS :: u8 where "OPT_DNS = 6"
definition OPT_MTU :: u8 where "OPT_MTU = 26"
definition OPT_BROADCAST_ADDR :: u8 where "OPT_BROADCAST_ADDR = 28"
definition OPT_REQUESTED_IP :: u8 where "OPT_REQUESTED_IP = 50"
definition OPT_LEASE_TIME :: u8 where "OPT_LEASE_TIME = 51"
definition OPT_MESSAGE_TYPE :: u8 where "OPT_MESSAGE_TYPE = 53"
definition OPT_SERVER_ID :: u8 where "OPT_SERVER_ID = 54"
definition OPT_PARAMETER_LIST :: u8 where "OPT_PARAMETER_LIST = 55"
definition OPT_T1 :: u8 where "OPT_T1 = 58"
definition OPT_T2 :: u8 where "OPT_T2 = 59"
definition OPT_END :: u8 where "OPT_END = 255"
definition DHCPDISCOVER :: u8 where "DHCPDISCOVER = 1"
definition DHCPOFFER :: u8 where "DHCPOFFER = 2"
definition DHCPREQUEST :: u8 where "DHCPREQUEST = 3"
definition DHCPACK :: u8 where "DHCPACK = 5"
definition DHCPNAK :: u8 where "DHCPNAK = 6"
definition ETH_ALEN :: nat where "ETH_ALEN = 6"

named_theorems dhcp_codes \<open>the option codes and message types\<close>

lemmas dhcp_code_values [dhcp_codes] =
  OPT_SUBNET_MASK_def OPT_GATEWAY_def OPT_DNS_def OPT_MTU_def OPT_BROADCAST_ADDR_def OPT_REQUESTED_IP_def OPT_LEASE_TIME_def
  OPT_MESSAGE_TYPE_def OPT_SERVER_ID_def OPT_PARAMETER_LIST_def OPT_T1_def OPT_T2_def OPT_END_def
  DHCPDISCOVER_def DHCPOFFER_def DHCPREQUEST_def DHCPACK_def DHCPNAK_def OP_BOOTREQUEST_def OP_BOOTREPLY_def

section \<open>The structure and its bytes\<close>

record dhcp =
  op :: u8
  htype :: u8
  hlen :: u8
  hops :: u8
  xid :: u32
  secs :: u16
  flags :: u16
  ciaddr :: u32
  yiaddr :: u32
  siaddr :: u32
  giaddr :: u32
  chaddr :: "u8 list"
  sname :: "u8 list"
  bootfile :: "u8 list"
  options :: "u8 list"

record message =
  dhcpData :: dhcp
  mSize :: nat

definition dhcp_size :: nat where "dhcp_size = 1260"
definition options_offset :: nat where "options_offset = 236"

definition dhcp_head :: "dhcp \<Rightarrow> u8 list" where
  "dhcp_head d = [op d, htype d, hlen d, hops d] @ le32 (xid d) @ le16 (secs d) @ le16 (flags d)
     @ le32 (ciaddr d) @ le32 (yiaddr d) @ le32 (siaddr d) @ le32 (giaddr d) @ chaddr d @ sname d @ bootfile d"

definition dhcp_bytes :: "dhcp \<Rightarrow> u8 list" where
  "dhcp_bytes d = dhcp_head d @ options d"

definition dhcp_of_bytes :: "u8 list \<Rightarrow> dhcp" where
  "dhcp_of_bytes b = \<lparr>op = b ! 0, htype = b ! 1, hlen = b ! 2, hops = b ! 3, xid = of_le (take 4 (drop 4 b)),
     secs = of_le (take 2 (drop 8 b)), flags = of_le (take 2 (drop 10 b)),
     ciaddr = of_le (take 4 (drop 12 b)), yiaddr = of_le (take 4 (drop 16 b)),
     siaddr = of_le (take 4 (drop 20 b)), giaddr = of_le (take 4 (drop 24 b)),
     chaddr = take 16 (drop 28 b), sname = take 64 (drop 44 b), bootfile = take 128 (drop 108 b), options = drop 236 b\<rparr>"

definition dhcp_zero :: dhcp where
  "dhcp_zero = \<lparr>op = 0, htype = 0, hlen = 0, hops = 0, xid = 0, secs = 0, flags = 0, ciaddr = 0, yiaddr = 0, siaddr = 0, giaddr = 0,
     chaddr = replicate 16 0, sname = replicate 64 0, bootfile = replicate 128 0, options = replicate 1024 0\<rparr>"

section \<open>Construction\<close>

definition Message_default :: message where
  "Message_default = \<lparr>dhcpData = dhcp_zero, mSize = 0\<rparr>"

text \<open>The constructor from received bytes leaves what it does not copy uninitialised: \<open>junk\<close>.\<close>

definition Message_data :: "dhcp \<Rightarrow> u8 list \<Rightarrow> message" where
  "Message_data junk xs =
     (if length xs \<le> dhcp_size then \<lparr>dhcpData = dhcp_of_bytes (overlay 0 xs (dhcp_bytes junk)), mSize = length xs\<rparr>
      else Message_default)"

definition Message_new :: "u32 \<Rightarrow> u8 \<Rightarrow> u8 list \<Rightarrow> u8 \<Rightarrow> message \<times> u32" where
  "Message_new nextId operation macAddress ty =
     (let opts = OPT_COOKIE @ [OPT_MESSAGE_TYPE, 1, ty]
      in (\<lparr>dhcpData = dhcp_zero\<lparr>op := operation, htype := HTYPE_ETHER, hlen := of_nat ETH_ALEN, hops := 0,
             flags := htons FLAGS_BROADCAST, xid := htonl nextId,
             chaddr := overlay 0 (take ETH_ALEN macAddress) (chaddr dhcp_zero),
             options := overlay 0 opts (options dhcp_zero)\<rparr>,
           mSize = options_offset + length opts\<rparr>, nextId + 1))"

text \<open>Bytes are written at the end of the message, wherever in the structure that is. The code has no test for the room that is
  left: \<open>None\<close> is the undefined behaviour of a write behind the end of the structure, and that the builders stay clear of it is
  part of what is proved of them.\<close>

definition msg_write :: "u8 list \<Rightarrow> message \<Rightarrow> message option" where
  "msg_write xs m =
     (if mSize m + length xs \<le> dhcp_size
      then Some (m\<lparr>dhcpData := dhcp_of_bytes (overlay (mSize m) xs (dhcp_bytes (dhcpData m))), mSize := mSize m + length xs\<rparr>)
      else None)"

definition addOption :: "u8 \<Rightarrow> u8 list \<Rightarrow> u8 \<Rightarrow> message \<Rightarrow> message option" where
  "addOption ty data sz m =
     (if unat sz \<le> length data then msg_write (ty # sz # take (unat sz) data) m else None)"

definition addOption32 :: "u8 \<Rightarrow> u32 \<Rightarrow> message \<Rightarrow> message option" where
  "addOption32 ty w = addOption ty (le32 w) 4"

definition addOption_array :: "u8 \<Rightarrow> u8 list \<Rightarrow> message \<Rightarrow> message option" where
  "addOption_array ty items = msg_write (ty # of_nat (length items) # items)"

definition endOptions :: "message \<Rightarrow> message option" where
  "endOptions = msg_write [OPT_END]"

definition kRequestParameters :: "u8 list" where
  "kRequestParameters = [OPT_SUBNET_MASK, OPT_GATEWAY, OPT_DNS, OPT_BROADCAST_ADDR, OPT_LEASE_TIME, OPT_T1, OPT_T2, OPT_MTU]"

definition kDefaultLeaseTime :: u32 where "kDefaultLeaseTime = 10 * 60"

definition discover :: "u32 \<Rightarrow> u8 list \<Rightarrow> (message \<times> u32) option" where
  "discover nextId sourceMac =
     (let (m, n) = Message_new nextId OP_BOOTREQUEST sourceMac DHCPDISCOVER
      in do {
        m1 \<leftarrow> addOption_array OPT_PARAMETER_LIST kRequestParameters m;
        m2 \<leftarrow> endOptions m1;
        Some (m2, n)
      })"

definition request :: "u32 \<Rightarrow> u8 list \<Rightarrow> u32 \<Rightarrow> u32 \<Rightarrow> (message \<times> u32) option" where
  "request nextId sourceMac requestAddress serverAddress =
     (let (m, n) = Message_new nextId OP_BOOTREQUEST sourceMac DHCPREQUEST
      in do {
        m1 \<leftarrow> addOption_array OPT_PARAMETER_LIST kRequestParameters m;
        m2 \<leftarrow> addOption32 OPT_REQUESTED_IP requestAddress m1;
        m3 \<leftarrow> addOption32 OPT_SERVER_ID serverAddress m2;
        m4 \<leftarrow> endOptions m3;
        Some (m4, n)
      })"

text \<open>The replies: the new message takes over some fields of the one it answers.\<close>

definition reply_new :: "u32 \<Rightarrow> message \<Rightarrow> u8 \<Rightarrow> message \<times> u32" where
  "reply_new nextId source ty =
     (let (m, n) = Message_new nextId OP_BOOTREPLY (take ETH_ALEN (chaddr (dhcpData source))) ty
      in (m\<lparr>dhcpData := (dhcpData m)\<lparr>xid := xid (dhcpData source), flags := flags (dhcpData source), giaddr := giaddr (dhcpData source)\<rparr>\<rparr>, n))"

definition lease_options ::
  "u32 \<Rightarrow> u32 \<Rightarrow> u32 \<Rightarrow> u32 list \<Rightarrow> message \<Rightarrow> message option" where
  "lease_options serverAddress offeredNetmask offeredGateway offeredDnsServers m = do {
     m1 \<leftarrow> addOption32 OPT_SERVER_ID serverAddress m;
     m2 \<leftarrow> addOption32 OPT_LEASE_TIME kDefaultLeaseTime m1;
     m3 \<leftarrow> addOption32 OPT_SUBNET_MASK offeredNetmask m2;
     m4 \<leftarrow> addOption32 OPT_GATEWAY offeredGateway m3;
     m5 \<leftarrow> addOption OPT_DNS (concat (map le32 offeredDnsServers)) (of_nat (length offeredDnsServers * 4)) m4;
     endOptions m5
   }"

definition offer :: "u32 \<Rightarrow> message \<Rightarrow> u32 \<Rightarrow> u32 \<Rightarrow> u32 \<Rightarrow> u32 \<Rightarrow> u32 list \<Rightarrow> (message \<times> u32) option" where
  "offer nextId source serverAddress offeredAddress offeredNetmask offeredGateway offeredDnsServers =
     (let (m, n) = reply_new nextId source DHCPOFFER;
          m0 = m\<lparr>dhcpData := (dhcpData m)\<lparr>yiaddr := offeredAddress\<rparr>\<rparr>
      in map_option (\<lambda>r. (r, n)) (lease_options serverAddress offeredNetmask offeredGateway offeredDnsServers m0))"

definition ack :: "u32 \<Rightarrow> message \<Rightarrow> u32 \<Rightarrow> u32 \<Rightarrow> u32 \<Rightarrow> u32 \<Rightarrow> u32 list \<Rightarrow> (message \<times> u32) option" where
  "ack nextId source serverAddress offeredAddress offeredNetmask offeredGateway offeredDnsServers =
     (let (m, n) = reply_new nextId source DHCPACK;
          m0 = m\<lparr>dhcpData := (dhcpData m)\<lparr>yiaddr := offeredAddress\<rparr>\<rparr>
      in map_option (\<lambda>r. (r, n)) (lease_options serverAddress offeredNetmask offeredGateway offeredDnsServers m0))"

definition nack :: "u32 \<Rightarrow> message \<Rightarrow> u32 \<Rightarrow> (message \<times> u32) option" where
  "nack nextId source serverAddress =
     (let (m, n) = reply_new nextId source DHCPNAK
      in do {
        m1 \<leftarrow> addOption32 OPT_SERVER_ID serverAddress m;
        m2 \<leftarrow> endOptions m1;
        Some (m2, n)
      })"

section \<open>Inspection\<close>

definition isValidDhcpMessage :: "u8 \<Rightarrow> message \<Rightarrow> bool" where
  "isValidDhcpMessage expectedOp m \<longleftrightarrow>
     (let d = dhcpData m
      in \<not> options_offset + 4 > mSize m \<and> op d = expectedOp \<and> htype d = HTYPE_ETHER \<and> hlen d = of_nat ETH_ALEN
         \<and> take 4 (options d) = OPT_COOKIE)"

definition isValidDhcpMessage_xid :: "u8 \<Rightarrow> u32 \<Rightarrow> message \<Rightarrow> bool" where
  "isValidDhcpMessage_xid expectedOp expectedXid m \<longleftrightarrow> isValidDhcpMessage expectedOp m \<and> xid (dhcpData m) = expectedXid"

definition optionsSize :: "message \<Rightarrow> nat" where
  "optionsSize m = (if mSize m \<le> options_offset then 0 else mSize m - options_offset)"

text \<open>The search returns the position and the length of the value, \<open>Some None\<close> being the null pointer.\<close>

function option_search :: "u8 list \<Rightarrow> nat \<Rightarrow> u8 \<Rightarrow> nat \<Rightarrow> (nat \<times> u8) option option" where
  "option_search opts optsSize expected i =
     (if i + 2 < optsSize then
        if length opts \<le> i + 1 then None
        else
          let optCode = opts ! i; optLen = opts ! (i + 1)
          in if optCode = OPT_END then Some None
             else if optCode = expected then Some (Some (i + 2, optLen))
             else option_search opts optsSize expected (i + 2 + unat optLen)
      else Some None)"
  by pat_completeness auto
termination by (relation "measure (\<lambda>(opts, n, c, i). n - i)") auto

declare option_search.simps [simp del]

definition getOption :: "message \<Rightarrow> u8 \<Rightarrow> (nat \<times> u8) option option" where
  "getOption m expected = option_search (options (dhcpData m)) (optionsSize m) expected 4"

definition msg_type :: "message \<Rightarrow> u8 option" where
  "msg_type m = do {
     r \<leftarrow> getOption m OPT_MESSAGE_TYPE;
     case r of
       None \<Rightarrow> Some 0
     | Some (i, len) \<Rightarrow>
         if len = 1 then (if i < length (options (dhcpData m)) then Some (options (dhcpData m) ! i) else None) else Some 0
   }"

definition option32 :: "u8 \<Rightarrow> message \<Rightarrow> u32 option" where
  "option32 c m = do {
     r \<leftarrow> getOption m c;
     case r of None \<Rightarrow> Some 0 | Some (i, len) \<Rightarrow> if len = 4 then read32 (options (dhcpData m)) i else Some 0
   }"

definition serverId :: "message \<Rightarrow> u32 option" where
  "serverId = option32 OPT_SERVER_ID"

definition requestedIp :: "message \<Rightarrow> u32 option" where
  "requestedIp = option32 OPT_REQUESTED_IP"

section \<open>Structure and bytes\<close>

definition dhcp_ok :: "dhcp \<Rightarrow> bool" where
  "dhcp_ok d \<longleftrightarrow> length (chaddr d) = 16 \<and> length (sname d) = 64 \<and> length (bootfile d) = 128 \<and> length (options d) = 1024"

lemma dhcp_zero_ok [simp]: "dhcp_ok dhcp_zero"
  by (simp add: dhcp_ok_def dhcp_zero_def)

lemma dhcp_head_length: "dhcp_ok d \<Longrightarrow> length (dhcp_head d) = options_offset"
  by (simp add: dhcp_ok_def dhcp_head_def options_offset_def)

lemma dhcp_bytes_length: "dhcp_ok d \<Longrightarrow> length (dhcp_bytes d) = dhcp_size"
  by (simp add: dhcp_bytes_def dhcp_head_length) (simp add: dhcp_ok_def options_offset_def dhcp_size_def)

lemma dhcp_of_bytes_bytes:
  assumes "dhcp_ok d"
  shows "dhcp_of_bytes (dhcp_bytes d) = d"
  using assms by (cases d) (simp add: dhcp_of_bytes_def dhcp_bytes_def dhcp_head_def dhcp_ok_def)

lemma dhcp_of_bytes_ok: "length b = dhcp_size \<Longrightarrow> dhcp_ok (dhcp_of_bytes b)"
  by (simp add: dhcp_ok_def dhcp_of_bytes_def dhcp_size_def)

lemma take_drop_glue: "i + n = j \<Longrightarrow> take n (drop i xs) @ drop j xs = drop i xs"
  by (metis append_take_drop_id drop_drop add.commute)

lemma dhcp_bytes_of_bytes:
  assumes "length b = dhcp_size"
  shows "dhcp_bytes (dhcp_of_bytes b) = b"
proof -
  have l: "length b = 1260" using assms by (simp add: dhcp_size_def)
  have four: "[b ! 0, b ! 1, b ! 2, b ! 3] = take 4 b"
    using l by (auto intro!: nth_equalityI simp: less_Suc_eq numeral_eq_Suc)
  have "dhcp_bytes (dhcp_of_bytes b) = take 4 b @ take 4 (drop 4 b) @ take 2 (drop 8 b) @ take 2 (drop 10 b) @ take 4 (drop 12 b)
      @ take 4 (drop 16 b) @ take 4 (drop 20 b) @ take 4 (drop 24 b) @ take 16 (drop 28 b) @ take 64 (drop 44 b) @ take 128 (drop 108 b) @ drop 236 b"
    using l unfolding four [symmetric] by (simp add: dhcp_bytes_def dhcp_head_def dhcp_of_bytes_def le16_bytes le32_bytes)
  also have "\<dots> = b" by (simp add: take_drop_glue)
  finally show ?thesis .
qed

text \<open>Writing behind the fixed part of the structure changes the options only.\<close>

lemma msg_write_options:
  assumes ok: "dhcp_ok (dhcpData m)" and sz: "options_offset \<le> mSize m" "mSize m + length xs \<le> dhcp_size"
  shows "msg_write xs m = Some (m\<lparr>dhcpData := (dhcpData m)\<lparr>options := overlay (mSize m - options_offset) xs (options (dhcpData m))\<rparr>,
           mSize := mSize m + length xs\<rparr>)"
proof -
  let ?d = "dhcpData m"
  let ?d' = "?d\<lparr>options := overlay (mSize m - options_offset) xs (options ?d)\<rparr>"
  have l: "length (options ?d) = 1024" using ok by (simp add: dhcp_ok_def)
  have h: "length (dhcp_head ?d) \<le> mSize m" using dhcp_head_length [OF ok] sz by simp
  have "overlay (mSize m) xs (dhcp_bytes ?d) = dhcp_bytes ?d'"
    using overlay_behind [OF h, of xs "options ?d"] dhcp_head_length [OF ok] by (simp add: dhcp_bytes_def dhcp_head_def)
  moreover have "dhcp_ok ?d'" using ok sz l by (simp add: dhcp_ok_def options_offset_def dhcp_size_def)
  ultimately show ?thesis using sz by (simp add: msg_write_def dhcp_of_bytes_bytes)
qed

section \<open>Options as a list\<close>

definition tlv :: "u8 \<times> u8 list \<Rightarrow> u8 list" where
  "tlv o' = (case o' of (c, xs) \<Rightarrow> c # of_nat (length xs) # xs)"

definition tlvs :: "(u8 \<times> u8 list) list \<Rightarrow> u8 list" where
  "tlvs os = concat (map tlv os)"

definition opt_ok :: "u8 \<times> u8 list \<Rightarrow> bool" where
  "opt_ok o' \<longleftrightarrow> fst o' \<noteq> OPT_END \<and> length (snd o') < 256"

lemma tlvs_simps [simp]: "tlvs [] = []" "tlvs (x # os) = tlv x @ tlvs os" "tlvs (os @ os2) = tlvs os @ tlvs os2"
  by (simp_all add: tlvs_def)

lemma tlv_length [simp]: "length (tlv x) = length (snd x) + 2"
  by (simp add: tlv_def split: prod.splits)

text \<open>A message under construction, and a finished one, with these options.\<close>

definition building :: "message \<Rightarrow> dhcp \<Rightarrow> (u8 \<times> u8 list) list \<Rightarrow> bool" where
  "building m d os \<longleftrightarrow> dhcp_ok d \<and> length (tlvs os) < 1000
     \<and> m = \<lparr>dhcpData = d\<lparr>options := OPT_COOKIE @ tlvs os @ replicate (1020 - length (tlvs os)) 0\<rparr>, mSize = options_offset + 4 + length (tlvs os)\<rparr>"

definition carries :: "message \<Rightarrow> dhcp \<Rightarrow> (u8 \<times> u8 list) list \<Rightarrow> bool" where
  "carries m d os \<longleftrightarrow> dhcp_ok d \<and> length (tlvs os) < 1000 \<and> (\<forall>x \<in> set os. opt_ok x)
     \<and> (\<exists>rest. length rest = 1019 - length (tlvs os) \<and>
          m = \<lparr>dhcpData = d\<lparr>options := OPT_COOKIE @ tlvs os @ OPT_END # rest\<rparr>, mSize = options_offset + 5 + length (tlvs os)\<rparr>)"

lemma cookie_length [simp]: "length OPT_COOKIE = 4"
  by (simp add: OPT_COOKIE_def)

lemma building_write:
  assumes "building m d os" "length (tlvs os) + length xs < 1000"
  shows "msg_write xs m = Some \<lparr>dhcpData = d\<lparr>options := OPT_COOKIE @ (tlvs os @ xs) @ replicate (1020 - length (tlvs os @ xs)) 0\<rparr>,
           mSize = options_offset + 4 + length (tlvs os @ xs)\<rparr>"
proof -
  let ?pre = "OPT_COOKIE @ tlvs os" and ?n = "1020 - length (tlvs os)"
  have m: "dhcpData m = d\<lparr>options := ?pre @ replicate ?n 0\<rparr>" "mSize m = options_offset + length ?pre" "dhcp_ok d"
    using assms(1) by (simp_all add: building_def)
  have ok: "dhcp_ok (dhcpData m)" using assms(1) by (auto simp: building_def dhcp_ok_def)
  have w: "msg_write xs m = Some (m\<lparr>dhcpData := (dhcpData m)\<lparr>options := overlay (length ?pre) xs (?pre @ replicate ?n 0)\<rparr>,
           mSize := mSize m + length xs\<rparr>)"
    using msg_write_options [OF ok, of xs] assms(2) m(1,2) by (simp add: options_offset_def dhcp_size_def)
  have "overlay (length ?pre) xs (?pre @ replicate ?n 0) = (?pre @ xs) @ replicate (1020 - length (tlvs os @ xs)) 0"
    using overlay_zeros [of ?pre xs 1024 0] assms(2) by simp
  then show ?thesis unfolding w using m(1,2) by (cases m) simp
qed

lemma addOption_building:
  assumes "building m d os" "length (tlvs os) + length xs + 2 < 1000" "length xs < 256" "length xs = unat sz"
  shows "\<exists>m'. addOption c xs sz m = Some m' \<and> building m' d (os @ [(c, xs)])"
proof -
  have sz: "of_nat (length xs) = sz" using assms(4) by simp
  show ?thesis
    using building_write [OF assms(1), of "tlv (c, xs)"] assms
    by (simp add: addOption_def tlv_def sz building_def)
qed

lemma addOption32_building:
  assumes "building m d os" "length (tlvs os) + 6 < 1000"
  shows "\<exists>m'. addOption32 c w m = Some m' \<and> building m' d (os @ [(c, le32 w)])"
  using addOption_building [OF assms(1), of "le32 w" 4 c] assms(2) by (simp add: addOption32_def)

lemma addOption_array_building:
  assumes "building m d os" "length (tlvs os) + length xs + 2 < 1000"
  shows "\<exists>m'. addOption_array c xs m = Some m' \<and> building m' d (os @ [(c, xs)])"
  using building_write [OF assms(1), of "tlv (c, xs)"] assms by (simp add: addOption_array_def tlv_def building_def)

lemma endOptions_carries:
  assumes "building m d os" "length (tlvs os) < 990" "\<forall>x \<in> set os. opt_ok x"
  shows "\<exists>m'. endOptions m = Some m' \<and> carries m' d os"
  using building_write [OF assms(1), of "[OPT_END]"] assms
  by (auto simp: endOptions_def carries_def building_def intro!: exI [of _ "replicate (1020 - Suc (length (tlvs os))) 0"])

section \<open>Finding an option\<close>

text \<open>The result of a search, for the value it should find.\<close>

definition finds :: "u8 list \<Rightarrow> nat \<Rightarrow> u8 list option \<Rightarrow> (nat \<times> u8) option option \<Rightarrow> bool" where
  "finds opts n v r = (case v of
     None \<Rightarrow> r = Some None
   | Some xs \<Rightarrow> \<exists>i. r = Some (Some (i, of_nat (length xs))) \<and> length xs < 256 \<and> i + length xs < n \<and> take (length xs) (drop i opts) = xs)"

lemma option_search_tlvs:
  assumes "\<forall>x \<in> set os. opt_ok x" "c \<noteq> OPT_END"
    and "opts = pre @ tlvs os @ OPT_END # rest" "n = length pre + length (tlvs os) + 1"
  shows "finds opts n (map_of os c) (option_search opts n c (length pre))"
  using assms
proof (induction os arbitrary: pre)
  case Nil
  then show ?case by (simp add: option_search.simps nth_append finds_def)
next
  case (Cons x os)
  obtain c' xs where x: "x = (c', xs)" by (cases x)
  have ok: "c' \<noteq> OPT_END" "length xs < 256" using Cons.prems(1) by (auto simp: x opt_ok_def)
  have l: "unat (of_nat (length xs) :: u8) = length xs" using ok(2) by (simp add: unat_of_nat)
  have opts: "opts = pre @ c' # of_nat (length xs) # xs @ tlvs os @ OPT_END # rest" using Cons.prems(3) by (simp add: x tlv_def)
  have n: "length pre + length xs + 2 < n" using Cons.prems(4) by (simp add: x)
  show ?case
  proof (cases "c' = c")
    case True
    then have "option_search opts n c (length pre) = Some (Some (length pre + 2, of_nat (length xs)))"
      using n ok(1) by (subst option_search.simps) (simp add: opts nth_append Let_def)
    moreover have "take (length xs) (drop (length pre + 2) opts) = xs" by (simp add: opts)
    ultimately show ?thesis using True n ok(2) by (simp add: x finds_def)
  next
    case False
    have step: "option_search opts n c (length pre) = option_search opts n c (length (pre @ tlv x))"
      using n ok(1) False by (subst option_search.simps) (simp add: opts nth_append Let_def l x)
    have "finds opts n (map_of os c) (option_search opts n c (length (pre @ tlv x)))"
      using Cons.prems by (intro Cons.IH) auto
    then show ?thesis using False unfolding step by (simp add: x)
  qed
qed

lemma getOption_carries:
  assumes "carries m d os" "c \<noteq> OPT_END"
  shows "finds (options (dhcpData m)) (optionsSize m) (map_of os c) (getOption m c)"
proof -
  obtain rest where m: "m = \<lparr>dhcpData = d\<lparr>options := OPT_COOKIE @ tlvs os @ OPT_END # rest\<rparr>, mSize = options_offset + 5 + length (tlvs os)\<rparr>"
    using assms(1) by (auto simp: carries_def)
  have ok: "\<forall>x \<in> set os. opt_ok x" using assms(1) by (simp add: carries_def)
  show ?thesis
    using option_search_tlvs [OF ok assms(2), of "options (dhcpData m)" OPT_COOKIE rest "optionsSize m"]
    by (simp add: m getOption_def optionsSize_def)
qed

lemma carries_options_length: "carries m d os \<Longrightarrow> length (options (dhcpData m)) = 1024 \<and> optionsSize m < 1024"
  by (auto simp: carries_def optionsSize_def)

lemma opt_len_iff: "n < 256 \<Longrightarrow> k < 256 \<Longrightarrow> (of_nat n :: u8) = of_nat k \<longleftrightarrow> n = k"
  by (auto dest!: arg_cong [of _ _ unat] simp: unat_of_nat)

lemma msg_type_carries:
  assumes "carries m d os"
  shows "msg_type m = Some (case map_of os OPT_MESSAGE_TYPE of Some [t] \<Rightarrow> t | _ \<Rightarrow> 0)"
proof (cases "map_of os OPT_MESSAGE_TYPE")
  case None
  then show ?thesis using getOption_carries [OF assms, of OPT_MESSAGE_TYPE] by (simp add: msg_type_def finds_def dhcp_codes)
next
  case (Some xs)
  then obtain i where i: "getOption m OPT_MESSAGE_TYPE = Some (Some (i, of_nat (length xs)))" "length xs < 256"
      "i + length xs < optionsSize m" "take (length xs) (drop i (options (dhcpData m))) = xs"
    using getOption_carries [OF assms, of OPT_MESSAGE_TYPE] by (auto simp: finds_def dhcp_codes)
  have l: "i < length (options (dhcpData m))" using i(3) carries_options_length [OF assms] by simp
  show ?thesis
  proof (cases "\<exists>t. xs = [t]")
    case True
    then show ?thesis using i l Some by (auto simp: msg_type_def take_Suc hd_drop_conv_nth)
  next
    case False
    then have "length xs \<noteq> 1" by (simp add: length_Suc_conv)
    then have "(of_nat (length xs) :: u8) \<noteq> 1" using opt_len_iff [OF i(2), of 1] by simp
    then show ?thesis using i(1) Some False by (auto simp: msg_type_def split: list.splits)
  qed
qed

lemma option32_carries:
  assumes "carries m d os" "c \<noteq> OPT_END"
  shows "option32 c m = Some (case map_of os c of Some xs \<Rightarrow> if length xs = 4 then of_le xs else 0 | None \<Rightarrow> 0)"
proof (cases "map_of os c")
  case None
  then show ?thesis using getOption_carries [OF assms] by (simp add: option32_def finds_def)
next
  case (Some xs)
  then obtain i where i: "getOption m c = Some (Some (i, of_nat (length xs)))" "length xs < 256"
      "i + length xs < optionsSize m" "take (length xs) (drop i (options (dhcpData m))) = xs"
    using getOption_carries [OF assms] by (auto simp: finds_def)
  have "(of_nat (length xs) :: u8) = 4 \<longleftrightarrow> length xs = 4" using opt_len_iff [OF i(2), of 4] by simp
  then show ?thesis
    using i Some carries_options_length [OF assms(1)] by (auto simp: option32_def read32_def)
qed

section \<open>The builders\<close>

lemma Message_new_building:
  assumes "Message_new nid o' mac t = (m, n)"
  shows "building m (dhcp_zero\<lparr>op := o', htype := HTYPE_ETHER, hlen := 6, flags := htons FLAGS_BROADCAST, xid := htonl nid,
           chaddr := take 6 mac @ replicate (16 - length (take 6 mac)) 0\<rparr>) [(OPT_MESSAGE_TYPE, [t])] \<and> n = nid + 1"
proof -
  have c: "overlay 0 (take ETH_ALEN mac) (chaddr dhcp_zero) = take 6 mac @ replicate (16 - length (take 6 mac)) 0"
    by (simp add: overlay_def dhcp_zero_def ETH_ALEN_def)
  show ?thesis
    using assms unfolding c Message_new_def
    by (auto simp: building_def dhcp_ok_def Let_def tlv_def overlay_def OPT_COOKIE_def ETH_ALEN_def dhcp_zero_def)
qed

lemma building_update:
  assumes "building m d os"
  shows "building (m\<lparr>dhcpData := (dhcpData m)\<lparr>yiaddr := y\<rparr>\<rparr>) (d\<lparr>yiaddr := y\<rparr>) os"
    and "building (m\<lparr>dhcpData := (dhcpData m)\<lparr>xid := x, flags := f, giaddr := g\<rparr>\<rparr>) (d\<lparr>xid := x, flags := f, giaddr := g\<rparr>) os"
  using assms by (auto simp: building_def dhcp_ok_def)

text \<open>The fixed fields of the messages of a client and of the replies to a message.\<close>

definition client_head :: "u32 \<Rightarrow> u8 list \<Rightarrow> dhcp" where
  "client_head nid mac = dhcp_zero\<lparr>op := OP_BOOTREQUEST, htype := HTYPE_ETHER, hlen := 6, flags := htons FLAGS_BROADCAST,
     xid := htonl nid, chaddr := take 6 mac @ replicate (16 - length (take 6 mac)) 0\<rparr>"

definition reply_head :: "dhcp \<Rightarrow> dhcp" where
  "reply_head s = dhcp_zero\<lparr>op := OP_BOOTREPLY, htype := HTYPE_ETHER, hlen := 6, flags := flags s, xid := xid s, giaddr := giaddr s,
     chaddr := take 6 (chaddr s) @ replicate (16 - length (take 6 (chaddr s))) 0\<rparr>"

definition lease_opts :: "u8 \<Rightarrow> u32 \<Rightarrow> u32 \<Rightarrow> u32 \<Rightarrow> u32 list \<Rightarrow> (u8 \<times> u8 list) list" where
  "lease_opts t server netmask gateway dns = [(OPT_MESSAGE_TYPE, [t]), (OPT_SERVER_ID, le32 server), (OPT_LEASE_TIME, le32 kDefaultLeaseTime),
     (OPT_SUBNET_MASK, le32 netmask), (OPT_GATEWAY, le32 gateway), (OPT_DNS, concat (map le32 dns))]"

lemma codes_not_end [simp]:
  "OPT_MESSAGE_TYPE \<noteq> OPT_END" "OPT_PARAMETER_LIST \<noteq> OPT_END" "OPT_REQUESTED_IP \<noteq> OPT_END" "OPT_SERVER_ID \<noteq> OPT_END"
  "OPT_LEASE_TIME \<noteq> OPT_END" "OPT_SUBNET_MASK \<noteq> OPT_END" "OPT_GATEWAY \<noteq> OPT_END" "OPT_DNS \<noteq> OPT_END"
  by (simp_all add: dhcp_codes)

lemma kRequestParameters_length [simp]: "length kRequestParameters = 8"
  by (simp add: kRequestParameters_def)

lemma concat_le32_length [simp]: "length (concat (map le32 ws)) = 4 * length ws"
  by (induction ws) auto

lemma discover_carries:
  "\<exists>m. discover nid mac = Some (m, nid + 1)
     \<and> carries m (client_head nid mac) [(OPT_MESSAGE_TYPE, [DHCPDISCOVER]), (OPT_PARAMETER_LIST, kRequestParameters)]"
proof -
  obtain m where m: "Message_new nid OP_BOOTREQUEST mac DHCPDISCOVER = (m, nid + 1)"
      "building m (client_head nid mac) [(OPT_MESSAGE_TYPE, [DHCPDISCOVER])]"
    using Message_new_building [of nid OP_BOOTREQUEST mac DHCPDISCOVER] by (metis client_head_def surj_pair)
  obtain m1 where m1: "addOption_array OPT_PARAMETER_LIST kRequestParameters m = Some m1"
      "building m1 (client_head nid mac) [(OPT_MESSAGE_TYPE, [DHCPDISCOVER]), (OPT_PARAMETER_LIST, kRequestParameters)]"
    using addOption_array_building [OF m(2), of kRequestParameters OPT_PARAMETER_LIST] by auto
  show ?thesis
    using endOptions_carries [OF m1(2)] by (auto simp: discover_def m(1) m1(1) opt_ok_def)
qed

lemma request_carries:
  "\<exists>m. request nid mac a s = Some (m, nid + 1)
     \<and> carries m (client_head nid mac) [(OPT_MESSAGE_TYPE, [DHCPREQUEST]), (OPT_PARAMETER_LIST, kRequestParameters),
         (OPT_REQUESTED_IP, le32 a), (OPT_SERVER_ID, le32 s)]"
proof -
  let ?o = "[(OPT_MESSAGE_TYPE, [DHCPREQUEST]), (OPT_PARAMETER_LIST, kRequestParameters)]"
  obtain m where m: "Message_new nid OP_BOOTREQUEST mac DHCPREQUEST = (m, nid + 1)"
      "building m (client_head nid mac) [(OPT_MESSAGE_TYPE, [DHCPREQUEST])]"
    using Message_new_building [of nid OP_BOOTREQUEST mac DHCPREQUEST] by (metis client_head_def surj_pair)
  obtain m1 where m1: "addOption_array OPT_PARAMETER_LIST kRequestParameters m = Some m1" "building m1 (client_head nid mac) ?o"
    using addOption_array_building [OF m(2), of kRequestParameters OPT_PARAMETER_LIST] by auto
  obtain m2 where m2: "addOption32 OPT_REQUESTED_IP a m1 = Some m2" "building m2 (client_head nid mac) (?o @ [(OPT_REQUESTED_IP, le32 a)])"
    using addOption32_building [OF m1(2), of OPT_REQUESTED_IP a] by auto
  obtain m3 where m3: "addOption32 OPT_SERVER_ID s m2 = Some m3"
      "building m3 (client_head nid mac) (?o @ [(OPT_REQUESTED_IP, le32 a), (OPT_SERVER_ID, le32 s)])"
    using addOption32_building [OF m2(2), of OPT_SERVER_ID s] by auto
  show ?thesis
    using endOptions_carries [OF m3(2)] by (auto simp: request_def m(1) m1(1) m2(1) m3(1) opt_ok_def)
qed

lemma reply_building:
  "\<exists>m. reply_new nid src t = (m, nid + 1) \<and> building m (reply_head (dhcpData src)) [(OPT_MESSAGE_TYPE, [t])]"
proof -
  let ?s = "dhcpData src"
  obtain m n where m: "Message_new nid OP_BOOTREPLY (take 6 (chaddr ?s)) t = (m, n)" by fastforce
  note b = Message_new_building [OF this]
  show ?thesis
    using building_update(2) [OF conjunct1 [OF b], where x = "xid ?s" and f = "flags ?s" and g = "giaddr ?s"] conjunct2 [OF b]
    by (simp add: reply_new_def m reply_head_def ETH_ALEN_def dhcp_zero_def)
qed

lemma lease_options_carries:
  assumes m: "building m d [(OPT_MESSAGE_TYPE, [t])]" and dns: "length dns \<le> 63"
  shows "\<exists>m'. lease_options server netmask gateway dns m = Some m' \<and> carries m' d (lease_opts t server netmask gateway dns)"
proof -
  let ?o = "[(OPT_MESSAGE_TYPE, [t]), (OPT_SERVER_ID, le32 server), (OPT_LEASE_TIME, le32 kDefaultLeaseTime)]"
  obtain m1 where m1: "addOption32 OPT_SERVER_ID server m = Some m1" "building m1 d [(OPT_MESSAGE_TYPE, [t]), (OPT_SERVER_ID, le32 server)]"
    using addOption32_building [OF m, of OPT_SERVER_ID server] by auto
  obtain m2 where m2: "addOption32 OPT_LEASE_TIME kDefaultLeaseTime m1 = Some m2" "building m2 d ?o"
    using addOption32_building [OF m1(2), of OPT_LEASE_TIME kDefaultLeaseTime] by auto
  obtain m3 where m3: "addOption32 OPT_SUBNET_MASK netmask m2 = Some m3" "building m3 d (?o @ [(OPT_SUBNET_MASK, le32 netmask)])"
    using addOption32_building [OF m2(2), of OPT_SUBNET_MASK netmask] by auto
  obtain m4 where m4: "addOption32 OPT_GATEWAY gateway m3 = Some m4"
      "building m4 d (?o @ [(OPT_SUBNET_MASK, le32 netmask), (OPT_GATEWAY, le32 gateway)])"
    using addOption32_building [OF m3(2), of OPT_GATEWAY gateway] by auto
  have "unat (of_nat (length dns * 4) :: u8) = 4 * length dns" using dns by (simp only: unat_of_nat) simp
  then have sz: "unat (of_nat (length dns) * 4 :: u8) = 4 * length dns" by simp
  obtain m5 where m5: "addOption OPT_DNS (concat (map le32 dns)) (of_nat (length dns) * 4) m4 = Some m5"
      "building m5 d (lease_opts t server netmask gateway dns)"
    using addOption_building [OF m4(2), of "concat (map le32 dns)" "of_nat (length dns) * 4" OPT_DNS] dns sz
    by (auto simp: lease_opts_def)
  have "\<forall>x \<in> set (lease_opts t server netmask gateway dns). opt_ok x" using dns by (auto simp: lease_opts_def opt_ok_def)
  moreover have "length (tlvs (lease_opts t server netmask gateway dns)) < 990" using dns by (simp add: lease_opts_def)
  ultimately show ?thesis
    using endOptions_carries [OF m5(2)] by (auto simp: lease_options_def m1(1) m2(1) m3(1) m4(1) m5(1))
qed

lemma offer_carries:
  assumes "length dns \<le> 63"
  shows "\<exists>m. offer nid src server addr netmask gateway dns = Some (m, nid + 1)
    \<and> carries m ((reply_head (dhcpData src))\<lparr>yiaddr := addr\<rparr>) (lease_opts DHCPOFFER server netmask gateway dns)"
proof -
  obtain m where m: "reply_new nid src DHCPOFFER = (m, nid + 1)" "building m (reply_head (dhcpData src)) [(OPT_MESSAGE_TYPE, [DHCPOFFER])]"
    using reply_building by blast
  show ?thesis
    using lease_options_carries [OF building_update(1) [OF m(2)] assms] by (auto simp: offer_def m(1))
qed

lemma ack_carries:
  assumes "length dns \<le> 63"
  shows "\<exists>m. ack nid src server addr netmask gateway dns = Some (m, nid + 1)
    \<and> carries m ((reply_head (dhcpData src))\<lparr>yiaddr := addr\<rparr>) (lease_opts DHCPACK server netmask gateway dns)"
proof -
  obtain m where m: "reply_new nid src DHCPACK = (m, nid + 1)" "building m (reply_head (dhcpData src)) [(OPT_MESSAGE_TYPE, [DHCPACK])]"
    using reply_building by blast
  show ?thesis
    using lease_options_carries [OF building_update(1) [OF m(2)] assms] by (auto simp: ack_def m(1))
qed

lemma nack_carries:
  "\<exists>m. nack nid src server = Some (m, nid + 1)
    \<and> carries m (reply_head (dhcpData src)) [(OPT_MESSAGE_TYPE, [DHCPNAK]), (OPT_SERVER_ID, le32 server)]"
proof -
  obtain m where m: "reply_new nid src DHCPNAK = (m, nid + 1)" "building m (reply_head (dhcpData src)) [(OPT_MESSAGE_TYPE, [DHCPNAK])]"
    using reply_building by blast
  obtain m1 where m1: "addOption32 OPT_SERVER_ID server m = Some m1"
      "building m1 (reply_head (dhcpData src)) [(OPT_MESSAGE_TYPE, [DHCPNAK]), (OPT_SERVER_ID, le32 server)]"
    using addOption32_building [OF m(2), of OPT_SERVER_ID server] by auto
  show ?thesis using endOptions_carries [OF m1(2)] by (auto simp: nack_def m(1) m1(1) opt_ok_def)
qed

lemma carries_fields:
  assumes "carries m d os"
  shows "op (dhcpData m) = op d" "xid (dhcpData m) = xid d" "flags (dhcpData m) = flags d" "yiaddr (dhcpData m) = yiaddr d"
    "giaddr (dhcpData m) = giaddr d" "chaddr (dhcpData m) = chaddr d" "dhcp_ok (dhcpData m)" "mSize m \<le> dhcp_size" "options_offset < mSize m"
  using assms by (auto simp: carries_def dhcp_ok_def dhcp_size_def options_offset_def)

lemma carries_valid:
  assumes "carries m d os"
  shows "isValidDhcpMessage o' m \<longleftrightarrow> op d = o' \<and> htype d = HTYPE_ETHER \<and> hlen d = 6"
  using assms by (auto simp: carries_def isValidDhcpMessage_def ETH_ALEN_def)

lemma head_fields [simp]:
  "op (client_head nid mac) = OP_BOOTREQUEST" "htype (client_head nid mac) = HTYPE_ETHER" "hlen (client_head nid mac) = 6"
  "xid (client_head nid mac) = htonl nid" "yiaddr (client_head nid mac) = 0"
  "chaddr (client_head nid mac) = take 6 mac @ replicate (16 - length (take 6 mac)) 0"
  "op (reply_head s) = OP_BOOTREPLY" "htype (reply_head s) = HTYPE_ETHER" "hlen (reply_head s) = 6" "xid (reply_head s) = xid s"
  "chaddr (reply_head s) = take 6 (chaddr s) @ replicate (16 - length (take 6 (chaddr s))) 0"
  by (simp_all add: client_head_def reply_head_def dhcp_zero_def)

section \<open>Properties\<close>

text \<open>What a receiver reads from a message that carries options.\<close>

lemma carries_reads:
  assumes "carries m d os"
  shows "msg_type m = Some (case map_of os OPT_MESSAGE_TYPE of Some [t] \<Rightarrow> t | _ \<Rightarrow> 0)"
    and "serverId m = Some (case map_of os OPT_SERVER_ID of Some xs \<Rightarrow> if length xs = 4 then of_le xs else 0 | None \<Rightarrow> 0)"
    and "requestedIp m = Some (case map_of os OPT_REQUESTED_IP of Some xs \<Rightarrow> if length xs = 4 then of_le xs else 0 | None \<Rightarrow> 0)"
  by (simp_all add: msg_type_carries [OF assms] serverId_def requestedIp_def option32_carries [OF assms])

text \<open>C27. Every message the builders make is read back by the inspectors: the two requests of a client with its hardware address, the
  replies with the transaction id of the message they answer, each with its type, and with the server id and the requested or
  offered address where it has one; the options with the netmask, the gateway and the name servers are written but not read back here. Building a message never writes outside the structure, for up to 63 name servers.\<close>

theorem dhcp_messages_read_back:
  assumes mac: "length mac = 6" and src: "dhcp_ok (dhcpData src)" and dns: "length dns \<le> 63"
  shows "(\<exists>m. discover nid mac = Some (m, nid + 1) \<and> isValidDhcpMessage OP_BOOTREQUEST m \<and> msg_type m = Some DHCPDISCOVER
         \<and> xid (dhcpData m) = htonl nid \<and> take 6 (chaddr (dhcpData m)) = mac)
    \<and> (\<exists>m. request nid mac a s = Some (m, nid + 1) \<and> isValidDhcpMessage OP_BOOTREQUEST m \<and> msg_type m = Some DHCPREQUEST
         \<and> xid (dhcpData m) = htonl nid \<and> take 6 (chaddr (dhcpData m)) = mac \<and> requestedIp m = Some a \<and> serverId m = Some s)
    \<and> (\<exists>m. offer nid src s a netmask gateway dns = Some (m, nid + 1) \<and> isValidDhcpMessage_xid OP_BOOTREPLY (xid (dhcpData src)) m
         \<and> msg_type m = Some DHCPOFFER \<and> serverId m = Some s \<and> yiaddr (dhcpData m) = a \<and> take 6 (chaddr (dhcpData m)) = take 6 (chaddr (dhcpData src)))
    \<and> (\<exists>m. ack nid src s a netmask gateway dns = Some (m, nid + 1) \<and> isValidDhcpMessage_xid OP_BOOTREPLY (xid (dhcpData src)) m
         \<and> msg_type m = Some DHCPACK \<and> serverId m = Some s \<and> yiaddr (dhcpData m) = a \<and> take 6 (chaddr (dhcpData m)) = take 6 (chaddr (dhcpData src)))
    \<and> (\<exists>m. nack nid src s = Some (m, nid + 1) \<and> isValidDhcpMessage_xid OP_BOOTREPLY (xid (dhcpData src)) m
         \<and> msg_type m = Some DHCPNAK \<and> serverId m = Some s)"
proof (intro conjI)
  have ne: "OPT_SERVER_ID \<noteq> OPT_MESSAGE_TYPE" "OPT_SERVER_ID \<noteq> OPT_PARAMETER_LIST" "OPT_SERVER_ID \<noteq> OPT_REQUESTED_IP"
    "OPT_REQUESTED_IP \<noteq> OPT_MESSAGE_TYPE" "OPT_REQUESTED_IP \<noteq> OPT_PARAMETER_LIST" by (simp_all add: dhcp_codes)
  have l: "length (chaddr (dhcpData src)) = 16" using src by (simp add: dhcp_ok_def)
  show "\<exists>m. discover nid mac = Some (m, nid + 1) \<and> isValidDhcpMessage OP_BOOTREQUEST m \<and> msg_type m = Some DHCPDISCOVER
         \<and> xid (dhcpData m) = htonl nid \<and> take 6 (chaddr (dhcpData m)) = mac"
    using discover_carries [of nid mac] mac by (auto simp: carries_valid carries_reads carries_fields)
  show "\<exists>m. request nid mac a s = Some (m, nid + 1) \<and> isValidDhcpMessage OP_BOOTREQUEST m \<and> msg_type m = Some DHCPREQUEST
         \<and> xid (dhcpData m) = htonl nid \<and> take 6 (chaddr (dhcpData m)) = mac \<and> requestedIp m = Some a \<and> serverId m = Some s"
    using request_carries [of nid mac a s] mac ne by (auto simp: carries_valid carries_reads carries_fields)
  show "\<exists>m. offer nid src s a netmask gateway dns = Some (m, nid + 1) \<and> isValidDhcpMessage_xid OP_BOOTREPLY (xid (dhcpData src)) m
         \<and> msg_type m = Some DHCPOFFER \<and> serverId m = Some s \<and> yiaddr (dhcpData m) = a \<and> take 6 (chaddr (dhcpData m)) = take 6 (chaddr (dhcpData src))"
    using offer_carries [OF dns, of nid src s a netmask gateway] l ne
    by (auto simp: isValidDhcpMessage_xid_def carries_valid carries_reads carries_fields lease_opts_def)
  show "\<exists>m. ack nid src s a netmask gateway dns = Some (m, nid + 1) \<and> isValidDhcpMessage_xid OP_BOOTREPLY (xid (dhcpData src)) m
         \<and> msg_type m = Some DHCPACK \<and> serverId m = Some s \<and> yiaddr (dhcpData m) = a \<and> take 6 (chaddr (dhcpData m)) = take 6 (chaddr (dhcpData src))"
    using ack_carries [OF dns, of nid src s a netmask gateway] l ne
    by (auto simp: isValidDhcpMessage_xid_def carries_valid carries_reads carries_fields lease_opts_def)
  show "\<exists>m. nack nid src s = Some (m, nid + 1) \<and> isValidDhcpMessage_xid OP_BOOTREPLY (xid (dhcpData src)) m
         \<and> msg_type m = Some DHCPNAK \<and> serverId m = Some s"
    using nack_carries [of nid src s] ne by (auto simp: isValidDhcpMessage_xid_def carries_valid carries_reads carries_fields)
qed

theorem dhcp_messages_read_back_witness:
  "\<exists>m. request 1 [2, 0, 0, 0, 0, 1] 5 6 = Some (m, 2) \<and> requestedIp m = Some 5 \<and> serverId m = Some 6"
proof -
  have "length [2, 0, 0, 0, 0, 1 :: u8] = 6" "dhcp_ok (dhcpData Message_default)" "length ([] :: u32 list) \<le> 63"
    by (simp_all add: Message_default_def)
  note r = dhcp_messages_read_back [OF this, of 1 5 6 0 0]
  from r [THEN conjunct2, THEN conjunct1] show ?thesis by auto
qed

lemma option_search_returns:
  "n \<le> length opts \<Longrightarrow> \<exists>r. option_search opts n c i = Some r \<and> (\<forall>j len. r = Some (j, len) \<longrightarrow> i + 2 \<le> j \<and> j < n \<and> opts ! (j - 2) = c)"
proof (induction opts n c i rule: option_search.induct)
  case (1 opts n c i)
  show ?case
  proof (cases "i + 2 < n \<and> opts ! i \<noteq> OPT_END \<and> opts ! i \<noteq> c")
    case True
    then have "\<exists>r. option_search opts n c (i + 2 + unat (opts ! (i + 1))) = Some r
        \<and> (\<forall>j len. r = Some (j, len) \<longrightarrow> i + 2 + unat (opts ! (i + 1)) + 2 \<le> j \<and> j < n \<and> opts ! (j - 2) = c)"
      using "1.prems" by (intro "1.IH") auto
    then show ?thesis using True "1.prems" by (subst option_search.simps) (fastforce simp: Let_def)
  next
    case False
    then show ?thesis using "1.prems" by (subst option_search.simps) (auto simp: Let_def)
  qed
qed

text \<open>Searching a received message for an option reads inside the message only, whatever bytes it has, and a value
  found starts inside the message. The type is therefore always read inside it. The four bytes of the server id and of the requested address
  are inside the structure for up to 1021 bytes of options; beyond that the read may leave it, as
  the length of the message is not compared with that of the value.\<close>

theorem dhcp_option_reads:
  assumes ok: "dhcp_ok (dhcpData m)" and size: "mSize m \<le> dhcp_size"
  shows "(\<exists>r. getOption m c = Some r \<and> (\<forall>i len. r = Some (i, len) \<longrightarrow> i < optionsSize m \<and> options (dhcpData m) ! (i - 2) = c))
    \<and> (\<exists>t. msg_type m = Some t)
    \<and> (optionsSize m \<le> 1021 \<longrightarrow> (\<exists>a. serverId m = Some a) \<and> (\<exists>a. requestedIp m = Some a))"
proof -
  let ?opts = "options (dhcpData m)"
  have l: "length ?opts = 1024" "optionsSize m \<le> length ?opts"
    using ok size by (auto simp: dhcp_ok_def optionsSize_def dhcp_size_def options_offset_def)
  have g: "\<exists>r. getOption m c = Some r \<and> (\<forall>i len. r = Some (i, len) \<longrightarrow> i < optionsSize m \<and> ?opts ! (i - 2) = c)" for c
    using option_search_returns [OF l(2), of c 4] by (auto simp: getOption_def)
  have t: "\<exists>t. msg_type m = Some t"
    using g [of OPT_MESSAGE_TYPE] l by (auto simp: msg_type_def split: option.splits)
  have "\<exists>a. option32 c m = Some a" if "optionsSize m \<le> 1021" for c
    using g [of c] l(1) that by (fastforce simp: option32_def read32_def split: option.splits)
  then show ?thesis using g t by (simp add: serverId_def requestedIp_def)
qed

theorem dhcp_option_reads_witness:
  "\<exists>a. serverId \<lparr>dhcpData = dhcp_zero, mSize = 600\<rparr> = Some a"
  using dhcp_option_reads [of "\<lparr>dhcpData = dhcp_zero, mSize = 600\<rparr>" 0]
  by (simp add: dhcp_size_def optionsSize_def options_offset_def)

end
