(* ===== verification/Dhcp_Socket.thy ===== *)
theory Dhcp_Socket
  imports Dhcp_Message
begin

text \<open>
  Messages on the wire, from \<^verbatim>\<open>dhcp/common/socket.cpp\<close>: the IP and UDP headers and their checksums that the client puts in front of
  a message on its raw socket, and what it accepts from there; the server uses an
  ordinary UDP socket. The outcomes of the system calls are arguments.
\<close>

section \<open>Checksums\<close>

fun add_words :: "u8 list \<Rightarrow> u32 \<Rightarrow> u32" where
  "add_words (a # b # xs) c = add_words xs (c + ucast (of_le [a, b] :: u16))"
| "add_words [a] c = c + ucast a"
| "add_words [] c = c"

function fold_msw :: "u32 \<Rightarrow> u32" where
  "fold_msw c = (let msw = drop_bit 16 c in if msw \<noteq> 0 then fold_msw ((c AND 0xFFFF) + msw) else c)"
  by pat_completeness auto

text \<open>The two halves of a word as numbers.\<close>

lemma unat_low_half: "unat ((c :: u32) AND 0xFFFF) = unat c mod 65536"
proof -
  have "c AND 0xFFFF = take_bit 16 c" by (simp add: take_bit_eq_mask mask_eq_exp_minus_1)
  then show ?thesis by (simp add: unsigned_take_bit_eq take_bit_nat_def)
qed

lemma unat_high_half: "unat (drop_bit 16 (c :: u32)) = unat c div 65536"
  by (simp add: unat_drop_bit_eq drop_bit_nat_def)

lemma unat_fold_step: "unat ((c AND 0xFFFF) + drop_bit 16 (c :: u32)) = unat c mod 65536 + unat c div 65536"
proof -
  have "unat c < 4294967296" using unsigned_less [of c, where 'a = nat] by simp
  then have "unat c div 65536 < 65536" by simp
  then have "unat c mod 65536 + unat c div 65536 < 2 ^ 32"
    using mod_less_divisor [of 65536 "unat c"] by simp
  then show ?thesis by (subst unat_add_no_wrap) (simp_all add: unat_low_half unat_high_half)
qed

termination fold_msw
proof (relation "measure unat")
  fix c :: u32 and msw
  assume a: "msw = drop_bit 16 c" "msw \<noteq> 0"
  then have "0 < unat c div 65536" using unat_high_half [of c] by (metis gr0I unat_eq_zero)
  then have "unat c mod 65536 + unat c div 65536 < unat c" using div_mult_mod_eq [of "unat c" 65536] by linarith
  then show "((c AND 0xFFFF) + msw, c) \<in> measure unat" by (simp add: a(1) unat_fold_step)
qed simp

declare fold_msw.simps [simp del]

definition addChecksum :: "u8 list \<Rightarrow> u32 \<Rightarrow> u32" where
  "addChecksum buffer checksum = fold_msw (add_words buffer checksum)"

definition finishChecksum :: "u32 \<Rightarrow> u32" where
  "finishChecksum checksum = NOT checksum AND 0xFFFF"

section \<open>Raw UDP packets\<close>

record iphdr =
  ip_ihl :: u8
  ip_version :: u8
  ip_tos :: u8
  ip_tot_len :: u16
  ip_id :: u16
  ip_frag_off :: u16
  ip_ttl :: u8
  ip_protocol :: u8
  ip_check :: u16
  ip_saddr :: u32
  ip_daddr :: u32

record udphdr =
  udp_source :: u16
  udp_dest :: u16
  udp_len :: u16
  udp_check :: u16

definition ip_bytes :: "iphdr \<Rightarrow> u8 list" where
  "ip_bytes h = [ip_ihl h + 16 * ip_version h, ip_tos h] @ le16 (ip_tot_len h) @ le16 (ip_id h) @ le16 (ip_frag_off h)
     @ [ip_ttl h, ip_protocol h] @ le16 (ip_check h) @ le32 (ip_saddr h) @ le32 (ip_daddr h)"

definition udp_bytes :: "udphdr \<Rightarrow> u8 list" where
  "udp_bytes u = le16 (udp_source u) @ le16 (udp_dest u) @ le16 (udp_len u) @ le16 (udp_check u)"

definition IPVERSION :: u8 where "IPVERSION = 4"
definition IPDEFTTL :: u8 where "IPDEFTTL = 64"
definition IPPROTO_UDP :: u8 where "IPPROTO_UDP = 17"

text \<open>The bytes of a message that are sent.\<close>

definition msg_payload :: "message \<Rightarrow> u8 list" where
  "msg_payload m = take (mSize m) (dhcp_bytes (dhcpData m))"

text \<open>The headers before their checksums are entered, and with them.\<close>

definition raw_ip0 :: "u32 \<Rightarrow> u32 \<Rightarrow> nat \<Rightarrow> iphdr" where
  "raw_ip0 source destination sz = \<lparr>ip_ihl = 5, ip_version = IPVERSION, ip_tos = 0, ip_tot_len = htons (of_nat (20 + 8 + sz)), ip_id = 0,
     ip_frag_off = 0, ip_ttl = IPDEFTTL, ip_protocol = IPPROTO_UDP, ip_check = 0, ip_saddr = source, ip_daddr = destination\<rparr>"

definition raw_ip :: "u32 \<Rightarrow> u32 \<Rightarrow> nat \<Rightarrow> iphdr" where
  "raw_ip source destination sz =
     (let ip = raw_ip0 source destination sz in ip\<lparr>ip_check := ucast (finishChecksum (addChecksum (ip_bytes ip) 0))\<rparr>)"

definition raw_udp0 :: "u16 \<Rightarrow> u16 \<Rightarrow> nat \<Rightarrow> udphdr" where
  "raw_udp0 sourcePort destinationPort sz =
     \<lparr>udp_source = htons sourcePort, udp_dest = htons destinationPort, udp_len = htons (of_nat (8 + sz)), udp_check = 0\<rparr>"

definition udp_checksum :: "iphdr \<Rightarrow> udphdr \<Rightarrow> u8 list \<Rightarrow> u32" where
  "udp_checksum ip udp payload =
     (let c1 = addChecksum (le32 (ip_saddr ip)) 0;
          c2 = addChecksum (le32 (ip_daddr ip)) c1;
          c3 = addChecksum (le16 (htons (ucast IPPROTO_UDP))) c2;
          c4 = addChecksum (le16 (udp_len udp)) c3;
          c5 = addChecksum (udp_bytes udp) c4
      in addChecksum payload c5)"

definition raw_udp :: "iphdr \<Rightarrow> u16 \<Rightarrow> u16 \<Rightarrow> u8 list \<Rightarrow> udphdr" where
  "raw_udp ip sourcePort destinationPort payload =
     (let udp = raw_udp0 sourcePort destinationPort (length payload)
      in udp\<lparr>udp_check := ucast (finishChecksum (udp_checksum ip udp payload))\<rparr>)"

definition sendRawUdp :: "u32 \<Rightarrow> u16 \<Rightarrow> u32 \<Rightarrow> u16 \<Rightarrow> message \<Rightarrow> u8 list" where
  "sendRawUdp source sourcePort destination destinationPort m =
     (let ip = raw_ip source destination (mSize m);
          udp = raw_udp ip sourcePort destinationPort (msg_payload m)
      in ip_bytes ip @ udp_bytes udp @ msg_payload m)"

text \<open>What \<^verbatim>\<open>readv\<close> and \<^verbatim>\<open>recvmsg\<close> store in a message: the bytes that came, over the old contents.\<close>

definition msg_store :: "u8 list \<Rightarrow> message \<Rightarrow> message" where
  "msg_store xs m = \<lparr>dhcpData = dhcp_of_bytes (overlay 0 xs (dhcp_bytes (dhcpData m))), mSize = length xs\<rparr>"

text \<open>The result: success of the call, the message, its validity. \<open>None\<close> as input is a failed read.\<close>

definition receiveRawUdp :: "u16 \<Rightarrow> u8 list option \<Rightarrow> message \<Rightarrow> bool \<times> message \<times> bool" where
  "receiveRawUdp expectedPort input m =
     (case input of
        None \<Rightarrow> (False, m, False)
      | Some all \<Rightarrow>
          let b = take (28 + dhcp_size) all
          in if length b < 28 then (True, m, False)
             else (True, msg_store (drop 28 b) m,
                   drop_bit 4 (b ! 0) = IPVERSION \<and> take_bit 4 (b ! 0) = 5 \<and> b ! 9 = IPPROTO_UDP
                   \<and> of_le (take 2 (drop 22 b)) = htons expectedPort))"

section \<open>The server's socket\<close>

text \<open>What is handed to \<^verbatim>\<open>sendmsg\<close>: the destination, the interface of the control message and the bytes.\<close>

record datagram =
  dg_address :: u32
  dg_port :: u16
  dg_ifindex :: u32
  dg_bytes :: "u8 list"

definition sendOnInterface :: "bool \<Rightarrow> u32 \<Rightarrow> u32 \<Rightarrow> u16 \<Rightarrow> message \<Rightarrow> datagram option" where
  "sendOnInterface isOpen interfaceIndex destinationAddress destinationPort m =
     (if \<not> isOpen then None
      else Some \<lparr>dg_address = destinationAddress, dg_port = htons destinationPort, dg_ifindex = interfaceIndex, dg_bytes = msg_payload m\<rparr>)"

definition SOL_IP :: nat where "SOL_IP = 0"
definition IP_PKTINFO :: nat where "IP_PKTINFO = 8"

text \<open>The control messages come as level, type and interface index.\<close>

definition receiveFromInterface ::
  "u8 list option \<Rightarrow> (nat \<times> nat \<times> u32) list \<Rightarrow> message \<Rightarrow> u32 \<Rightarrow> bool \<times> message \<times> u32" where
  "receiveFromInterface input ctrls m interfaceIndex =
     (case input of
        None \<Rightarrow> (False, m, interfaceIndex)
      | Some all \<Rightarrow>
          (True, msg_store (take dhcp_size all) m,
           fold (\<lambda>(level, ty, i) idx. if level = SOL_IP \<and> ty = IP_PKTINFO then i else idx) ctrls interfaceIndex))"

section \<open>Checksums as numbers\<close>

fun wsum :: "u8 list \<Rightarrow> nat" where
  "wsum (a # b # xs) = unat (of_le [a, b] :: u16) + wsum xs"
| "wsum [a] = unat a"
| "wsum [] = 0"

lemma unat_u16: "unat (w :: u16) < 65536"
  using unsigned_less [of w, where 'a = nat] by simp

lemma unat_u8: "unat (w :: u8) < 256"
  using unsigned_less [of w, where 'a = nat] by simp

lemma unat_ucast_mod: "unat (ucast (w :: 'a::len word) :: 'b::len word) = unat w mod 2 ^ LENGTH('b)"
  by (simp add: unsigned_ucast_eq take_bit_nat_def)

lemma wsum_bound: "wsum xs \<le> 65535 * length xs"
proof (induction xs rule: wsum.induct)
  case (1 a b xs)
  then show ?case using unat_u16 [of "of_le [a, b]"] by simp
next
  case (2 a)
  then show ?case using unat_u8 [of a] by simp
qed simp

lemma wsum_append: "even (length xs) \<Longrightarrow> wsum (xs @ ys) = wsum xs + wsum ys"
  by (induction xs rule: wsum.induct) auto

lemma unat_add_words: "unat c + wsum xs < 2 ^ 32 \<Longrightarrow> unat (add_words xs c) = unat c + wsum xs"
proof (induction xs c rule: add_words.induct)
  case (1 a b xs c)
  let ?w = "ucast (of_le [a, b] :: u16) :: u32"
  have w: "unat ?w = unat (of_le [a, b] :: u16)" using unat_u16 [of "of_le [a, b]"] by (simp add: unat_ucast_mod)
  have "unat (c + ?w) = unat c + unat (of_le [a, b] :: u16)" using "1.prems" by (subst unat_add_no_wrap) (simp_all add: w)
  then show ?case using 1 by simp
next
  case (2 a c)
  have w: "unat (ucast a :: u32) = unat a" using unat_u8 [of a] by (simp add: unat_ucast_mod)
  show ?case using "2.prems" by (simp add: unat_add_no_wrap w)
qed simp

text \<open>A folded sum stands for the number, modulo 65535; it is 0 only for 0.\<close>

definition cks :: "nat \<Rightarrow> u32 \<Rightarrow> bool" where
  "cks s c \<longleftrightarrow> unat c < 65536 \<and> unat c mod 65535 = s mod 65535 \<and> (unat c = 0 \<longleftrightarrow> s = 0)"

lemma fold_msw_cks: "cks (unat c) (fold_msw c)"
proof (induction c rule: fold_msw.induct)
  case (1 c)
  let ?n = "unat c"
  show ?case
  proof (cases "drop_bit 16 c = 0")
    case True
    then have "?n div 65536 = 0" using unat_high_half [of c] by simp
    then show ?thesis using True by (subst fold_msw.simps) (simp add: cks_def)
  next
    case False
    have ih: "cks (?n mod 65536 + ?n div 65536) (fold_msw ((c AND 0xFFFF) + drop_bit 16 c))"
      using "1.IH" [OF refl False] by (simp only: unat_fold_step)
    have "?n = ?n div 65536 * 65535 + (?n mod 65536 + ?n div 65536)" using div_mult_mod_eq [of ?n 65536] by linarith
    then have "?n mod 65535 = (?n mod 65536 + ?n div 65536) mod 65535" by (metis mod_mult_self3)
    moreover have "?n mod 65536 + ?n div 65536 = 0 \<longleftrightarrow> ?n = 0" using div_mult_mod_eq [of ?n 65536] by auto
    ultimately show ?thesis using ih False by (subst fold_msw.simps) (simp add: cks_def Let_def)
  qed
qed

lemma addChecksum_cks:
  assumes "cks s c" "length xs < 65536"
  shows "cks (s + wsum xs) (addChecksum xs c)"
proof -
  have "65535 * length xs \<le> 65535 * 65535" using assms(2) by (intro mult_le_mono2) simp
  then have "unat c + wsum xs < 2 ^ 32" using assms(1) wsum_bound [of xs] by (simp add: cks_def)
  then have "unat (add_words xs c) = unat c + wsum xs" by (rule unat_add_words)
  then have f: "cks (unat c + wsum xs) (addChecksum xs c)"
    using fold_msw_cks [of "add_words xs c"] by (simp add: addChecksum_def)
  have c: "unat c mod 65535 = s mod 65535" "unat c = 0 \<longleftrightarrow> s = 0" using assms(1) unfolding cks_def by blast+
  have "(unat c + wsum xs) mod 65535 = (s + wsum xs) mod 65535" by (rule mod_add_cong [OF c(1) refl])
  moreover have "unat c + wsum xs = 0 \<longleftrightarrow> s + wsum xs = 0" using c(2) by presburger
  ultimately show ?thesis using f unfolding cks_def by metis
qed

lemma cks_0: "cks 0 0"
  by (simp add: cks_def)

lemma unat_finish:
  assumes "cks s c"
  shows "unat (ucast (finishChecksum c) :: u16) = 65535 - unat c"
proof -
  have c: "unat c < 65536" using assms by (simp add: cks_def)
  have "NOT c = - 1 - c" by (simp add: not_eq_complement)
  then have "unat (NOT c) = 2 ^ 32 - 1 - unat c" by (simp only: unat_sub [OF word_order.extremum]) (simp add: unsigned_minus_1_eq_mask mask_eq_exp_minus_1)
  moreover have "2 ^ 32 - 1 - unat c = 65535 * 65536 + (65535 - unat c)" using c by simp
  ultimately have big: "unat (NOT c) = 65535 * 65536 + (65535 - unat c)" by (rule trans)
  have f: "unat (finishChecksum c) = 65535 - unat c"
    unfolding finishChecksum_def unat_low_half using big by (simp only: mod_mult_self3) simp
  then have "unat (finishChecksum c) < 65536" by simp
  then show ?thesis using f by (simp add: unat_ucast_mod)
qed

text \<open>A sum of words that contains its own complemented checksum folds to \<open>0xFFFF\<close>.\<close>

lemma cks_complete:
  assumes "cks s c" "cks (s + unat (ucast (finishChecksum c) :: u16)) r"
  shows "r = 0xFFFF"
proof -
  let ?f = "unat (ucast (finishChecksum c) :: u16)"
  have c: "unat c < 65536" "unat c mod 65535 = s mod 65535" "unat c = 0 \<longleftrightarrow> s = 0" using assms(1) unfolding cks_def by blast+
  have f: "unat c + ?f = 65535" using unat_finish [OF assms(1)] c(1) by linarith
  have "(s + ?f) mod 65535 = (unat c + ?f) mod 65535" by (rule mod_add_cong [OF c(2) [symmetric] refl])
  then have m: "(s + ?f) mod 65535 = 0" by (simp add: f)
  have "s + ?f \<noteq> 0" using f c(3) by linarith
  moreover have "unat r < 65536" "unat r mod 65535 = 0" "unat r = 0 \<longleftrightarrow> s + ?f = 0" using assms(2) m unfolding cks_def by simp_all
  ultimately have r: "unat r < 65536" "unat r \<noteq> 0" "65535 dvd unat r" by (simp_all add: mod_eq_0_iff_dvd)
  then obtain k where k: "unat r = 65535 * k" by (elim dvdE)
  then have "k < 2" "k \<noteq> 0" using r(1,2) by auto
  then have "unat r = 65535" using k by (simp add: less_2_cases_iff)
  then show ?thesis by (simp add: word_unat_eq_iff)
qed

section \<open>Packets\<close>

lemma wsum_le16 [simp]: "wsum (le16 w @ xs) = unat w + wsum xs" "wsum (le16 w) = unat w"
proof -
  have "of_le [ucast w :: u8, ucast (drop_bit 8 w)] = w" using of_le16 [of w] by (simp add: le16_def)
  then show "wsum (le16 w @ xs) = unat w + wsum xs" "wsum (le16 w) = unat w" by (simp_all add: le16_def)
qed

lemma ip_bytes_length [simp]: "length (ip_bytes h) = 20" and udp_bytes_length [simp]: "length (udp_bytes u) = 8"
  by (simp_all add: ip_bytes_def udp_bytes_def)

lemma wsum_ip:
  assumes "ip_check h = 0"
  shows "wsum (ip_bytes (h\<lparr>ip_check := c\<rparr>)) = wsum (ip_bytes h) + unat c"
proof -
  let ?pre = "[ip_ihl h + 16 * ip_version h, ip_tos h] @ le16 (ip_tot_len h) @ le16 (ip_id h) @ le16 (ip_frag_off h) @ [ip_ttl h, ip_protocol h]"
  let ?post = "le32 (ip_saddr h) @ le32 (ip_daddr h)"
  have "ip_bytes (h\<lparr>ip_check := c\<rparr>) = ?pre @ le16 c @ ?post" "ip_bytes h = ?pre @ le16 0 @ ?post"
    using assms by (simp_all add: ip_bytes_def)
  moreover have "wsum (?pre @ le16 w @ ?post) = wsum ?pre + (unat w + wsum ?post)" for w
    by (subst wsum_append) simp_all
  ultimately show ?thesis by (simp only:) simp
qed

lemma wsum_udp: "udp_check u = 0 \<Longrightarrow> wsum (udp_bytes (u\<lparr>udp_check := c\<rparr>)) = wsum (udp_bytes u) + unat c"
  by (simp add: udp_bytes_def)

lemma msg_payload_length:
  "dhcp_ok (dhcpData m) \<Longrightarrow> mSize m \<le> dhcp_size \<Longrightarrow> length (msg_payload m) = mSize m"
  by (simp add: msg_payload_def dhcp_bytes_length)

text \<open>The pseudo header that a receiver puts in front of the UDP header for the checksum.\<close>

definition pseudo_header :: "iphdr \<Rightarrow> udphdr \<Rightarrow> u8 list" where
  "pseudo_header ip udp = le32 (ip_saddr ip) @ le32 (ip_daddr ip) @ [0, ip_protocol ip] @ le16 (udp_len udp)"

lemma raw_ip_checksum: "addChecksum (ip_bytes (raw_ip source destination n)) 0 = 0xFFFF"
proof -
  let ?ip = "raw_ip0 source destination n" and ?h = "raw_ip source destination n"
  let ?c = "addChecksum (ip_bytes ?ip) 0"
  have "cks (wsum (ip_bytes ?ip)) ?c" using addChecksum_cks [OF cks_0, of "ip_bytes ?ip"] by simp
  moreover have "cks (wsum (ip_bytes ?h)) (addChecksum (ip_bytes ?h) 0)" using addChecksum_cks [OF cks_0, of "ip_bytes ?h"] by simp
  moreover have "wsum (ip_bytes ?h) = wsum (ip_bytes ?ip) + unat (ucast (finishChecksum ?c) :: u16)"
    unfolding raw_ip_def Let_def by (rule wsum_ip) (simp add: raw_ip0_def)
  ultimately show ?thesis using cks_complete by metis
qed

lemma udp_checksum_cks:
  assumes "length pay \<le> 1260"
  shows "cks (wsum (le32 (ip_saddr ip)) + wsum (le32 (ip_daddr ip)) + wsum (le16 (htons (ucast IPPROTO_UDP))) + wsum (le16 (udp_len u))
           + wsum (udp_bytes u) + wsum pay) (udp_checksum ip u pay)"
proof -
  have "cks (0 + wsum (le32 (ip_saddr ip)) + wsum (le32 (ip_daddr ip)) + wsum (le16 (htons (ucast IPPROTO_UDP))) + wsum (le16 (udp_len u))
           + wsum (udp_bytes u) + wsum pay) (udp_checksum ip u pay)"
    unfolding udp_checksum_def Let_def by (intro addChecksum_cks cks_0) (use assms in simp_all)
  then show ?thesis by simp
qed

lemma raw_udp_checksum:
  fixes source destination :: u32 and n :: nat and sport dport :: u16
  assumes len: "length pay \<le> 1260"
  defines "ip \<equiv> raw_ip source destination n" and "udp \<equiv> raw_udp (raw_ip source destination n) sport dport pay"
  shows "addChecksum (pseudo_header ip udp @ udp_bytes udp @ pay) 0 = 0xFFFF"
proof -
  let ?u = "raw_udp0 sport dport (length pay)"
  let ?c = "udp_checksum ip ?u pay" and ?all = "pseudo_header ip udp @ udp_bytes udp @ pay"
  have udp: "udp = ?u\<lparr>udp_check := ucast (finishChecksum ?c)\<rparr>" by (simp add: udp_def ip_def raw_udp_def Let_def)
  have "le16 (htons (ucast IPPROTO_UDP)) = [0, IPPROTO_UDP]"
    by (simp add: htons_def le16_bytes) (simp add: le16_def IPPROTO_UDP_def)
  moreover have "ip_protocol ip = IPPROTO_UDP" by (simp add: ip_def raw_ip_def raw_ip0_def Let_def)
  ultimately have ph: "pseudo_header ip udp = le32 (ip_saddr ip) @ le32 (ip_daddr ip) @ le16 (htons (ucast IPPROTO_UDP)) @ le16 (udp_len ?u)"
    by (simp add: pseudo_header_def udp)
  have "wsum (udp_bytes udp) = wsum (udp_bytes ?u) + unat (ucast (finishChecksum ?c) :: u16)"
    unfolding udp by (rule wsum_udp) (simp add: raw_udp0_def)
  then have w: "wsum ?all = wsum (le32 (ip_saddr ip)) + wsum (le32 (ip_daddr ip)) + wsum (le16 (htons (ucast IPPROTO_UDP))) + wsum (le16 (udp_len ?u))
      + wsum (udp_bytes ?u) + wsum pay + unat (ucast (finishChecksum ?c) :: u16)"
    unfolding ph by (simp add: wsum_append)
  have "length ?all < 65536" using len by (simp add: pseudo_header_def)
  then have "cks (wsum ?all) (addChecksum ?all 0)" using addChecksum_cks [OF cks_0, of ?all] by simp
  then show ?thesis unfolding w by (rule cks_complete [OF udp_checksum_cks [OF len]])
qed

text \<open>What a receiver computes, after RFC 1071: the words of the bytes on the wire, most significant byte first and the last one
  filled up with a zero byte, are added with the carry carried around. The sender adds the words with the least
  significant byte first.\<close>

fun net_words :: "u8 list \<Rightarrow> nat list" where
  "net_words (a # b # xs) = (256 * unat a + unat b) # net_words xs"
| "net_words [a] = [256 * unat a]"
| "net_words [] = []"

definition ones_add :: "nat \<Rightarrow> nat \<Rightarrow> nat" where
  "ones_add a b = (a + b) mod 65536 + (a + b) div 65536"

definition internet_sum :: "u8 list \<Rightarrow> nat" where
  "internet_sum xs = fold ones_add (net_words xs) 0"

text \<open>The pseudo header of a packet, put together from its bytes: the two addresses, the protocol and the length of the datagram.\<close>

definition pseudo_bytes :: "u8 list \<Rightarrow> u8 list" where
  "pseudo_bytes p = take 8 (drop 12 p) @ [0, p ! 9] @ take 2 (drop 24 p)"

lemma ones_add_cong:
  assumes "a \<le> 65535" "b \<le> 65535"
  shows "ones_add a b \<le> 65535" "ones_add a b mod 65535 = (a + b) mod 65535" "ones_add a b = 0 \<longleftrightarrow> a + b = 0"
proof -
  have d: "(a + b) div 65536 \<le> 1" using assms by simp
  have e: "a + b = (a + b) div 65536 * 65535 + ones_add a b"
    using div_mult_mod_eq [of "a + b" 65536] by (simp add: ones_add_def)
  then show "ones_add a b mod 65535 = (a + b) mod 65535" by (metis mod_mult_self3)
  show "ones_add a b = 0 \<longleftrightarrow> a + b = 0" using div_mult_mod_eq [of "a + b" 65536] by (auto simp: ones_add_def)
  show "ones_add a b \<le> 65535"
  proof (cases "a + b < 65536")
    case False
    then have "(a + b) div 65536 = 1" using assms by simp
    then show ?thesis using e assms by simp
  qed (simp add: ones_add_def)
qed

lemma fold_ones_add:
  assumes "a \<le> 65535" "\<forall>w \<in> set ws. w \<le> 65535"
  shows "fold ones_add ws a \<le> 65535 \<and> fold ones_add ws a mod 65535 = (a + sum_list ws) mod 65535
    \<and> (fold ones_add ws a = 0 \<longleftrightarrow> a + sum_list ws = 0)"
  using assms
proof (induction ws arbitrary: a)
  case (Cons w ws)
  note o = ones_add_cong [of w a]
  have b: "w \<le> 65535" "a \<le> 65535" using Cons.prems by simp_all
  have "(ones_add w a + sum_list ws) mod 65535 = (w + a + sum_list ws) mod 65535" using mod_add_cong [OF o(2) [OF b] refl] .
  moreover have "ones_add w a + sum_list ws = 0 \<longleftrightarrow> w + a + sum_list ws = 0" using o(3) [OF b] by simp
  ultimately show ?case using Cons.IH [OF o(1) [OF b]] Cons.prems(2) by (simp add: add.commute add.left_commute)
qed simp

lemma net_words_bound: "w \<in> set (net_words xs) \<Longrightarrow> w \<le> 65535"
proof (induction xs rule: net_words.induct)
  case (1 a b xs)
  then show ?case using unat_u8 [of a] unat_u8 [of b] by auto
next
  case (2 a)
  then show ?case using unat_u8 [of a] by simp
qed simp

lemma unat_of_le2: "unat (of_le [a, b] :: u16) = unat a + 256 * unat b"
proof -
  define w :: u16 where "w = of_le [a, b]"
  have "le16 w = [a, b]" by (simp add: w_def le16_of_le)
  then have "a = ucast w" "b = ucast (drop_bit 8 w)" by (simp_all add: le16_def)
  then have a: "unat a = unat w mod 256" and b: "unat b = unat w div 256 mod 256"
    by (simp_all add: unat_ucast_mod unat_drop_bit_eq drop_bit_nat_def)
  have "unat w div 256 < 256" using unat_u16 [of w] by simp
  then have "unat b = unat w div 256" using b by simp
  then show ?thesis using a by (simp add: w_def)
qed

text \<open>The two sums differ by a rotation of the bytes, which is a factor of 256 modulo 65535.\<close>

lemma net_words_wsum: "sum_list (net_words xs) mod 65535 = 256 * wsum xs mod 65535 \<and> (sum_list (net_words xs) = 0 \<longleftrightarrow> wsum xs = 0)"
proof (induction xs rule: net_words.induct)
  case (1 a b xs)
  let ?w = "256 * unat a + unat b"
  have "256 * (unat a + 256 * unat b) = ?w + unat b * 65535" by simp
  then have "?w mod 65535 = 256 * (unat a + 256 * unat b) mod 65535" by (metis mod_mult_self1)
  moreover have "sum_list (net_words xs) mod 65535 = 256 * wsum xs mod 65535" using 1 by simp
  ultimately have "(?w + sum_list (net_words xs)) mod 65535 = (256 * (unat a + 256 * unat b) + 256 * wsum xs) mod 65535"
    by (rule mod_add_cong)
  then show ?case using 1 by (simp add: unat_of_le2 distrib_left)
qed simp_all

lemma internet_sum_complete:
  assumes "addChecksum xs 0 = 0xFFFF" "length xs < 65536"
  shows "internet_sum xs = 65535"
proof -
  have "cks (wsum xs) 0xFFFF" using addChecksum_cks [OF cks_0 assms(2)] assms(1) by simp
  then have w: "wsum xs mod 65535 = 0" "wsum xs \<noteq> 0" by (auto simp: cks_def)
  have "256 * wsum xs mod 65535 = 0" using w(1) by (metis mod_mult_right_eq mult_0_right mod_0)
  then have s: "sum_list (net_words xs) mod 65535 = 0" "sum_list (net_words xs) \<noteq> 0"
    using net_words_wsum [of xs] w(2) by simp_all
  have "internet_sum xs \<le> 65535" "internet_sum xs mod 65535 = 0" "internet_sum xs \<noteq> 0"
    using fold_ones_add [of 0 "net_words xs"] net_words_bound s by (auto simp: internet_sum_def)
  then show ?thesis by (metis le_neq_implies_less mod_less)
qed

lemma pseudo_bytes_header:
  "pseudo_bytes (ip_bytes ip @ udp_bytes udp @ xs) = pseudo_header ip udp"
  by (simp add: pseudo_bytes_def pseudo_header_def ip_bytes_def udp_bytes_def le16_def le32_def)

text \<open>C29. The checksums of a packet on the raw socket are the ones a receiver checks. The packet is an IP header of 20 bytes, a
  UDP header of 8 bytes and the message. The words of the IP header, as a receiver adds them by RFC 1071, give \<open>0xFFFF\<close> in one's
  complement arithmetic, and so do those of the pseudo header, the UDP header and the message, also for a
  message of odd size, whose last byte is filled up to a word.\<close>

theorem sendRawUdp_checksums:
  assumes ok: "dhcp_ok (dhcpData m)" "mSize m \<le> dhcp_size"
  shows "let p = sendRawUdp source sport destination dport m
     in length p = 28 + mSize m \<and> drop 28 p = msg_payload m
        \<and> internet_sum (take 20 p) = 0xFFFF \<and> internet_sum (pseudo_bytes p @ drop 20 p) = 0xFFFF"
proof -
  let ?ip = "raw_ip source destination (mSize m)"
  let ?udp = "raw_udp ?ip sport dport (msg_payload m)"
  have len: "length (msg_payload m) = mSize m" "mSize m \<le> 1260" using msg_payload_length [OF ok] ok(2) by (simp_all add: dhcp_size_def)
  have p: "sendRawUdp source sport destination dport m = ip_bytes ?ip @ udp_bytes ?udp @ msg_payload m"
    by (simp add: sendRawUdp_def Let_def len)
  have "internet_sum (ip_bytes ?ip) = 65535"
    by (rule internet_sum_complete [OF raw_ip_checksum]) simp
  moreover have "internet_sum (pseudo_header ?ip ?udp @ udp_bytes ?udp @ msg_payload m) = 65535"
    by (rule internet_sum_complete) (use raw_udp_checksum len in \<open>simp_all add: pseudo_header_def\<close>)
  ultimately show ?thesis using len unfolding p Let_def pseudo_bytes_header by simp
qed

theorem sendRawUdp_checksums_witness:
  "internet_sum (take 20 (sendRawUdp 0 68 0xFFFFFFFF 67 \<lparr>dhcpData = dhcp_zero, mSize = 301\<rparr>)) = 0xFFFF
     \<and> length (sendRawUdp 0 68 0xFFFFFFFF 67 \<lparr>dhcpData = dhcp_zero, mSize = 301\<rparr>) = 329"
  using sendRawUdp_checksums [of "\<lparr>dhcpData = dhcp_zero, mSize = 301\<rparr>", where source = 0 and sport = 68 and destination = "0xFFFFFFFF" and dport = 67]
  by (auto simp: dhcp_size_def Let_def)

section \<open>From one side to the other\<close>

lemma dhcp_of_head: "dhcp_ok d \<Longrightarrow> length xs = 1024 \<Longrightarrow> dhcp_of_bytes (dhcp_head d @ xs) = d\<lparr>options := xs\<rparr>"
  using dhcp_of_bytes_bytes [of "d\<lparr>options := xs\<rparr>"] by (simp add: dhcp_bytes_def dhcp_ok_def dhcp_head_def)

text \<open>A stored message still carries its options, whatever was in the buffer before.\<close>

lemma msg_store_carries:
  assumes m: "carries m d os" and old: "dhcp_ok (dhcpData old)"
  shows "carries (msg_store (msg_payload m) old) d os"
proof -
  obtain rest where d: "dhcp_ok d" "length (tlvs os) < 1000" and r: "length rest = 1019 - length (tlvs os)"
      "m = \<lparr>dhcpData = d\<lparr>options := OPT_COOKIE @ tlvs os @ OPT_END # rest\<rparr>, mSize = options_offset + 5 + length (tlvs os)\<rparr>"
    using m by (auto simp: carries_def)
  let ?h = "dhcp_head d" and ?t = "OPT_COOKIE @ tlvs os @ [OPT_END]"
  have h: "length ?h = options_offset" by (rule dhcp_head_length [OF d(1)])
  have "dhcp_bytes (dhcpData m) = ?h @ ?t @ rest" by (simp add: r(2) dhcp_bytes_def dhcp_head_def)
  then have p: "msg_payload m = ?h @ ?t" using h by (simp add: msg_payload_def r(2))
  let ?rest = "drop (options_offset + 5 + length (tlvs os)) (dhcp_bytes (dhcpData old))"
  have l: "length ?rest = 1019 - length (tlvs os)" using old by (simp add: dhcp_bytes_length dhcp_size_def options_offset_def)
  have "overlay 0 (msg_payload m) (dhcp_bytes (dhcpData old)) = ?h @ OPT_COOKIE @ tlvs os @ OPT_END # ?rest"
    using h by (simp add: overlay_def p add_ac)
  then have "msg_store (msg_payload m) old = \<lparr>dhcpData = d\<lparr>options := OPT_COOKIE @ tlvs os @ OPT_END # ?rest\<rparr>, mSize = options_offset + 5 + length (tlvs os)\<rparr>"
    using dhcp_of_head [OF d(1), of "OPT_COOKIE @ tlvs os @ OPT_END # ?rest"] l d(2) h by (simp add: msg_store_def p)
  then show ?thesis using m l unfolding carries_def by blast
qed

lemma msg_store_bytes:
  assumes "dhcp_ok (dhcpData old)" "length xs \<le> dhcp_size"
  shows "dhcp_ok (dhcpData (msg_store xs old))" "mSize (msg_store xs old) = length xs" "msg_payload (msg_store xs old) = xs"
proof -
  have l: "length (overlay 0 xs (dhcp_bytes (dhcpData old))) = dhcp_size" using assms by (simp add: dhcp_bytes_length)
  then show "dhcp_ok (dhcpData (msg_store xs old))" "mSize (msg_store xs old) = length xs" by (simp_all add: msg_store_def dhcp_of_bytes_ok)
  show "msg_payload (msg_store xs old) = xs" by (simp add: msg_payload_def msg_store_def dhcp_bytes_of_bytes [OF l]) (simp add: overlay_def)
qed

text \<open>C30. What one end puts on the raw socket, the other accepts on the port it was sent to, and finds
  the same bytes; a packet that is too short for the two headers, or for another port, is not taken for valid.\<close>

theorem raw_udp_roundtrip:
  assumes m: "dhcp_ok (dhcpData m)" "mSize m \<le> dhcp_size" and old: "dhcp_ok (dhcpData old)" and short: "length b < 28"
  shows "(\<exists>m'. receiveRawUdp port (Some (sendRawUdp source sport destination dport m)) old = (True, m', port = dport)
       \<and> dhcp_ok (dhcpData m') \<and> mSize m' = mSize m \<and> msg_payload m' = msg_payload m)
    \<and> receiveRawUdp port (Some b) old = (True, old, False)"
proof
  let ?ip = "raw_ip source destination (mSize m)" and ?u = "raw_udp (raw_ip source destination (mSize m)) sport dport (msg_payload m)"
  let ?b = "ip_bytes ?ip @ udp_bytes ?u @ msg_payload m"
  have b: "sendRawUdp source sport destination dport m = ?b" by (simp add: sendRawUdp_def Let_def)
  have len: "length (msg_payload m) = mSize m" by (rule msg_payload_length [OF m])
  have t: "take (28 + dhcp_size) ?b = ?b" using m(2) len by simp
  have first: "?b ! 0 = 0x45" "?b ! 9 = IPPROTO_UDP"
    by (simp_all add: ip_bytes_def raw_ip_def raw_ip0_def Let_def nth_append IPVERSION_def)
  have port: "take 2 (drop 22 ?b) = le16 (htons dport)" by (simp add: udp_bytes_def raw_udp_def raw_udp0_def Let_def)
  have d: "drop 28 ?b = msg_payload m" by simp
  have "receiveRawUdp port (Some ?b) old = (True, msg_store (msg_payload m) old, port = dport)"
    unfolding receiveRawUdp_def option.case Let_def t
    unfolding first port d using len by (simp add: IPVERSION_def take_bit_eq_mod) (metis htons_htons)
  moreover have "dhcp_ok (dhcpData (msg_store (msg_payload m) old))" "mSize (msg_store (msg_payload m) old) = mSize m"
    "msg_payload (msg_store (msg_payload m) old) = msg_payload m"
    using msg_store_bytes [OF old, of "msg_payload m"] len m(2) by simp_all
  ultimately show "\<exists>m'. receiveRawUdp port (Some (sendRawUdp source sport destination dport m)) old = (True, m', port = dport)
       \<and> dhcp_ok (dhcpData m') \<and> mSize m' = mSize m \<and> msg_payload m' = msg_payload m"
    unfolding b by blast
  show "receiveRawUdp port (Some b) old = (True, old, False)" using short by (simp add: receiveRawUdp_def)
qed

theorem raw_udp_roundtrip_witness:
  "\<exists>m'. receiveRawUdp 67 (Some (sendRawUdp 0 68 0xFFFFFFFF 67 \<lparr>dhcpData = dhcp_zero, mSize = 300\<rparr>)) Message_default = (True, m', True) \<and> mSize m' = 300"
proof -
  have "dhcp_ok (dhcpData \<lparr>dhcpData = dhcp_zero, mSize = 300\<rparr>)" "mSize \<lparr>dhcpData = dhcp_zero, mSize = 300\<rparr> \<le> dhcp_size"
    "dhcp_ok (dhcpData Message_default)" "length ([] :: u8 list) < 28" by (simp_all add: dhcp_size_def Message_default_def)
  from raw_udp_roundtrip [OF this, where port = 67 and dport = 67 and source = 0 and sport = 68 and destination = "0xFFFFFFFF"] show ?thesis
    by auto
qed

end
