(* ===== verification/Dhcp_Server.thy ===== *)
theory Dhcp_Server
  imports Dhcp_Socket
begin

text \<open>
  The DHCP server of \<^verbatim>\<open>dhcp/server\<close>: the table of leases, the choice of an address for a client, and the
  loop that answers messages. What the loop asks of the system (properties, interface names and addresses) is
  an environment. A result \<open>Inl\<close> is a call that does not return or a read outside the message.
\<close>

datatype fault = Never_returns | Bad_read

section \<open>State\<close>

record lease =
  InterfaceIndex :: u32
  MacAddress :: "u8 list"

definition mk_lease :: "u32 \<Rightarrow> u8 list \<Rightarrow> lease" where
  "mk_lease interfaceIndex macAddress = \<lparr>InterfaceIndex = interfaceIndex, MacAddress = take ETH_ALEN macAddress\<rparr>"

record server =
  mNextAddressOffset :: u32
  mDhcpRangeStart :: u32
  mDhcpRangeEnd :: u32
  mNetmask :: u32
  mGateway :: u32
  mDnsServers :: "u32 list"
  mLeases :: "lease \<rightharpoonup> u32"
  mExcludeInterface :: u32
  rxMessage :: message
  sNextTransactionId :: u32

definition DhcpServer :: "u32 \<Rightarrow> u32 \<Rightarrow> u32 \<Rightarrow> u32 \<Rightarrow> u32 \<Rightarrow> server" where
  "DhcpServer dhcpRangeStart dhcpRangeEnd netmask gateway excludeInterface =
     \<lparr>mNextAddressOffset = 0, mDhcpRangeStart = dhcpRangeStart, mDhcpRangeEnd = dhcpRangeEnd, mNetmask = netmask, mGateway = gateway,
      mDnsServers = [], mLeases = Map.empty, mExcludeInterface = excludeInterface, rxMessage = Message_default, sNextTransactionId = 1\<rparr>"

record server_env =
  property_get :: "string \<Rightarrow> string"
  inet_pton :: "string \<Rightarrow> u32 option"
  if_indextoname :: "u32 \<Rightarrow> string option"
  siocgifaddr :: "string \<Rightarrow> u32 option"

section \<open>Addresses\<close>

definition kMaxDnsServers :: nat where "kMaxDnsServers = 4"

definition dns_key :: "nat \<Rightarrow> string" where
  "dns_key i = ''net.eth0.dns'' @ [char_of (48 + i)]"

definition updateDnsServers :: "server_env \<Rightarrow> server \<Rightarrow> server" where
  "updateDnsServers env s = s\<lparr>mDnsServers :=
     List.map_filter (\<lambda>i. let v = property_get env (dns_key i) in if length v > 0 then inet_pton env v else None) [1 ..< kMaxDnsServers + 1]\<rparr>"

definition getInterfaceAddress :: "server_env \<Rightarrow> u32 \<Rightarrow> u32 option" where
  "getInterfaceAddress env interfaceIndex =
     (case if_indextoname env interfaceIndex of None \<Rightarrow> None | Some name \<Rightarrow> siocgifaddr env (take 15 name))"

text \<open>The loop over unusable addresses does not recompute the last byte that it tests.\<close>

partial_function (option) skip_address :: "u8 \<Rightarrow> u32 \<Rightarrow> u32 \<Rightarrow> (u32 \<times> u32) option" where
  "skip_address lastAddressByte nextAddress offset =
     (if lastAddressByte = 0xFF \<or> lastAddressByte = 0 then skip_address lastAddressByte (nextAddress + 1) (offset + 1)
      else Some (nextAddress, offset))"

text \<open>The outcome is the address, or \<open>None\<close> if there is none left; the entry is created in any case.\<close>

definition getOfferAddress :: "u32 \<Rightarrow> u8 list \<Rightarrow> server \<Rightarrow> fault + (server \<times> u32 option)" where
  "getOfferAddress interfaceIndex macAddress s =
     (let key = mk_lease interfaceIndex macAddress;
          value = (case mLeases s key of None \<Rightarrow> 0 | Some a \<Rightarrow> a);
          s1 = s\<lparr>mLeases := (mLeases s)(key \<mapsto> value)\<rparr>
      in if value = 0 then
           let nextAddress = htonl (mDhcpRangeStart s) + mNextAddressOffset s
           in (case skip_address (ucast (nextAddress AND 0xFF)) nextAddress (mNextAddressOffset s) of
                 None \<Rightarrow> Inl Never_returns
               | Some (a, off) \<Rightarrow>
                   if a \<le> htonl (mDhcpRangeEnd s)
                   then Inr (s1\<lparr>mLeases := (mLeases s1)(key \<mapsto> htonl a), mNextAddressOffset := off + 1\<rparr>, Some (htonl a))
                   else Inr (s1\<lparr>mNextAddressOffset := off\<rparr>, None))
         else Inr (s1, Some value))"

section \<open>Answers\<close>

type_synonym sent = "(u32 \<times> message) list"

text \<open>A message sent on an interface, as the datagram of the open socket.\<close>

definition server_sendMessage :: "u32 \<times> message \<Rightarrow> datagram option" where
  "server_sendMessage p = sendOnInterface True (fst p) 0xFFFFFFFF PORT_BOOTP_CLIENT (snd p)"

text \<open>The offer and the acknowledgement are sent in the same way; only the builder of the message differs.\<close>

type_synonym reply_builder = "u32 \<Rightarrow> message \<Rightarrow> u32 \<Rightarrow> u32 \<Rightarrow> u32 \<Rightarrow> u32 \<Rightarrow> u32 list \<Rightarrow> (message \<times> u32) option"

definition send_lease :: "reply_builder \<Rightarrow> server_env \<Rightarrow> message \<Rightarrow> u32 \<Rightarrow> server \<Rightarrow> fault + (server \<times> sent)" where
  "send_lease build env msg interfaceIndex s =
     (let s1 = updateDnsServers env s
      in case getOfferAddress interfaceIndex (chaddr (dhcpData msg)) s1 of
           Inl e \<Rightarrow> Inl e
         | Inr (s2, None) \<Rightarrow> Inr (s2, [])
         | Inr (s2, Some offerAddress) \<Rightarrow>
             (case getInterfaceAddress env interfaceIndex of
                None \<Rightarrow> Inr (s2, [])
              | Some serverAddress \<Rightarrow>
                  (case build (sNextTransactionId s2) msg serverAddress offerAddress (mNetmask s2) (mGateway s2) (mDnsServers s2) of
                     None \<Rightarrow> Inl Bad_read
                   | Some (m, n) \<Rightarrow> Inr (s2\<lparr>sNextTransactionId := n\<rparr>, [(interfaceIndex, m)]))))"

definition sendDhcpOffer :: "server_env \<Rightarrow> message \<Rightarrow> u32 \<Rightarrow> server \<Rightarrow> fault + (server \<times> sent)" where
  "sendDhcpOffer = send_lease offer"

definition sendAck :: "server_env \<Rightarrow> message \<Rightarrow> u32 \<Rightarrow> server \<Rightarrow> fault + (server \<times> sent)" where
  "sendAck = send_lease ack"

definition sendNack :: "server_env \<Rightarrow> message \<Rightarrow> u32 \<Rightarrow> server \<Rightarrow> fault + (server \<times> sent)" where
  "sendNack env msg interfaceIndex s =
     (case getInterfaceAddress env interfaceIndex of
        None \<Rightarrow> Inr (s, [])
      | Some serverAddress \<Rightarrow>
          (case nack (sNextTransactionId s) msg serverAddress of
             None \<Rightarrow> Inl Bad_read
           | Some (m, n) \<Rightarrow> Inr (s\<lparr>sNextTransactionId := n\<rparr>, [(interfaceIndex, m)])))"

definition isValidDhcpRequest :: "message \<Rightarrow> u32 \<Rightarrow> server \<Rightarrow> fault + (server \<times> bool)" where
  "isValidDhcpRequest msg interfaceIndex s =
     (case getOfferAddress interfaceIndex (chaddr (dhcpData msg)) s of
        Inl e \<Rightarrow> Inl e
      | Inr (s1, None) \<Rightarrow> Inr (s1, False)
      | Inr (s1, Some offerAddress) \<Rightarrow>
          (case requestedIp msg of None \<Rightarrow> Inl Bad_read | Some a \<Rightarrow> Inr (s1, a = offerAddress)))"

section \<open>The loop\<close>

datatype server_event =
    Poll_nothing
  | Packet (packet_data: "u8 list option") (packet_ctrl: "(nat \<times> nat \<times> u32) list")

definition server_message :: "server_env \<Rightarrow> u32 \<Rightarrow> message \<Rightarrow> server \<Rightarrow> fault + (server \<times> sent)" where
  "server_message env interfaceIndex msg s =
     (case msg_type msg of
        None \<Rightarrow> Inl Bad_read
      | Some t \<Rightarrow>
          if t = DHCPDISCOVER then sendDhcpOffer env msg interfaceIndex s
          else if t = DHCPREQUEST then
            (case isValidDhcpRequest msg interfaceIndex s of
               Inl e \<Rightarrow> Inl e
             | Inr (s1, valid) \<Rightarrow> if valid then sendAck env msg interfaceIndex s1 else sendNack env msg interfaceIndex s1)
          else Inr (s, []))"

definition server_round :: "server_env \<Rightarrow> server_event \<Rightarrow> server \<Rightarrow> fault + (server \<times> sent)" where
  "server_round env ev s =
     (case ev of
        Poll_nothing \<Rightarrow> Inr (s, [])
      | Packet input ctrls \<Rightarrow>
          let (ok, msg, interfaceIndex) = receiveFromInterface input ctrls (rxMessage s) 0;
              s1 = s\<lparr>rxMessage := msg\<rparr>
          in if \<not> ok then Inr (s1, [])
             else if interfaceIndex = 0 \<or> mExcludeInterface s1 = interfaceIndex then Inr (s1, [])
             else if \<not> isValidDhcpMessage OP_BOOTREQUEST msg then Inr (s1, [])
             else server_message env interfaceIndex msg s1)"

text \<open>The environment may differ from one round to the next. The loop goes on until a poll fails.\<close>

fun DhcpServer_run :: "(server_env \<times> server_event) list \<Rightarrow> server \<Rightarrow> fault + (server \<times> sent)" where
  "DhcpServer_run [] s = Inr (s, [])"
| "DhcpServer_run ((env, ev) # evs) s =
     (case server_round env ev s of
        Inl e \<Rightarrow> Inl e
      | Inr (s1, out1) \<Rightarrow>
          (case DhcpServer_run evs s1 of Inl e \<Rightarrow> Inl e | Inr (s2, out2) \<Rightarrow> Inr (s2, out1 @ out2)))"

section \<open>The choice of an address\<close>

lemma skip_address_spins:
  assumes "skip_address l a off = Some y"
  shows "l \<noteq> 0xFF \<and> l \<noteq> 0"
  by (rule skip_address.raw_induct [where P = "\<lambda>l a off y. l \<noteq> 0xFF \<and> l \<noteq> 0", OF _ assms]) (simp split: if_splits)

lemma skip_address_spec: "skip_address l a off = (if l = 0xFF \<or> l = 0 then None else Some (a, off))"
proof (cases "l = 0xFF \<or> l = 0")
  case True
  then have "skip_address l a off = None" using skip_address_spins by (metis option.exhaust)
  then show ?thesis using True by simp
next
  case False
  then show ?thesis by (subst skip_address.simps) simp
qed

text \<open>Addresses that end in \<open>.0\<close> or \<open>.255\<close> are not usable.\<close>

definition usable :: "u32 \<Rightarrow> bool" where
  "usable a \<longleftrightarrow> unat a mod 256 \<noteq> 0 \<and> unat a mod 256 \<noteq> 255"

lemma unat_last_byte: "unat (ucast (a AND 0xFF :: u32) :: u8) = unat a mod 256"
proof -
  have "a AND 0xFF = take_bit 8 a" by (simp add: take_bit_eq_mask mask_eq_exp_minus_1)
  then show ?thesis by (simp add: unat_ucast_mod unsigned_take_bit_eq take_bit_nat_def)
qed

lemma skip_address_usable: "skip_address (ucast (a AND 0xFF)) a off = (if usable a then Some (a, off) else None)"
proof -
  have "ucast (a AND 0xFF) = (0xFF :: u8) \<longleftrightarrow> unat a mod 256 = 255" "ucast (a AND 0xFF) = (0 :: u8) \<longleftrightarrow> unat a mod 256 = 0"
    unfolding word_unat_eq_iff unat_last_byte by simp_all
  then show ?thesis by (auto simp: skip_address_spec usable_def)
qed

section \<open>The table of leases\<close>

definition leases_ok :: "server \<Rightarrow> bool" where
  "leases_ok s \<longleftrightarrow>
     unat (htonl (mDhcpRangeStart s)) + unat (mNextAddressOffset s) < 2 ^ 32
     \<and> (\<forall>k a. mLeases s k = Some a \<longrightarrow> a \<noteq> 0 \<longrightarrow>
          unat (htonl (mDhcpRangeStart s)) \<le> unat (htonl a) \<and> unat (htonl a) < unat (htonl (mDhcpRangeStart s)) + unat (mNextAddressOffset s)
          \<and> htonl a \<le> htonl (mDhcpRangeEnd s) \<and> usable (htonl a))
     \<and> (\<forall>k k' a. mLeases s k = Some a \<longrightarrow> mLeases s k' = Some a \<longrightarrow> a \<noteq> 0 \<longrightarrow> k = k')"

text \<open>What a step of the server keeps: its configuration and the leases given out.\<close>

definition config :: "server \<Rightarrow> u32 \<times> u32 \<times> u32 \<times> u32 \<times> u32" where
  "config s = (mDhcpRangeStart s, mDhcpRangeEnd s, mNetmask s, mGateway s, mExcludeInterface s)"

definition keeps :: "server \<Rightarrow> server \<Rightarrow> bool" where
  "keeps s s' \<longleftrightarrow> config s' = config s \<and> (leases_ok s \<longrightarrow> leases_ok s') \<and> (\<forall>k a. mLeases s k = Some a \<longrightarrow> a \<noteq> 0 \<longrightarrow> mLeases s' k = Some a)"

lemma keeps_refl: "keeps s s"
  by (simp add: keeps_def)

lemma keeps_trans: "keeps s s' \<Longrightarrow> keeps s' s'' \<Longrightarrow> keeps s s''"
  by (simp add: keeps_def)

lemma keeps_update:
  "keeps s (s\<lparr>mDnsServers := d\<rparr>)" "keeps s (s\<lparr>rxMessage := m\<rparr>)" "keeps s (s\<lparr>sNextTransactionId := n\<rparr>)"
  by (simp_all add: keeps_def config_def leases_ok_def)

text \<open>The cases of the search for an address.\<close>

lemma getOfferAddress_cases:
  fixes s mac idx
  defines "k \<equiv> mk_lease idx mac" and "next \<equiv> htonl (mDhcpRangeStart s) + mNextAddressOffset s"
  obtains
    (lease) a where "mLeases s k = Some a" "a \<noteq> 0" "getOfferAddress idx mac s = Inr (s\<lparr>mLeases := (mLeases s)(k \<mapsto> a)\<rparr>, Some a)"
  | (hangs) "mLeases s k \<in> {None, Some 0}" "\<not> usable next" "getOfferAddress idx mac s = Inl Never_returns"
  | (fresh) "mLeases s k \<in> {None, Some 0}" "usable next" "next \<le> htonl (mDhcpRangeEnd s)"
      "getOfferAddress idx mac s = Inr (s\<lparr>mLeases := (mLeases s)(k \<mapsto> htonl next), mNextAddressOffset := mNextAddressOffset s + 1\<rparr>, Some (htonl next))"
  | (full) "mLeases s k \<in> {None, Some 0}" "usable next" "\<not> next \<le> htonl (mDhcpRangeEnd s)"
      "getOfferAddress idx mac s = Inr (s\<lparr>mLeases := (mLeases s)(k \<mapsto> 0)\<rparr>, None)"
proof (cases "mLeases s k \<in> {None, Some 0}")
  case True
  then have v: "(case mLeases s k of None \<Rightarrow> 0 | Some a \<Rightarrow> a) = 0" by (auto split: option.splits)
  show ?thesis
  proof (cases "usable next")
    case False
    then show ?thesis using True v hangs by (simp add: getOfferAddress_def Let_def skip_address_usable flip: k_def next_def)
  next
    case u: True
    show ?thesis
    proof (cases "next \<le> htonl (mDhcpRangeEnd s)")
      case le: True
      then show ?thesis
        using True v u by (intro fresh) (simp_all add: getOfferAddress_def Let_def skip_address_usable flip: k_def next_def)
    next
      case False
      then show ?thesis
        using True v u by (intro full) (simp_all add: getOfferAddress_def Let_def skip_address_usable flip: k_def next_def)
    qed
  qed
next
  case False
  then obtain a where "mLeases s k = Some a" "a \<noteq> 0" by auto
  then show ?thesis by (intro lease) (simp_all add: getOfferAddress_def Let_def flip: k_def)
qed

lemma leases_fresh:
  assumes ok: "leases_ok s" and u: "usable nxt" and le: "nxt \<le> htonl (mDhcpRangeEnd s)"
    and nxt: "nxt = htonl (mDhcpRangeStart s) + mNextAddressOffset s"
  shows "leases_ok (s\<lparr>mLeases := (mLeases s)(k \<mapsto> htonl nxt), mNextAddressOffset := mNextAddressOffset s + 1\<rparr>)"
proof -
  let ?st = "unat (htonl (mDhcpRangeStart s))" and ?off = "mNextAddressOffset s"
  have n: "unat nxt = ?st + unat ?off" using ok unfolding nxt by (subst unat_add_no_wrap) (auto simp: leases_ok_def)
  have "unat nxt mod 256 \<noteq> 255" using u by (simp add: usable_def)
  then have lim: "unat nxt < 2 ^ 32 - 1" using unsigned_less [of nxt, where 'a = nat] by (cases "unat nxt = 2 ^ 32 - 1") auto
  then have off: "unat (?off + 1) = unat ?off + 1" using n by (subst unat_add_no_wrap) auto
  have old: "unat (htonl a) < unat nxt" if "mLeases s k' = Some a" "a \<noteq> 0" for k' a
    using ok that n unfolding leases_ok_def by metis
  have 1: "?st + unat (?off + 1) < 2 ^ 32" using lim n off by simp
  have 2: "?st \<le> unat (htonl a) \<and> unat (htonl a) < ?st + unat (?off + 1) \<and> htonl a \<le> htonl (mDhcpRangeEnd s) \<and> usable (htonl a)"
    if "((mLeases s)(k \<mapsto> htonl nxt)) k' = Some a" "a \<noteq> 0" for k' a
  proof (cases "k' = k")
    case True
    then have "htonl a = nxt" using that(1) by auto
    then show ?thesis using n off u le by simp
  next
    case False
    then have "mLeases s k' = Some a" using that(1) by simp
    then have "?st \<le> unat (htonl a)" "unat (htonl a) < ?st + unat ?off" "htonl a \<le> htonl (mDhcpRangeEnd s)" "usable (htonl a)"
      using ok that(2) unfolding leases_ok_def by blast+
    then show ?thesis using off by simp
  qed
  have ne: "mLeases s j \<noteq> Some (htonl nxt)" if "htonl nxt \<noteq> 0" for j
    using old [of j "htonl nxt"] that by auto
  have inj: "i = j" if "mLeases s i = Some a" "mLeases s j = Some a" "a \<noteq> 0" for i j a
    using ok that unfolding leases_ok_def by blast
  have 3: "i = j" if "((mLeases s)(k \<mapsto> htonl nxt)) i = Some a" "((mLeases s)(k \<mapsto> htonl nxt)) j = Some a" "a \<noteq> 0" for i j a
  proof (cases "i = k \<or> j = k")
    case True
    then have "a = htonl nxt" using that(1,2) by (auto simp: fun_upd_def split: if_splits)
    then show ?thesis using True that ne by (metis fun_upd_other)
  next
    case False
    then show ?thesis using that inj by simp
  qed
  let ?s = "s\<lparr>mLeases := (mLeases s)(k \<mapsto> htonl nxt), mNextAddressOffset := mNextAddressOffset s + 1\<rparr>"
  have f: "mLeases ?s = (mLeases s)(k \<mapsto> htonl nxt)" "mNextAddressOffset ?s = ?off + 1" "mDhcpRangeStart ?s = mDhcpRangeStart s"
    "mDhcpRangeEnd ?s = mDhcpRangeEnd s" by simp_all
  show ?thesis unfolding leases_ok_def f using 1 2 3 by blast
qed

lemma leases_entry:
  assumes "leases_ok s" "mLeases s k \<in> {None, Some 0}"
  shows "leases_ok (s\<lparr>mLeases := (mLeases s)(k \<mapsto> 0)\<rparr>)"
  using assms unfolding leases_ok_def by (auto split: if_splits)

lemma getOfferAddress_keeps:
  assumes "getOfferAddress idx mac s = Inr (s', r)"
  shows "keeps s s' \<and> mDnsServers s' = mDnsServers s \<and> rxMessage s' = rxMessage s \<and> sNextTransactionId s' = sNextTransactionId s
    \<and> (leases_ok s \<longrightarrow> (\<forall>a. r = Some a \<longrightarrow> a \<noteq> 0 \<and> mLeases s' (mk_lease idx mac) = Some a))"
proof (cases rule: getOfferAddress_cases [of s idx mac])
  case (lease a)
  then show ?thesis using assms by (auto simp: keeps_def config_def map_upd_triv)
next
  case hangs
  then show ?thesis using assms by simp
next
  case fresh
  let ?n = "htonl (mDhcpRangeStart s) + mNextAddressOffset s"
  have "htonl ?n \<noteq> 0" using fresh(2) by (auto simp: usable_def htonl_eq_0)
  then show ?thesis using assms fresh leases_fresh [OF _ fresh(2,3) refl, of "mk_lease idx mac"]
    by (auto simp: keeps_def config_def)
next
  case full
  then show ?thesis using assms leases_entry [OF _ full(1)] by (auto simp: keeps_def config_def)
qed

section \<open>The answers\<close>

lemma dns_length: "length (mDnsServers (updateDnsServers env s)) \<le> 4"
proof -
  have "length (List.map_filter f [1 ..< kMaxDnsServers + 1]) \<le> 4" for f :: "nat \<Rightarrow> u32 option"
    using length_filter_le [of "\<lambda>x. f x \<noteq> None" "[1 ..< kMaxDnsServers + 1]"] by (simp add: List.map_filter_def kMaxDnsServers_def)
  then show ?thesis by (simp add: updateDnsServers_def)
qed

lemma updateDnsServers_frame:
  "mLeases (updateDnsServers env s) = mLeases s" "rxMessage (updateDnsServers env s) = rxMessage s"
  "keeps s (updateDnsServers env s)" "leases_ok (updateDnsServers env s) = leases_ok s" "config (updateDnsServers env s) = config s"
  "sNextTransactionId (updateDnsServers env s) = sNextTransactionId s"
  by (simp_all add: updateDnsServers_def keeps_update leases_ok_def config_def)

text \<open>A message sent promises the address that the table has for the client, and belongs to the network of the configuration.\<close>

definition promises :: "server \<Rightarrow> u32 \<times> message \<Rightarrow> bool" where
  "promises s p \<longleftrightarrow> (case p of (idx, m) \<Rightarrow>
     msg_type m \<in> {Some DHCPOFFER, Some DHCPACK} \<longrightarrow>
       yiaddr (dhcpData m) \<noteq> 0 \<and> mLeases s (mk_lease idx (chaddr (dhcpData m))) = Some (yiaddr (dhcpData m)))"

lemma promises_keeps: "promises s p \<Longrightarrow> keeps s s' \<Longrightarrow> promises s' p"
  by (auto simp: promises_def keeps_def split: prod.splits)

definition lease_builder :: "u8 \<Rightarrow> reply_builder \<Rightarrow> bool" where
  "lease_builder t build \<longleftrightarrow> (\<forall>nid src server addr netmask gateway dns. length dns \<le> 63 \<longrightarrow>
     (\<exists>m. build nid src server addr netmask gateway dns = Some (m, nid + 1)
        \<and> carries m ((reply_head (dhcpData src))\<lparr>yiaddr := addr\<rparr>) (lease_opts t server netmask gateway dns)))"

lemma lease_builders: "lease_builder DHCPOFFER offer" "lease_builder DHCPACK ack"
  by (simp_all add: lease_builder_def offer_carries ack_carries)

lemma mk_lease_reply: "length xs = 16 \<Longrightarrow> mk_lease idx (take 6 xs @ ys) = mk_lease idx xs"
  by (simp add: mk_lease_def ETH_ALEN_def)

text \<open>The message that is sent when there are an address and a server address.\<close>

lemma send_lease_reply:
  assumes b: "lease_builder t build" and o': "getOfferAddress idx (chaddr (dhcpData msg)) (updateDnsServers env s) = Inr (s2, Some a)"
    and srv: "getInterfaceAddress env idx = Some srv"
  shows "\<exists>m. send_lease build env msg idx s = Inr (s2\<lparr>sNextTransactionId := sNextTransactionId s + 1\<rparr>, [(idx, m)])
     \<and> carries m ((reply_head (dhcpData msg))\<lparr>yiaddr := a\<rparr>) (lease_opts t srv (mNetmask s) (mGateway s) (mDnsServers (updateDnsServers env s)))"
proof -
  let ?dns = "mDnsServers (updateDnsServers env s)"
  have k: "keeps (updateDnsServers env s) s2" "mDnsServers s2 = ?dns" "sNextTransactionId s2 = sNextTransactionId s"
    using getOfferAddress_keeps [OF o'] by (simp_all add: updateDnsServers_frame)
  then have c: "mNetmask s2 = mNetmask s" "mGateway s2 = mGateway s" by (auto simp: keeps_def config_def updateDnsServers_def)
  have "length ?dns \<le> 63" using dns_length [of env s] by simp
  then obtain m where "build (sNextTransactionId s) msg srv a (mNetmask s) (mGateway s) ?dns = Some (m, sNextTransactionId s + 1)"
      "carries m ((reply_head (dhcpData msg))\<lparr>yiaddr := a\<rparr>) (lease_opts t srv (mNetmask s) (mGateway s) ?dns)"
    using b unfolding lease_builder_def by blast
  then show ?thesis using o' srv k c by (simp add: send_lease_def Let_def)
qed

lemma send_lease_keeps:
  assumes b: "lease_builder t build" and msg: "dhcp_ok (dhcpData msg)" and s: "send_lease build env msg idx s = Inr (s', out)"
  shows "keeps s s' \<and> rxMessage s' = rxMessage s \<and> (leases_ok s \<longrightarrow> (\<forall>p \<in> set out. promises s' p))"
proof -
  obtain s2 r where o': "getOfferAddress idx (chaddr (dhcpData msg)) (updateDnsServers env s) = Inr (s2, r)"
    using s by (cases "getOfferAddress idx (chaddr (dhcpData msg)) (updateDnsServers env s)") (auto simp: send_lease_def Let_def)
  note g = getOfferAddress_keeps [OF o']
  have k: "keeps s s2" using g updateDnsServers_frame(3) keeps_trans by blast
  have rx: "rxMessage s2 = rxMessage s" using g by (simp add: updateDnsServers_frame)
  show ?thesis
  proof (cases "\<exists>a srv. r = Some a \<and> getInterfaceAddress env idx = Some srv")
    case True
    then obtain a srv where r: "r = Some a" "getInterfaceAddress env idx = Some srv" by blast
    obtain m where m: "s' = s2\<lparr>sNextTransactionId := sNextTransactionId s + 1\<rparr>" "out = [(idx, m)]"
        "carries m ((reply_head (dhcpData msg))\<lparr>yiaddr := a\<rparr>) (lease_opts t srv (mNetmask s) (mGateway s) (mDnsServers (updateDnsServers env s)))"
      using send_lease_reply [OF b o' [unfolded r(1)] r(2)] s by auto
    have k': "keeps s s'" unfolding m(1) using keeps_trans [OF k keeps_update(3)] .
    have "mk_lease idx (chaddr (dhcpData m)) = mk_lease idx (chaddr (dhcpData msg))"
      using msg by (simp add: carries_fields [OF m(3)] mk_lease_reply dhcp_ok_def)
    then have "leases_ok s \<longrightarrow> promises s' (idx, m)"
      using g r(1) by (simp add: promises_def carries_fields [OF m(3)] m(1) updateDnsServers_frame)
    then show ?thesis using k' rx m(1,2) by simp
  next
    case False
    then have "s' = s2" "out = []" using s o' by (auto simp: send_lease_def Let_def split: option.splits)
    then show ?thesis using k rx by simp
  qed
qed

lemma sendNack_keeps:
  assumes "sendNack env msg idx s = Inr (s', out)"
  shows "keeps s s' \<and> rxMessage s' = rxMessage s \<and> (\<forall>p \<in> set out. promises s' p)"
proof (cases "getInterfaceAddress env idx")
  case None
  then show ?thesis using assms by (simp add: sendNack_def keeps_refl)
next
  case (Some srv)
  obtain m where m: "nack (sNextTransactionId s) msg srv = Some (m, sNextTransactionId s + 1)"
      "carries m (reply_head (dhcpData msg)) [(OPT_MESSAGE_TYPE, [DHCPNAK]), (OPT_SERVER_ID, le32 srv)]"
    using nack_carries by blast
  have "msg_type m = Some DHCPNAK" by (simp add: carries_reads [OF m(2)])
  then show ?thesis using assms Some m(1) by (auto simp: sendNack_def keeps_update promises_def dhcp_codes)
qed

lemma isValidDhcpRequest_keeps:
  assumes "isValidDhcpRequest msg idx s = Inr (s', v)"
  shows "keeps s s' \<and> rxMessage s' = rxMessage s"
proof -
  obtain s1 r where g: "getOfferAddress idx (chaddr (dhcpData msg)) s = Inr (s1, r)"
    using assms by (cases "getOfferAddress idx (chaddr (dhcpData msg)) s") (auto simp: isValidDhcpRequest_def)
  have "s' = s1" using assms g by (auto simp: isValidDhcpRequest_def split: option.splits)
  then show ?thesis using getOfferAddress_keeps [OF g] by simp
qed

lemma server_message_keeps:
  assumes "dhcp_ok (dhcpData msg)" "server_message env idx msg s = Inr (s', out)"
  shows "keeps s s' \<and> rxMessage s' = rxMessage s \<and> (leases_ok s \<longrightarrow> (\<forall>p \<in> set out. promises s' p))"
proof -
  consider (offer) "sendDhcpOffer env msg idx s = Inr (s', out)"
    | (ack) s1 where "isValidDhcpRequest msg idx s = Inr (s1, True)" "sendAck env msg idx s1 = Inr (s', out)"
    | (nack) s1 where "isValidDhcpRequest msg idx s = Inr (s1, False)" "sendNack env msg idx s1 = Inr (s', out)"
    | (none) "s' = s" "out = []"
  proof -
    obtain t where t: "msg_type msg = Some t" using assms(2) by (cases "msg_type msg") (auto simp: server_message_def)
    show thesis
    proof (cases "t = DHCPDISCOVER \<or> t \<noteq> DHCPREQUEST")
      case True
      then show ?thesis using assms(2) t offer none by (auto simp: server_message_def split: if_splits)
    next
      case False
      then obtain s1 v where "isValidDhcpRequest msg idx s = Inr (s1, v)"
        using assms(2) t by (cases "isValidDhcpRequest msg idx s") (auto simp: server_message_def)
      moreover have "t = DHCPREQUEST" "DHCPREQUEST \<noteq> DHCPDISCOVER" using False by (auto simp: dhcp_codes)
      ultimately show ?thesis using assms(2) t ack nack by (cases v) (simp_all add: server_message_def)
    qed
  qed
  then show ?thesis
  proof cases
    case offer
    then show ?thesis using send_lease_keeps [OF lease_builders(1) assms(1)] by (simp add: sendDhcpOffer_def)
  next
    case ack
    then show ?thesis
      using send_lease_keeps [OF lease_builders(2) assms(1), of env idx s1] isValidDhcpRequest_keeps [OF ack(1)]
      by (auto simp: sendAck_def keeps_def)
  next
    case nack
    then show ?thesis using sendNack_keeps [OF nack(2)] isValidDhcpRequest_keeps [OF nack(1)] by (auto intro: keeps_trans)
  next
    case none
    then show ?thesis by (simp add: keeps_refl)
  qed
qed

lemma server_round_keeps:
  assumes ok: "dhcp_ok (dhcpData (rxMessage s))" and r: "server_round env ev s = Inr (s', out)"
  shows "keeps s s' \<and> dhcp_ok (dhcpData (rxMessage s')) \<and> (leases_ok s \<longrightarrow> (\<forall>p \<in> set out. promises s' p))"
proof (cases ev)
  case Poll_nothing
  then show ?thesis using ok r by (simp add: server_round_def keeps_refl)
next
  case (Packet input ctrls)
  obtain g msg idx where f: "receiveFromInterface input ctrls (rxMessage s) 0 = (g, msg, idx)" by (metis surj_pair)
  have m: "dhcp_ok (dhcpData msg)"
    using f ok msg_store_bytes(1) [OF ok, of "take dhcp_size (the input)"] by (auto simp: receiveFromInterface_def split: option.splits)
  let ?s = "s\<lparr>rxMessage := msg\<rparr>"
  have k: "keeps s ?s" "leases_ok ?s = leases_ok s" by (simp_all add: keeps_update leases_ok_def)
  consider "s' = ?s" "out = []" | "server_message env idx msg ?s = Inr (s', out)"
  proof -
    have "server_round env ev s = (if g \<and> idx \<noteq> 0 \<and> mExcludeInterface s \<noteq> idx \<and> isValidDhcpMessage OP_BOOTREQUEST msg
        then server_message env idx msg ?s else Inr (?s, []))" by (auto simp: server_round_def Packet f Let_def)
    then show thesis using r that by (cases "g \<and> idx \<noteq> 0 \<and> mExcludeInterface s \<noteq> idx \<and> isValidDhcpMessage OP_BOOTREQUEST msg") auto
  qed
  then show ?thesis
  proof cases
    case 1
    then show ?thesis using k m by simp
  next
    case 2
    then show ?thesis using server_message_keeps [OF m 2] k m keeps_trans [OF k(1)] by auto
  qed
qed

lemma DhcpServer_run_keeps:
  assumes "dhcp_ok (dhcpData (rxMessage s))" "DhcpServer_run evs s = Inr (s', out)"
  shows "keeps s s' \<and> dhcp_ok (dhcpData (rxMessage s')) \<and> (leases_ok s \<longrightarrow> (\<forall>p \<in> set out. promises s' p))"
  using assms
proof (induction evs arbitrary: s out)
  case Nil
  then show ?case by (simp add: keeps_refl)
next
  case (Cons x evs)
  obtain env ev where x: "x = (env, ev)" by (cases x)
  obtain s1 o1 o2 where r: "server_round env ev s = Inr (s1, o1)" "DhcpServer_run evs s1 = Inr (s', o2)" "out = o1 @ o2"
    using Cons.prems(2) by (auto simp: x split: sum.splits prod.splits)
  note h = server_round_keeps [OF Cons.prems(1) r(1)]
  note t = Cons.IH [OF conjunct1 [OF conjunct2 [OF h]] r(2)]
  have "promises s' p" if "leases_ok s" "p \<in> set out" for p
  proof -
    have "leases_ok s1" using h that(1) by (simp add: keeps_def)
    then show ?thesis using h t that r(3) promises_keeps [of s1 p s'] by auto
  qed
  then show ?case using h t keeps_trans by blast
qed

section \<open>Clients with and without a lease\<close>

lemma getOfferAddress_known:
  assumes "mLeases s (mk_lease idx mac) = Some a" "a \<noteq> 0"
  shows "getOfferAddress idx mac s = Inr (s, Some a)"
proof (cases rule: getOfferAddress_cases [of s idx mac])
  case (lease b)
  then show ?thesis using assms by (simp add: map_upd_triv)
qed (use assms in auto)

lemma getOfferAddress_new:
  assumes "mLeases s (mk_lease idx mac) = None" "nxt = htonl (mDhcpRangeStart s) + mNextAddressOffset s" "usable nxt" "nxt \<le> htonl (mDhcpRangeEnd s)"
  shows "getOfferAddress idx mac s = Inr (s\<lparr>mLeases := (mLeases s)(mk_lease idx mac \<mapsto> htonl nxt), mNextAddressOffset := mNextAddressOffset s + 1\<rparr>, Some (htonl nxt))"
proof (cases rule: getOfferAddress_cases [of s idx mac])
  case fresh
  then show ?thesis using assms by simp
qed (use assms in auto)

text \<open>A packet on an interface that is not excluded reaches the handler.\<close>

lemma server_round_packet:
  assumes m: "carries m d os" and d: "op d = OP_BOOTREQUEST" "htype d = HTYPE_ETHER" "hlen d = 6"
    and idx: "idx \<noteq> 0" "idx \<noteq> mExcludeInterface s" and rx: "dhcp_ok (dhcpData (rxMessage s))"
  shows "\<exists>m'. carries m' d os
    \<and> server_round env (Packet (Some (msg_payload m)) [(SOL_IP, IP_PKTINFO, idx)]) s = server_message env idx m' (s\<lparr>rxMessage := m'\<rparr>)"
proof -
  let ?m = "msg_store (msg_payload m) (rxMessage s)"
  have c: "carries ?m d os" by (rule msg_store_carries [OF m rx])
  have "length (msg_payload m) \<le> dhcp_size" using carries_fields [OF m] by (simp add: msg_payload_length)
  then have "receiveFromInterface (Some (msg_payload m)) [(SOL_IP, IP_PKTINFO, idx)] (rxMessage s) 0 = (True, ?m, idx)"
    by (simp add: receiveFromInterface_def)
  then have "server_round env (Packet (Some (msg_payload m)) [(SOL_IP, IP_PKTINFO, idx)]) s = server_message env idx ?m (s\<lparr>rxMessage := ?m\<rparr>)"
    using idx carries_valid [OF c] d by (simp add: server_round_def Let_def)
  then show ?thesis using c by blast
qed

lemma server_discover:
  assumes msg: "carries msg d os" and t: "map_of os OPT_MESSAGE_TYPE = Some [DHCPDISCOVER]"
    and new: "mLeases s (mk_lease idx (chaddr d)) = None" and nxt: "nxt = htonl (mDhcpRangeStart s) + mNextAddressOffset s"
    and free: "usable nxt" "nxt \<le> htonl (mDhcpRangeEnd s)" and srv: "getInterfaceAddress env idx = Some srv"
  shows "\<exists>s' m. server_message env idx msg s = Inr (s', [(idx, m)]) \<and> mLeases s' = (mLeases s)(mk_lease idx (chaddr d) \<mapsto> htonl nxt)
     \<and> config s' = config s \<and> rxMessage s' = rxMessage s
     \<and> carries m ((reply_head (dhcpData msg))\<lparr>yiaddr := htonl nxt\<rparr>) (lease_opts DHCPOFFER srv (mNetmask s) (mGateway s) (mDnsServers (updateDnsServers env s)))"
proof -
  have mt: "msg_type msg = Some DHCPDISCOVER" using t by (simp add: carries_reads [OF msg])
  have c: "chaddr (dhcpData msg) = chaddr d" by (simp add: carries_fields [OF msg])
  let ?s = "updateDnsServers env s"
  have f: "mDhcpRangeStart ?s = mDhcpRangeStart s" "mNextAddressOffset ?s = mNextAddressOffset s" "mDhcpRangeEnd ?s = mDhcpRangeEnd s"
    by (simp_all add: updateDnsServers_def)
  have g: "getOfferAddress idx (chaddr (dhcpData msg)) ?s
      = Inr (?s\<lparr>mLeases := (mLeases ?s)(mk_lease idx (chaddr d) \<mapsto> htonl nxt), mNextAddressOffset := mNextAddressOffset ?s + 1\<rparr>, Some (htonl nxt))"
    unfolding c by (rule getOfferAddress_new) (simp_all add: updateDnsServers_frame new nxt free f flip: nxt)
  have "server_message env idx msg s = send_lease offer env msg idx s" using mt by (simp add: server_message_def sendDhcpOffer_def)
  then show ?thesis using send_lease_reply [OF lease_builders(1) g srv] by (auto simp: updateDnsServers_def config_def)
qed

lemma server_ack:
  assumes msg: "carries msg d os" and t: "map_of os OPT_MESSAGE_TYPE = Some [DHCPREQUEST]" and ip: "map_of os OPT_REQUESTED_IP = Some (le32 a)"
    and lease: "mLeases s (mk_lease idx (chaddr d)) = Some a" "a \<noteq> 0" and srv: "getInterfaceAddress env idx = Some srv"
  shows "\<exists>s' m. server_message env idx msg s = Inr (s', [(idx, m)]) \<and> mLeases s' = mLeases s
     \<and> carries m ((reply_head (dhcpData msg))\<lparr>yiaddr := a\<rparr>) (lease_opts DHCPACK srv (mNetmask s) (mGateway s) (mDnsServers (updateDnsServers env s)))"
proof -
  have mt: "msg_type msg = Some DHCPREQUEST" "requestedIp msg = Some a" using t ip by (simp_all add: carries_reads [OF msg])
  have c: "chaddr (dhcpData msg) = chaddr d" by (simp add: carries_fields [OF msg])
  have "isValidDhcpRequest msg idx s = Inr (s, True)"
    using getOfferAddress_known [OF lease] mt(2) by (simp add: isValidDhcpRequest_def c)
  then have step: "server_message env idx msg s = send_lease ack env msg idx s"
    using mt(1) by (simp add: server_message_def sendAck_def dhcp_codes)
  have "getOfferAddress idx (chaddr (dhcpData msg)) (updateDnsServers env s) = Inr (updateDnsServers env s, Some a)"
    by (rule getOfferAddress_known) (simp_all add: lease c updateDnsServers_frame)
  from send_lease_reply [OF lease_builders(2) this srv] step show ?thesis by (auto simp: updateDnsServers_frame)
qed

lemma server_nack:
  assumes msg: "carries msg d os" and t: "map_of os OPT_MESSAGE_TYPE = Some [DHCPREQUEST]" and ip: "map_of os OPT_REQUESTED_IP = Some (le32 a)"
    and lease: "mLeases s (mk_lease idx (chaddr d)) = Some b" "b \<noteq> 0" "a \<noteq> b" and srv: "getInterfaceAddress env idx = Some srv"
  shows "\<exists>s' m. server_message env idx msg s = Inr (s', [(idx, m)]) \<and> mLeases s' = mLeases s
     \<and> carries m (reply_head (dhcpData msg)) [(OPT_MESSAGE_TYPE, [DHCPNAK]), (OPT_SERVER_ID, le32 srv)]"
proof -
  have mt: "msg_type msg = Some DHCPREQUEST" "requestedIp msg = Some a" using t ip by (simp_all add: carries_reads [OF msg])
  have "isValidDhcpRequest msg idx s = Inr (s, False)"
    using getOfferAddress_known [OF lease(1,2)] mt(2) lease(3) by (simp add: isValidDhcpRequest_def carries_fields [OF msg])
  then have "server_message env idx msg s = sendNack env msg idx s" using mt(1) by (simp add: server_message_def dhcp_codes)
  then show ?thesis using nack_carries [of "sNextTransactionId s" msg srv] srv by (auto simp: sendNack_def)
qed

section \<open>Properties\<close>

lemma DhcpServer_ok: "leases_ok (DhcpServer st en nm gw ex)" "dhcp_ok (dhcpData (rxMessage (DhcpServer st en nm gw ex)))"
  using unsigned_less [of "htonl st", where 'a = nat] by (simp_all add: leases_ok_def DhcpServer_def Message_default_def)

text \<open>C8. Whatever packets come, no two clients hold the same address, every lease is inside the range and ends neither in
  \<open>.0\<close> nor in \<open>.255\<close>, a lease once given stays with its client for ever, and each offer and acknowledgement sent
  promises the client it answers the address that the table has for it.\<close>

theorem dhcp_server_leases:
  assumes r: "DhcpServer_run evs (DhcpServer st en nm gw ex) = Inr (s, out)" and later: "DhcpServer_run evs2 s = Inr (s2, out2)"
  shows "(\<forall>k a. mLeases s k = Some a \<longrightarrow> a \<noteq> 0 \<longrightarrow>
            htonl st \<le> htonl a \<and> htonl a \<le> htonl en \<and> usable (htonl a) \<and> mLeases s2 k = Some a)
    \<and> (\<forall>k k' a. mLeases s k = Some a \<longrightarrow> mLeases s k' = Some a \<longrightarrow> a \<noteq> 0 \<longrightarrow> k = k')
    \<and> (\<forall>(idx, m) \<in> set out. msg_type m \<in> {Some DHCPOFFER, Some DHCPACK} \<longrightarrow>
         yiaddr (dhcpData m) \<noteq> 0 \<and> mLeases s (mk_lease idx (chaddr (dhcpData m))) = Some (yiaddr (dhcpData m)))"
proof -
  note h = DhcpServer_run_keeps [OF DhcpServer_ok(2) r]
  have k2: "keeps s s2" using DhcpServer_run_keeps [OF _ later] h by blast
  have ok: "leases_ok s" using h DhcpServer_ok(1) by (simp add: keeps_def)
  have c: "mDhcpRangeStart s = st" "mDhcpRangeEnd s = en" using h by (auto simp: keeps_def config_def DhcpServer_def)
  have p: "\<forall>p \<in> set out. promises s p" using h DhcpServer_ok(1) by blast
  have "htonl st \<le> htonl a \<and> htonl a \<le> htonl en \<and> usable (htonl a) \<and> mLeases s2 k = Some a" if "mLeases s k = Some a" "a \<noteq> 0" for k a
    using ok k2 that unfolding leases_ok_def keeps_def c word_le_nat_alt by blast
  moreover have "k = k'" if "mLeases s k = Some a" "mLeases s k' = Some a" "a \<noteq> 0" for k k' a
    using ok that unfolding leases_ok_def by blast
  ultimately show ?thesis using p unfolding promises_def by blast
qed

text \<open>A server for \<open>192.168.1.10\<close> to \<open>192.168.1.20\<close> on an interface with the address \<open>192.168.1.1\<close>, and a client.\<close>

definition demo_server :: server where
  "demo_server = DhcpServer (htonl 0xC0A8010A) (htonl 0xC0A80114) (htonl 0xFFFFFF00) (htonl 0xC0A80101) 0"

definition demo_env :: server_env where
  "demo_env = \<lparr>property_get = (\<lambda>k. if k = ''net.eth0.dns1'' then ''8.8.8.8'' else []), inet_pton = (\<lambda>t. Some 0x08080808),
     if_indextoname = (\<lambda>i. Some ''wlan1''), siocgifaddr = (\<lambda>n. Some (htonl 0xC0A80101))\<rparr>"

definition demo_mac :: "u8 list" where
  "demo_mac = [2, 0, 0, 0, 0, 1]"

lemma demo_fields [simp]:
  "mDhcpRangeStart demo_server = htonl 0xC0A8010A" "mDhcpRangeEnd demo_server = htonl 0xC0A80114" "mNetmask demo_server = htonl 0xFFFFFF00"
  "mGateway demo_server = htonl 0xC0A80101" "mExcludeInterface demo_server = 0" "mNextAddressOffset demo_server = 0" "mLeases demo_server = Map.empty"
  "rxMessage demo_server = Message_default" "length demo_mac = 6" "getInterfaceAddress demo_env i = Some (htonl 0xC0A80101)"
  by (simp_all add: demo_server_def DhcpServer_def demo_mac_def demo_env_def getInterfaceAddress_def)

lemma demo_discover:
  "\<exists>ev s m. DhcpServer_run [(demo_env, ev)] demo_server = Inr (s, [(1, m)])
     \<and> mLeases s = [mk_lease 1 (chaddr (client_head 7 demo_mac)) \<mapsto> htonl 0xC0A8010A]"
proof -
  obtain m where m: "carries m (client_head 7 demo_mac) [(OPT_MESSAGE_TYPE, [DHCPDISCOVER]), (OPT_PARAMETER_LIST, kRequestParameters)]"
    using discover_carries by blast
  obtain m' where m': "carries m' (client_head 7 demo_mac) [(OPT_MESSAGE_TYPE, [DHCPDISCOVER]), (OPT_PARAMETER_LIST, kRequestParameters)]"
      "server_round demo_env (Packet (Some (msg_payload m)) [(SOL_IP, IP_PKTINFO, 1)]) demo_server = server_message demo_env 1 m' (demo_server\<lparr>rxMessage := m'\<rparr>)"
    using server_round_packet [OF m, where idx = 1 and s = demo_server and env = demo_env] by (auto simp: Message_default_def)
  show ?thesis
    using server_discover [OF m'(1), where s = "demo_server\<lparr>rxMessage := m'\<rparr>" and idx = 1 and nxt = "0xC0A8010A" and env = demo_env and srv = "htonl 0xC0A80101"] m'(2)
    by (intro exI [of _ "Packet (Some (msg_payload m)) [(SOL_IP, IP_PKTINFO, 1)]"]) (auto simp: usable_def)
qed

theorem dhcp_server_leases_witness:
  "\<exists>ev s m. DhcpServer_run [(demo_env, ev)] demo_server = Inr (s, [(1, m)])
     \<and> (\<exists>k a. mLeases s k = Some a \<and> a \<noteq> 0 \<and> htonl a \<le> 0xC0A80114 \<and> usable (htonl a))"
proof -
  let ?k = "mk_lease 1 (chaddr (client_head 7 demo_mac))"
  obtain ev s m where r: "DhcpServer_run [(demo_env, ev)] demo_server = Inr (s, [(1, m)])" "mLeases s ?k = Some (htonl 0xC0A8010A)"
    using demo_discover by auto
  have "DhcpServer_run [] s = Inr (s, [])" by simp
  note l = dhcp_server_leases [OF r(1) [unfolded demo_server_def] this, THEN conjunct1, rule_format, OF r(2)]
  have "htonl 0xC0A8010A \<noteq> 0" by (simp add: htonl_eq_0)
  then show ?thesis using r l by (metis htonl_htonl)
qed

text \<open>C31. The choice of an address returns exactly if the client has a lease already or the next address of the range is usable: when that
  address ends in \<open>.0\<close> or \<open>.255\<close> the loop that should pass over it never ends, and with it the server.\<close>

theorem getOfferAddress_returns:
  "(\<exists>s' r. getOfferAddress idx mac s = Inr (s', r)) \<longleftrightarrow>
     (\<exists>a. mLeases s (mk_lease idx mac) = Some a \<and> a \<noteq> 0) \<or> usable (htonl (mDhcpRangeStart s) + mNextAddressOffset s)"
proof (cases rule: getOfferAddress_cases [of s idx mac])
  case (lease a)
  then show ?thesis by simp
qed auto

text \<open>C32. A client that asks for the address it was given gets an acknowledgement with that address, its own transaction id and the
  configuration of the network; one that asks for another address gets a refusal. The table does not change.\<close>

theorem dhcp_server_request:
  assumes msg: "carries msg d os" and t: "map_of os OPT_MESSAGE_TYPE = Some [DHCPREQUEST]" and ip: "map_of os OPT_REQUESTED_IP = Some (le32 a)"
    and lease: "mLeases s (mk_lease idx (chaddr d)) = Some b" "b \<noteq> 0" and srv: "getInterfaceAddress env idx = Some srv"
  shows "\<exists>s' m. server_message env idx msg s = Inr (s', [(idx, m)]) \<and> mLeases s' = mLeases s
     \<and> isValidDhcpMessage_xid OP_BOOTREPLY (xid d) m \<and> serverId m = Some srv
     \<and> (if a = b then msg_type m = Some DHCPACK \<and> yiaddr (dhcpData m) = b else msg_type m = Some DHCPNAK)"
proof (cases "a = b")
  case True
  then show ?thesis
    using server_ack [OF msg t ip, of s idx] lease srv
    by (fastforce simp: isValidDhcpMessage_xid_def carries_valid carries_fields [OF msg] carries_fields carries_reads lease_opts_def dhcp_codes)
next
  case False
  then show ?thesis
    using server_nack [OF msg t ip lease False srv]
    by (fastforce simp: isValidDhcpMessage_xid_def carries_valid carries_fields [OF msg] carries_fields carries_reads dhcp_codes)
qed

theorem dhcp_server_request_witness:
  "\<exists>msg s' m. server_message demo_env 1 msg (demo_server\<lparr>mLeases := [mk_lease 1 (chaddr (client_head 7 demo_mac)) \<mapsto> 5]\<rparr>) = Inr (s', [(1, m)])
     \<and> msg_type m = Some DHCPACK \<and> yiaddr (dhcpData m) = 5"
proof -
  obtain msg where msg: "carries msg (client_head 7 demo_mac) [(OPT_MESSAGE_TYPE, [DHCPREQUEST]), (OPT_PARAMETER_LIST, kRequestParameters),
      (OPT_REQUESTED_IP, le32 5), (OPT_SERVER_ID, le32 6)]"
    using request_carries by blast
  let ?s = "demo_server\<lparr>mLeases := [mk_lease 1 (chaddr (client_head 7 demo_mac)) \<mapsto> 5]\<rparr>"
  have "\<exists>s' m. server_message demo_env 1 msg ?s = Inr (s', [(1, m)]) \<and> mLeases s' = mLeases ?s
     \<and> isValidDhcpMessage_xid OP_BOOTREPLY (xid (client_head 7 demo_mac)) m \<and> serverId m = Some (htonl 0xC0A80101)
     \<and> (if (5::u32) = 5 then msg_type m = Some DHCPACK \<and> yiaddr (dhcpData m) = 5 else msg_type m = Some DHCPNAK)"
    by (rule dhcp_server_request [OF msg]) (simp_all add: dhcp_codes)
  then show ?thesis by auto
qed

end
