(* ===== verification/Dhcp_Client.thy ===== *)
theory Dhcp_Client
  imports Dhcp_Socket
begin

text \<open>
  The DHCP client of \<^verbatim>\<open>dhcp/client\<close>: timers, the network interface and the default route it sets,
  the interpretation of a lease, and the state machine. One step of the machine is the action of the current state,
  or one round of the wait for a message. Clock readings, random numbers and the outcomes of system calls are inputs.
  \<open>None\<close> as a result is a read outside the message.
\<close>

section \<open>Timers\<close>

type_synonym timer = u64

definition expireSeconds :: "u64 \<Rightarrow> u64 \<Rightarrow> timer" where
  "expireSeconds now seconds = now + seconds * 1000"

definition expired :: "u64 \<Rightarrow> timer \<Rightarrow> bool" where
  "expired now mExpires \<longleftrightarrow> now \<ge> mExpires"

definition remainingMillis :: "u64 \<Rightarrow> timer \<Rightarrow> u64" where
  "remainingMillis current mExpires = (if current > mExpires then 0 else mExpires - current)"

section \<open>Interface and route\<close>

text \<open>What the system has been told, and the outcomes of its calls. A call that fails changes nothing.\<close>

record network =
  if_up :: bool
  if_addr :: u32
  if_netmask :: u32
  if_mtu :: u16
  routes :: "u8 list list"
  properties :: "string \<Rightarrow> string"

record system =
  get_flags_ok :: bool
  set_flags_ok :: bool
  set_mtu_ok :: bool
  set_addr_ok :: bool
  set_mask_ok :: bool
  route_ok :: bool
  now_t1 :: u64
  now_t2 :: u64
  inet_ntop :: "u32 \<Rightarrow> string"

definition setInterfaceUp :: "system \<Rightarrow> bool \<Rightarrow> network \<Rightarrow> bool \<times> network" where
  "setInterfaceUp sys shouldBeUp net =
     (if \<not> get_flags_ok sys then (False, net)
      else if if_up net \<noteq> shouldBeUp then
        if set_flags_ok sys then (True, net\<lparr>if_up := \<not> if_up net\<rparr>) else (False, net)
      else (True, net))"

definition bringUp :: "system \<Rightarrow> network \<Rightarrow> bool \<times> network" where
  "bringUp sys = setInterfaceUp sys True"

definition bringDown :: "system \<Rightarrow> network \<Rightarrow> bool \<times> network" where
  "bringDown sys = setInterfaceUp sys False"

definition setMtu :: "system \<Rightarrow> u16 \<Rightarrow> network \<Rightarrow> bool \<times> network" where
  "setMtu sys v net = (if set_mtu_ok sys then (True, net\<lparr>if_mtu := v\<rparr>) else (False, net))"

definition setAddress :: "system \<Rightarrow> u32 \<Rightarrow> network \<Rightarrow> bool \<times> network" where
  "setAddress sys a net = (if set_addr_ok sys then (True, net\<lparr>if_addr := a\<rparr>) else (False, net))"

definition setSubnetMask :: "system \<Rightarrow> u32 \<Rightarrow> network \<Rightarrow> bool \<times> network" where
  "setSubnetMask sys a net = (if set_mask_ok sys then (True, net\<lparr>if_netmask := a\<rparr>) else (False, net))"

text \<open>The netlink request for the default route, as bytes: header, route message and a buffer for attributes.\<close>

definition NLMSG_ALIGN :: "nat \<Rightarrow> nat" where
  "NLMSG_ALIGN n = (n + 3) div 4 * 4"

record route_request =
  nlmsg_len :: nat
  nlmsg_type :: u16
  nlmsg_flags :: u16
  rtmsg :: "u8 list"
  rt_buf :: "u8 list"

definition addRouterAttribute :: "u16 \<Rightarrow> u8 list \<Rightarrow> route_request \<Rightarrow> route_request" where
  "addRouterAttribute ty data r =
     (let offset = NLMSG_ALIGN (nlmsg_len r) - 28;
          rta_len = 4 + length data
      in r\<lparr>rt_buf := overlay offset (le16 (of_nat rta_len) @ le16 ty @ data) (rt_buf r),
           nlmsg_len := NLMSG_ALIGN (nlmsg_len r) + NLMSG_ALIGN rta_len\<rparr>)"

definition route_bytes :: "route_request \<Rightarrow> u8 list" where
  "route_bytes r = take (nlmsg_len r)
     (le32 (of_nat (nlmsg_len r)) @ le16 (nlmsg_type r) @ le16 (nlmsg_flags r) @ le32 0 @ le32 0 @ rtmsg r @ rt_buf r)"

definition setDefaultGateway :: "system \<Rightarrow> u32 \<Rightarrow> u32 \<Rightarrow> network \<Rightarrow> bool \<times> network" where
  "setDefaultGateway sys gateway ifaceIndex net =
     (let request = \<lparr>nlmsg_len = 28, nlmsg_type = 24, nlmsg_flags = 0x401, rtmsg = [2, 0, 0, 0, 254, 3, 0, 1, 0, 0, 0, 0],
            rt_buf = replicate 256 0\<rparr>;
          r1 = addRouterAttribute 5 (le32 gateway) request;
          r2 = addRouterAttribute 4 (le32 ifaceIndex) r1
      in if route_ok sys then (True, net\<lparr>routes := route_bytes r2 # routes net\<rparr>) else (False, net))"

section \<open>The client\<close>

datatype State = Init | Selecting | Requesting | Bound | Renewing | Rebinding

record dhcp_info =
  info_t1 :: u32
  info_t2 :: u32
  info_leaseTime :: u32
  info_mtu :: u16
  info_dns :: "u32 list"
  info_gateway :: u32
  info_subnetMask :: u32
  info_serverId :: u32
  info_offeredAddress :: u32

definition info_zero :: dhcp_info where
  "info_zero = \<lparr>info_t1 = 0, info_t2 = 0, info_leaseTime = 0, info_mtu = 0, info_dns = [0, 0, 0, 0], info_gateway = 0, info_subnetMask = 0,
     info_serverId = 0, info_offeredAddress = 0\<rparr>"

text \<open>\<open>waiting\<close> is the timeout of the wait in progress, \<open>None\<close> when the state is to be evaluated.\<close>

record client =
  mDhcpInfo :: dhcp_info
  mInterfaceName :: string
  mIndex :: u32
  mMacAddress :: "u8 list"
  mLastMsg :: message
  mT1 :: timer
  mT2 :: timer
  mState :: State
  mNextTimeout :: u32
  mFuzzNextTimeout :: bool
  mRequestAddress :: u32
  mServerAddress :: u32
  nextTransactionId :: u32
  waiting :: "u32 option"
  net :: network

definition kInitialTimeout :: u32 where "kInitialTimeout = 4000"
definition kMaxTimeout :: u32 where "kMaxTimeout = 64000"
definition kNoTimeout :: u32 where "kNoTimeout = 0"
definition INADDR_ANY :: u32 where "INADDR_ANY = 0"
definition INADDR_BROADCAST :: u32 where "INADDR_BROADCAST = 0xFFFFFFFF"

definition setNextState :: "State \<Rightarrow> client \<Rightarrow> client" where
  "setNextState state c = c\<lparr>mState := state, mNextTimeout := kNoTimeout, mFuzzNextTimeout := True\<rparr>"

definition increaseTimeout :: "client \<Rightarrow> client" where
  "increaseTimeout c =
     (if mNextTimeout c = kNoTimeout then c\<lparr>mNextTimeout := kInitialTimeout\<rparr>
      else
        let t1 = (if mNextTimeout c < kMaxTimeout then mNextTimeout c * 2 else mNextTimeout c);
            t2 = (if t1 > kMaxTimeout then kMaxTimeout else t1)
        in c\<lparr>mNextTimeout := t2\<rparr>)"

definition calculateTimeoutMillis :: "int \<Rightarrow> client \<Rightarrow> u32" where
  "calculateTimeoutMillis adjustment c =
     (if \<not> mFuzzNextTimeout c then mNextTimeout c
      else if adjustment < 0 \<and> of_int (- adjustment) > mNextTimeout c then 0
      else mNextTimeout c + of_int adjustment)"

definition sendMessage :: "message \<Rightarrow> u8 list" where
  "sendMessage m = sendRawUdp INADDR_ANY PORT_BOOTP_CLIENT INADDR_BROADCAST PORT_BOOTP_SERVER m"

definition sendDhcpDiscover :: "client \<Rightarrow> (client \<times> u8 list) option" where
  "sendDhcpDiscover c = map_option (\<lambda>(m, n). (c\<lparr>mLastMsg := m, nextTransactionId := n\<rparr>, sendMessage m))
     (discover (nextTransactionId c) (mMacAddress c))"

definition sendDhcpRequest :: "u32 \<Rightarrow> client \<Rightarrow> (client \<times> u8 list) option" where
  "sendDhcpRequest destination c = map_option (\<lambda>(m, n). (c\<lparr>mLastMsg := m, nextTransactionId := n\<rparr>, sendMessage m))
     (request (nextTransactionId c) (mMacAddress c) (mRequestAddress c) destination)"

definition receiveDhcpMessage :: "u8 list option \<Rightarrow> client \<Rightarrow> message option" where
  "receiveDhcpMessage input c =
     (let (ok, msg, isValid) = receiveRawUdp PORT_BOOTP_CLIENT input Message_default
      in if ok \<and> isValid \<and> isValidDhcpMessage_xid OP_BOOTREPLY (xid (dhcpData (mLastMsg c))) msg then Some msg else None)"

definition haltNetwork :: "system \<Rightarrow> client \<Rightarrow> client" where
  "haltNetwork sys c =
     (let (r1, n1) = setAddress sys 0 (net c);
          (r2, n2) = bringDown sys n1
      in c\<lparr>net := n2\<rparr>)"

section \<open>Reading a lease\<close>

text \<open>The value of one option; the case of the name servers runs on into that of the server id.\<close>

definition read_into :: "(dhcp_info \<Rightarrow> u32 \<Rightarrow> dhcp_info) \<Rightarrow> u8 list \<Rightarrow> nat \<Rightarrow> dhcp_info \<Rightarrow> dhcp_info option" where
  "read_into upd opts i info = map_option (upd info) (read32 opts i)"

definition read_dns :: "nat \<Rightarrow> u8 list \<Rightarrow> nat \<Rightarrow> nat \<Rightarrow> dhcp_info \<Rightarrow> dhcp_info option" where
  "read_dns j opts k optLength info =
     (if optLength \<ge> 4 * (j + 1) then read_into (\<lambda>f w. f\<lparr>info_dns := (info_dns f)[j := w]\<rparr>) opts (k + 4 * j) info else Some info)"

definition read_server_id :: "u8 list \<Rightarrow> nat \<Rightarrow> nat \<Rightarrow> dhcp_info \<Rightarrow> dhcp_info option" where
  "read_server_id opts k optLength info =
     (if optLength = 4 then read_into (\<lambda>f w. f\<lparr>info_serverId := w\<rparr>) opts k info else Some info)"

definition read_option :: "u8 \<Rightarrow> nat \<Rightarrow> u8 list \<Rightarrow> nat \<Rightarrow> dhcp_info \<Rightarrow> dhcp_info option" where
  "read_option optCode optLength opts k info =
     (if optCode = OPT_LEASE_TIME then
        if optLength = 4 then read_into (\<lambda>f w. f\<lparr>info_leaseTime := htonl w\<rparr>) opts k info else Some info
      else if optCode = OPT_T1 then
        if optLength = 4 then read_into (\<lambda>f w. f\<lparr>info_t1 := htonl w\<rparr>) opts k info else Some info
      else if optCode = OPT_T2 then
        if optLength = 4 then read_into (\<lambda>f w. f\<lparr>info_t2 := htonl w\<rparr>) opts k info else Some info
      else if optCode = OPT_SUBNET_MASK then
        if optLength = 4 then read_into (\<lambda>f w. f\<lparr>info_subnetMask := w\<rparr>) opts k info else Some info
      else if optCode = OPT_GATEWAY then
        if optLength \<ge> 4 then read_into (\<lambda>f w. f\<lparr>info_gateway := w\<rparr>) opts k info else Some info
      else if optCode = OPT_MTU then
        if optLength = 2 then map_option (\<lambda>w. info\<lparr>info_mtu := htons w\<rparr>) (read16 opts k) else Some info
      else if optCode = OPT_DNS then
        do {
          info1 \<leftarrow> read_dns 0 opts k optLength info;
          info2 \<leftarrow> read_dns 1 opts k optLength info1;
          info3 \<leftarrow> read_dns 2 opts k optLength info2;
          info4 \<leftarrow> read_dns 3 opts k optLength info3;
          read_server_id opts k optLength info4
        }
      else if optCode = OPT_SERVER_ID then read_server_id opts k optLength info
      else Some info)"

text \<open>The loop over the options; the second component is false for an option that does not fit.\<close>

function read_options :: "u8 list \<Rightarrow> nat \<Rightarrow> nat \<Rightarrow> dhcp_info \<Rightarrow> (dhcp_info \<times> bool) option" where
  "read_options opts optsSize i info =
     (if i + 1 < optsSize then
        if length opts \<le> i + 1 then None
        else
          let optCode = opts ! i; optLength = unat (opts ! (i + 1))
          in if optCode = OPT_END then Some (info, True)
             else if optLength + i \<ge> optsSize then Some (info, False)
             else (case read_option optCode optLength opts (i + 2) info of
                     None \<Rightarrow> None
                   | Some info1 \<Rightarrow> read_options opts optsSize (i + 2 + optLength) info1)
      else Some (info, True))"
  by pat_completeness auto
termination by (relation "measure (\<lambda>(opts, n, i, info). n - i)") auto

declare read_options.simps [simp del]

section \<open>Configuration\<close>

definition prop_gw :: "string \<Rightarrow> string" where
  "prop_gw ifname = take 63 (''net.'' @ ifname @ ''.gw'')"

definition prop_dns :: "string \<Rightarrow> nat \<Rightarrow> string" where
  "prop_dns ifname i = take 63 (''net.'' @ ifname @ ''.dns'' @ [char_of (48 + i)])"

definition set_properties :: "system \<Rightarrow> string \<Rightarrow> dhcp_info \<Rightarrow> network \<Rightarrow> network" where
  "set_properties sys ifname info n =
     (let p0 = (properties n)(prop_gw ifname := inet_ntop sys (info_gateway info));
          p = fold (\<lambda>i p. p(prop_dns ifname (i + 1) := if info_dns info ! i \<noteq> 0 then inet_ntop sys (info_dns info ! i) else [])) [0 ..< 4] p0
      in n\<lparr>properties := p\<rparr>)"

text \<open>The calls that set up the interface; the first one that fails ends it, but for the size of packets.\<close>

definition apply_lease :: "system \<Rightarrow> client \<Rightarrow> network \<Rightarrow> bool \<times> network" where
  "apply_lease sys c n0 =
     (let info = mDhcpInfo c; (r1, n1) = bringUp sys n0
      in if \<not> r1 then (False, n1)
         else
           let n2 = (if info_mtu info \<noteq> 0 then snd (setMtu sys (info_mtu info) n1) else n1);
               (r3, n3) = setAddress sys (info_offeredAddress info) n2
           in if \<not> r3 then (False, n3)
              else
                let (r4, n4) = setSubnetMask sys (info_subnetMask info) n3
                in if \<not> r4 then (False, n4)
                   else
                     let (r5, n5) = setDefaultGateway sys (info_gateway info) (mIndex c) n4
                     in if \<not> r5 then (False, n5) else (True, set_properties sys (mInterfaceName c) info n5))"

definition set_timers :: "system \<Rightarrow> client \<Rightarrow> client" where
  "set_timers sys c =
     (let info = mDhcpInfo c
      in c\<lparr>mT1 := expireSeconds (now_t1 sys) (ucast (if info_t1 info > 0 then info_t1 info else info_leaseTime info div 2)),
           mT2 := expireSeconds (now_t2 sys) (ucast (if info_t2 info > 0 then info_t2 info else (info_leaseTime info * 7) div 8))\<rparr>)"

definition configureDhcp :: "system \<Rightarrow> message \<Rightarrow> client \<Rightarrow> (client \<times> bool) option" where
  "configureDhcp sys msg c =
     (if optionsSize msg < 4 then Some (c, False)
      else
        case read_options (options (dhcpData msg)) (optionsSize msg) 4 info_zero of
          None \<Rightarrow> None
        | Some (info, False) \<Rightarrow> Some (c\<lparr>mDhcpInfo := info\<rparr>, False)
        | Some (info, True) \<Rightarrow>
            let c1 = c\<lparr>mDhcpInfo := info\<lparr>info_offeredAddress := yiaddr (dhcpData msg)\<rparr>\<rparr>
            in if info_leaseTime (mDhcpInfo c1) = 0 then Some (c1, False)
               else
                 let c2 = set_timers sys c1; (r, n) = apply_lease sys c2 (net c2)
                 in Some (c2\<lparr>net := n\<rparr>, r))"

section \<open>The state machine\<close>

text \<open>The action of the current state, with the two clock readings it may take, and what it sends.\<close>

definition evaluate :: "u64 \<Rightarrow> u64 \<Rightarrow> client \<Rightarrow> (client \<times> u8 list list) option" where
  "evaluate now1 now2 c =
     (case mState c of
        Init \<Rightarrow> Some (setNextState Selecting c, [])
      | Selecting \<Rightarrow> map_option (\<lambda>(c1, b). (increaseTimeout c1, [b])) (sendDhcpDiscover c)
      | Requesting \<Rightarrow>
          if mNextTimeout c \<ge> kMaxTimeout then Some (setNextState Init c, [])
          else map_option (\<lambda>(c1, b). (increaseTimeout c1, [b])) (sendDhcpRequest (mServerAddress c) c)
      | Bound \<Rightarrow>
          if expired now1 (mT1 c) then Some (setNextState Renewing c, [])
          else Some (c\<lparr>mNextTimeout := ucast (remainingMillis now2 (mT1 c)), mFuzzNextTimeout := False\<rparr>, [])
      | Renewing \<Rightarrow>
          if expired now1 (mT2 c) then Some (setNextState Rebinding c, [])
          else map_option (\<lambda>(c1, b). (increaseTimeout c1, [b])) (sendDhcpRequest (mServerAddress c) c)
      | Rebinding \<Rightarrow>
          if mNextTimeout c \<ge> kMaxTimeout then Some (setNextState Init c, [])
          else map_option (\<lambda>(c1, b). (increaseTimeout c1, [b])) (sendDhcpRequest INADDR_BROADCAST c))"

definition begin_wait :: "int \<Rightarrow> client \<Rightarrow> client" where
  "begin_wait adjustment c =
     (if mNextTimeout c = kNoTimeout then c else c\<lparr>waiting := Some (calculateTimeoutMillis adjustment c)\<rparr>)"

text \<open>A message that was received: the new client, and whether the wait is over.\<close>

definition handle_message :: "system \<Rightarrow> message \<Rightarrow> client \<Rightarrow> (client \<times> bool) option" where
  "handle_message sys msg c = do {
     msgType \<leftarrow> msg_type msg;
     case mState c of
       Selecting \<Rightarrow>
         if msgType = DHCPOFFER then do {
           srv \<leftarrow> serverId msg;
           Some (setNextState Requesting (c\<lparr>mServerAddress := srv, mRequestAddress := yiaddr (dhcpData msg)\<rparr>), True)
         } else Some (c, False)
     | Init \<Rightarrow> Some (c, False)
     | Bound \<Rightarrow> Some (c, False)
     | _ \<Rightarrow>
         if msgType = DHCPACK then do {
           (c1, ok) \<leftarrow> configureDhcp sys msg c;
           if ok then Some (setNextState Bound c1, True) else Some (c1, False)
         }
         else if msgType = DHCPNAK then Some (setNextState Init (haltNetwork sys c), True)
         else Some (c, False)
   }"

datatype poll_result = Timed_out | Readable "u8 list option" | Poll_failed

definition wait_round :: "system \<Rightarrow> u64 \<Rightarrow> poll_result \<Rightarrow> u64 \<Rightarrow> u32 \<Rightarrow> client \<Rightarrow> client option" where
  "wait_round sys startedAt res currentTime timeout c =
     (if res = Timed_out then Some (c\<lparr>waiting := None\<rparr>)
      else do {
        (c1, done) \<leftarrow> (case res of
            Readable input \<Rightarrow> (case receiveDhcpMessage input c of None \<Rightarrow> Some (c, False) | Some msg \<Rightarrow> handle_message sys msg c)
          | _ \<Rightarrow> Some (c, False));
        if done then Some (c1\<lparr>waiting := None\<rparr>)
        else
          let endTime = startedAt + ucast timeout
          in if currentTime \<ge> endTime then Some (c1\<lparr>waiting := None\<rparr>) else Some (c1\<lparr>waiting := Some (ucast (endTime - currentTime))\<rparr>)
      })"

datatype client_event =
    Evaluate u64 u64 int
  | Poll system u64 poll_result u64

inductive client_step :: "client \<Rightarrow> client_event \<Rightarrow> client \<Rightarrow> u8 list list \<Rightarrow> bool" where
  evaluate: "waiting c = None \<Longrightarrow> evaluate now1 now2 c = Some (c1, out) \<Longrightarrow>
     client_step c (Evaluate now1 now2 adjustment) (begin_wait adjustment c1) out"
| poll: "waiting c = Some timeout \<Longrightarrow> wait_round sys startedAt res currentTime timeout c = Some c1 \<Longrightarrow>
     client_step c (Poll sys startedAt res currentTime) c1 []"

inductive client_run :: "client \<Rightarrow> client_event list \<Rightarrow> client \<Rightarrow> u8 list list \<Rightarrow> bool" where
  stop: "client_run c [] c []"
| go: "client_step c e c1 o1 \<Longrightarrow> client_run c1 es c2 o2 \<Longrightarrow> client_run c (e # es) c2 (o1 @ o2)"

inductive_cases client_stepE: "client_step c e c1 out"
inductive_cases client_runE: "client_run c (e # es) c2 out" "client_run c [] c2 out"

section \<open>Start\<close>

definition DhcpClient :: "network \<Rightarrow> client" where
  "DhcpClient n = \<lparr>mDhcpInfo = info_zero, mInterfaceName = [], mIndex = 0, mMacAddress = replicate 6 0, mLastMsg = Message_default, mT1 = 0, mT2 = 0,
     mState = Init, mNextTimeout = kInitialTimeout, mFuzzNextTimeout = True, mRequestAddress = 0, mServerAddress = 0,
     nextTransactionId = 1, waiting = None, net = n\<rparr>"

text \<open>The calls at start-up: whether the interface has a socket already, its new socket, its index and hardware address, and the other two sockets.\<close>

record startup =
  su_iface_open :: bool
  su_iface_socket :: bool
  su_index :: "u32 option"
  su_mac :: "u8 list option"
  su_system :: system
  su_router_socket :: bool
  su_raw_socket :: bool
  su_bind :: bool

definition Interface_init :: "startup \<Rightarrow> string \<Rightarrow> client \<Rightarrow> bool \<times> client" where
  "Interface_init su name c0 =
     (let c = c0\<lparr>mInterfaceName := name\<rparr>
      in if su_iface_open su \<or> \<not> su_iface_socket su then (False, c)
         else
           (case su_index su of
              None \<Rightarrow> (False, c)
            | Some idx \<Rightarrow>
                (case su_mac su of
                   None \<Rightarrow> (False, c\<lparr>mIndex := idx\<rparr>)
                 | Some mac \<Rightarrow>
                     let c1 = c\<lparr>mIndex := idx, mMacAddress := take ETH_ALEN mac\<rparr>; (r1, n1) = bringUp (su_system su) (net c1)
                     in if \<not> r1 then (False, c1\<lparr>net := n1\<rparr>)
                        else let (r2, n2) = setAddress (su_system su) 0 n1 in (r2, c1\<lparr>net := n2\<rparr>))))"

definition DhcpClient_init :: "startup \<Rightarrow> string \<Rightarrow> client \<Rightarrow> bool \<times> client" where
  "DhcpClient_init su name c =
     (let (r, c1) = Interface_init su name c
      in (r \<and> su_router_socket su \<and> su_raw_socket su \<and> su_bind su, c1))"

section \<open>What a lease says\<close>

text \<open>The meaning of one option.\<close>

definition word_at :: "nat \<Rightarrow> u8 list \<Rightarrow> u32" where
  "word_at j xs = of_le (take 4 (drop (4 * j) xs))"

definition dns_effect :: "nat \<Rightarrow> u8 list \<Rightarrow> dhcp_info \<Rightarrow> dhcp_info" where
  "dns_effect j xs info = (if 4 * (j + 1) \<le> length xs then info\<lparr>info_dns := (info_dns info)[j := word_at j xs]\<rparr> else info)"

definition server_id_effect :: "u8 list \<Rightarrow> dhcp_info \<Rightarrow> dhcp_info" where
  "server_id_effect xs info = (if length xs = 4 then info\<lparr>info_serverId := of_le xs\<rparr> else info)"

definition option_effect :: "u8 \<times> u8 list \<Rightarrow> dhcp_info \<Rightarrow> dhcp_info" where
  "option_effect x info = (case x of (c, xs) \<Rightarrow>
     if c = OPT_LEASE_TIME then if length xs = 4 then info\<lparr>info_leaseTime := htonl (of_le xs)\<rparr> else info
     else if c = OPT_T1 then if length xs = 4 then info\<lparr>info_t1 := htonl (of_le xs)\<rparr> else info
     else if c = OPT_T2 then if length xs = 4 then info\<lparr>info_t2 := htonl (of_le xs)\<rparr> else info
     else if c = OPT_SUBNET_MASK then if length xs = 4 then info\<lparr>info_subnetMask := of_le xs\<rparr> else info
     else if c = OPT_GATEWAY then if 4 \<le> length xs then info\<lparr>info_gateway := of_le (take 4 xs)\<rparr> else info
     else if c = OPT_MTU then if length xs = 2 then info\<lparr>info_mtu := htons (of_le xs)\<rparr> else info
     else if c = OPT_DNS then server_id_effect xs (dns_effect 3 xs (dns_effect 2 xs (dns_effect 1 xs (dns_effect 0 xs info))))
     else if c = OPT_SERVER_ID then server_id_effect xs info
     else info)"

lemma read32_value:
  assumes "opts = pre @ xs @ rest" "4 * (j + 1) \<le> length xs" "i = length pre + 4 * j"
  shows "read32 opts i = Some (word_at j xs)"
proof -
  have "take 4 (drop i opts) = take 4 (drop (4 * j) xs)" using assms by simp
  then show ?thesis using assms by (simp add: read32_def word_at_def)
qed

lemma read16_value:
  assumes "opts = pre @ xs @ rest" "length xs = 2"
  shows "read16 opts (length pre) = Some (of_le xs)"
  using assms by (simp add: read16_def)

lemma word_at_0: "length xs = 4 \<Longrightarrow> word_at 0 xs = of_le xs" "word_at 0 xs = of_le (take 4 xs)"
  by (simp_all add: word_at_def)

lemma read_dns_value:
  assumes "opts = pre @ xs @ rest"
  shows "read_dns j opts (length pre) (length xs) info = Some (dns_effect j xs info)"
  using read32_value [OF assms, of j "length pre + 4 * j"] by (simp add: read_dns_def dns_effect_def read_into_def)

lemma read_server_id_value:
  assumes "opts = pre @ xs @ rest" "length xs = len"
  shows "read_server_id opts (length pre) len info = Some (server_id_effect xs info)"
  using read32_value [OF assms(1), of 0 "length pre"] assms(2) by (simp add: read_server_id_def server_id_effect_def read_into_def word_at_0)

lemma read_option_value:
  assumes "opts = pre @ xs @ rest"
  shows "read_option c (length xs) opts (length pre) info = Some (option_effect (c, xs) info)"
  using read32_value [OF assms, of 0 "length pre"] read16_value [OF assms]
  by (simp add: read_option_def option_effect_def read_into_def read_dns_value [OF assms] read_server_id_value [OF assms] word_at_0)

lemma read_options_tlvs:
  assumes "\<forall>x \<in> set os. opt_ok x" "opts = pre @ tlvs os @ OPT_END # rest" "n = length pre + length (tlvs os) + 1"
  shows "read_options opts n (length pre) info = Some (fold option_effect os info, True)"
  using assms
proof (induction os arbitrary: pre info)
  case Nil
  then show ?case by (subst read_options.simps) (cases rest; simp add: nth_append)
next
  case (Cons x os)
  obtain c xs where x: "x = (c, xs)" by (cases x)
  have ok: "c \<noteq> OPT_END" "length xs < 256" using Cons.prems(1) by (auto simp: x opt_ok_def)
  have l: "unat (of_nat (length xs) :: u8) = length xs" using ok(2) by (simp add: unat_of_nat)
  have opts: "opts = pre @ c # of_nat (length xs) # xs @ tlvs os @ OPT_END # rest" using Cons.prems(2) by (simp add: x tlv_def)
  have n: "length pre + length xs + 2 < n" using Cons.prems(3) by (simp add: x)
  have r: "read_option c (length xs) opts (Suc (Suc (length pre))) info = Some (option_effect (c, xs) info)"
    using read_option_value [of opts "pre @ [c, of_nat (length xs)]" xs] by (simp add: opts)
  have "read_options opts n (length pre) info = read_options opts n (length (pre @ tlv x)) (option_effect x info)"
    using n ok(1) r by (subst read_options.simps) (simp add: opts nth_append Let_def l x)
  also have "\<dots> = Some (fold option_effect os (option_effect x info), True)"
    using Cons.prems by (intro Cons.IH) auto
  finally show ?case by simp
qed

lemma read_options_carries:
  assumes "carries m d os"
  shows "read_options (options (dhcpData m)) (optionsSize m) 4 info = Some (fold option_effect os info, True)" "\<not> optionsSize m < 4"
proof -
  obtain rest where m: "m = \<lparr>dhcpData = d\<lparr>options := OPT_COOKIE @ tlvs os @ OPT_END # rest\<rparr>, mSize = options_offset + 5 + length (tlvs os)\<rparr>"
    using assms by (auto simp: carries_def)
  have ok: "\<forall>x \<in> set os. opt_ok x" using assms by (simp add: carries_def)
  show "read_options (options (dhcpData m)) (optionsSize m) 4 info = Some (fold option_effect os info, True)" "\<not> optionsSize m < 4"
    using read_options_tlvs [OF ok, of "options (dhcpData m)" OPT_COOKIE rest "optionsSize m" info] by (simp_all add: m optionsSize_def)
qed

section \<open>Setting up the interface\<close>

text \<open>A client whose interface is set up as its lease says.\<close>

definition configured :: "client \<Rightarrow> bool" where
  "configured c \<longleftrightarrow> info_leaseTime (mDhcpInfo c) \<noteq> 0 \<and> if_up (net c) \<and> if_addr (net c) = info_offeredAddress (mDhcpInfo c)
     \<and> if_netmask (net c) = info_subnetMask (mDhcpInfo c)"

lemma set_properties_frame [simp]:
  "if_up (set_properties sys i info n) = if_up n" "if_addr (set_properties sys i info n) = if_addr n"
  "if_netmask (set_properties sys i info n) = if_netmask n" "routes (set_properties sys i info n) = routes n"
  by (simp_all add: set_properties_def Let_def)

lemma bringUp_up: "bringUp sys n = (True, n') \<Longrightarrow> if_up n'"
  by (auto simp: bringUp_def setInterfaceUp_def split: if_splits)

lemma apply_lease_ok:
  assumes "apply_lease sys c n = (True, n')"
  shows "if_up n' \<and> if_addr n' = info_offeredAddress (mDhcpInfo c) \<and> if_netmask n' = info_subnetMask (mDhcpInfo c)"
proof -
  obtain n1 where n1: "bringUp sys n = (True, n1)" using assms by (cases "bringUp sys n") (auto simp: apply_lease_def Let_def split: if_splits)
  have "if_up (if info_mtu (mDhcpInfo c) \<noteq> 0 then snd (setMtu sys (info_mtu (mDhcpInfo c)) n1) else n1)"
    using bringUp_up [OF n1] by (simp add: setMtu_def)
  then show ?thesis
    using assms n1 by (auto simp: apply_lease_def Let_def setAddress_def setSubnetMask_def setDefaultGateway_def split: if_splits)
qed

lemma configureDhcp_ok:
  assumes "configureDhcp sys msg c = Some (c', True)"
  shows "configured c' \<and> info_offeredAddress (mDhcpInfo c') = yiaddr (dhcpData msg)"
proof -
  obtain info where i: "read_options (options (dhcpData msg)) (optionsSize msg) 4 info_zero = Some (info, True)"
    using assms by (auto simp: configureDhcp_def split: if_splits option.splits bool.splits)
  let ?c1 = "c\<lparr>mDhcpInfo := info\<lparr>info_offeredAddress := yiaddr (dhcpData msg)\<rparr>\<rparr>"
  let ?c2 = "set_timers sys ?c1"
  obtain r n where a: "apply_lease sys ?c2 (net ?c2) = (r, n)" by fastforce
  have "info_leaseTime info \<noteq> 0" "r" "c' = ?c2\<lparr>net := n\<rparr>" using assms i a by (auto simp: configureDhcp_def Let_def split: if_splits)
  then show ?thesis using apply_lease_ok [of sys ?c2 "net ?c2" n] a by (auto simp: configured_def set_timers_def Let_def)
qed

lemma configureDhcp_state:
  assumes "configureDhcp sys msg c = Some (c', ok)"
  shows "mState c' = mState c \<and> mLastMsg c' = mLastMsg c \<and> waiting c' = waiting c \<and> mNextTimeout c' = mNextTimeout c"
  using assms
  by (auto simp: configureDhcp_def set_timers_def Let_def split: if_splits option.splits bool.splits prod.splits)

text \<open>The request for the default route is one netlink message with two attributes: the gateway and the interface.\<close>

lemma setDefaultGateway_message:
  assumes "route_ok sys"
  shows "routes (snd (setDefaultGateway sys gw idx n)) =
    (le32 44 @ le16 24 @ le16 0x401 @ le32 0 @ le32 0 @ [2, 0, 0, 0, 254, 3, 0, 1, 0, 0, 0, 0] @ le16 8 @ le16 5 @ le32 gw @ le16 8 @ le16 4 @ le32 idx) # routes n"
proof -
  let ?x = "le16 8 @ le16 5 @ le32 gw" and ?y = "le16 8 @ le16 4 @ le32 idx"
  have "overlay 8 ?y (overlay 0 ?x (replicate 256 0)) = ?x @ ?y @ replicate 240 0" by (simp add: overlay_def)
  then show ?thesis
    using assms by (simp add: setDefaultGateway_def addRouterAttribute_def route_bytes_def NLMSG_ALIGN_def Let_def)
qed

section \<open>Transitions\<close>

lemma setNextState_simps [simp]:
  "mState (setNextState s c) = s" "mNextTimeout (setNextState s c) = 0" "net (setNextState s c) = net c" "mDhcpInfo (setNextState s c) = mDhcpInfo c"
  "waiting (setNextState s c) = waiting c" "mServerAddress (setNextState s c) = mServerAddress c" "mRequestAddress (setNextState s c) = mRequestAddress c"
  "mMacAddress (setNextState s c) = mMacAddress c" "mLastMsg (setNextState s c) = mLastMsg c" "nextTransactionId (setNextState s c) = nextTransactionId c"
  "mIndex (setNextState s c) = mIndex c" "mInterfaceName (setNextState s c) = mInterfaceName c" "mT1 (setNextState s c) = mT1 c" "mT2 (setNextState s c) = mT2 c"
  by (simp_all add: setNextState_def kNoTimeout_def)

lemma configured_setNextState [simp]: "configured (setNextState s c) = configured c"
  by (simp add: configured_def)

lemma increaseTimeout_simps [simp]:
  "mState (increaseTimeout c) = mState c" "net (increaseTimeout c) = net c" "mDhcpInfo (increaseTimeout c) = mDhcpInfo c"
  "waiting (increaseTimeout c) = waiting c" "mServerAddress (increaseTimeout c) = mServerAddress c" "mRequestAddress (increaseTimeout c) = mRequestAddress c"
  "mMacAddress (increaseTimeout c) = mMacAddress c" "mLastMsg (increaseTimeout c) = mLastMsg c" "nextTransactionId (increaseTimeout c) = nextTransactionId c"
  by (simp_all add: increaseTimeout_def Let_def)

lemma begin_wait_simps [simp]:
  "mState (begin_wait a c) = mState c" "net (begin_wait a c) = net c" "mDhcpInfo (begin_wait a c) = mDhcpInfo c"
  "mNextTimeout (begin_wait a c) = mNextTimeout c" "mLastMsg (begin_wait a c) = mLastMsg c"
  by (simp_all add: begin_wait_def)

text \<open>Evaluating a state never sets up anything and never leads into \<open>Bound\<close>.\<close>

lemma evaluate_frame:
  assumes "evaluate n1 n2 c = Some (c', out)"
  shows "net c' = net c \<and> mDhcpInfo c' = mDhcpInfo c \<and> waiting c' = waiting c \<and> (mState c' = Bound \<longrightarrow> mState c = Bound)"
proof (cases "mState c")
  case Bound
  then show ?thesis using assms by (auto simp: evaluate_def split: if_splits)
qed (use assms in \<open>auto simp: evaluate_def sendDhcpDiscover_def sendDhcpRequest_def split: if_splits\<close>)

text \<open>A message leads into \<open>Bound\<close> only if it is an acknowledgement that could be applied.\<close>

lemma handle_message_bound:
  assumes "handle_message sys msg c = Some (c', done)" "mState c \<noteq> Bound" "mState c' = Bound"
  shows "msg_type msg = Some DHCPACK \<and> mState c \<in> {Requesting, Renewing, Rebinding} \<and> configured c' \<and> info_offeredAddress (mDhcpInfo c') = yiaddr (dhcpData msg)"
proof -
  obtain t where t: "msg_type msg = Some t" using assms(1) by (cases "msg_type msg") (auto simp: handle_message_def)
  have st: "mState c \<in> {Requesting, Renewing, Rebinding}"
    using assms t by (cases "mState c") (auto simp: handle_message_def bind_eq_Some_conv split: if_splits)
  then have e: "handle_message sys msg c =
      (if t = DHCPACK then configureDhcp sys msg c \<bind> (\<lambda>(c1, ok). if ok then Some (setNextState Bound c1, True) else Some (c1, False))
       else if t = DHCPNAK then Some (setNextState Init (haltNetwork sys c), True) else Some (c, False))"
    using t by (auto simp: handle_message_def)
  have a: "t = DHCPACK" using assms e by (auto split: if_splits)
  then obtain c1 ok where c1: "configureDhcp sys msg c = Some (c1, ok)" using assms(1) e by (cases "configureDhcp sys msg c") auto
  have ok using assms a c1 e configureDhcp_state [OF c1] by (cases ok) auto
  then show ?thesis using assms(1) a c1 e st t configureDhcp_ok [of sys msg c c1] by auto
qed

lemma wait_round_cases:
  assumes "wait_round sys t0 res t1 tmo c = Some c'"
  obtains (quiet) w where "c' = c\<lparr>waiting := w\<rparr>"
  | (message) input msg c1 fin w where "res = Readable input" "receiveDhcpMessage input c = Some msg" "handle_message sys msg c = Some (c1, fin)"
      "c' = c1\<lparr>waiting := w\<rparr>"
proof (cases "\<exists>input msg. res = Readable input \<and> receiveDhcpMessage input c = Some msg")
  case True
  then obtain input msg where m: "res = Readable input" "receiveDhcpMessage input c = Some msg" by blast
  then obtain c1 fin where h: "handle_message sys msg c = Some (c1, fin)"
    using assms by (cases "handle_message sys msg c") (auto simp: wait_round_def)
  have "\<exists>w. c' = c1\<lparr>waiting := w\<rparr>" using assms m h by (auto simp: wait_round_def Let_def split: if_splits)
  then show ?thesis using message m h by blast
next
  case False
  have "\<exists>w. c' = c\<lparr>waiting := w\<rparr>"
  proof (cases res)
    case (Readable input)
    then have "receiveDhcpMessage input c = None" using False by (cases "receiveDhcpMessage input c") auto
    then show ?thesis using assms Readable by (auto simp: wait_round_def Let_def split: if_splits)
  qed (use assms in \<open>auto simp: wait_round_def Let_def split: if_splits\<close>)
  then show ?thesis using quiet by blast
qed

lemma handle_message_in_bound: "handle_message sys msg c = Some (c', fin) \<Longrightarrow> mState c = Bound \<Longrightarrow> c' = c"
  by (auto simp: handle_message_def bind_eq_Some_conv)

lemma configured_waiting [simp]: "configured (c\<lparr>waiting := w\<rparr>) = configured c"
  by (simp add: configured_def)

lemma step_configured:
  assumes "client_step c e c' out" "mState c = Bound \<longrightarrow> configured c"
  shows "mState c' = Bound \<longrightarrow> configured c'"
  using assms(1)
proof cases
  case (evaluate now1 now2 c1 adj)
  have "configured c' = configured c" using evaluate evaluate_frame [of now1 now2 c c1 out] by (simp add: configured_def)
  then show ?thesis using assms(2) evaluate evaluate_frame [of now1 now2 c c1 out] by simp
next
  case (poll tmo sys t0 res t1)
  from poll(4) show ?thesis
  proof (cases rule: wait_round_cases)
    case (quiet w)
    then show ?thesis using assms(2) by simp
  next
    case (message input msg c1 fin w)
    show ?thesis
    proof (cases "mState c = Bound")
      case True
      then show ?thesis using assms(2) message(4) handle_message_in_bound [OF message(3)] by simp
    next
      case False
      then show ?thesis using handle_message_bound [OF message(3) False] message(4) by simp
    qed
  qed
qed

section \<open>Properties\<close>

text \<open>C33. Whenever the client is bound, its interface is up and has the address and the mask of the lease, which lasts a positive time,
  whatever messages came and whatever calls failed before.\<close>

theorem dhcp_client_bound:
  assumes "client_run c es c' out" "mState c = Init" "mState c' = Bound"
  shows "if_up (net c') \<and> if_addr (net c') = info_offeredAddress (mDhcpInfo c') \<and> if_netmask (net c') = info_subnetMask (mDhcpInfo c')
    \<and> info_leaseTime (mDhcpInfo c') \<noteq> 0"
proof -
  have "(mState c = Bound \<longrightarrow> configured c) \<longrightarrow> (mState c' = Bound \<longrightarrow> configured c')"
    using assms(1) by (induction rule: client_run.induct) (use step_configured in blast)+
  then show ?thesis using assms(2,3) by (simp add: configured_def)
qed

text \<open>C9. The client becomes bound only by a valid acknowledgement: a reply with the transaction id of the last message it sent, received while
  it was requesting, renewing or rebinding; the address of the interface is then the one in that message.\<close>

theorem dhcp_client_binds:
  assumes step: "client_step c e c' out" and new: "mState c \<noteq> Bound" "mState c' = Bound"
  shows "\<exists>sys t0 input t1 msg. e = Poll sys t0 (Readable input) t1 \<and> receiveDhcpMessage input c = Some msg \<and> msg_type msg = Some DHCPACK
    \<and> isValidDhcpMessage_xid OP_BOOTREPLY (xid (dhcpData (mLastMsg c))) msg \<and> mState c \<in> {Requesting, Renewing, Rebinding}
    \<and> if_addr (net c') = yiaddr (dhcpData msg)"
  using step
proof cases
  case (evaluate now1 now2 c1 adj)
  then show ?thesis using new evaluate_frame [of now1 now2 c c1 out] by simp
next
  case (poll tmo sys t0 res t1)
  from poll(4) show ?thesis
  proof (cases rule: wait_round_cases)
    case (quiet w)
    then show ?thesis using new by simp
  next
    case (message input msg c1 fin w)
    have b: "msg_type msg = Some DHCPACK" "mState c \<in> {Requesting, Renewing, Rebinding}" "configured c1" "info_offeredAddress (mDhcpInfo c1) = yiaddr (dhcpData msg)"
      using handle_message_bound [OF message(3) new(1)] new(2) message(4) by auto
    moreover have "isValidDhcpMessage_xid OP_BOOTREPLY (xid (dhcpData (mLastMsg c))) msg"
      using message(2) by (auto simp: receiveDhcpMessage_def split: prod.splits if_splits)
    ultimately show ?thesis using poll(1) message(1,2,4) by (auto simp: configured_def)
  qed
qed

text \<open>One attempt: a request, and no answer until the timeout.\<close>

definition attempt :: "u64 \<Rightarrow> int \<Rightarrow> system \<Rightarrow> u64 \<Rightarrow> client_event list" where
  "attempt now adj sys t = [Evaluate now now adj, Poll sys t Timed_out t]"

definition requesting :: "u32 \<Rightarrow> client \<Rightarrow> bool" where
  "requesting t c \<longleftrightarrow> mState c \<in> {Requesting, Rebinding} \<and> waiting c = None \<and> mNextTimeout c = t"

lemma attempt_run:
  assumes "requesting t c" "t < kMaxTimeout" "t' = (if t = 0 then kInitialTimeout else t * 2)" "t' \<le> kMaxTimeout" "t' \<noteq> 0"
  shows "\<exists>c' b. client_run c (attempt now adj sys tm) c' [b] \<and> requesting t' c' \<and> net c' = net c"
proof -
  let ?srv = "if mState c = Requesting then mServerAddress c else INADDR_BROADCAST"
  obtain m where m: "request (nextTransactionId c) (mMacAddress c) (mRequestAddress c) ?srv = Some (m, nextTransactionId c + 1)"
    using request_carries by blast
  let ?c1 = "increaseTimeout (c\<lparr>mLastMsg := m, nextTransactionId := nextTransactionId c + 1\<rparr>)"
  have st: "mState c = Requesting \<or> mState c = Rebinding" "waiting c = None" "mNextTimeout c = t" using assms(1) by (auto simp: requesting_def)
  have e: "evaluate now now c = Some (?c1, [sendMessage m])"
    using st m assms(2) by (auto simp: evaluate_def sendDhcpRequest_def not_le [symmetric])
  have t: "mNextTimeout ?c1 = t'" using st(3) assms(2-4) by (auto simp: increaseTimeout_def kNoTimeout_def Let_def)
  let ?c2 = "begin_wait adj ?c1"
  have w: "waiting ?c2 = Some (calculateTimeoutMillis adj ?c1)" using t assms(5) by (simp add: begin_wait_def kNoTimeout_def)
  let ?c3 = "?c2\<lparr>waiting := None\<rparr>"
  have "client_step c (Evaluate now now adj) ?c2 [sendMessage m]" by (rule client_step.evaluate [OF st(2) e])
  moreover have "client_step ?c2 (Poll sys tm Timed_out tm) ?c3 []" by (rule client_step.poll [OF w]) (simp add: wait_round_def)
  ultimately have "client_run c (attempt now adj sys tm) ?c3 ([sendMessage m] @ [] @ [])"
    unfolding attempt_def by (blast intro: client_run.intros)
  then have "client_run c (attempt now adj sys tm) ?c3 [sendMessage m]" by simp
  moreover have "requesting t' ?c3" "net ?c3 = net c" using t st(1) by (auto simp: requesting_def)
  ultimately show ?thesis by blast
qed

lemma client_run_append: "client_run c es c1 o1 \<Longrightarrow> client_run c1 es2 c2 o2 \<Longrightarrow> client_run c (es @ es2) c2 (o1 @ o2)"
proof (induction rule: client_run.induct)
  case (go c e c1 o1 es c2' o2')
  then have "client_run c1 (es @ es2) c2 (o2' @ o2)" by blast
  from client_run.go [OF go.hyps(1) this] show ?case by simp
qed simp

text \<open>C34. A client that asks for an address, to begin with or when it rebinds, and never hears an answer, so that every wait ends
  with its timeout, sends exactly five requests, whatever
  the clock and the random adjustments are, and then starts over.\<close>

theorem dhcp_client_gives_up:
  assumes "requesting 0 c"
  shows "\<exists>c' out. client_run c (attempt n1 a1 y1 m1 @ attempt n2 a2 y2 m2 @ attempt n3 a3 y3 m3 @ attempt n4 a4 y4 m4 @ attempt n5 a5 y5 m5
      @ [Evaluate n6 n6 a6]) c' out \<and> length out = 5 \<and> mState c' = Init \<and> net c' = net c"
proof -
  note k = kMaxTimeout_def kInitialTimeout_def
  have "\<exists>c' b. client_run c (attempt n1 a1 y1 m1) c' [b] \<and> requesting 4000 c' \<and> net c' = net c"
    by (rule attempt_run [OF assms]) (simp_all add: k)
  then obtain c1 b1 where 1: "client_run c (attempt n1 a1 y1 m1) c1 [b1]" "requesting 4000 c1" "net c1 = net c" by blast
  have "\<exists>c' b. client_run c1 (attempt n2 a2 y2 m2) c' [b] \<and> requesting 8000 c' \<and> net c' = net c1"
    by (rule attempt_run [OF 1(2)]) (simp_all add: k)
  then obtain c2 b2 where 2: "client_run c1 (attempt n2 a2 y2 m2) c2 [b2]" "requesting 8000 c2" "net c2 = net c1" by blast
  have "\<exists>c' b. client_run c2 (attempt n3 a3 y3 m3) c' [b] \<and> requesting 16000 c' \<and> net c' = net c2"
    by (rule attempt_run [OF 2(2)]) (simp_all add: k)
  then obtain c3 b3 where 3: "client_run c2 (attempt n3 a3 y3 m3) c3 [b3]" "requesting 16000 c3" "net c3 = net c2" by blast
  have "\<exists>c' b. client_run c3 (attempt n4 a4 y4 m4) c' [b] \<and> requesting 32000 c' \<and> net c' = net c3"
    by (rule attempt_run [OF 3(2)]) (simp_all add: k)
  then obtain c4 b4 where 4: "client_run c3 (attempt n4 a4 y4 m4) c4 [b4]" "requesting 32000 c4" "net c4 = net c3" by blast
  have "\<exists>c' b. client_run c4 (attempt n5 a5 y5 m5) c' [b] \<and> requesting 64000 c' \<and> net c' = net c4"
    by (rule attempt_run [OF 4(2)]) (simp_all add: k)
  then obtain c5 b5 where 5: "client_run c4 (attempt n5 a5 y5 m5) c5 [b5]" "requesting 64000 c5" "net c5 = net c4" by blast
  have "evaluate n6 n6 c5 = Some (setNextState Init c5, [])" "waiting c5 = None" using 5(2) by (auto simp: requesting_def evaluate_def k)
  then have "client_run c5 [Evaluate n6 n6 a6] (begin_wait a6 (setNextState Init c5)) ([] @ [])"
    using client_run.go [OF client_step.evaluate client_run.stop] by blast
  from client_run_append [OF 1(1) client_run_append [OF 2(1) client_run_append [OF 3(1) client_run_append [OF 4(1) client_run_append [OF 5(1) this]]]]]
  show ?thesis using 1(3) 2(3) 3(3) 4(3) 5(3) by (intro exI conjI) (assumption, simp_all)
qed

definition demo_net :: network where
  "demo_net = \<lparr>if_up = True, if_addr = 0, if_netmask = 0, if_mtu = 1500, routes = [], properties = (\<lambda>_. [])\<rparr>"

definition demo_system :: system where
  "demo_system = \<lparr>get_flags_ok = True, set_flags_ok = True, set_mtu_ok = True, set_addr_ok = True, set_mask_ok = True, route_ok = True,
     now_t1 = 5000, now_t2 = 5000, inet_ntop = (\<lambda>_. ''address'')\<rparr>"

definition demo_requesting :: client where
  "demo_requesting = (DhcpClient demo_net)\<lparr>mState := Requesting, mNextTimeout := 0\<rparr>"

theorem dhcp_client_gives_up_witness:
  "\<exists>c' out. client_run demo_requesting
     (attempt 0 0 demo_system 0 @ attempt 0 0 demo_system 0 @ attempt 0 0 demo_system 0 @ attempt 0 0 demo_system 0 @ attempt 0 0 demo_system 0
      @ [Evaluate 0 0 0]) c' out \<and> length out = 5 \<and> mState c' = Init"
proof -
  have "requesting 0 demo_requesting" by (simp add: requesting_def demo_requesting_def DhcpClient_def)
  then show ?thesis using dhcp_client_gives_up [of demo_requesting 0 0 demo_system 0 0 0 demo_system 0 0 0 demo_system 0 0 0 demo_system 0 0 0 demo_system 0 0 0] by blast
qed

text \<open>A system on which every call succeeds.\<close>

definition sys_ok :: "system \<Rightarrow> bool" where
  "sys_ok sys \<longleftrightarrow> get_flags_ok sys \<and> set_flags_ok sys \<and> set_mtu_ok sys \<and> set_addr_ok sys \<and> set_mask_ok sys \<and> route_ok sys"

definition lease_info :: "dhcp \<Rightarrow> (u8 \<times> u8 list) list \<Rightarrow> dhcp_info" where
  "lease_info d os = (fold option_effect os info_zero)\<lparr>info_offeredAddress := yiaddr d\<rparr>"

lemma lease_info_addr: "info_offeredAddress (lease_info d os) = yiaddr d"
  by (simp add: lease_info_def)

lemma apply_lease_sys_ok: "sys_ok sys \<Longrightarrow> \<exists>n'. apply_lease sys c n = (True, n')"
  by (auto simp: apply_lease_def sys_ok_def bringUp_def setInterfaceUp_def setMtu_def setAddress_def setSubnetMask_def setDefaultGateway_def Let_def
      split: prod.splits)

lemma set_timers_simps [simp]:
  "mDhcpInfo (set_timers sys c) = mDhcpInfo c" "net (set_timers sys c) = net c" "mState (set_timers sys c) = mState c"
  by (simp_all add: set_timers_def Let_def)

lemma configure_lease:
  assumes msg: "carries msg d os" and sys: "sys_ok sys"
  shows "(info_leaseTime (lease_info d os) = 0 \<longrightarrow> configureDhcp sys msg c = Some (c\<lparr>mDhcpInfo := lease_info d os\<rparr>, False))
    \<and> (info_leaseTime (lease_info d os) \<noteq> 0 \<longrightarrow>
        (\<exists>n'. configureDhcp sys msg c = Some ((set_timers sys (c\<lparr>mDhcpInfo := lease_info d os\<rparr>))\<lparr>net := n'\<rparr>, True)
           \<and> if_up n' \<and> if_addr n' = yiaddr d \<and> if_netmask n' = info_subnetMask (lease_info d os)))"
proof (intro conjI impI)
  let ?info = "fold option_effect os info_zero"
  have c: "configureDhcp sys msg c =
      (let c1 = c\<lparr>mDhcpInfo := lease_info d os\<rparr>
       in if info_leaseTime (lease_info d os) = 0 then Some (c1, False)
          else let c2 = set_timers sys c1; (r, n) = apply_lease sys c2 (net c2) in Some (c2\<lparr>net := n\<rparr>, r))"
    unfolding configureDhcp_def using read_options_carries [OF msg] carries_fields(4) [OF msg] by (simp add: lease_info_def Let_def)
  show "configureDhcp sys msg c = Some (c\<lparr>mDhcpInfo := lease_info d os\<rparr>, False)" if "info_leaseTime (lease_info d os) = 0"
    using that by (simp add: c)
  let ?c2 = "set_timers sys (c\<lparr>mDhcpInfo := lease_info d os\<rparr>)"
  obtain n' where n': "apply_lease sys ?c2 (net ?c2) = (True, n')" using apply_lease_sys_ok [OF sys] by blast
  show "\<exists>n'. configureDhcp sys msg c = Some (?c2\<lparr>net := n'\<rparr>, True) \<and> if_up n' \<and> if_addr n' = yiaddr d \<and> if_netmask n' = info_subnetMask (lease_info d os)"
    if "info_leaseTime (lease_info d os) \<noteq> 0"
    using that n' apply_lease_ok [OF n'] by (intro exI [of _ n']) (simp add: c Let_def lease_info_addr)
qed

text \<open>What the client makes of an acknowledgement that carries a list of options: it reads the options in order, a later one replacing what an earlier one
  said; without a lease time the message is not used and the interface stays as it is; otherwise, when the system calls succeed,
  the interface gets the address, the mask and a default route, and the two timers are set.\<close>

theorem dhcp_client_reads_lease:
  assumes msg: "carries msg d os" and sys: "sys_ok sys"
  shows "(info_leaseTime (lease_info d os) = 0 \<longrightarrow> configureDhcp sys msg c = Some (c\<lparr>mDhcpInfo := lease_info d os\<rparr>, False))
    \<and> (info_leaseTime (lease_info d os) \<noteq> 0 \<longrightarrow>
        (\<exists>n'. configureDhcp sys msg c = Some ((set_timers sys (c\<lparr>mDhcpInfo := lease_info d os\<rparr>))\<lparr>net := n'\<rparr>, True)
           \<and> if_up n' \<and> if_addr n' = yiaddr d \<and> if_netmask n' = info_subnetMask (lease_info d os)))"
  by (rule configure_lease [OF msg sys])

text \<open>The options of a lease of the server, with one name server, as the client reads them.\<close>

lemma lease_info_server:
  shows "info_leaseTime (lease_info d (lease_opts t srv netmask gateway dns)) = htonl kDefaultLeaseTime"
    and "info_subnetMask (lease_info d (lease_opts t srv netmask gateway dns)) = netmask"
    and "info_gateway (lease_info d (lease_opts t srv netmask gateway dns)) = gateway"
    and "info_t1 (lease_info d (lease_opts t srv netmask gateway dns)) = 0" "info_t2 (lease_info d (lease_opts t srv netmask gateway dns)) = 0"
    and "info_serverId (lease_info d (lease_opts t srv netmask gateway dns)) = (case dns of [w] \<Rightarrow> w | _ \<Rightarrow> srv)"
proof -
  have x: "OPT_MESSAGE_TYPE \<notin> {OPT_LEASE_TIME, OPT_T1, OPT_T2, OPT_SUBNET_MASK, OPT_GATEWAY, OPT_MTU, OPT_DNS, OPT_SERVER_ID}"
    by (simp add: dhcp_codes)
  have y: "OPT_SERVER_ID \<notin> {OPT_LEASE_TIME, OPT_T1, OPT_T2, OPT_SUBNET_MASK, OPT_GATEWAY, OPT_MTU, OPT_DNS}"
    "OPT_SUBNET_MASK \<notin> {OPT_LEASE_TIME, OPT_T1, OPT_T2}" "OPT_GATEWAY \<notin> {OPT_LEASE_TIME, OPT_T1, OPT_T2, OPT_SUBNET_MASK}"
    "OPT_DNS \<notin> {OPT_LEASE_TIME, OPT_T1, OPT_T2, OPT_SUBNET_MASK, OPT_GATEWAY, OPT_MTU}"
    by (simp_all add: dhcp_codes)
  have s: "(length (concat (map le32 dns)) = 4) = (length dns = 1)" by simp
  have f: "fold option_effect (lease_opts t srv netmask gateway dns) info_zero =
     server_id_effect (concat (map le32 dns)) (dns_effect 3 (concat (map le32 dns)) (dns_effect 2 (concat (map le32 dns)) (dns_effect 1 (concat (map le32 dns))
       (dns_effect 0 (concat (map le32 dns)) (info_zero\<lparr>info_serverId := srv, info_leaseTime := htonl kDefaultLeaseTime, info_subnetMask := netmask, info_gateway := gateway\<rparr>)))))"
    using x y by (simp add: lease_opts_def option_effect_def server_id_effect_def)
  show "info_leaseTime (lease_info d (lease_opts t srv netmask gateway dns)) = htonl kDefaultLeaseTime"
    "info_subnetMask (lease_info d (lease_opts t srv netmask gateway dns)) = netmask"
    "info_gateway (lease_info d (lease_opts t srv netmask gateway dns)) = gateway"
    "info_t1 (lease_info d (lease_opts t srv netmask gateway dns)) = 0" "info_t2 (lease_info d (lease_opts t srv netmask gateway dns)) = 0"
    by (simp_all add: lease_info_def f server_id_effect_def dns_effect_def) (simp_all add: info_zero_def)
  show "info_serverId (lease_info d (lease_opts t srv netmask gateway dns)) = (case dns of [w] \<Rightarrow> w | _ \<Rightarrow> srv)"
    by (auto simp: lease_info_def f server_id_effect_def dns_effect_def split: list.splits)
qed

lemma server_lease_time: "htonl kDefaultLeaseTime = 1476526080"
  by (simp add: htonl_def le32_def kDefaultLeaseTime_def of_le.simps)

theorem dhcp_client_reads_lease_witness:
  "\<exists>msg c'. configureDhcp demo_system msg demo_requesting = Some (c', True) \<and> if_addr (net c') = 7 \<and> if_netmask (net c') = 0xFFFFFF"
proof -
  obtain msg where "carries msg ((reply_head (dhcpData Message_default))\<lparr>yiaddr := 7\<rparr>) (lease_opts DHCPACK 5 0xFFFFFF 6 [])"
    using ack_carries [of "[]", where nid = 1 and src = Message_default and server = 5 and addr = 7 and netmask = "0xFFFFFF" and gateway = 6] by auto
  moreover have "sys_ok demo_system" by (simp add: sys_ok_def demo_system_def)
  ultimately show ?thesis
    using dhcp_client_reads_lease [where sys = demo_system and c = demo_requesting]
    by (fastforce simp: lease_info_server server_lease_time)
qed

text \<open>Without times from the server the client renews after half of the lease and rebinds after seven eighths of it, as long as
  seven times the lease time fits into 32 bits. The lease of ten minutes that the server sends in host byte order is read as \<open>1476526080\<close> seconds, for which the product
  wraps around: the client then rebinds long before it renews.\<close>

theorem dhcp_client_timers:
  assumes none: "info_t1 (mDhcpInfo c) = 0" "info_t2 (mDhcpInfo c) = 0" and clock: "now_t2 sys = now_t1 sys" "unat (now_t1 sys) < 2 ^ 63"
  shows "(7 * unat (info_leaseTime (mDhcpInfo c)) < 2 ^ 32 \<longrightarrow>
           unat (mT1 (set_timers sys c)) = unat (now_t1 sys) + 1000 * (unat (info_leaseTime (mDhcpInfo c)) div 2)
         \<and> unat (mT2 (set_timers sys c)) = unat (now_t1 sys) + 1000 * (7 * unat (info_leaseTime (mDhcpInfo c)) div 8)
         \<and> mT1 (set_timers sys c) \<le> mT2 (set_timers sys c))
    \<and> (info_leaseTime (mDhcpInfo c) = htonl kDefaultLeaseTime \<longrightarrow>
           unat (mT1 (set_timers sys c)) = unat (now_t1 sys) + 738263040000 \<and> unat (mT2 (set_timers sys c)) = unat (now_t1 sys) + 218218496000)"
proof (intro conjI impI)
  let ?L = "info_leaseTime (mDhcpInfo c)" and ?now = "now_t1 sys"
  have t: "mT1 (set_timers sys c) = expireSeconds ?now (ucast (?L div 2))" "mT2 (set_timers sys c) = expireSeconds ?now (ucast (?L * 7 div 8))"
    using none clock(1) by (simp_all add: set_timers_def Let_def)
  have e: "unat (expireSeconds ?now (ucast w)) = unat ?now + 1000 * unat w" for w :: u32
  proof -
    have w: "unat (ucast w :: u64) = unat w" "unat w < 4294967296"
      using unsigned_less [of w, where 'a = nat] by (simp_all add: unat_ucast_mod)
    have "unat (ucast w * 1000 :: u64) = unat w * 1000" using w by (subst unat_mult_no_wrap) simp_all
    then show ?thesis unfolding expireSeconds_def using w clock(2) by (subst unat_add_no_wrap) simp_all
  qed
  show t1: "unat (mT1 (set_timers sys c)) = unat ?now + 1000 * (unat ?L div 2)" by (simp add: t e unat_div)
  show t2: "unat (mT2 (set_timers sys c)) = unat ?now + 1000 * (7 * unat ?L div 8)" if "7 * unat ?L < 2 ^ 32"
  proof -
    have "unat (?L * 7) = 7 * unat ?L" using that by (subst unat_mult_no_wrap) simp_all
    then show ?thesis by (simp add: t e unat_div)
  qed
  show "mT1 (set_timers sys c) \<le> mT2 (set_timers sys c)" if "7 * unat ?L < 2 ^ 32"
    using t1 t2 [OF that] by (simp add: word_le_nat_alt)
  show "unat (mT1 (set_timers sys c)) = unat ?now + 738263040000" "unat (mT2 (set_timers sys c)) = unat ?now + 218218496000"
    if "?L = htonl kDefaultLeaseTime"
    using e [of 738263040] e [of 218218496] by (simp_all add: t that server_lease_time)
qed

theorem dhcp_client_timers_witness:
  "unat (mT1 (set_timers demo_system (demo_requesting\<lparr>mDhcpInfo := info_zero\<lparr>info_leaseTime := 600\<rparr>\<rparr>))) = 305000
   \<and> unat (mT2 (set_timers demo_system (demo_requesting\<lparr>mDhcpInfo := info_zero\<lparr>info_leaseTime := 600\<rparr>\<rparr>))) = 530000"
  using dhcp_client_timers [of "demo_requesting\<lparr>mDhcpInfo := info_zero\<lparr>info_leaseTime := 600\<rparr>\<rparr>" demo_system]
  by (simp add: info_zero_def demo_system_def)

section \<open>An exchange, seen from the client\<close>

text \<open>The headers in front of a message for the client's port.\<close>

definition client_header :: "u8 list \<Rightarrow> bool" where
  "client_header h \<longleftrightarrow> length h = 28 \<and> h ! 0 = 0x45 \<and> h ! 9 = IPPROTO_UDP \<and> take 2 (drop 22 h) = le16 (htons PORT_BOOTP_CLIENT)"

lemma receiveDhcpMessage_carries:
  assumes h: "client_header h" and r: "carries r d os" and d: "op d = OP_BOOTREPLY" "htype d = HTYPE_ETHER" "hlen d = 6"
    and x: "xid d = xid (dhcpData (mLastMsg c))"
  shows "\<exists>msg. receiveDhcpMessage (Some (h @ msg_payload r)) c = Some msg \<and> carries msg d os"
proof -
  let ?m = "msg_store (msg_payload r) Message_default"
  have len: "length (msg_payload r) \<le> dhcp_size" using carries_fields [OF r] by (simp add: msg_payload_length)
  have c: "carries ?m d os" using r by (rule msg_store_carries) (simp add: Message_default_def)
  have h28: "length h = 28" "h ! 0 = 0x45" "h ! 9 = IPPROTO_UDP" "take 2 (drop 22 h) = le16 (htons PORT_BOOTP_CLIENT)"
    using h by (simp_all add: client_header_def)
  have "receiveRawUdp PORT_BOOTP_CLIENT (Some (h @ msg_payload r)) Message_default = (True, ?m, True)"
    unfolding receiveRawUdp_def option.case Let_def
    using len h28 by (simp add: nth_append IPVERSION_def take_bit_eq_mod)
  moreover have "isValidDhcpMessage_xid OP_BOOTREPLY (xid (dhcpData (mLastMsg c))) ?m"
    using carries_valid [OF c] carries_fields(2) [OF c] d x by (simp add: isValidDhcpMessage_xid_def)
  ultimately show ?thesis using c by (simp add: receiveDhcpMessage_def)
qed

lemma sendMessage_payload: "drop 28 (sendMessage m) = msg_payload m"
  by (simp add: sendMessage_def sendRawUdp_def Let_def)

text \<open>The first message of a client that starts.\<close>

lemma client_discovers:
  assumes "mState c = Init" "waiting c = None"
  shows "\<exists>c' m w. client_run c [Evaluate n1 n2 a1, Evaluate n3 n4 a2] c' [sendMessage m] \<and> mState c' = Selecting \<and> waiting c' = Some w \<and> mLastMsg c' = m
     \<and> net c' = net c \<and> mMacAddress c' = mMacAddress c
     \<and> carries m (client_head (nextTransactionId c) (mMacAddress c)) [(OPT_MESSAGE_TYPE, [DHCPDISCOVER]), (OPT_PARAMETER_LIST, kRequestParameters)]"
proof -
  obtain m where m: "discover (nextTransactionId c) (mMacAddress c) = Some (m, nextTransactionId c + 1)"
      "carries m (client_head (nextTransactionId c) (mMacAddress c)) [(OPT_MESSAGE_TYPE, [DHCPDISCOVER]), (OPT_PARAMETER_LIST, kRequestParameters)]"
    using discover_carries by blast
  let ?c1 = "begin_wait a1 (setNextState Selecting c)"
  have c1: "?c1 = setNextState Selecting c" by (simp add: begin_wait_def kNoTimeout_def)
  have s1: "client_step c (Evaluate n1 n2 a1) ?c1 []" using assms by (intro client_step.evaluate) (simp_all add: evaluate_def)
  let ?c2 = "increaseTimeout ((setNextState Selecting c)\<lparr>mLastMsg := m, nextTransactionId := nextTransactionId c + 1\<rparr>)"
  have e: "evaluate n3 n4 ?c1 = Some (?c2, [sendMessage m])" unfolding c1 using m(1) by (simp add: evaluate_def sendDhcpDiscover_def)
  have s2: "client_step ?c1 (Evaluate n3 n4 a2) (begin_wait a2 ?c2) [sendMessage m]"
    using assms e by (intro client_step.evaluate) (simp_all add: c1)
  have t: "mNextTimeout ?c2 = 4000" by (simp add: increaseTimeout_def kNoTimeout_def kInitialTimeout_def)
  have "client_run c [Evaluate n1 n2 a1, Evaluate n3 n4 a2] (begin_wait a2 ?c2) ([] @ [sendMessage m] @ [])"
    by (intro client_run.go [OF s1] client_run.go [OF s2] client_run.stop)
  moreover have "waiting (begin_wait a2 ?c2) = Some (calculateTimeoutMillis a2 ?c2)" "mMacAddress (begin_wait a2 ?c2) = mMacAddress c"
    using t by (simp_all add: begin_wait_def kNoTimeout_def)
  ultimately show ?thesis using m(2) by (intro exI [of _ "begin_wait a2 ?c2"] exI [of _ m] exI [of _ "calculateTimeoutMillis a2 ?c2"]) simp
qed

text \<open>An offer makes it ask for the address.\<close>

lemma client_requests:
  assumes st: "mState c = Selecting" "waiting c = Some w" and h: "client_header h" and r: "carries r d os"
    and d: "op d = OP_BOOTREPLY" "htype d = HTYPE_ETHER" "hlen d = 6" "xid d = xid (dhcpData (mLastMsg c))"
    and t: "map_of os OPT_MESSAGE_TYPE = Some [DHCPOFFER]" and s: "map_of os OPT_SERVER_ID = Some (le32 srv)"
  shows "\<exists>c' m w nid. client_run c [Poll sys t0 (Readable (Some (h @ msg_payload r))) t1, Evaluate n1 n2 a] c' [sendMessage m]
     \<and> mState c' = Requesting \<and> waiting c' = Some w \<and> mLastMsg c' = m \<and> net c' = net c \<and> mMacAddress c' = mMacAddress c
     \<and> carries m (client_head nid (mMacAddress c)) [(OPT_MESSAGE_TYPE, [DHCPREQUEST]), (OPT_PARAMETER_LIST, kRequestParameters),
         (OPT_REQUESTED_IP, le32 (yiaddr d)), (OPT_SERVER_ID, le32 srv)]"
proof -
  obtain msg where msg: "receiveDhcpMessage (Some (h @ msg_payload r)) c = Some msg" "carries msg d os"
    using receiveDhcpMessage_carries [OF h r d] by blast
  let ?c1 = "setNextState Requesting (c\<lparr>mServerAddress := srv, mRequestAddress := yiaddr d\<rparr>)"
  have "handle_message sys msg c = Some (?c1, True)"
    using t s st(1) by (simp add: handle_message_def carries_reads [OF msg(2)] carries_fields [OF msg(2)])
  then have "wait_round sys t0 (Readable (Some (h @ msg_payload r))) t1 w c = Some (?c1\<lparr>waiting := None\<rparr>)" using msg(1) by (simp add: wait_round_def)
  then have s1: "client_step c (Poll sys t0 (Readable (Some (h @ msg_payload r))) t1) (?c1\<lparr>waiting := None\<rparr>) []" by (rule client_step.poll [OF st(2)])
  let ?nid = "nextTransactionId c"
  obtain m where m: "request ?nid (mMacAddress c) (yiaddr d) srv = Some (m, ?nid + 1)"
      "carries m (client_head ?nid (mMacAddress c)) [(OPT_MESSAGE_TYPE, [DHCPREQUEST]), (OPT_PARAMETER_LIST, kRequestParameters),
         (OPT_REQUESTED_IP, le32 (yiaddr d)), (OPT_SERVER_ID, le32 srv)]"
    using request_carries by blast
  let ?c2 = "increaseTimeout (?c1\<lparr>waiting := None, mLastMsg := m, nextTransactionId := ?nid + 1\<rparr>)"
  have "evaluate n1 n2 (?c1\<lparr>waiting := None\<rparr>) = Some (?c2, [sendMessage m])"
    using m(1) by (simp add: evaluate_def sendDhcpRequest_def kMaxTimeout_def)
  then have s2: "client_step (?c1\<lparr>waiting := None\<rparr>) (Evaluate n1 n2 a) (begin_wait a ?c2) [sendMessage m]" by (intro client_step.evaluate) simp_all
  have t: "mNextTimeout ?c2 = 4000" by (simp add: increaseTimeout_def kNoTimeout_def kInitialTimeout_def)
  have "client_run c [Poll sys t0 (Readable (Some (h @ msg_payload r))) t1, Evaluate n1 n2 a] (begin_wait a ?c2) ([] @ [sendMessage m] @ [])"
    by (intro client_run.go [OF s1] client_run.go [OF s2] client_run.stop)
  moreover have "waiting (begin_wait a ?c2) = Some (calculateTimeoutMillis a ?c2)" "mMacAddress (begin_wait a ?c2) = mMacAddress c"
    using t by (simp_all add: begin_wait_def kNoTimeout_def)
  ultimately show ?thesis
    using m(2) by (intro exI [of _ "begin_wait a ?c2"] exI [of _ m] exI [of _ "calculateTimeoutMillis a ?c2"] exI [of _ ?nid]) simp
qed

text \<open>An acknowledgement binds it.\<close>

lemma client_acked:
  assumes st: "mState c \<in> {Requesting, Renewing, Rebinding}" "waiting c = Some w" and h: "client_header h" and r: "carries r d os"
    and d: "op d = OP_BOOTREPLY" "htype d = HTYPE_ETHER" "hlen d = 6" "xid d = xid (dhcpData (mLastMsg c))"
    and t: "map_of os OPT_MESSAGE_TYPE = Some [DHCPACK]" and l: "info_leaseTime (lease_info d os) \<noteq> 0" and sys: "sys_ok sys"
  shows "\<exists>c'. client_run c [Poll sys t0 (Readable (Some (h @ msg_payload r))) t1] c' [] \<and> mState c' = Bound
     \<and> mDhcpInfo c' = lease_info d os \<and> if_up (net c') \<and> if_addr (net c') = yiaddr d \<and> if_netmask (net c') = info_subnetMask (lease_info d os)"
proof -
  obtain msg where msg: "receiveDhcpMessage (Some (h @ msg_payload r)) c = Some msg" "carries msg d os"
    using receiveDhcpMessage_carries [OF h r d] by blast
  obtain n' where n': "configureDhcp sys msg c = Some ((set_timers sys (c\<lparr>mDhcpInfo := lease_info d os\<rparr>))\<lparr>net := n'\<rparr>, True)"
      "if_up n'" "if_addr n' = yiaddr d" "if_netmask n' = info_subnetMask (lease_info d os)"
    using configure_lease [OF msg(2) sys, of c] l by blast
  let ?c1 = "setNextState Bound ((set_timers sys (c\<lparr>mDhcpInfo := lease_info d os\<rparr>))\<lparr>net := n'\<rparr>)"
  have "handle_message sys msg c = Some (?c1, True)"
    using t st(1) n'(1) by (auto simp: handle_message_def carries_reads [OF msg(2)])
  then have "wait_round sys t0 (Readable (Some (h @ msg_payload r))) t1 w c = Some (?c1\<lparr>waiting := None\<rparr>)" using msg(1) by (simp add: wait_round_def)
  then have s1: "client_step c (Poll sys t0 (Readable (Some (h @ msg_payload r))) t1) (?c1\<lparr>waiting := None\<rparr>) []" by (rule client_step.poll [OF st(2)])
  have "client_run c [Poll sys t0 (Readable (Some (h @ msg_payload r))) t1] (?c1\<lparr>waiting := None\<rparr>) ([] @ [])" by (intro client_run.go [OF s1] client_run.stop)
  then show ?thesis using n'(2-4) by (intro exI [of _ "?c1\<lparr>waiting := None\<rparr>"]) simp
qed

definition demo_header :: "u8 list" where
  "demo_header = [0x45, 0, 0, 0, 0, 0, 0, 0, 64, 17, 0, 0, 0, 0, 0, 0, 255, 255, 255, 255] @ le16 (htons 67) @ le16 (htons 68) @ [0, 0, 0, 0]"

lemma demo_header_ok: "client_header demo_header" and demo_system_ok: "sys_ok demo_system"
  by (simp_all add: client_header_def demo_header_def IPPROTO_UDP_def PORT_BOOTP_CLIENT_def sys_ok_def demo_system_def)

text \<open>A run of the client from its start until it is bound to the address 7.\<close>

lemma demo_run:
  "\<exists>es c1 o1 h t0 r t1 c2 w.
     client_run (DhcpClient demo_net) es c1 o1 \<and> mState c1 = Requesting \<and> waiting c1 = Some w
   \<and> client_run c1 [Poll demo_system t0 (Readable (Some (h @ msg_payload r))) t1] c2 [] \<and> mState c2 = Bound \<and> if_addr (net c2) = 7"
proof -
  let ?c = "DhcpClient demo_net"
  have i: "mState ?c = Init" "waiting ?c = None" by (simp_all add: DhcpClient_def)
  obtain c1 m1 w1 where 1: "client_run ?c [Evaluate 0 0 0, Evaluate 0 0 0] c1 [sendMessage m1]" "mState c1 = Selecting" "waiting c1 = Some w1" "mLastMsg c1 = m1"
    using client_discovers [OF i, of 0 0 0 0 0 0] by blast
  obtain r1 where r1: "carries r1 ((reply_head (dhcpData m1))\<lparr>yiaddr := 7\<rparr>) (lease_opts DHCPOFFER 5 0xFFFFFF 6 [])"
    using offer_carries [of "[]" 1 m1] by fastforce
  obtain c2 m2 w2 where 2: "client_run c1 [Poll demo_system 0 (Readable (Some (demo_header @ msg_payload r1))) 0, Evaluate 0 0 0] c2 [sendMessage m2]"
      "mState c2 = Requesting" "waiting c2 = Some w2" "mLastMsg c2 = m2"
    using client_requests [OF 1(2,3) demo_header_ok r1, of 5 demo_system 0 0 0 0 0] 1(4) by (auto simp: lease_opts_def dhcp_codes)
  obtain r2 where r2: "carries r2 ((reply_head (dhcpData m2))\<lparr>yiaddr := 7\<rparr>) (lease_opts DHCPACK 5 0xFFFFFF 6 [])"
    using ack_carries [of "[]" 1 m2] by fastforce
  have l: "info_leaseTime (lease_info ((reply_head (dhcpData m2))\<lparr>yiaddr := 7\<rparr>) (lease_opts DHCPACK 5 0xFFFFFF 6 [])) \<noteq> 0"
    by (simp add: lease_info_server server_lease_time)
  have "map_of (lease_opts DHCPACK 5 0xFFFFFF 6 []) OPT_MESSAGE_TYPE = Some [DHCPACK]" by (simp add: lease_opts_def)
  then obtain c3 where 3: "client_run c2 [Poll demo_system 0 (Readable (Some (demo_header @ msg_payload r2))) 0] c3 []" "mState c3 = Bound" "if_addr (net c3) = 7"
    using client_acked [OF _ 2(3) demo_header_ok r2 _ _ _ _ _ l demo_system_ok, of 0 0] 2(2,4) by auto
  show ?thesis using client_run_append [OF 1(1) 2(1)] 2(2,3) 3 by blast
qed

theorem dhcp_client_bound_witness:
  "\<exists>es c' out. client_run (DhcpClient demo_net) es c' out \<and> mState c' = Bound \<and> if_up (net c') \<and> if_addr (net c') = info_offeredAddress (mDhcpInfo c')"
proof -
  obtain es c' out where r: "client_run (DhcpClient demo_net) es c' out" "mState c' = Bound"
    using demo_run client_run_append by blast
  have "mState (DhcpClient demo_net) = Init" by (simp add: DhcpClient_def)
  from dhcp_client_bound [OF r(1) this r(2)] r show ?thesis by blast
qed

theorem dhcp_client_binds_witness:
  "\<exists>c e c' out input msg. client_step c e c' out \<and> mState c' = Bound \<and> receiveDhcpMessage input c = Some msg \<and> msg_type msg = Some DHCPACK"
proof -
  obtain c1 t0 h r t1 c2 where r: "mState c1 = Requesting" "client_run c1 [Poll demo_system t0 (Readable (Some (h @ msg_payload r))) t1] c2 []" "mState c2 = Bound"
    using demo_run by blast
  have s: "client_step c1 (Poll demo_system t0 (Readable (Some (h @ msg_payload r))) t1) c2 []"
    using r(2) by (auto elim!: client_runE)
  have "mState c1 \<noteq> Bound" using r(1) by simp
  from dhcp_client_binds [OF s this r(3)] s r(3) show ?thesis by blast
qed

end
