(* ===== verification/Fifo.thy ===== *)
theory Fifo
  imports Main
begin

text \<open>
  The contract of a queue that several parties write to and read from: a call puts a sequence of items in
  or leaves the queue alone, or takes some items from the front. A call that goes wrong has no result
  (\<open>None\<close>), and then neither has the run it is part of. For every sequence of calls
  that keeps to the contract, none goes wrong, and what was in the queue and what was put into it comes out in order.
\<close>

datatype ('p, 'g) fifo_call = Put 'p | Get 'g

fun fifo_run ::
  "('p \<Rightarrow> 'q \<Rightarrow> ('a list \<times> 'q) option) \<Rightarrow> ('g \<Rightarrow> 'q \<Rightarrow> ('a list \<times> 'q) option) \<Rightarrow> ('p, 'g) fifo_call list \<Rightarrow> 'q
   \<Rightarrow> ('a list \<times> 'a list \<times> 'q) option" where
  "fifo_run put get [] q = Some ([], [], q)"
| "fifo_run put get (Put p # cs) q =
     (case put p q of
        None \<Rightarrow> None
      | Some (xs, q1) \<Rightarrow> map_option (\<lambda>(ins, outs, q2). (xs @ ins, outs, q2)) (fifo_run put get cs q1))"
| "fifo_run put get (Get g # cs) q =
     (case get g q of
        None \<Rightarrow> None
      | Some (ys, q1) \<Rightarrow> map_option (\<lambda>(ins, outs, q2). (ins, ys @ outs, q2)) (fifo_run put get cs q1))"

fun puts_ok :: "('p \<Rightarrow> bool) \<Rightarrow> ('p, 'g) fifo_call list \<Rightarrow> bool" where
  "puts_ok ok [] = True"
| "puts_ok ok (Put p # cs) = (ok p \<and> puts_ok ok cs)"
| "puts_ok ok (Get g # cs) = puts_ok ok cs"

locale fifo =
  fixes invar :: "'q \<Rightarrow> bool"
    and content :: "'q \<Rightarrow> 'a list"
    and put :: "'p \<Rightarrow> 'q \<Rightarrow> ('a list \<times> 'q) option"
    and get :: "'g \<Rightarrow> 'q \<Rightarrow> ('a list \<times> 'q) option"
    and put_ok :: "'p \<Rightarrow> bool"
  assumes put_law: "invar q \<Longrightarrow> put_ok p \<Longrightarrow> \<exists>xs q'. put p q = Some (xs, q') \<and> invar q' \<and> content q' = content q @ xs"
    and get_law: "invar q \<Longrightarrow> \<exists>ys q'. get g q = Some (ys, q') \<and> invar q' \<and> content q = ys @ content q'"
begin

lemma run_order:
  "invar q \<Longrightarrow> puts_ok put_ok cs \<Longrightarrow>
   \<exists>ins outs q'. fifo_run put get cs q = Some (ins, outs, q') \<and> invar q' \<and> content q @ ins = outs @ content q'"
proof (induction cs arbitrary: q)
  case (Cons c cs)
  show ?case
  proof (cases c)
    case (Put p)
    obtain xs q1 where p: "put p q = Some (xs, q1)" "invar q1" "content q1 = content q @ xs"
      using put_law [OF Cons.prems(1), of p] Cons.prems(2) Put by auto
    obtain ins outs q' where "fifo_run put get cs q1 = Some (ins, outs, q')" "invar q'" "content q1 @ ins = outs @ content q'"
      using Cons.IH [OF p(2)] Cons.prems(2) Put by auto
    then show ?thesis using p Put by simp
  next
    case (Get g)
    obtain ys q1 where g: "get g q = Some (ys, q1)" "invar q1" "content q = ys @ content q1"
      using get_law [OF Cons.prems(1), of g] by auto
    obtain ins outs q' where "fifo_run put get cs q1 = Some (ins, outs, q')" "invar q'" "content q1 @ ins = outs @ content q'"
      using Cons.IH [OF g(2)] Cons.prems(2) Get by auto
    then show ?thesis using g Get by simp
  qed
qed simp

end

end
