(* ===== verification/Vsoc_Queue.thy ===== *)
theory Vsoc_Queue
  imports Net_Bytes Fifo
begin

text \<open>
  The circular queues of \<^verbatim>\<open>hals/camera/common/vsoc\<close> (\<^verbatim>\<open>lib/circqueue_impl.h\<close>, \<^verbatim>\<open>shm/circqueue.h\<close>), through which
  guest and host exchange bytes or packets in shared memory. The buffer has \<open>2 ^ k\<close> bytes, \<open>k\<close> being the template
  parameter \<^verbatim>\<open>SizeLog2\<close>; both indices run through all 32-bit numbers and wrap around. A call holds the spin lock
  except while it waits, and looks at both indices anew after every wait: one round of a call, from taking the lock to
  releasing it, is one step here, and the rounds of several callers follow each other in any order.
  \<open>None\<close> as a result is a copy outside an array.
\<close>

section \<open>Data\<close>

definition ENOSPC :: int where "ENOSPC = 28"
definition EWOULDBLOCK :: int where "EWOULDBLOCK = 11"

record cqueue =
  r_released :: u32
  w_pub :: u32
  buffer :: "u8 list"

record Range =
  start_idx :: u32
  end_idx :: u32

definition BufferSize :: "nat \<Rightarrow> u32" where
  "BufferSize k = push_bit k 1"

text \<open>What a round of a call does: it returns a value with the bytes it gives to the caller, or it waits.\<close>

datatype 'r round = Returns int 'r | Waits

section \<open>Operations\<close>

text \<open>\<^verbatim>\<open>memcpy\<close> of \<open>n\<close> bytes.\<close>

definition copy_in :: "nat \<Rightarrow> u8 list \<Rightarrow> nat \<Rightarrow> u8 list \<Rightarrow> u8 list option" where
  "copy_in i src n buf = (if n \<le> length src \<and> i + n \<le> length buf then Some (overlay i (take n src) buf) else None)"

definition copy_out :: "u8 list \<Rightarrow> nat \<Rightarrow> nat \<Rightarrow> u8 list option" where
  "copy_out buf i n = (if i + n \<le> length buf then Some (take n (drop i buf)) else None)"

definition CopyInRange :: "nat \<Rightarrow> u8 list \<Rightarrow> Range \<Rightarrow> u8 list \<Rightarrow> u8 list option" where
  "CopyInRange k buffer_in t buf =
     (let bytes = end_idx t - start_idx t; index = start_idx t AND (BufferSize k - 1)
      in if index + bytes \<le> BufferSize k then copy_in (unat index) buffer_in (unat bytes) buf
         else
           let part1_size = BufferSize k - index; part2_size = bytes - part1_size
           in (case copy_in (unat index) buffer_in (unat part1_size) buf of
                 None \<Rightarrow> None
               | Some buf1 \<Rightarrow> copy_in 0 (drop (unat part1_size) buffer_in) (unat part2_size) buf1))"

definition CopyOutRange :: "nat \<Rightarrow> Range \<Rightarrow> u8 list \<Rightarrow> u8 list option" where
  "CopyOutRange k t buf =
     (let index = start_idx t AND (BufferSize k - 1); total_size = end_idx t - start_idx t
      in if index + total_size \<le> BufferSize k then copy_out buf (unat index) (unat total_size)
         else
           let part1_size = BufferSize k - index; part2_size = total_size - part1_size
           in (case copy_out buf (unat index) (unat part1_size) of
                 None \<Rightarrow> None
               | Some a \<Rightarrow> (case copy_out buf 0 (unat part2_size) of None \<Rightarrow> None | Some b \<Rightarrow> Some (a @ b))))"

definition WaitForDataLocked :: "cqueue \<Rightarrow> bool" where
  "WaitForDataLocked q \<longleftrightarrow> r_released q = w_pub q"

text \<open>The value of the call, and the range when it is not an error.\<close>

definition WriteReserveLocked :: "nat \<Rightarrow> u32 \<Rightarrow> bool \<Rightarrow> cqueue \<Rightarrow> Range round" where
  "WriteReserveLocked k bytes non_blocking q =
     (let none = \<lparr>start_idx = 0, end_idx = 0\<rparr>
      in if bytes > BufferSize k then Returns (- ENOSPC) none
         else
           let bytes_in_use = w_pub q - r_released q; available = BufferSize k - bytes_in_use
           in if available \<ge> bytes then
                let t = \<lparr>start_idx = w_pub q, end_idx = w_pub q + bytes\<rparr>
                in Returns (sint (end_idx t - start_idx t)) t
              else if non_blocking then Returns (- EWOULDBLOCK) none
              else Waits)"

definition byte_Read :: "nat \<Rightarrow> u32 \<Rightarrow> cqueue \<Rightarrow> (u8 list round \<times> cqueue) option" where
  "byte_Read k max_size q =
     (if WaitForDataLocked q then Some (Waits, q)
      else
        let t0 = \<lparr>start_idx = r_released q, end_idx = w_pub q\<rparr>;
            t = (if end_idx t0 - start_idx t0 > max_size then t0\<lparr>end_idx := start_idx t0 + max_size\<rparr> else t0)
        in (case CopyOutRange k t (buffer q) of
              None \<Rightarrow> None
            | Some out \<Rightarrow> Some (Returns (sint (end_idx t - start_idx t)) out, q\<lparr>r_released := end_idx t\<rparr>)))"

definition byte_Write :: "nat \<Rightarrow> u8 list \<Rightarrow> u32 \<Rightarrow> bool \<Rightarrow> cqueue \<Rightarrow> (unit round \<times> cqueue) option" where
  "byte_Write k buffer_in bytes non_blocking q =
     (case WriteReserveLocked k bytes non_blocking q of
        Waits \<Rightarrow> Some (Waits, q)
      | Returns rval rng \<Rightarrow>
          if rval < 0 then Some (Returns rval (), q)
          else (case CopyInRange k buffer_in rng (buffer q) of
                  None \<Rightarrow> None
                | Some buf \<Rightarrow> Some (Returns (sint bytes) (), q\<lparr>buffer := buf, w_pub := end_idx rng\<rparr>)))"

definition align4 :: "u32 \<Rightarrow> u32" where
  "align4 index = (index + 4 - 1) AND NOT (4 - 1)"

definition CalculateBufferedSize :: "u32 \<Rightarrow> u32" where
  "CalculateBufferedSize payload = align4 (4 + payload)"

definition packet_Read :: "nat \<Rightarrow> u32 \<Rightarrow> cqueue \<Rightarrow> (u8 list round \<times> cqueue) option" where
  "packet_Read k max_size q =
     (if WaitForDataLocked q then Some (Waits, q)
      else
        (case read32 (buffer q) (unat (r_released q AND (BufferSize k - 1))) of
           None \<Rightarrow> None
         | Some packet_size \<Rightarrow>
             if packet_size > max_size then Some (Returns (- ENOSPC) [], q)
             else
               let t = \<lparr>start_idx = r_released q + 4, end_idx = r_released q + 4 + packet_size\<rparr>
               in (case CopyOutRange k t (buffer q) of
                     None \<Rightarrow> None
                   | Some out \<Rightarrow> Some (Returns (sint packet_size) out,
                       q\<lparr>r_released := r_released q + CalculateBufferedSize packet_size\<rparr>))))"

text \<open>The loop over the pieces of a packet; a piece has as many bytes as its \<^verbatim>\<open>iov_len\<close> says.\<close>

fun copy_iov :: "nat \<Rightarrow> u8 list list \<Rightarrow> u32 \<Rightarrow> u8 list \<Rightarrow> u8 list option" where
  "copy_iov k [] start buf = Some buf"
| "copy_iov k (x # iov) start buf =
     (let e = start + of_nat (length x)
      in (case CopyInRange k x \<lparr>start_idx = start, end_idx = e\<rparr> buf of None \<Rightarrow> None | Some buf1 \<Rightarrow> copy_iov k iov e buf1))"

definition iov_bytes :: "u8 list list \<Rightarrow> u32" where
  "iov_bytes iov = foldl (\<lambda>bytes x. bytes + of_nat (length x)) 0 iov"

definition packet_Writev :: "nat \<Rightarrow> u32 \<Rightarrow> u8 list list \<Rightarrow> bool \<Rightarrow> cqueue \<Rightarrow> (unit round \<times> cqueue) option" where
  "packet_Writev k MaxPacketSize iov non_blocking q =
     (let bytes = iov_bytes iov
      in if bytes > MaxPacketSize then Some (Returns (- ENOSPC) (), q)
         else (case WriteReserveLocked k (CalculateBufferedSize bytes) non_blocking q of
             Waits \<Rightarrow> Some (Waits, q)
           | Returns rval rng \<Rightarrow>
               if rval < 0 then Some (Returns rval (), q)
               else
                 (case CopyInRange k (le32 bytes) (rng\<lparr>end_idx := start_idx rng + 4\<rparr>) (buffer q) of
                    None \<Rightarrow> None
                  | Some buf1 \<Rightarrow>
                      (case copy_iov k iov (start_idx rng + 4) buf1 of
                         None \<Rightarrow> None
                       | Some buf2 \<Rightarrow> Some (Returns (sint bytes) (), q\<lparr>buffer := buf2, w_pub := end_idx rng\<rparr>)))))"

definition packet_Write :: "nat \<Rightarrow> u32 \<Rightarrow> u8 list \<Rightarrow> bool \<Rightarrow> cqueue \<Rightarrow> (unit round \<times> cqueue) option" where
  "packet_Write k MaxPacketSize buffer_in non_blocking q = packet_Writev k MaxPacketSize [buffer_in] non_blocking q"

section \<open>The buffer as a ring\<close>

text \<open>The ring read from an index on is the buffer rotated by it.\<close>

definition ring :: "nat \<Rightarrow> u32 \<Rightarrow> u8 list \<Rightarrow> u8 list" where
  "ring k s buf = rotate (unat s mod 2 ^ k) buf"

lemma unat_BufferSize: "k \<le> 30 \<Longrightarrow> unat (BufferSize k) = 2 ^ k"
proof -
  assume k: "k \<le> 30"
  then have "(2::nat) ^ k < 2 ^ 32" by (intro power_strict_increasing) auto
  then have "unat (of_nat (2 ^ k) :: u32) = 2 ^ k" by (simp only: unat_of_nat) simp
  then show ?thesis by (simp add: BufferSize_def)
qed

lemma unat_index: "k \<le> 30 \<Longrightarrow> unat (s AND (BufferSize k - 1)) = unat s mod 2 ^ k"
  by (simp add: BufferSize_def unat_and_low del: push_bit_of_1)

lemma buffer_less: "k \<le> 30 \<Longrightarrow> (2::nat) ^ k \<le> 1073741824"
  using power_increasing [of k 30 "2::nat"] by simp

lemma ring_length [simp]: "length (ring k s buf) = length buf"
  by (simp add: ring_def)

lemma ring_split: "length buf = 2 ^ k \<Longrightarrow> ring k s buf = drop (unat s mod 2 ^ k) buf @ take (unat s mod 2 ^ k) buf"
  by (simp add: ring_def rotate_drop_take)

lemma ring_advance:
  assumes "k \<le> 30" "length buf = 2 ^ k"
  shows "ring k (s + d) buf = rotate (unat d) (ring k s buf)"
proof -
  have "unat (s + d) mod 2 ^ k = (unat s + unat d) mod 2 ^ 32 mod 2 ^ k" by (simp add: unat_word_ariths)
  also have "\<dots> = (unat s + unat d) mod 2 ^ k"
    using assms(1) by (intro mod_mod_cancel le_imp_power_dvd) simp
  finally show ?thesis using assms(2)
    by (simp add: ring_def rotate_rotate) (metis add.commute mod_add_left_eq rotate_conv_mod)
qed

lemma copy_split:
  assumes "k \<le> 30" "length buf = 2 ^ k" "unat b \<le> 2 ^ k"
  shows "(s AND (BufferSize k - 1)) + b \<le> BufferSize k \<longleftrightarrow> unat s mod 2 ^ k + unat b \<le> 2 ^ k"
    and "unat (BufferSize k - (s AND (BufferSize k - 1))) = 2 ^ k - unat s mod 2 ^ k"
    and "\<not> unat s mod 2 ^ k + unat b \<le> 2 ^ k \<Longrightarrow>
      unat (b - (BufferSize k - (s AND (BufferSize k - 1)))) = unat b - (2 ^ k - unat s mod 2 ^ k)"
proof -
  have i: "unat s mod 2 ^ k < 2 ^ k" by simp
  have "unat s mod 2 ^ k + unat b < 4294967296" using i assms(3) buffer_less [OF assms(1)] by linarith
  then have "unat ((s AND (BufferSize k - 1)) + b) = unat s mod 2 ^ k + unat b"
    by (subst unat_add_no_wrap) (simp_all add: unat_index assms(1))
  then show "(s AND (BufferSize k - 1)) + b \<le> BufferSize k \<longleftrightarrow> unat s mod 2 ^ k + unat b \<le> 2 ^ k"
    by (simp add: word_le_nat_alt unat_BufferSize [OF assms(1)])
  show p: "unat (BufferSize k - (s AND (BufferSize k - 1))) = 2 ^ k - unat s mod 2 ^ k"
    by (subst unat_sub) (simp_all add: word_le_nat_alt unat_BufferSize unat_index assms(1) less_imp_le)
  assume "\<not> unat s mod 2 ^ k + unat b \<le> 2 ^ k"
  then show "unat (b - (BufferSize k - (s AND (BufferSize k - 1)))) = unat b - (2 ^ k - unat s mod 2 ^ k)"
    by (subst unat_sub) (simp_all add: word_le_nat_alt p)
qed

lemma CopyInRange_ring:
  assumes k: "k \<le> 30" "length buf = 2 ^ k"
    and n: "n = unat (end_idx t - start_idx t)" "n \<le> 2 ^ k" "n \<le> length src"
  shows "\<exists>buf'. CopyInRange k src t buf = Some buf' \<and> length buf' = 2 ^ k
     \<and> ring k (start_idx t) buf' = take n src @ drop n (ring k (start_idx t) buf)"
proof -
  let ?i = "unat (start_idx t) mod 2 ^ k"
  note sp = copy_split [OF k n(2) [unfolded n(1)], of "start_idx t", folded n(1)]
  have i: "?i < 2 ^ k" by simp
  show ?thesis
  proof (cases "?i + n \<le> 2 ^ k")
    case True
    let ?b = "overlay ?i (take n src) buf"
    have "ring k (start_idx t) ?b = take n src @ drop n (ring k (start_idx t) buf)"
      using True k n(3) i by (simp add: ring_split overlay_def add.commute)
    then show ?thesis using True k n(3) sp(1)
      by (simp add: CopyInRange_def Let_def copy_in_def unat_index n(1) [symmetric])
  next
    case False
    let ?p = "2 ^ k - ?i" and ?b1 = "take ?i buf @ take (2 ^ k - ?i) src"
    let ?b = "take (n - ?p) (drop ?p src) @ drop (n - ?p) (take ?i buf) @ take ?p src"
    have "length (take (n - ?p) (drop ?p src) @ drop (n - ?p) (take ?i buf)) = ?i" using False n i k by simp
    then have "ring k (start_idx t) ?b = take ?p src @ take (n - ?p) (drop ?p src) @ drop (n - ?p) (take ?i buf)"
      unfolding ring_def by (metis append.assoc rotate_append)
    moreover have "take ?p src @ take (n - ?p) (drop ?p src) = take n src" using False by (metis le_add_diff_inverse nat_le_linear add_diff_inverse_nat le_diff_conv take_add add.commute)
    moreover have "drop n (ring k (start_idx t) buf) = drop (n - ?p) (take ?i buf)" using False k by (simp add: ring_split)
    ultimately have r: "ring k (start_idx t) ?b = take n src @ drop n (ring k (start_idx t) buf)" by simp
    have "copy_in ?i src ?p buf = Some ?b1" "copy_in 0 (drop ?p src) (n - ?p) ?b1 = Some ?b"
      using False k n(2,3) i le_trans [of "n + ?i - 2 ^ k" ?i "2 ^ k"] by (simp_all add: copy_in_def overlay_def)
    then have "CopyInRange k src t buf = Some ?b"
      using False k sp by (simp add: CopyInRange_def Let_def unat_index n(1) [symmetric])
    moreover have "length ?b = 2 ^ k" using arg_cong [OF r, of length] n(2,3) k(2) by simp
    ultimately show ?thesis using r by blast
  qed
qed

lemma CopyOutRange_ring:
  assumes k: "k \<le> 30" "length buf = 2 ^ k"
    and n: "n = unat (end_idx t - start_idx t)" "n \<le> 2 ^ k"
  shows "CopyOutRange k t buf = Some (take n (ring k (start_idx t) buf))"
proof -
  let ?i = "unat (start_idx t) mod 2 ^ k"
  note sp = copy_split [OF k n(2) [unfolded n(1)], of "start_idx t", folded n(1)]
  have i: "?i < 2 ^ k" by simp
  show ?thesis
  proof (cases "?i + n \<le> 2 ^ k")
    case True
    then show ?thesis using k sp(1) i
      by (simp add: CopyOutRange_def Let_def copy_out_def unat_index n(1) [symmetric] ring_split)
  next
    case False
    moreover have "n + ?i - 2 ^ k \<le> ?i" "n + ?i - 2 ^ k \<le> 2 ^ k" using n(2) i by linarith+
    ultimately show ?thesis using k sp
      by (simp add: CopyOutRange_def Let_def copy_out_def unat_index n(1) [symmetric] ring_split)
  qed
qed

section \<open>The bytes in a queue\<close>

definition used :: "cqueue \<Rightarrow> nat" where
  "used q = unat (w_pub q - r_released q)"

definition cq_ok :: "nat \<Rightarrow> cqueue \<Rightarrow> bool" where
  "cq_ok k q \<longleftrightarrow> k \<le> 30 \<and> length (buffer q) = 2 ^ k \<and> used q \<le> 2 ^ k"

definition bytes_of :: "nat \<Rightarrow> cqueue \<Rightarrow> u8 list" where
  "bytes_of k q = take (used q) (ring k (r_released q) (buffer q))"

lemma used_0: "used q = 0 \<longleftrightarrow> r_released q = w_pub q"
  by (auto simp: used_def unat_eq_0)

lemma bytes_of_length [simp]: "cq_ok k q \<Longrightarrow> length (bytes_of k q) = used q"
  by (simp add: bytes_of_def cq_ok_def)

text \<open>Bytes stored at a distance from an index, seen from that index.\<close>

lemma ring_overlay:
  assumes k: "k \<le> 30" "length buf = 2 ^ k" "length buf' = 2 ^ k"
    and m: "unat d + length xs \<le> 2 ^ k" "ring k (r + d) buf' = xs @ drop (length xs) (ring k (r + d) buf)"
  shows "ring k r buf' = take (unat d) (ring k r buf) @ xs @ drop (unat d + length xs) (ring k r buf)"
proof (cases "unat d < 2 ^ k")
  case True
  let ?A = "ring k r buf" and ?B = "ring k r buf'"
  have "drop (unat d) ?B @ take (unat d) ?B = xs @ drop (length xs) (drop (unat d) ?A @ take (unat d) ?A)"
    using m(2) ring_advance [OF k(1,2), of r d] ring_advance [OF k(1,3), of r d] True k by (simp add: rotate_drop_take)
  also have "\<dots> = (xs @ drop (unat d + length xs) ?A) @ take (unat d) ?A" using m(1) k by (simp add: add.commute)
  finally have "drop (unat d) ?B = xs @ drop (unat d + length xs) ?A \<and> take (unat d) ?B = take (unat d) ?A"
    by (rule append_eq_append_conv [THEN iffD1, rotated]) (use k in simp)
  then show ?thesis by (metis append_take_drop_id)
next
  case False
  then have "length xs = 0" "unat d = 2 ^ k" using m(1) by linarith+
  then show ?thesis using m(2) ring_advance [OF k(1,2), of r d] ring_advance [OF k(1,3), of r d] k by simp
qed

lemma ring_take_advance:
  assumes "k \<le> 30" "length buf = 2 ^ k" "unat d + n \<le> 2 ^ k"
  shows "take n (ring k (r + d) buf) = drop (unat d) (take (unat d + n) (ring k r buf))"
proof (cases "unat d < 2 ^ k")
  case True
  then show ?thesis using assms ring_advance [OF assms(1,2), of r d] by (simp add: rotate_drop_take drop_take)
next
  case False
  then show ?thesis using assms by simp
qed

lemma unat_sum_no_wrap:
  assumes "unat (a :: u32) + n \<le> 2 ^ k" "k \<le> 30" "n = unat b"
  shows "unat (a + b) = unat a + n"
proof -
  have "unat a + unat b < 4294967296" using assms(1,3) buffer_less [OF assms(2)] by linarith
  then show ?thesis by (simp add: unat_add_no_wrap assms(3))
qed

text \<open>Storing bytes behind the ones in use and moving the write index over at least as many.\<close>

lemma write_content:
  assumes q: "cq_ok k q" and n: "used q + unat b \<le> 2 ^ k"
    and r: "ring k (w_pub q) buf = xs @ drop (length xs) (ring k (w_pub q) (buffer q))" "length buf = 2 ^ k" "length xs = unat b"
  shows "cq_ok k (q\<lparr>buffer := buf, w_pub := w_pub q + b\<rparr>)" "bytes_of k (q\<lparr>buffer := buf, w_pub := w_pub q + b\<rparr>) = bytes_of k q @ xs"
proof -
  have k: "k \<le> 30" "length (buffer q) = 2 ^ k" using q by (auto simp: cq_ok_def)
  have u: "used (q\<lparr>buffer := buf, w_pub := w_pub q + b\<rparr>) = used q + unat b"
    using unat_sum_no_wrap [OF n [unfolded used_def] k(1) refl] by (simp add: used_def algebra_simps)
  show "cq_ok k (q\<lparr>buffer := buf, w_pub := w_pub q + b\<rparr>)" using u n k(1) r(2) by (simp add: cq_ok_def)
  show "bytes_of k (q\<lparr>buffer := buf, w_pub := w_pub q + b\<rparr>) = bytes_of k q @ xs"
    using ring_overlay [OF k r(2), of "w_pub q - r_released q" xs "r_released q"] n r u k(2) by (simp add: bytes_of_def used_def)
qed

text \<open>Moving the read index over some of the bytes.\<close>

lemma read_content:
  assumes q: "cq_ok k q" and d: "unat d \<le> used q"
  shows "cq_ok k (q\<lparr>r_released := r_released q + d\<rparr>)" "bytes_of k (q\<lparr>r_released := r_released q + d\<rparr>) = drop (unat d) (bytes_of k q)"
proof -
  have k: "k \<le> 30" "length (buffer q) = 2 ^ k" "used q \<le> 2 ^ k" using q by (auto simp: cq_ok_def)
  have "unat (w_pub q - r_released q - d) = used q - unat d"
    using d by (subst unat_sub) (simp_all add: used_def word_le_nat_alt)
  then have u: "used (q\<lparr>r_released := r_released q + d\<rparr>) = used q - unat d" by (simp add: used_def algebra_simps)
  show "cq_ok k (q\<lparr>r_released := r_released q + d\<rparr>)" using u k by (simp add: cq_ok_def)
  show "bytes_of k (q\<lparr>r_released := r_released q + d\<rparr>) = drop (unat d) (bytes_of k q)"
    using ring_take_advance [OF k(1,2), of d "used q - unat d" "r_released q"] d k(3) u by (simp add: bytes_of_def)
qed

section \<open>The byte queue\<close>

lemma sint_bytes: "k \<le> 30 \<Longrightarrow> unat (b :: u32) \<le> 2 ^ k \<Longrightarrow> sint b = int (unat b)"
  using buffer_less [of k] by (intro sint_small) linarith

text \<open>The outcome of reserving room.\<close>

lemma WriteReserveLocked_outcome:
  assumes q: "cq_ok k q"
  shows "unat b > 2 ^ k \<Longrightarrow> \<exists>t. WriteReserveLocked k b nb q = Returns (- ENOSPC) t"
    and "used q + unat b \<le> 2 ^ k \<Longrightarrow>
      WriteReserveLocked k b nb q = Returns (int (unat b)) \<lparr>start_idx = w_pub q, end_idx = w_pub q + b\<rparr>"
    and "unat b \<le> 2 ^ k \<Longrightarrow> used q + unat b > 2 ^ k \<Longrightarrow>
      \<exists>t. WriteReserveLocked k b nb q = (if nb then Returns (- EWOULDBLOCK) t else Waits)"
proof -
  have k: "k \<le> 30" "used q \<le> 2 ^ k" using q by (auto simp: cq_ok_def)
  have a: "unat (BufferSize k - (w_pub q - r_released q)) = 2 ^ k - used q"
    using k by (subst unat_sub) (simp_all add: word_le_nat_alt unat_BufferSize used_def)
  show "unat b > 2 ^ k \<Longrightarrow> \<exists>t. WriteReserveLocked k b nb q = Returns (- ENOSPC) t"
    using k(1) by (simp add: WriteReserveLocked_def word_less_nat_alt unat_BufferSize)
  show "WriteReserveLocked k b nb q = Returns (int (unat b)) \<lparr>start_idx = w_pub q, end_idx = w_pub q + b\<rparr>"
    if n: "used q + unat b \<le> 2 ^ k"
    using k(1) a le_diff_conv2 [OF k(2), of "unat b"] n by (simp add: add.commute)
      (simp add: WriteReserveLocked_def word_less_nat_alt word_le_nat_alt unat_BufferSize sint_bytes)
  show "\<exists>t. WriteReserveLocked k b nb q = (if nb then Returns (- EWOULDBLOCK) t else Waits)"
    if n: "unat b \<le> 2 ^ k" "used q + unat b > 2 ^ k"
    using k(1) a le_diff_conv2 [OF k(2), of "unat b"] n by (simp add: add.commute)
      (simp add: WriteReserveLocked_def word_less_nat_alt word_le_nat_alt unat_BufferSize)
qed

lemma byte_Write_outcome:
  assumes q: "cq_ok k q" and d: "unat b \<le> length xs"
  shows "unat b > 2 ^ k \<Longrightarrow> byte_Write k xs b nb q = Some (Returns (- ENOSPC) (), q)"
    and "unat b \<le> 2 ^ k \<Longrightarrow> used q + unat b > 2 ^ k \<Longrightarrow>
      byte_Write k xs b nb q = Some (if nb then Returns (- EWOULDBLOCK) () else Waits, q)"
    and "used q + unat b \<le> 2 ^ k \<Longrightarrow> \<exists>q'. byte_Write k xs b nb q = Some (Returns (int (unat b)) (), q')
      \<and> cq_ok k q' \<and> bytes_of k q' = bytes_of k q @ take (unat b) xs"
proof -
  note res = WriteReserveLocked_outcome [OF q, of b]
  show "unat b > 2 ^ k \<Longrightarrow> byte_Write k xs b nb q = Some (Returns (- ENOSPC) (), q)"
    using res(1) [of nb] by (auto simp: byte_Write_def ENOSPC_def)
  show "unat b \<le> 2 ^ k \<Longrightarrow> used q + unat b > 2 ^ k \<Longrightarrow>
      byte_Write k xs b nb q = Some (if nb then Returns (- EWOULDBLOCK) () else Waits, q)"
    using res(3) [of nb] by (auto simp: byte_Write_def EWOULDBLOCK_def split: if_splits)
  assume n: "used q + unat b \<le> 2 ^ k"
  have k: "k \<le> 30" "length (buffer q) = 2 ^ k" using q by (auto simp: cq_ok_def)
  let ?t = "\<lparr>start_idx = w_pub q, end_idx = w_pub q + b\<rparr>"
  obtain buf where buf: "CopyInRange k xs ?t (buffer q) = Some buf" "length buf = 2 ^ k"
      "ring k (w_pub q) buf = take (unat b) xs @ drop (unat b) (ring k (w_pub q) (buffer q))"
    using CopyInRange_ring [OF k, of "unat b" ?t xs] n d by auto
  have "byte_Write k xs b nb q = Some (Returns (int (unat b)) (), q\<lparr>buffer := buf, w_pub := w_pub q + b\<rparr>)"
    using res(2) [OF n] buf(1) n k(1) by (simp add: byte_Write_def sint_bytes)
  then show "\<exists>q'. byte_Write k xs b nb q = Some (Returns (int (unat b)) (), q')
      \<and> cq_ok k q' \<and> bytes_of k q' = bytes_of k q @ take (unat b) xs"
    using write_content [OF q n, of buf "take (unat b) xs"] buf d by auto
qed

lemma byte_Read_outcome:
  assumes q: "cq_ok k q"
  shows "used q = 0 \<Longrightarrow> byte_Read k m q = Some (Waits, q)"
    and "used q \<noteq> 0 \<Longrightarrow> \<exists>q'. byte_Read k m q = Some (Returns (int (min (used q) (unat m))) (take (unat m) (bytes_of k q)), q')
      \<and> cq_ok k q' \<and> bytes_of k q' = drop (unat m) (bytes_of k q)"
proof -
  show "used q = 0 \<Longrightarrow> byte_Read k m q = Some (Waits, q)"
    by (simp add: byte_Read_def WaitForDataLocked_def used_0)
  assume u: "used q \<noteq> 0"
  have k: "k \<le> 30" "length (buffer q) = 2 ^ k" "used q \<le> 2 ^ k" using q by (auto simp: cq_ok_def)
  define d where "d = (if w_pub q - r_released q > m then m else w_pub q - r_released q)"
  have d: "unat d = min (used q) (unat m)" by (auto simp: d_def used_def word_less_nat_alt)
  let ?t = "\<lparr>start_idx = r_released q, end_idx = r_released q + d\<rparr>"
  have "CopyOutRange k ?t (buffer q) = Some (take (unat d) (ring k (r_released q) (buffer q)))"
    using CopyOutRange_ring [OF k(1,2), of "unat d" ?t] d k(3) by simp
  then have "byte_Read k m q = Some (Returns (sint d) (take (unat d) (ring k (r_released q) (buffer q))), q\<lparr>r_released := r_released q + d\<rparr>)"
    using u by (auto simp: byte_Read_def WaitForDataLocked_def used_0 Let_def d_def)
  moreover have "take (unat d) (ring k (r_released q) (buffer q)) = take (unat m) (bytes_of k q)"
    by (simp add: bytes_of_def d min.commute)
  moreover have "drop (unat d) (bytes_of k q) = drop (unat m) (bytes_of k q)" using q by (simp add: d min_def)
  ultimately show "\<exists>q'. byte_Read k m q = Some (Returns (int (min (used q) (unat m))) (take (unat m) (bytes_of k q)), q')
      \<and> cq_ok k q' \<and> bytes_of k q' = drop (unat m) (bytes_of k q)"
    using read_content [OF q, of d] d k sint_bytes [OF k(1), of d] by auto
qed

text \<open>The calls as seen by the contract: what was put in or taken out by one round of a call. A copy outside the buffer has no
  result here either.\<close>

definition byte_put :: "nat \<Rightarrow> u8 list \<times> u32 \<times> bool \<Rightarrow> cqueue \<Rightarrow> (u8 list \<times> cqueue) option" where
  "byte_put k p q = (case p of (xs, b, nb) \<Rightarrow>
     (case byte_Write k xs b nb q of
        Some (Returns v (), q') \<Rightarrow> Some (if v < 0 then [] else take (nat v) xs, q')
      | Some (Waits, q') \<Rightarrow> Some ([], q')
      | None \<Rightarrow> None))"

definition byte_get :: "nat \<Rightarrow> u32 \<Rightarrow> cqueue \<Rightarrow> (u8 list \<times> cqueue) option" where
  "byte_get k m q =
     (case byte_Read k m q of
        Some (Returns v xs, q') \<Rightarrow> Some (xs, q')
      | Some (Waits, q') \<Rightarrow> Some ([], q')
      | None \<Rightarrow> None)"

definition byte_put_ok :: "u8 list \<times> u32 \<times> bool \<Rightarrow> bool" where
  "byte_put_ok p \<longleftrightarrow> unat (fst (snd p)) \<le> length (fst p)"

lemma byte_put_outcome:
  assumes "cq_ok k q" "byte_put_ok p"
  shows "\<exists>xs q'. byte_put k p q = Some (xs, q') \<and> cq_ok k q' \<and> bytes_of k q' = bytes_of k q @ xs"
proof -
  obtain xs b nb where p: "p = (xs, b, nb)" by (cases p)
  note o = byte_Write_outcome [OF assms(1), of b xs nb]
  consider "unat b > 2 ^ k" | "unat b \<le> 2 ^ k" "used q + unat b > 2 ^ k" | "used q + unat b \<le> 2 ^ k" by linarith
  then show ?thesis
  proof cases
    case 1
    then show ?thesis using o(1) assms by (simp add: p byte_put_def byte_put_ok_def ENOSPC_def)
  next
    case 2
    then show ?thesis using o(2) assms by (simp add: p byte_put_def byte_put_ok_def EWOULDBLOCK_def)
  next
    case 3
    then show ?thesis using o(3) assms by (auto simp: p byte_put_def byte_put_ok_def)
  qed
qed

lemma byte_get_outcome:
  assumes "cq_ok k q"
  shows "\<exists>ys q'. byte_get k m q = Some (ys, q') \<and> cq_ok k q' \<and> bytes_of k q = ys @ bytes_of k q'"
  using byte_Read_outcome [OF assms, of m] assms by (cases "used q = 0") (auto simp: byte_get_def)

interpretation bytes: fifo "cq_ok k" "bytes_of k" "byte_put k" "byte_get k" byte_put_ok for k
  using byte_put_outcome byte_get_outcome by unfold_locales blast+

section \<open>The packet queue\<close>

text \<open>A packet in the queue: its length, its bytes, and bytes without meaning up to the next multiple of four.\<close>

definition frame_size :: "nat \<Rightarrow> nat" where
  "frame_size n = round_up (4 + n) 4"

fun framed :: "u8 list list \<Rightarrow> u8 list \<Rightarrow> bool" where
  "framed [] bs \<longleftrightarrow> bs = []"
| "framed (p # ps) bs \<longleftrightarrow> length p < 2 ^ 32 \<and> frame_size (length p) \<le> length bs
     \<and> take (4 + length p) bs = le32 (of_nat (length p)) @ p \<and> framed ps (drop (frame_size (length p)) bs)"

function unframe :: "u8 list \<Rightarrow> u8 list list" where
  "unframe bs =
     (if bs = [] then []
      else let n = unat (of_le (take 4 bs) :: u32) in take n (drop 4 bs) # unframe (drop (frame_size n) bs))"
  by pat_completeness auto
termination
  using round_up_ge [of 4] by (relation "measure length") (auto simp: frame_size_def intro!: diff_less less_le_trans [OF _ round_up_ge])

declare unframe.simps [simp del]

lemma frame_size_ge: "4 + n \<le> frame_size n"
  by (simp add: frame_size_def round_up_ge)

lemma unframe_framed: "framed ps bs \<Longrightarrow> unframe bs = ps"
proof (induction ps arbitrary: bs)
  case Nil
  then show ?case by (simp add: unframe.simps)
next
  case (Cons p ps)
  have h: "take (4 + length p) bs = le32 (of_nat (length p)) @ p" "length p < 4294967296" using Cons.prems by auto
  have "take 4 bs = take 4 (take (4 + length p) bs)" by simp
  also have "\<dots> = le32 (of_nat (length p))" unfolding h(1) by simp
  finally have n: "unat (of_le (take 4 bs) :: u32) = length p" using h(2) by (simp add: unat_of_nat)
  have "take (length p) (drop 4 bs) = drop 4 (take (4 + length p) bs)" by (simp add: drop_take)
  then have "take (length p) (drop 4 bs) = p" unfolding h(1) by simp
  moreover have "bs \<noteq> []" using arg_cong [OF h(1), of length] by auto
  ultimately show ?case using Cons n by (simp add: unframe.simps [of bs])
qed

lemma framed_append:
  "framed ps bs \<Longrightarrow> framed [p] f \<Longrightarrow> framed (ps @ [p]) (bs @ f)"
proof (induction ps arbitrary: bs)
  case (Cons x ps)
  have "4 + length x \<le> length bs" using Cons.prems(1) frame_size_ge [of "length x"] by simp
  then show ?case using Cons by simp
qed simp

lemma unat_CalculateBufferedSize:
  assumes "k \<le> 30" "unat b \<le> 2 ^ k"
  shows "unat (CalculateBufferedSize b) = frame_size (unat b)"
proof -
  have "unat b \<le> 1073741824" using assms(2) buffer_less [OF assms(1)] by linarith
  then have "unat (4 + b) = 4 + unat b" by (subst unat_add_no_wrap) simp_all
  moreover have "CalculateBufferedSize b = ALIGN (4 + b) (2 ^ 2)"
    by (simp add: CalculateBufferedSize_def align4_def ALIGN_def align_mask_def)
  ultimately show ?thesis using unat_ALIGN [of 2 "4 + b"] \<open>unat b \<le> 1073741824\<close> by (simp add: frame_size_def)
qed

lemma frame_size_dvd [simp]: "4 dvd frame_size n"
  by (simp add: frame_size_def)

text \<open>Storing a piece of a packet, and all of them.\<close>

lemma CopyInRange_at:
  assumes k: "k \<le> 30" "length buf = 2 ^ k" and d: "unat d + unat n \<le> 2 ^ k" "length xs = unat n"
  shows "\<exists>buf'. CopyInRange k xs \<lparr>start_idx = w + d, end_idx = w + d + n\<rparr> buf = Some buf' \<and> length buf' = 2 ^ k
     \<and> ring k w buf' = take (unat d) (ring k w buf) @ xs @ drop (unat d + unat n) (ring k w buf)"
proof -
  let ?t = "\<lparr>start_idx = w + d, end_idx = w + d + n\<rparr>"
  obtain buf' where b: "CopyInRange k xs ?t buf = Some buf'" "length buf' = 2 ^ k"
      "ring k (w + d) buf' = xs @ drop (length xs) (ring k (w + d) buf)"
    using CopyInRange_ring [OF k, of "unat n" ?t xs] d by auto
  then show ?thesis using ring_overlay [OF k b(2), of d xs w] d by auto
qed

lemma copy_iov_ring:
  "length buf = 2 ^ k \<Longrightarrow> unat d + length (concat iov) \<le> 2 ^ k \<Longrightarrow> k \<le> 30 \<Longrightarrow>
   \<exists>buf'. copy_iov k iov (w + d) buf = Some buf' \<and> length buf' = 2 ^ k
     \<and> ring k w buf' = take (unat d) (ring k w buf) @ concat iov @ drop (unat d + length (concat iov)) (ring k w buf)"
proof (induction iov arbitrary: d buf)
  case (Cons x iov)
  let ?n = "of_nat (length x) :: u32"
  have le: "unat d + (length x + length (concat iov)) \<le> 2 ^ k" using Cons.prems(2) by simp
  have n: "unat ?n = length x" using le buffer_less [OF Cons.prems(3)] by (simp add: unat_of_nat)
  have d: "unat (d + ?n) = unat d + length x"
    using le Cons.prems(3) n by (intro unat_sum_no_wrap) auto
  obtain b1 where b1: "CopyInRange k x \<lparr>start_idx = w + d, end_idx = w + d + ?n\<rparr> buf = Some b1" "length b1 = 2 ^ k"
      "ring k w b1 = take (unat d) (ring k w buf) @ x @ drop (unat d + length x) (ring k w buf)"
    using CopyInRange_at [OF Cons.prems(3,1), of d ?n x w] le n by auto
  obtain b2 where b2: "copy_iov k iov (w + (d + ?n)) b1 = Some b2" "length b2 = 2 ^ k"
      "ring k w b2 = take (unat d + length x) (ring k w b1) @ concat iov @ drop (unat d + length x + length (concat iov)) (ring k w b1)"
    using Cons.IH [of b1 "d + ?n"] b1(2) Cons.prems(3) d le by auto
  have "take (unat d + length x) (ring k w b1) = take (unat d) (ring k w buf) @ x"
    "drop (unat d + length x + length (concat iov)) (ring k w b1) = drop (unat d + length x + length (concat iov)) (ring k w buf)"
    using b1(3) le Cons.prems(1) by (simp_all add: ac_simps)
  then show ?case using b1(1) b2 by (auto simp: Let_def add.assoc)
qed auto

definition packets_of :: "nat \<Rightarrow> cqueue \<Rightarrow> u8 list list" where
  "packets_of k q = unframe (bytes_of k q)"

text \<open>The queue of packets with its largest size; the source asserts that it fits the buffer.\<close>

definition pq_ok :: "nat \<Rightarrow> u32 \<Rightarrow> cqueue \<Rightarrow> bool" where
  "pq_ok k mx q \<longleftrightarrow> cq_ok k q \<and> 2 \<le> k \<and> unat mx \<le> 2 ^ k \<and> 4 dvd unat (r_released q) \<and> framed (packets_of k q) (bytes_of k q)"

lemma iov_bytes_concat: "iov_bytes iov = of_nat (length (concat iov))"
proof -
  have "foldl (\<lambda>bytes x. bytes + of_nat (length x)) c iov = c + of_nat (length (concat iov))" for c :: u32
    by (induction iov arbitrary: c) (auto simp: algebra_simps)
  then show ?thesis by (simp add: iov_bytes_def)
qed

lemma framed_packet:
  assumes "length p < 2 ^ 32" "length pad = frame_size (length p) - (4 + length p)"
  shows "framed [p] (le32 (of_nat (length p)) @ p @ pad)"
  using assms frame_size_ge [of "length p"] by simp

lemma packet_Writev_outcome:
  assumes q: "pq_ok k mx q" and p: "length (concat iov) < 2 ^ 32"
  shows "length (concat iov) > unat mx \<or> frame_size (length (concat iov)) > 2 ^ k \<Longrightarrow>
      packet_Writev k mx iov nb q = Some (Returns (- ENOSPC) (), q)"
    and "length (concat iov) \<le> unat mx \<Longrightarrow> frame_size (length (concat iov)) \<le> 2 ^ k \<Longrightarrow>
      used q + frame_size (length (concat iov)) > 2 ^ k \<Longrightarrow>
      packet_Writev k mx iov nb q = Some (if nb then Returns (- EWOULDBLOCK) () else Waits, q)"
    and "length (concat iov) \<le> unat mx \<Longrightarrow> used q + frame_size (length (concat iov)) \<le> 2 ^ k \<Longrightarrow>
      \<exists>q'. packet_Writev k mx iov nb q = Some (Returns (int (length (concat iov))) (), q')
        \<and> pq_ok k mx q' \<and> packets_of k q' = packets_of k q @ [concat iov]"
proof -
  let ?p = "concat iov" and ?b = "iov_bytes iov"
  have k: "k \<le> 30" "length (buffer q) = 2 ^ k" "cq_ok k q" "unat mx \<le> 2 ^ k" using q by (auto simp: pq_ok_def cq_ok_def)
  have b: "unat ?b = length ?p" using p by (simp add: iov_bytes_concat unat_of_nat)
  have B: "unat (CalculateBufferedSize ?b) = frame_size (length ?p)" if "length ?p \<le> unat mx"
    using unat_CalculateBufferedSize [OF k(1), of ?b] that k(4) b by simp
  note res = WriteReserveLocked_outcome [OF k(3), of "CalculateBufferedSize ?b"]
  show "length ?p > unat mx \<or> frame_size (length ?p) > 2 ^ k \<Longrightarrow> packet_Writev k mx iov nb q = Some (Returns (- ENOSPC) (), q)"
    using res(1) [of nb] B by (cases "length ?p > unat mx") (auto simp: packet_Writev_def word_less_nat_alt b ENOSPC_def)
  show "length ?p \<le> unat mx \<Longrightarrow> frame_size (length ?p) \<le> 2 ^ k \<Longrightarrow> used q + frame_size (length ?p) > 2 ^ k \<Longrightarrow>
      packet_Writev k mx iov nb q = Some (if nb then Returns (- EWOULDBLOCK) () else Waits, q)"
    using res(3) [of nb] B by (auto simp: packet_Writev_def word_less_nat_alt b EWOULDBLOCK_def split: if_splits)
  assume n: "length ?p \<le> unat mx" "used q + frame_size (length ?p) \<le> 2 ^ k"
  have f: "4 + length ?p \<le> frame_size (length ?p)" by (rule frame_size_ge)
  let ?R = "ring k (w_pub q)"
  obtain b1 where b1: "CopyInRange k (le32 ?b) \<lparr>start_idx = w_pub q, end_idx = w_pub q + 4\<rparr> (buffer q) = Some b1" "length b1 = 2 ^ k"
      "?R b1 = le32 ?b @ drop 4 (?R (buffer q))"
    using CopyInRange_at [OF k(1,2), of 0 4 "le32 ?b" "w_pub q"] n f by auto
  obtain b2 where b2: "copy_iov k iov (w_pub q + 4) b1 = Some b2" "length b2 = 2 ^ k"
      "?R b2 = take 4 (?R b1) @ ?p @ drop (4 + length ?p) (?R b1)"
    using copy_iov_ring [OF b1(2), of 4 iov "w_pub q"] n f k(1) by auto
  define pad where "pad = take (frame_size (length ?p) - (4 + length ?p)) (drop (4 + length ?p) (?R (buffer q)))"
  have R: "?R b2 = (le32 ?b @ ?p @ pad) @ drop (frame_size (length ?p)) (?R (buffer q))"
  proof -
    have "drop (frame_size (length ?p)) (?R (buffer q)) = drop (frame_size (length ?p) - (4 + length ?p)) (drop (4 + length ?p) (?R (buffer q)))"
      using f by simp
    then have "drop (4 + length ?p) (?R (buffer q)) = pad @ drop (frame_size (length ?p)) (?R (buffer q))"
      unfolding pad_def by (metis append_take_drop_id)
    then show ?thesis using b2(3) b1(3) by (simp add: add.commute)
  qed
  have pad: "length pad = frame_size (length ?p) - (4 + length ?p)" using n(2) k(2) by (simp add: pad_def)
  have len: "length (le32 ?b @ ?p @ pad) = frame_size (length ?p)" using pad f by simp
  let ?q = "q\<lparr>buffer := b2, w_pub := w_pub q + CalculateBufferedSize ?b\<rparr>"
  have w: "cq_ok k ?q" "bytes_of k ?q = bytes_of k q @ le32 ?b @ ?p @ pad"
    using write_content [OF k(3), of "CalculateBufferedSize ?b" b2 "le32 ?b @ ?p @ pad"] n B R len b2(2) by simp_all
  have "framed (packets_of k q @ [?p]) (bytes_of k ?q)"
    using framed_append [OF _ framed_packet [OF p pad]] q w(2) by (simp add: pq_ok_def iov_bytes_concat)
  moreover from this have "packets_of k ?q = packets_of k q @ [?p]" by (simp add: packets_of_def [of k ?q] unframe_framed)
  moreover have "packet_Writev k mx iov nb q = Some (Returns (int (length ?p)) (), ?q)"
    using res(2) [of nb] B n b1(1) b2(1) k sint_bytes [OF k(1), of ?b] by (simp add: packet_Writev_def Let_def word_less_nat_alt b)
  ultimately show "\<exists>q'. packet_Writev k mx iov nb q = Some (Returns (int (length ?p)) (), q')
        \<and> pq_ok k mx q' \<and> packets_of k q' = packets_of k q @ [?p]"
    using w(1) q by (auto simp: pq_ok_def)
qed

lemma multiple_gap: "(4::nat) dvd a \<Longrightarrow> 4 dvd b \<Longrightarrow> a < b \<Longrightarrow> a + 4 \<le> b"
  by (auto elim!: dvdE)

lemma packet_Read_outcome:
  assumes q: "pq_ok k mx q"
  shows "packets_of k q = [] \<Longrightarrow> packet_Read k m q = Some (Waits, q)"
    and "packets_of k q = p # ps \<Longrightarrow> length p > unat m \<Longrightarrow> packet_Read k m q = Some (Returns (- ENOSPC) [], q)"
    and "packets_of k q = p # ps \<Longrightarrow> length p \<le> unat m \<Longrightarrow>
      \<exists>q'. packet_Read k m q = Some (Returns (int (length p)) p, q') \<and> pq_ok k mx q' \<and> packets_of k q' = ps"
proof -
  have k: "k \<le> 30" "2 \<le> k" "length (buffer q) = 2 ^ k" "cq_ok k q" "used q \<le> 2 ^ k" "4 dvd unat (r_released q)"
    and fr: "framed (packets_of k q) (bytes_of k q)" using q by (auto simp: pq_ok_def cq_ok_def)
  show "packets_of k q = [] \<Longrightarrow> packet_Read k m q = Some (Waits, q)"
    using fr bytes_of_length [OF k(4)] by (auto simp: packet_Read_def WaitForDataLocked_def used_0)
  assume P: "packets_of k q = p # ps"
  let ?n = "of_nat (length p) :: u32" and ?R = "ring k (r_released q) (buffer q)"
  have p: "length p < 4294967296" "frame_size (length p) \<le> used q" "take (4 + length p) (bytes_of k q) = le32 ?n @ p"
      "framed ps (drop (frame_size (length p)) (bytes_of k q))"
    using fr P bytes_of_length [OF k(4)] by auto
  have f: "4 + length p \<le> frame_size (length p)" by (rule frame_size_ge)
  have n: "unat ?n = length p" using p(1) by (simp add: unat_of_nat)
  have R: "take (4 + length p) ?R = le32 ?n @ p" using p(2,3) f by (simp add: bytes_of_def min_def)
  have 4: "(4::nat) dvd 2 ^ k" using le_imp_power_dvd [OF k(2), of "2::nat"] by simp
  have i: "unat (r_released q) mod 2 ^ k + 4 \<le> 2 ^ k"
    using k(6) 4 by (intro multiple_gap dvd_mod) auto
  have "take 4 (drop (unat (r_released q) mod 2 ^ k) (buffer q)) = take 4 (take (4 + length p) ?R)"
    using i k(3) by (simp add: ring_split)
  also have "\<dots> = le32 ?n" unfolding R by simp
  finally have h: "read32 (buffer q) (unat (r_released q AND (BufferSize k - 1))) = Some ?n"
    using i k(1,3) by (simp add: read32_def unat_index)
  have w: "\<not> WaitForDataLocked q" using p(2) f by (auto simp: WaitForDataLocked_def used_0 [symmetric])
  show "length p > unat m \<Longrightarrow> packet_Read k m q = Some (Returns (- ENOSPC) [], q)"
    using h w n by (simp add: packet_Read_def word_less_nat_alt)
  assume m: "length p \<le> unat m"
  let ?t = "\<lparr>start_idx = r_released q + 4, end_idx = r_released q + 4 + ?n\<rparr>"
  have "CopyOutRange k ?t (buffer q) = Some (take (length p) (ring k (r_released q + 4) (buffer q)))"
    using CopyOutRange_ring [OF k(1,3), of "length p" ?t] n p(2) f k(5) by simp
  also have "take (length p) (ring k (r_released q + 4) (buffer q)) = drop 4 (take (4 + length p) ?R)"
    using ring_take_advance [OF k(1,3), of 4 "length p" "r_released q"] p(2) f k(5) by simp
  finally have c: "CopyOutRange k ?t (buffer q) = Some p" unfolding R by simp
  have le: "length p \<le> 2 ^ k" using p(2) f k(5) by linarith
  have B: "unat (CalculateBufferedSize ?n) = frame_size (length p)"
    using unat_CalculateBufferedSize [OF k(1), of ?n] n le by simp
  let ?q = "q\<lparr>r_released := r_released q + CalculateBufferedSize ?n\<rparr>"
  have r: "cq_ok k ?q" "bytes_of k ?q = drop (frame_size (length p)) (bytes_of k q)"
    using read_content [OF k(4), of "CalculateBufferedSize ?n"] B p(2) by simp_all
  have "packets_of k ?q = ps" using unframe_framed [OF p(4)] r(2) by (simp add: packets_of_def)
  moreover have "4 dvd unat (r_released ?q)" using k(6) B by (simp add: unat_word_ariths dvd_mod)
  moreover have "packet_Read k m q = Some (Returns (int (length p)) p, ?q)"
    using h w n m c sint_bytes [OF k(1), of ?n] le by (simp add: packet_Read_def word_less_nat_alt Let_def)
  ultimately show "\<exists>q'. packet_Read k m q = Some (Returns (int (length p)) p, q') \<and> pq_ok k mx q' \<and> packets_of k q' = ps"
    using q r p(4) by (auto simp: pq_ok_def)
qed

text \<open>The calls on packets as seen by the contract.\<close>

definition packet_put :: "nat \<Rightarrow> u32 \<Rightarrow> u8 list list \<times> bool \<Rightarrow> cqueue \<Rightarrow> (u8 list list \<times> cqueue) option" where
  "packet_put k mx p q = (case p of (iov, nb) \<Rightarrow>
     (case packet_Writev k mx iov nb q of
        Some (Returns v (), q') \<Rightarrow> Some (if v < 0 then [] else [concat iov], q')
      | Some (Waits, q') \<Rightarrow> Some ([], q')
      | None \<Rightarrow> None))"

definition packet_get :: "nat \<Rightarrow> u32 \<Rightarrow> cqueue \<Rightarrow> (u8 list list \<times> cqueue) option" where
  "packet_get k m q =
     (case packet_Read k m q of
        Some (Returns v xs, q') \<Rightarrow> Some (if v < 0 then [] else [xs], q')
      | Some (Waits, q') \<Rightarrow> Some ([], q')
      | None \<Rightarrow> None)"

definition packet_put_ok :: "u8 list list \<times> bool \<Rightarrow> bool" where
  "packet_put_ok p \<longleftrightarrow> length (concat (fst p)) < 2 ^ 32"

lemma packet_put_outcome:
  assumes "pq_ok k mx q" "packet_put_ok p"
  shows "\<exists>xs q'. packet_put k mx p q = Some (xs, q') \<and> pq_ok k mx q' \<and> packets_of k q' = packets_of k q @ xs"
proof -
  obtain iov nb where p: "p = (iov, nb)" by (cases p)
  let ?n = "length (concat iov)"
  have l: "?n < 2 ^ 32" using assms(2) by (simp add: p packet_put_ok_def)
  note o = packet_Writev_outcome [OF assms(1) l, of nb]
  consider "?n > unat mx \<or> frame_size ?n > 2 ^ k"
    | "?n \<le> unat mx" "frame_size ?n \<le> 2 ^ k" "used q + frame_size ?n > 2 ^ k"
    | "?n \<le> unat mx" "used q + frame_size ?n \<le> 2 ^ k" by linarith
  then show ?thesis
  proof cases
    case 1
    then show ?thesis using o(1) assms(1) by (simp add: p packet_put_def ENOSPC_def)
  next
    case 2
    then show ?thesis using o(2) assms(1) by (simp add: p packet_put_def EWOULDBLOCK_def)
  next
    case 3
    then show ?thesis using o(3) by (auto simp: p packet_put_def)
  qed
qed

lemma packet_get_outcome:
  assumes "pq_ok k mx q"
  shows "\<exists>ys q'. packet_get k m q = Some (ys, q') \<and> pq_ok k mx q' \<and> packets_of k q = ys @ packets_of k q'"
proof (cases "packets_of k q")
  case Nil
  then show ?thesis using packet_Read_outcome(1) [OF assms, of m] assms by (simp add: packet_get_def)
next
  case (Cons p ps)
  note o = packet_Read_outcome(2,3) [OF assms Cons, of m]
  show ?thesis
  proof (cases "length p > unat m")
    case True
    then show ?thesis using o(1) assms by (simp add: packet_get_def ENOSPC_def)
  next
    case False
    then show ?thesis using o(2) Cons by (auto simp: packet_get_def)
  qed
qed

interpretation packets: fifo "pq_ok k mx" "packets_of k" "packet_put k mx" "packet_get k" packet_put_ok for k mx
  using packet_put_outcome packet_get_outcome by unfold_locales blast+

section \<open>Properties\<close>

text \<open>C35. The byte queue is a stream. Every sequence of rounds of reading and writing calls, of any number of
  parties, runs to its end: no call copies outside the buffer. The bytes that were in the queue followed by all bytes accepted
  by writes are the bytes handed out by reads followed by those still in the queue, although both indices wrap around at
  \<open>2 ^ 32\<close> and ranges wrap around at the end of the buffer. In every state reached in this way a write is accepted exactly if there is room, is refused with
  \<^verbatim>\<open>ENOSPC\<close> above the size of the buffer, and else waits or returns \<^verbatim>\<open>EWOULDBLOCK\<close>; a read waits exactly if there is
  nothing to read, and otherwise returns as much as there is, up to its limit.\<close>

theorem circqueue_bytes_in_order:
  assumes "cq_ok k q" "puts_ok byte_put_ok cs" "unat b \<le> length xs"
  shows "\<exists>ins outs q'. fifo_run (byte_put k) (byte_get k) cs q = Some (ins, outs, q')
    \<and> cq_ok k q' \<and> bytes_of k q @ ins = outs @ bytes_of k q'
    \<and> (\<exists>q2. byte_Write k xs b nb q' = Some (if unat b > 2 ^ k then Returns (- ENOSPC) ()
         else if used q' + unat b > 2 ^ k then (if nb then Returns (- EWOULDBLOCK) () else Waits) else Returns (int (unat b)) (), q2)
         \<and> bytes_of k q2 = (if used q' + unat b > 2 ^ k then bytes_of k q' else bytes_of k q' @ take (unat b) xs))
    \<and> (\<exists>q2. byte_Read k m q' = Some (if bytes_of k q' = [] then Waits
         else Returns (int (min (length (bytes_of k q')) (unat m))) (take (unat m) (bytes_of k q')), q2))"
proof -
  obtain ins outs q' where q': "fifo_run (byte_put k) (byte_get k) cs q = Some (ins, outs, q')"
      "cq_ok k q'" "bytes_of k q @ ins = outs @ bytes_of k q'" using bytes.run_order [OF assms(1,2)] by auto
  have "bytes_of k q' = [] \<longleftrightarrow> used q' = 0" using bytes_of_length [OF q'(2)] by fastforce
  then have r: "\<exists>q2. byte_Read k m q' = Some (if bytes_of k q' = [] then Waits
         else Returns (int (min (length (bytes_of k q')) (unat m))) (take (unat m) (bytes_of k q')), q2)"
    using byte_Read_outcome [OF q'(2), of m] bytes_of_length [OF q'(2)] by auto
  note o = byte_Write_outcome [OF q'(2) assms(3), of nb]
  have w: "\<exists>q2. byte_Write k xs b nb q' = Some (if unat b > 2 ^ k then Returns (- ENOSPC) ()
         else if used q' + unat b > 2 ^ k then (if nb then Returns (- EWOULDBLOCK) () else Waits) else Returns (int (unat b)) (), q2)
         \<and> bytes_of k q2 = (if used q' + unat b > 2 ^ k then bytes_of k q' else bytes_of k q' @ take (unat b) xs)"
    using o by (cases "unat b > 2 ^ k"; cases "used q' + unat b > 2 ^ k") (auto simp: not_less)
  show ?thesis using q' r w by blast
qed

definition demo_queue :: cqueue where
  "demo_queue = \<lparr>r_released = 0xFFFFFFFE, w_pub = 0xFFFFFFFE, buffer = [0, 0, 0, 0]\<rparr>"

theorem circqueue_bytes_in_order_witness:
  "\<exists>q'. fifo_run (byte_put 2) (byte_get 2)
      [Put ([1, 2, 3], 3, False), Get 2, Put ([4, 5, 6], 3, True), Put ([7], 1, True), Get 9] demo_queue
      = Some ([1, 2, 3, 4, 5, 6], [1, 2, 3, 4, 5, 6], q') \<and> cq_ok 2 q' \<and> bytes_of 2 q' = []"
proof -
  let ?cs = "[Put ([1, 2, 3], 3, False), Get 2, Put ([4, 5, 6], 3, True), Put ([7], 1, True), Get 9]"
  have run: "fifo_run (byte_put 2) (byte_get 2) ?cs demo_queue
      = Some ([1, 2, 3, 4, 5, 6], [1, 2, 3, 4, 5, 6], \<lparr>r_released = 4, w_pub = 4, buffer = [3, 4, 5, 6]\<rparr>)"
    by code_simp
  have q: "cq_ok 2 demo_queue" by (simp add: cq_ok_def used_def demo_queue_def)
  show ?thesis using circqueue_bytes_in_order [OF q, of ?cs 0 "[]" False 0] unfolding run
    by (auto simp: byte_put_ok_def bytes_of_def used_def demo_queue_def)
qed

text \<open>C3. The packet queue keeps packets apart and in order. Every sequence of rounds of calls runs to its end: no call copies or reads
  outside the buffer. Every read that takes something returns one whole packet, exactly the bytes that one
  write put in, in pieces or at once, and the packets come out in the order of the writes. In every state reached in this way a packet for which there is
  room is accepted, and a read with a buffer large enough hands out the first packet.\<close>

theorem circqueue_packets_in_order:
  assumes "pq_ok k mx q" "puts_ok packet_put_ok cs"
  shows "\<exists>ins outs q'. fifo_run (packet_put k mx) (packet_get k) cs q = Some (ins, outs, q')
    \<and> pq_ok k mx q' \<and> packets_of k q @ ins = outs @ packets_of k q'
    \<and> (length (concat iov) \<le> unat mx \<and> used q' + frame_size (length (concat iov)) \<le> 2 ^ k \<longrightarrow>
         (\<exists>q2. packet_put k mx (iov, nb) q' = Some ([concat iov], q2) \<and> packets_of k q2 = packets_of k q' @ [concat iov]))
    \<and> (\<forall>p ps. packets_of k q' = p # ps \<and> length p \<le> unat m \<longrightarrow> (\<exists>q2. packet_get k m q' = Some ([p], q2) \<and> packets_of k q2 = ps))"
proof -
  obtain ins outs q' where q': "fifo_run (packet_put k mx) (packet_get k) cs q = Some (ins, outs, q')"
      "pq_ok k mx q'" "packets_of k q @ ins = outs @ packets_of k q'" using packets.run_order [OF assms] by blast
  have w: "\<exists>q2. packet_put k mx (iov, nb) q' = Some ([concat iov], q2) \<and> packets_of k q2 = packets_of k q' @ [concat iov]"
    if "length (concat iov) \<le> unat mx" "used q' + frame_size (length (concat iov)) \<le> 2 ^ k"
  proof -
    have "unat mx < 2 ^ LENGTH(32)" by (rule unsigned_less)
    then have "length (concat iov) < 2 ^ 32" using that(1) by simp
    then show ?thesis using packet_Writev_outcome(3) [OF q'(2), of iov nb] that by (auto simp: packet_put_def)
  qed
  have r: "\<exists>q2. packet_get k m q' = Some ([p], q2) \<and> packets_of k q2 = ps" if "packets_of k q' = p # ps" "length p \<le> unat m" for p ps
    using packet_Read_outcome(3) [OF q'(2) that] by (auto simp: packet_get_def)
  show ?thesis using q' w r by blast
qed

definition demo_packet_queue :: cqueue where
  "demo_packet_queue = \<lparr>r_released = 0xFFFFFFF8, w_pub = 0xFFFFFFF8, buffer = replicate 16 0\<rparr>"

lemma demo_packet_queue_ok: "pq_ok 4 8 demo_packet_queue" "packets_of 4 demo_packet_queue = []"
  by (simp_all add: pq_ok_def cq_ok_def used_def packets_of_def bytes_of_def unframe.simps demo_packet_queue_def)

theorem circqueue_packets_in_order_witness:
  "\<exists>q'. fifo_run (packet_put 4 8) (packet_get 4)
      [Put ([[1, 2], [3]], False), Put ([[4], [5, 6, 7, 8]], False), Get 8, Put ([[4], [5, 6, 7, 8]], True), Get 2, Get 8] demo_packet_queue
      = Some ([[1, 2, 3], [4, 5, 6, 7, 8]], [[1, 2, 3], [4, 5, 6, 7, 8]], q') \<and> pq_ok 4 8 q' \<and> packets_of 4 q' = []"
proof -
  let ?cs = "[Put ([[1, 2], [3]], False), Put ([[4], [5, 6, 7, 8]], False), Get 8, Put ([[4], [5, 6, 7, 8]], True), Get 2, Get 8]"
  let ?q = "\<lparr>r_released = 12, w_pub = 12, buffer = [5, 0, 0, 0, 4, 5, 6, 7, 8, 0, 0, 0, 1, 2, 3, 0]\<rparr>"
  have run: "fifo_run (packet_put 4 8) (packet_get 4) ?cs demo_packet_queue
      = Some ([[1, 2, 3], [4, 5, 6, 7, 8]], [[1, 2, 3], [4, 5, 6, 7, 8]], ?q)"
    by code_simp
  have "puts_ok packet_put_ok ?cs" by (simp add: packet_put_ok_def)
  from circqueue_packets_in_order [OF demo_packet_queue_ok(1) this] show ?thesis
    unfolding run using demo_packet_queue_ok(2) by auto
qed

text \<open>C36. What each call on packets returns, for every state the queue can be in. A write is refused with \<^verbatim>\<open>ENOSPC\<close> exactly if the
  packet is above the largest size or with its header does not fit the buffer at all; if only the room is
  missing it waits, or returns \<^verbatim>\<open>EWOULDBLOCK\<close> when it must not wait; otherwise it returns the length. A read waits while the queue is
  empty, refuses a packet larger than the caller's buffer and leaves it in place, and otherwise returns it. Every refused or
  waiting call leaves the queue as it was.\<close>

theorem circqueue_packet_calls:
  assumes q: "pq_ok k mx q" and p: "length p < 2 ^ 32"
  shows "(\<exists>q'. packet_Write k mx p nb q =
      Some (if length p > unat mx \<or> frame_size (length p) > 2 ^ k then (Returns (- ENOSPC) (), q)
            else if used q + frame_size (length p) > 2 ^ k then (if nb then Returns (- EWOULDBLOCK) () else Waits, q)
            else (Returns (int (length p)) (), q'))
      \<and> (length p \<le> unat mx \<and> used q + frame_size (length p) \<le> 2 ^ k \<longrightarrow> packets_of k q' = packets_of k q @ [p]))
    \<and> (\<exists>q'. packet_Read k m q =
      Some (case packets_of k q of
              [] \<Rightarrow> (Waits, q)
            | x # xs \<Rightarrow> if length x > unat m then (Returns (- ENOSPC) [], q) else (Returns (int (length x)) x, q'))
      \<and> (packets_of k q \<noteq> [] \<and> length (hd (packets_of k q)) \<le> unat m \<longrightarrow> packets_of k q' = tl (packets_of k q)))"
proof -
  note w = packet_Writev_outcome [OF q, of "[p]" nb]
  have "\<exists>q'. packet_Write k mx p nb q =
      Some (if length p > unat mx \<or> frame_size (length p) > 2 ^ k then (Returns (- ENOSPC) (), q)
            else if used q + frame_size (length p) > 2 ^ k then (if nb then Returns (- EWOULDBLOCK) () else Waits, q)
            else (Returns (int (length p)) (), q'))
      \<and> (length p \<le> unat mx \<and> used q + frame_size (length p) \<le> 2 ^ k \<longrightarrow> packets_of k q' = packets_of k q @ [p])"
    using w p by (cases "length p > unat mx \<or> frame_size (length p) > 2 ^ k"; cases "used q + frame_size (length p) > 2 ^ k")
      (auto simp: packet_Write_def not_less)
  moreover have "\<exists>q'. packet_Read k m q =
      Some (case packets_of k q of
              [] \<Rightarrow> (Waits, q)
            | x # xs \<Rightarrow> if length x > unat m then (Returns (- ENOSPC) [], q) else (Returns (int (length x)) x, q'))
      \<and> (packets_of k q \<noteq> [] \<and> length (hd (packets_of k q)) \<le> unat m \<longrightarrow> packets_of k q' = tl (packets_of k q))"
  proof (cases "packets_of k q")
    case Nil
    then show ?thesis using packet_Read_outcome(1) [OF q] by simp
  next
    case (Cons x xs)
    then show ?thesis using packet_Read_outcome(2,3) [OF q Cons, of m] by (cases "length x > unat m") (auto simp: not_less)
  qed
  ultimately show ?thesis by blast
qed

theorem circqueue_packet_calls_witness:
  "(\<exists>q'. packet_Write 4 8 [1, 2, 3, 4, 5] True demo_packet_queue = Some (Returns 5 (), q'))
    \<and> packet_Write 4 8 [1, 2, 3, 4, 5, 6, 7, 8, 9] True demo_packet_queue = Some (Returns (- ENOSPC) (), demo_packet_queue)
    \<and> packet_Read 4 8 demo_packet_queue = Some (Waits, demo_packet_queue)"
  using circqueue_packet_calls [OF demo_packet_queue_ok(1), of "[1, 2, 3, 4, 5]" True]
    circqueue_packet_calls [OF demo_packet_queue_ok(1), of "[1, 2, 3, 4, 5, 6, 7, 8, 9]" True 8] demo_packet_queue_ok(2)
  by (auto simp: frame_size_def round_up_def used_def demo_packet_queue_def)

end
