(* ===== verification/Vsoc_Signal.thy ===== *)
theory Vsoc_Signal
  imports Prelude
begin

text \<open>
  The signal tables of \<^verbatim>\<open>hals/camera/common/vsoc/lib/region_view.cpp\<close>. A side posts the offset of a futex word, with a flag that asks for the
  signal to come back, in an open-addressed table of \<open>2 ^ n\<close> words that the other side scans. One call of an operation runs at a time
  on a table here. \<open>None\<close> as a result is a call that probes for ever.
\<close>

section \<open>Posting a signal\<close>

definition UADDR_OFFSET_MASK :: u32 where "UADDR_OFFSET_MASK = 0xFFFFFFFC"
definition UADDR_OFFSET_ROUND_TRIP_FLAG :: u32 where "UADDR_OFFSET_ROUND_TRIP_FLAG = 1"

record signal_table =
  futex_uaddr :: "u32 list"
  interrupt_signalled :: bool

definition max_index :: "nat \<Rightarrow> u32" where
  "max_index n = push_bit n 1 - 1"

text \<open>The answer tells whether the peer is interrupted.\<close>

definition MaybeInterruptPeer :: "signal_table \<Rightarrow> bool \<times> signal_table" where
  "MaybeInterruptPeer tab = (\<not> interrupt_signalled tab, tab\<lparr>interrupt_signalled := True\<rparr>)"

text \<open>The loop of \<^verbatim>\<open>SendSignalToPeer\<close>: the new table of offsets, and whether the offset was stored in a free node.\<close>

partial_function (option) send_loop :: "nat \<Rightarrow> u32 \<Rightarrow> u32 \<Rightarrow> u32 list \<Rightarrow> (u32 list \<times> bool) option" where
  "send_loop n offset hash offsets =
     (let expected = offsets ! unat hash
      in if expected = 0 then Some (offsets[unat hash := offset], True)
         else if expected = offset then Some (offsets, False)
         else if expected AND UADDR_OFFSET_MASK \<noteq> offset AND UADDR_OFFSET_MASK
           then send_loop n offset ((hash + 1) AND max_index n) offsets
         else if expected AND UADDR_OFFSET_ROUND_TRIP_FLAG \<noteq> 0 then Some (offsets, False)
         else Some (offsets[unat hash := offset], False))"

datatype sent = Fatal_offset | Sent bool signal_table

definition SendSignalToPeer :: "nat \<Rightarrow> u32 \<Rightarrow> bool \<Rightarrow> signal_table \<Rightarrow> sent option" where
  "SendSignalToPeer n offset round_trip tab =
     (if offset AND NOT UADDR_OFFSET_MASK \<noteq> 0 then Some Fatal_offset
      else
        let hash = drop_bit 2 offset AND max_index n;
            flagged = (if round_trip then offset OR UADDR_OFFSET_ROUND_TRIP_FLAG else offset)
        in (case send_loop n flagged hash (futex_uaddr tab) of
              None \<Rightarrow> None
            | Some (offsets, stored) \<Rightarrow>
                let tab1 = tab\<lparr>futex_uaddr := offsets\<rparr>
                in Some (if stored then case_prod Sent (MaybeInterruptPeer tab1) else Sent False tab1)))"

section \<open>Scanning the table\<close>

text \<open>What the handler is called with, in order, the table after the scan, and the outgoing table.\<close>

fun scan :: "nat \<Rightarrow> u32 list \<Rightarrow> signal_table \<Rightarrow> (u32 list \<times> signal_table) option" where
  "scan n [] out = Some ([], out)"
| "scan n (raw_offset # rest) out =
     (if raw_offset = 0 then scan n rest out
      else
        let round_trip = raw_offset AND UADDR_OFFSET_ROUND_TRIP_FLAG \<noteq> 0; offset = raw_offset AND UADDR_OFFSET_MASK
        in (case (if round_trip then SendSignalToPeer n offset False out else Some (Sent False out)) of
              Some (Sent i out1) \<Rightarrow> map_option (\<lambda>(hs, out2). (offset # hs, out2)) (scan n rest out1)
            | _ \<Rightarrow> None))"

definition ProcessSignalsFromPeer_table :: "nat \<Rightarrow> signal_table \<Rightarrow> signal_table \<Rightarrow> (u32 list \<times> signal_table \<times> signal_table) option" where
  "ProcessSignalsFromPeer_table n tab out =
     (case scan n (futex_uaddr tab) out of
        None \<Rightarrow> None
      | Some (handled, out1) \<Rightarrow> Some (handled, tab\<lparr>futex_uaddr := map (\<lambda>_. 0) (futex_uaddr tab)\<rparr>, out1))"

section \<open>What is posted\<close>

text \<open>A signal for an offset is posted when some node has the offset, with the round-trip flag when some such node has it.\<close>

definition posted_in :: "u32 list \<Rightarrow> u32 \<Rightarrow> bool option" where
  "posted_in offsets off =
     (if \<exists>e\<in>set offsets. e \<noteq> 0 \<and> e AND UADDR_OFFSET_MASK = off
      then Some (\<exists>e\<in>set offsets. e \<noteq> 0 \<and> e AND UADDR_OFFSET_MASK = off \<and> e AND UADDR_OFFSET_ROUND_TRIP_FLAG \<noteq> 0) else None)"

definition post_signal :: "bool \<Rightarrow> bool option \<Rightarrow> bool option" where
  "post_signal round_trip old = Some (round_trip \<or> old = Some True)"

text \<open>An offset that can be posted: aligned and not zero.\<close>

definition offset_ok :: "u32 \<Rightarrow> bool" where
  "offset_ok off \<longleftrightarrow> off \<noteq> 0 \<and> off AND UADDR_OFFSET_MASK = off"

lemmas uaddr_consts = UADDR_OFFSET_MASK_def UADDR_OFFSET_ROUND_TRIP_FLAG_def

lemma uaddr_bits:
  assumes "off AND UADDR_OFFSET_MASK = off"
  shows "(off OR UADDR_OFFSET_ROUND_TRIP_FLAG) AND UADDR_OFFSET_MASK = off" "off AND UADDR_OFFSET_ROUND_TRIP_FLAG = 0"
    "(off OR UADDR_OFFSET_ROUND_TRIP_FLAG) AND UADDR_OFFSET_ROUND_TRIP_FLAG \<noteq> 0" "off AND NOT UADDR_OFFSET_MASK = 0"
proof -
  show "(off OR UADDR_OFFSET_ROUND_TRIP_FLAG) AND UADDR_OFFSET_MASK = off"
    using assms by (simp add: bit.conj_disj_distrib2 uaddr_consts)
  have "off AND UADDR_OFFSET_ROUND_TRIP_FLAG = off AND (UADDR_OFFSET_MASK AND UADDR_OFFSET_ROUND_TRIP_FLAG)"
    using assms by (metis and.assoc)
  then show z: "off AND UADDR_OFFSET_ROUND_TRIP_FLAG = 0" by (simp add: uaddr_consts)
  have "(off OR UADDR_OFFSET_ROUND_TRIP_FLAG) AND UADDR_OFFSET_ROUND_TRIP_FLAG = UADDR_OFFSET_ROUND_TRIP_FLAG"
    unfolding bit.conj_disj_distrib2 z by simp
  then show "(off OR UADDR_OFFSET_ROUND_TRIP_FLAG) AND UADDR_OFFSET_ROUND_TRIP_FLAG \<noteq> 0" by (simp add: uaddr_consts)
  have "off AND NOT UADDR_OFFSET_MASK = off AND (UADDR_OFFSET_MASK AND NOT UADDR_OFFSET_MASK)" using assms by (metis and.assoc)
  then show "off AND NOT UADDR_OFFSET_MASK = 0" by simp
qed

section \<open>The probes\<close>

definition hit :: "u32 \<Rightarrow> u32 \<Rightarrow> bool" where
  "hit off e \<longleftrightarrow> e = 0 \<or> e AND UADDR_OFFSET_MASK = off AND UADDR_OFFSET_MASK"

definition place :: "u32 \<Rightarrow> nat \<Rightarrow> u32 list \<Rightarrow> u32 list \<times> bool" where
  "place offset i offsets =
     (let e = offsets ! i
      in if e = 0 then (offsets[i := offset], True)
         else if e = offset \<or> e AND UADDR_OFFSET_ROUND_TRIP_FLAG \<noteq> 0 then (offsets, False)
         else (offsets[i := offset], False))"

lemma send_loop_hit: "hit offset (offsets ! unat hash) \<Longrightarrow> send_loop n offset hash offsets = Some (place offset (unat hash) offsets)"
  by (subst send_loop.simps) (auto simp: hit_def place_def Let_def)

lemma send_loop_next:
  "\<not> hit offset (offsets ! unat hash) \<Longrightarrow>
   send_loop n offset hash offsets = send_loop n offset ((hash + 1) AND max_index n) offsets"
  by (subst send_loop.simps) (auto simp: hit_def Let_def)

lemma unat_max_index: "n < 32 \<Longrightarrow> unat (h AND max_index n) = unat h mod 2 ^ n"
  by (simp add: max_index_def unat_and_low del: push_bit_of_1)

lemma unat_next: "n < 32 \<Longrightarrow> unat ((h + 1) AND max_index n) = (unat h + 1) mod 2 ^ n"
proof -
  assume n: "n < 32"
  have "unat ((h + 1) AND max_index n) = (unat h + 1) mod 2 ^ 32 mod 2 ^ n"
    using n by (simp add: unat_max_index unat_word_ariths)
  also have "\<dots> = (unat h + 1) mod 2 ^ n" using n by (intro mod_mod_cancel le_imp_power_dvd) simp
  finally show ?thesis .
qed

text \<open>A call that returns has found such a node.\<close>

lemma send_loop_returns_hit:
  assumes "send_loop n offset hash offsets = Some r" "n < 32" "unat hash < 2 ^ n"
  shows "\<exists>i<2 ^ n. hit offset (offsets ! i)"
proof -
  let ?P = "\<lambda>n offset hash offsets r. n < 32 \<longrightarrow> unat hash < 2 ^ n \<longrightarrow> (\<exists>i<2 ^ n. hit offset (offsets ! i))"
  have "?P n offset hash offsets r"
  proof (rule send_loop.raw_induct [where P = ?P, OF _ assms(1)], intro impI)
    fix sl n offset hash offsets r
    assume ih: "\<And>n offset hash offsets y. sl n offset hash offsets = Some y \<Longrightarrow> ?P n offset hash offsets y"
      and s: "(let expected = offsets ! unat hash
         in if expected = 0 then Some (offsets[unat hash := offset], True)
            else if expected = offset then Some (offsets, False)
            else if expected AND UADDR_OFFSET_MASK \<noteq> offset AND UADDR_OFFSET_MASK
              then sl n offset ((hash + 1) AND max_index n) offsets
            else if expected AND UADDR_OFFSET_ROUND_TRIP_FLAG \<noteq> 0 then Some (offsets, False)
            else Some (offsets[unat hash := offset], False)) = Some r"
      and n: "n < 32" "unat hash < 2 ^ n"
    show "\<exists>i<2 ^ n. hit offset (offsets ! i)"
    proof (cases "hit offset (offsets ! unat hash)")
      case False
      then have "sl n offset ((hash + 1) AND max_index n) offsets = Some r" using s by (auto simp: Let_def hit_def split: if_splits)
      then show ?thesis using ih n by (simp add: unat_max_index)
    qed (use n in blast)
  qed
  then show ?thesis using assms by blast
qed

text \<open>If there is one, the probes find one.\<close>

lemma send_loop_finds:
  "hit offset (offsets ! ((unat hash + d) mod 2 ^ n)) \<Longrightarrow> n < 32 \<Longrightarrow> unat hash < 2 ^ n \<Longrightarrow>
   \<exists>i<2 ^ n. hit offset (offsets ! i) \<and> send_loop n offset hash offsets = Some (place offset i offsets)"
proof (induction d arbitrary: hash)
  case 0
  then show ?case using send_loop_hit [of offset offsets hash n] by auto
next
  case (Suc d)
  show ?case
  proof (cases "hit offset (offsets ! unat hash)")
    case True
    then show ?thesis using send_loop_hit Suc.prems(3) by blast
  next
    case False
    let ?h = "(hash + 1) AND max_index n"
    have "(unat ?h + d) mod 2 ^ n = (unat hash + Suc d) mod 2 ^ n"
      using Suc.prems(2) by (simp add: unat_next) (metis add.commute add_Suc_right mod_add_left_eq)
    then show ?thesis using Suc.IH [of ?h] Suc.prems send_loop_next [OF False, of n] by (simp add: unat_next)
  qed
qed

lemma send_loop_total:
  assumes "i < 2 ^ n" "hit offset (offsets ! i)" "n < 32" "unat hash < 2 ^ n"
  shows "\<exists>i<2 ^ n. hit offset (offsets ! i) \<and> send_loop n offset hash offsets = Some (place offset i offsets)"
proof -
  have "(unat hash + (i + 2 ^ n - unat hash)) mod 2 ^ n = i" using assms(1,4) by simp
  then show ?thesis using send_loop_finds [of offset offsets hash "i + 2 ^ n - unat hash" n] assms by simp
qed

section \<open>What posting does\<close>

definition flagged :: "u32 \<Rightarrow> bool \<Rightarrow> u32" where
  "flagged off rt = (if rt then off OR UADDR_OFFSET_ROUND_TRIP_FLAG else off)"

lemma flagged_bits:
  assumes "offset_ok off"
  shows "flagged off rt \<noteq> 0" "flagged off rt AND UADDR_OFFSET_MASK = off" "flagged off rt AND UADDR_OFFSET_ROUND_TRIP_FLAG \<noteq> 0 \<longleftrightarrow> rt"
  using assms uaddr_bits [of off] by (auto simp: flagged_def offset_ok_def or_nonzero)

lemma ex_set_update:
  assumes "i < length xs"
  shows "(\<exists>e\<in>set (xs[i := a]). Q e) \<longleftrightarrow> Q a \<or> (\<exists>j<length xs. j \<noteq> i \<and> Q (xs ! j))"
    and "(\<exists>e\<in>set xs. Q e) \<longleftrightarrow> Q (xs ! i) \<or> (\<exists>j<length xs. j \<noteq> i \<and> Q (xs ! j))"
  using assms by (auto simp: in_set_conv_nth nth_list_update Bex_def)

lemma posted_in_update:
  assumes off: "offset_ok off" and i: "i < length offsets" "offsets ! i = 0 \<or> offsets ! i AND UADDR_OFFSET_MASK = off"
  shows "x \<noteq> off \<Longrightarrow> posted_in (offsets[i := flagged off rt]) x = posted_in offsets x"
    and "offsets ! i AND UADDR_OFFSET_ROUND_TRIP_FLAG = 0 \<Longrightarrow>
      posted_in (offsets[i := flagged off rt]) off = post_signal rt (posted_in offsets off)"
  using i(2) flagged_bits [OF off, of rt] unfolding posted_in_def ex_set_update [OF i(1)] by (auto simp: post_signal_def)

definition free_nodes :: "u32 list \<Rightarrow> nat" where
  "free_nodes offsets = length (filter (\<lambda>e. e = 0) offsets)"

lemma free_nodes_update: "free_nodes xs \<le> free_nodes (xs[i := a]) + 1"
proof (induction xs arbitrary: i)
  case (Cons x xs)
  then show ?case by (cases i) (auto simp: free_nodes_def)
qed (simp add: free_nodes_def)

text \<open>The place found in the table gets the offset, and nothing else changes.\<close>

lemma place_posts:
  assumes off: "offset_ok off" and i: "i < length offsets" and h: "hit (flagged off rt) (offsets ! i)"
    and p: "place (flagged off rt) i offsets = (offsets', stored)"
  shows "posted_in offsets' off = post_signal rt (posted_in offsets off)" "x \<noteq> off \<Longrightarrow> posted_in offsets' x = posted_in offsets x"
    "length offsets' = length offsets" "posted_in offsets off = None \<Longrightarrow> stored" "free_nodes offsets \<le> free_nodes offsets' + 1"
proof -
  let ?e = "offsets ! i"
  note f = flagged_bits [OF off, of rt]
  have e: "?e = 0 \<or> ?e AND UADDR_OFFSET_MASK = off" using h f(2) by (simp add: hit_def)
  have keep: "posted_in offsets off = post_signal rt (posted_in offsets off)"
    if "?e \<noteq> 0" "?e = flagged off rt \<or> ?e AND UADDR_OFFSET_ROUND_TRIP_FLAG \<noteq> 0"
    using that e f i unfolding posted_in_def ex_set_update(2) [OF i] by (auto simp: post_signal_def)
  show "posted_in offsets' off = post_signal rt (posted_in offsets off)"
    using p keep posted_in_update(2) [OF off i e, of rt] by (auto simp: place_def Let_def split: if_splits)
  show "x \<noteq> off \<Longrightarrow> posted_in offsets' x = posted_in offsets x"
    using p posted_in_update(1) [OF off i e, of x rt] by (auto simp: place_def Let_def split: if_splits)
  show "length offsets' = length offsets" using p by (auto simp: place_def Let_def split: if_splits)
  show "free_nodes offsets \<le> free_nodes offsets' + 1" using p free_nodes_update [of offsets i] by (auto simp: place_def Let_def split: if_splits)
  show "stored" if "posted_in offsets off = None"
    using p e i that by (auto simp: place_def Let_def posted_in_def split: if_splits)
qed

definition table_ok :: "nat \<Rightarrow> signal_table \<Rightarrow> bool" where
  "table_ok n tab \<longleftrightarrow> n < 32 \<and> length (futex_uaddr tab) = 2 ^ n"

abbreviation posted_at :: "signal_table \<Rightarrow> u32 \<Rightarrow> bool option" where
  "posted_at tab \<equiv> posted_in (futex_uaddr tab)"

text \<open>Whether a call returns, and what it does.\<close>

lemma SendSignalToPeer_returns:
  assumes tab: "table_ok n tab" and off: "offset_ok off"
  shows "SendSignalToPeer n off rt tab \<noteq> None \<longleftrightarrow> 0 \<in> set (futex_uaddr tab) \<or> posted_at tab off \<noteq> None"
proof -
  let ?h = "drop_bit 2 off AND max_index n" and ?os = "futex_uaddr tab"
  have n: "n < 32" "length ?os = 2 ^ n" using tab by (auto simp: table_ok_def)
  have h: "unat ?h < 2 ^ n" using n(1) by (simp add: unat_max_index)
  have "(\<exists>i<2 ^ n. hit (flagged off rt) (?os ! i)) \<longleftrightarrow> 0 \<in> set ?os \<or> posted_in ?os off \<noteq> None"
    using flagged_bits [OF off, of rt] n(2) by (auto simp: hit_def posted_in_def in_set_conv_nth Bex_def)
  moreover have "send_loop n (flagged off rt) ?h ?os \<noteq> None \<longleftrightarrow> (\<exists>i<2 ^ n. hit (flagged off rt) (?os ! i))"
    using send_loop_returns_hit [OF _ n(1) h] send_loop_total [OF _ _ n(1) h] by fastforce
  moreover have "SendSignalToPeer n off rt tab \<noteq> None \<longleftrightarrow> send_loop n (flagged off rt) ?h ?os \<noteq> None"
    using off uaddr_bits(4) [of off]
    by (auto simp: SendSignalToPeer_def Let_def flagged_def offset_ok_def split: option.splits prod.splits)
  ultimately show ?thesis by simp
qed

lemma SendSignalToPeer_posts:
  assumes tab: "table_ok n tab" and off: "offset_ok off" and s: "SendSignalToPeer n off rt tab = Some r"
  shows "\<exists>i tab'. r = Sent i tab' \<and> table_ok n tab' \<and> posted_at tab' off = post_signal rt (posted_at tab off)
    \<and> (\<forall>x. x \<noteq> off \<longrightarrow> posted_at tab' x = posted_at tab x) \<and> free_nodes (futex_uaddr tab) \<le> free_nodes (futex_uaddr tab') + 1
    \<and> (posted_at tab off = None \<longrightarrow> interrupt_signalled tab' \<and> (i \<longleftrightarrow> \<not> interrupt_signalled tab))"
proof -
  let ?h = "drop_bit 2 off AND max_index n" and ?os = "futex_uaddr tab"
  have n: "n < 32" "length ?os = 2 ^ n" using tab by (auto simp: table_ok_def)
  have h: "unat ?h < 2 ^ n" using n(1) by (simp add: unat_max_index)
  have a: "off AND NOT UADDR_OFFSET_MASK = 0" using off uaddr_bits(4) [of off] by (simp add: offset_ok_def)
  have s1: "SendSignalToPeer n off rt tab = (case send_loop n (flagged off rt) ?h ?os of None \<Rightarrow> None
      | Some (offsets, stored) \<Rightarrow> Some (if stored then case_prod Sent (MaybeInterruptPeer (tab\<lparr>futex_uaddr := offsets\<rparr>))
          else Sent False (tab\<lparr>futex_uaddr := offsets\<rparr>)))"
    using a by (simp add: SendSignalToPeer_def Let_def flagged_def split: option.split prod.split)
  obtain q where q: "send_loop n (flagged off rt) ?h ?os = Some q" using s s1 by (auto split: option.splits)
  obtain i where i: "i < 2 ^ n" "hit (flagged off rt) (?os ! i)" "q = place (flagged off rt) i ?os"
    using send_loop_returns_hit [OF q n(1) h] send_loop_total [OF _ _ n(1) h, of _ "flagged off rt" ?os] q by fastforce
  obtain os' stored where p: "place (flagged off rt) i ?os = (os', stored)" by fastforce
  note pp = place_posts [OF off _ i(2) p, unfolded n(2), OF i(1)]
  show ?thesis
  proof (cases stored)
    case True
    then have "r = Sent (\<not> interrupt_signalled tab) (tab\<lparr>futex_uaddr := os', interrupt_signalled := True\<rparr>)"
      using s s1 q i(3) p by (simp add: MaybeInterruptPeer_def)
    then show ?thesis using pp n by (simp add: table_ok_def)
  next
    case False
    then have "r = Sent False (tab\<lparr>futex_uaddr := os'\<rparr>)" "posted_at tab off \<noteq> None" using s s1 q i(3) p pp(4) by auto
    then show ?thesis using pp(1-3,5) n by (intro exI [of _ False] exI [of _ "tab\<lparr>futex_uaddr := os'\<rparr>"]) (auto simp: table_ok_def)
  qed
qed

section \<open>What a scan does\<close>

abbreviation trips :: "u32 list \<Rightarrow> u32 list" where
  "trips os \<equiv> filter (\<lambda>e. e \<noteq> 0 \<and> e AND UADDR_OFFSET_ROUND_TRIP_FLAG \<noteq> 0) os"

lemma free_node: "free_nodes os \<noteq> 0 \<longleftrightarrow> 0 \<in> set os"
  by (auto simp: free_nodes_def filter_empty_conv)

lemma posted_in_trip:
  "posted_in (e # os) x = Some True \<longleftrightarrow>
   e \<noteq> 0 \<and> e AND UADDR_OFFSET_ROUND_TRIP_FLAG \<noteq> 0 \<and> e AND UADDR_OFFSET_MASK = x \<or> posted_in os x = Some True"
  by (auto simp: posted_in_def)

lemma scan_spec:
  "table_ok n out \<Longrightarrow> \<forall>e\<in>set os. e \<noteq> 0 \<longrightarrow> offset_ok (e AND UADDR_OFFSET_MASK) \<Longrightarrow> length (trips os) \<le> free_nodes (futex_uaddr out) \<Longrightarrow>
   \<exists>out'. scan n os out = Some (map (\<lambda>e. e AND UADDR_OFFSET_MASK) (filter (\<lambda>e. e \<noteq> 0) os), out') \<and> table_ok n out'
     \<and> (\<forall>x. posted_at out' x = (if posted_in os x = Some True then post_signal False (posted_at out x) else posted_at out x))"
proof (induction os arbitrary: out)
  case (Cons e os)
  let ?off = "e AND UADDR_OFFSET_MASK"
  show ?case
  proof (cases "e \<noteq> 0 \<and> e AND UADDR_OFFSET_ROUND_TRIP_FLAG \<noteq> 0")
    case True
    have off: "offset_ok ?off" using Cons.prems(2) True by simp
    have "free_nodes (futex_uaddr out) \<noteq> 0" using Cons.prems(3) True by auto
    then obtain i out1 where o1: "SendSignalToPeer n ?off False out = Some (Sent i out1)" "table_ok n out1"
        "posted_at out1 ?off = post_signal False (posted_at out ?off)" "\<forall>x. x \<noteq> ?off \<longrightarrow> posted_at out1 x = posted_at out x"
        "free_nodes (futex_uaddr out) \<le> free_nodes (futex_uaddr out1) + 1"
      using SendSignalToPeer_returns [OF Cons.prems(1) off, of False] SendSignalToPeer_posts [OF Cons.prems(1) off, of False] free_node
      by (metis not_None_eq)
    obtain out' where o2: "scan n os out1 = Some (map (\<lambda>e. e AND UADDR_OFFSET_MASK) (filter (\<lambda>e. e \<noteq> 0) os), out')" "table_ok n out'"
        "\<forall>x. posted_at out' x = (if posted_in os x = Some True then post_signal False (posted_at out1 x) else posted_at out1 x)"
      using Cons.IH [OF o1(2)] Cons.prems(2,3) True o1(5) by auto
    have "posted_at out' x = (if posted_in (e # os) x = Some True then post_signal False (posted_at out x) else posted_at out x)" for x
      using o2(3) o1(3,4) True unfolding posted_in_trip by (cases "x = ?off") (auto simp: post_signal_def)
    then show ?thesis using o1(1) o2(1,2) True by simp
  next
    case False
    then have "posted_in (e # os) x = Some True \<longleftrightarrow> posted_in os x = Some True" for x unfolding posted_in_trip by blast
    then show ?thesis using Cons.IH [OF Cons.prems(1)] Cons.prems(2,3) False by (cases "e = 0") auto
  qed
qed (simp add: posted_in_def)

section \<open>Properties\<close>

text \<open>C37. Posting a signal. For an aligned offset the call returns exactly if the table has a free node or already holds the offset;
  in a table filled with other offsets it probes for ever. When it returns, the signal is posted, with the round-trip flag if it
  was asked for or had been set before, nothing else that is posted changes, and a signal that was not
  posted before makes the peer be interrupted unless an interrupt is already pending. An offset that is not a multiple of four is a fatal
  error.\<close>

theorem vsoc_signal_post:
  assumes "table_ok n tab"
  shows "(offset_ok off \<longrightarrow> (SendSignalToPeer n off rt tab \<noteq> None \<longleftrightarrow> 0 \<in> set (futex_uaddr tab) \<or> posted_at tab off \<noteq> None))
    \<and> (offset_ok off \<longrightarrow> (\<forall>r. SendSignalToPeer n off rt tab = Some r \<longrightarrow>
        (\<exists>i tab'. r = Sent i tab' \<and> table_ok n tab' \<and> posted_at tab' off = Some (rt \<or> posted_at tab off = Some True)
          \<and> (\<forall>x. x \<noteq> off \<longrightarrow> posted_at tab' x = posted_at tab x)
          \<and> (posted_at tab off = None \<longrightarrow> interrupt_signalled tab' \<and> (i \<longleftrightarrow> \<not> interrupt_signalled tab)))))
    \<and> (off AND 3 \<noteq> 0 \<longrightarrow> SendSignalToPeer n off rt tab = Some Fatal_offset)"
proof (intro conjI impI allI)
  show "SendSignalToPeer n off rt tab \<noteq> None \<longleftrightarrow> 0 \<in> set (futex_uaddr tab) \<or> posted_at tab off \<noteq> None" if "offset_ok off"
    by (rule SendSignalToPeer_returns [OF assms that])
  show "\<exists>i tab'. r = Sent i tab' \<and> table_ok n tab' \<and> posted_at tab' off = Some (rt \<or> posted_at tab off = Some True)
          \<and> (\<forall>x. x \<noteq> off \<longrightarrow> posted_at tab' x = posted_at tab x)
          \<and> (posted_at tab off = None \<longrightarrow> interrupt_signalled tab' \<and> (i \<longleftrightarrow> \<not> interrupt_signalled tab))"
    if o: "offset_ok off" "SendSignalToPeer n off rt tab = Some r" for r
  proof -
    from SendSignalToPeer_posts [OF assms o] obtain i tab' where
      *: "r = Sent i tab'" "table_ok n tab'" "posted_at tab' off = post_signal rt (posted_at tab off)"
        "\<forall>x. x \<noteq> off \<longrightarrow> posted_at tab' x = posted_at tab x"
        "posted_at tab off = None \<longrightarrow> interrupt_signalled tab' \<and> (i \<longleftrightarrow> \<not> interrupt_signalled tab)"
      by (elim exE conjE)
    show ?thesis by (rule exI [of _ i], rule exI [of _ tab']) (use * in \<open>simp add: post_signal_def\<close>)
  qed
  show "SendSignalToPeer n off rt tab = Some Fatal_offset" if "off AND 3 \<noteq> 0"
  proof -
    have "NOT UADDR_OFFSET_MASK = 3" by (simp add: UADDR_OFFSET_MASK_def)
    then show ?thesis using that by (simp add: SendSignalToPeer_def)
  qed
qed

theorem vsoc_signal_post_witness:
  "SendSignalToPeer 1 8 True \<lparr>futex_uaddr = [12, 0], interrupt_signalled = False\<rparr>
     = Some (Sent True \<lparr>futex_uaddr = [12, 9], interrupt_signalled = True\<rparr>)
   \<and> SendSignalToPeer 1 8 True \<lparr>futex_uaddr = [12, 16], interrupt_signalled = False\<rparr> = None
   \<and> posted_in [12, 9] 8 = Some True"
proof -
  let ?a = "\<lparr>futex_uaddr = [12, 0], interrupt_signalled = False\<rparr>" and ?b = "\<lparr>futex_uaddr = [12, 16], interrupt_signalled = False\<rparr>"
  have ok: "table_ok 1 ?a" "table_ok 1 ?b" "offset_ok 8" by (simp_all add: table_ok_def offset_ok_def uaddr_consts)
  have "SendSignalToPeer 1 8 True ?a = Some (Sent True \<lparr>futex_uaddr = [12, 9], interrupt_signalled = True\<rparr>)"
    by (simp add: SendSignalToPeer_def send_loop.simps max_index_def MaybeInterruptPeer_def uaddr_consts)
  moreover have "SendSignalToPeer 1 8 True ?b = None"
    using vsoc_signal_post [OF ok(2), of 8 True] ok(3) by (simp add: posted_in_def uaddr_consts)
  ultimately show ?thesis using vsoc_signal_post [OF ok(1), of 8 True] ok(3) by auto
qed

text \<open>Scanning the table. The handler is called with exactly the offsets that are posted, in the order of the nodes; afterwards the
  table is empty; and of the signals with the round-trip flag, and only of these, a signal without the flag is posted in the other table, which
  needs to have room for them.\<close>

theorem vsoc_signal_scan:
  assumes "table_ok n tab" "table_ok n out" "\<forall>e\<in>set (futex_uaddr tab). e \<noteq> 0 \<longrightarrow> offset_ok (e AND UADDR_OFFSET_MASK)"
    "length (filter (\<lambda>e. e AND UADDR_OFFSET_ROUND_TRIP_FLAG \<noteq> 0) (futex_uaddr tab)) \<le> free_nodes (futex_uaddr out)"
  shows "\<exists>handled tab' out'. ProcessSignalsFromPeer_table n tab out = Some (handled, tab', out')
    \<and> (\<forall>x. offset_ok x \<longrightarrow> (x \<in> set handled \<longleftrightarrow> posted_at tab x \<noteq> None)) \<and> (\<forall>x. posted_at tab' x = None)
    \<and> (\<forall>x. posted_at out' x = (if posted_at tab x = Some True then Some (posted_at out x = Some True) else posted_at out x))"
proof -
  let ?os = "futex_uaddr tab"
  have t: "trips ?os = filter (\<lambda>e. e AND UADDR_OFFSET_ROUND_TRIP_FLAG \<noteq> 0) ?os" by (rule filter_cong) auto
  obtain out' where o: "scan n ?os out = Some (map (\<lambda>e. e AND UADDR_OFFSET_MASK) (filter (\<lambda>e. e \<noteq> 0) ?os), out')"
      "\<forall>x. posted_at out' x = (if posted_in ?os x = Some True then post_signal False (posted_at out x) else posted_at out x)"
    using scan_spec [OF assms(2,3)] assms(4) t by auto
  have "posted_in (map (\<lambda>_. 0) ?os) x = None" for x by (simp add: posted_in_def)
  moreover have h: "x \<in> set (map (\<lambda>e. e AND UADDR_OFFSET_MASK) (filter (\<lambda>e. e \<noteq> 0) ?os)) \<longleftrightarrow> posted_at tab x \<noteq> None" for x
    by (auto simp: posted_in_def)
  ultimately show ?thesis using o unfolding ProcessSignalsFromPeer_table_def post_signal_def
    by (intro exI [of _ "map (\<lambda>e. e AND UADDR_OFFSET_MASK) (filter (\<lambda>e. e \<noteq> 0) ?os)"] exI [of _ "tab\<lparr>futex_uaddr := map (\<lambda>_. 0) ?os\<rparr>"]
        exI [of _ out'] conjI allI impI h) simp_all
qed

theorem vsoc_signal_scan_witness:
  "\<exists>handled tab' out'. ProcessSignalsFromPeer_table 1 \<lparr>futex_uaddr = [12, 9], interrupt_signalled = False\<rparr>
      \<lparr>futex_uaddr = [0, 0], interrupt_signalled = False\<rparr> = Some (handled, tab', out')
    \<and> 8 \<in> set handled \<and> 12 \<in> set handled \<and> posted_at out' 8 = Some False \<and> posted_at out' 12 = None"
proof -
  let ?t = "\<lparr>futex_uaddr = [12, 9], interrupt_signalled = False\<rparr>" and ?o = "\<lparr>futex_uaddr = [0, 0], interrupt_signalled = False\<rparr>"
  have ok: "table_ok 1 ?t" "table_ok 1 ?o" "offset_ok 8" "offset_ok 12" by (simp_all add: table_ok_def offset_ok_def uaddr_consts)
  have p: "posted_at ?t 8 = Some True" "posted_at ?t 12 = Some False" "posted_at ?o 8 = None" "posted_at ?o 12 = None"
    by (simp_all add: posted_in_def uaddr_consts)
  have "\<forall>e\<in>set (futex_uaddr ?t). e \<noteq> 0 \<longrightarrow> offset_ok (e AND UADDR_OFFSET_MASK)"
    "length (filter (\<lambda>e. e AND UADDR_OFFSET_ROUND_TRIP_FLAG \<noteq> 0) (futex_uaddr ?t)) \<le> free_nodes (futex_uaddr ?o)"
    by (simp_all add: offset_ok_def uaddr_consts free_nodes_def)
  from vsoc_signal_scan [OF ok(1,2) this] obtain h t u where
    r: "ProcessSignalsFromPeer_table 1 ?t ?o = Some (h, t, u)" "\<forall>x. offset_ok x \<longrightarrow> (x \<in> set h \<longleftrightarrow> posted_at ?t x \<noteq> None)"
      "\<forall>x. posted_at u x = (if posted_at ?t x = Some True then Some (posted_at ?o x = Some True) else posted_at ?o x)" by blast
  have "8 \<in> set h" "12 \<in> set h" "posted_at u 8 = Some False" "posted_at u 12 = None" using r(2,3) ok(3,4) p by auto
  then show ?thesis using r(1) by blast
qed

end
