(* ===== verification/Vsoc_Lock.thy ===== *)
theory Vsoc_Lock
  imports Vsoc_Signal
begin

text \<open>
  The locks of \<^verbatim>\<open>hals/camera/common/vsoc\<close> (\<^verbatim>\<open>lib/lock_common.cpp\<close>, \<^verbatim>\<open>shm/lock.h\<close>) that threads of the guest and of the host take in
  shared memory, with the signals of \<^verbatim>\<open>lib/region_view.cpp\<close> that wake them. Every atomic access to the lock word is one step
  of a thread, and the steps of all threads interleave in any order; a thread that waits on the futex may wake up at any time.
  A side may also be restarted: its threads vanish, and one new thread calls \<^verbatim>\<open>Recover\<close> before any other one
  runs.
\<close>

section \<open>The lock word\<close>

datatype side = Guest | Host

fun peer :: "side \<Rightarrow> side" where
  "peer Guest = Host"
| "peer Host = Guest"

text \<open>\<^verbatim>\<open>Sides\<close> is a bit field of a guest and a host bit, here the set of sides.\<close>

definition LockFree :: u32 where "LockFree = 0"
definition GuestWaitingFlag :: u32 where "GuestWaitingFlag = 0x40000000"
definition HostWaitingFlag :: u32 where "HostWaitingFlag = 0x80000000"
definition HostIsOwner :: u32 where "HostIsOwner = 0x20000000"
definition OwnerMask :: u32 where "OwnerMask = 0x3FFFFFFF"

fun OurWaitingFlag :: "side \<Rightarrow> u32" where
  "OurWaitingFlag Guest = GuestWaitingFlag"
| "OurWaitingFlag Host = HostWaitingFlag"

fun MakeOwnerTid :: "side \<Rightarrow> u32 \<Rightarrow> u32" where
  "MakeOwnerTid Host raw_tid = (raw_tid OR HostIsOwner) AND OwnerMask"
| "MakeOwnerTid Guest raw_tid = raw_tid AND (OwnerMask AND NOT HostIsOwner)"

definition waiting_sides :: "u32 \<Rightarrow> side set" where
  "waiting_sides state =
     (let f = state AND (GuestWaitingFlag OR HostWaitingFlag)
      in if f = 0 then {} else if f = GuestWaitingFlag then {Guest} else if f = HostWaitingFlag then {Host} else {Guest, Host})"

section \<open>The program of a thread\<close>

text \<open>
  Where a thread is: outside; in \<^verbatim>\<open>TryLock\<close> before the compare and exchange that takes the lock (\<^verbatim>\<open>expected\<close> is \<^verbatim>\<open>LockFree\<close> there)
  or the one that sets the waiting flag; before and in \<^verbatim>\<open>WaitForSignal\<close>; holding the lock; in \<^verbatim>\<open>UnlockCommon\<close> before
  the compare and exchange that frees the lock; before \<^verbatim>\<open>SendSignal\<close>; in \<^verbatim>\<open>Recover\<close>, before it reads the lock word, before the
  \<^verbatim>\<open>UnlockCommon\<close> it calls with the value it read, and in it; stopped by a fatal error.
\<close>

datatype pc =
    Idle
  | Take
  | Set_Flag u32
  | Wait u32
  | Sleeping u32
  | Holding
  | Unlocking u32
  | Signalling "side set"
  | Recovering
  | Rec_Start u32
  | Rec_Unlocking u32 u32
  | Fatal

type_synonym thread = "side \<times> u32"

definition owner :: "thread \<Rightarrow> u32" where
  "owner t = MakeOwnerTid (fst t) (snd t)"

text \<open>One pass of the outer loop of \<^verbatim>\<open>TryLock\<close> starts with the exchange of \<^verbatim>\<open>LockFree\<close> for the thread id.\<close>

definition try_take :: "thread \<Rightarrow> u32 \<Rightarrow> u32 \<times> pc" where
  "try_take t w =
     (if w = LockFree then (owner t, Holding)
      else if w AND OurWaitingFlag (fst t) \<noteq> 0 then (w, Wait w)
      else (w, Set_Flag w))"

text \<open>The inner loop: on success \<^verbatim>\<open>*expected_out\<close> is the value without the flag.\<close>

definition try_set_flag :: "thread \<Rightarrow> u32 \<Rightarrow> u32 \<Rightarrow> u32 \<times> pc" where
  "try_set_flag t expected w =
     (if w = expected then (expected OR OurWaitingFlag (fst t), Wait expected)
      else if w AND OurWaitingFlag (fst t) \<noteq> 0 then (w, Wait w)
      else if w = LockFree then (w, Take)
      else (w, Set_Flag w))"

definition unlock_start :: "u32 \<Rightarrow> u32 \<Rightarrow> (u32 \<Rightarrow> pc) \<Rightarrow> pc" where
  "unlock_start marked_tid w cont = (if (marked_tid XOR w) AND OwnerMask \<noteq> 0 then Fatal else cont w)"

definition unlock_exchange :: "u32 \<Rightarrow> u32 \<Rightarrow> u32 \<Rightarrow> (u32 \<Rightarrow> pc) \<Rightarrow> u32 \<times> pc" where
  "unlock_exchange marked_tid expected_state w cont =
     (if w = expected_state
      then (LockFree, if (expected_state XOR marked_tid) AND OwnerMask \<noteq> 0 then Fatal else Signalling (waiting_sides expected_state))
      else (w, cont w))"

definition Recover :: "side \<Rightarrow> u32 \<Rightarrow> pc" where
  "Recover s expected_state =
     (if expected_state = LockFree then Idle
      else if expected_state AND HostIsOwner \<noteq> (if s = Host then HostIsOwner else 0) then Idle
      else Rec_Start expected_state)"

text \<open>Recovery of a lock that only one side uses.\<close>

definition RecoverSingleSided :: "u32 \<Rightarrow> bool \<times> u32" where
  "RecoverSingleSided w = (w \<noteq> LockFree, LockFree)"

text \<open>A step of a thread on the lock word, where it has one; \<open>Holding\<close> ends when the thread calls \<^verbatim>\<open>Unlock\<close>.\<close>

fun thread_step :: "thread \<Rightarrow> u32 \<Rightarrow> pc \<Rightarrow> (u32 \<times> pc) option" where
  "thread_step t w Idle = Some (w, Take)"
| "thread_step t w Take = Some (try_take t w)"
| "thread_step t w (Set_Flag e) = Some (try_set_flag t e w)"
| "thread_step t w (Wait v) = Some (w, if w = v then Sleeping v else Take)"
| "thread_step t w (Sleeping v) = Some (w, Take)"
| "thread_step t w Holding = Some (w, unlock_start (owner t) w Unlocking)"
| "thread_step t w (Unlocking e) = Some (unlock_exchange (owner t) e w Unlocking)"
| "thread_step t w (Signalling S) = None"
| "thread_step t w Recovering = Some (w, Recover (fst t) w)"
| "thread_step t w (Rec_Start v) = Some (w, unlock_start (MakeOwnerTid (fst t) v) w (Rec_Unlocking v))"
| "thread_step t w (Rec_Unlocking v e) = Some (unlock_exchange (MakeOwnerTid (fst t) v) e w (Rec_Unlocking v))"
| "thread_step t w Fatal = None"

section \<open>Signals\<close>

text \<open>
  The state of all threads, and for each side what is posted for the lock word in the table the side scans, in
  the terms of \<open>posted_in\<close>: posting and scanning have the effects shown for the tables in \<open>Vsoc_Signal\<close>.
\<close>

record lock_state =
  word :: u32
  pcs :: "thread \<Rightarrow> pc"
  posted :: "side \<Rightarrow> bool option"

definition post_to_peer :: "side \<Rightarrow> bool \<Rightarrow> (side \<Rightarrow> bool option) \<Rightarrow> side \<Rightarrow> bool option" where
  "post_to_peer s round_trip p = p(peer s := post_signal round_trip (p (peer s)))"

text \<open>\<^verbatim>\<open>SignalSelf\<close> wakes every waiting thread of a side.\<close>

definition SignalSelf :: "side \<Rightarrow> (thread \<Rightarrow> pc) \<Rightarrow> thread \<Rightarrow> pc" where
  "SignalSelf s f t = (case f t of Sleeping v \<Rightarrow> if fst t = s then Take else Sleeping v | p \<Rightarrow> p)"

definition SendSignal :: "side \<Rightarrow> side set \<Rightarrow> lock_state \<Rightarrow> lock_state" where
  "SendSignal s sides_to_signal st =
     (if peer s \<in> sides_to_signal then st\<lparr>posted := post_to_peer s (s \<in> sides_to_signal) (posted st)\<rparr>
      else if s \<in> sides_to_signal then st\<lparr>pcs := SignalSelf s (pcs st)\<rparr>
      else st)"

text \<open>The worker of a side takes a posted signal from its table.\<close>

definition ProcessSignalsFromPeer :: "side \<Rightarrow> lock_state \<Rightarrow> lock_state" where
  "ProcessSignalsFromPeer s st =
     (case posted st s of
        None \<Rightarrow> st
      | Some round_trip \<Rightarrow>
          let st1 = st\<lparr>pcs := SignalSelf s (pcs st), posted := (posted st)(s := None)\<rparr>
          in if round_trip then st1\<lparr>posted := post_to_peer s False (posted st1)\<rparr> else st1)"

section \<open>All threads together\<close>

fun recovering :: "pc \<Rightarrow> bool" where
  "recovering Recovering = True"
| "recovering (Rec_Start v) = True"
| "recovering (Rec_Unlocking v e) = True"
| "recovering p = False"

text \<open>A thread may run unless another thread of its side is in \<^verbatim>\<open>Recover\<close>, which is the condition for calling it.\<close>

definition may_run :: "lock_state \<Rightarrow> thread \<Rightarrow> bool" where
  "may_run st t \<longleftrightarrow> (\<forall>u. fst u = fst t \<and> u \<noteq> t \<longrightarrow> \<not> recovering (pcs st u))"

definition set_pc :: "thread \<Rightarrow> pc \<Rightarrow> lock_state \<Rightarrow> lock_state" where
  "set_pc t p st = st\<lparr>pcs := (pcs st)(t := p)\<rparr>"

inductive lock_trans :: "thread set \<Rightarrow> bool \<Rightarrow> lock_state \<Rightarrow> lock_state \<Rightarrow> bool" for T restarts where
  access: "t \<in> T \<Longrightarrow> may_run st t \<Longrightarrow> thread_step t (word st) (pcs st t) = Some (w, p)
     \<Longrightarrow> lock_trans T restarts st (set_pc t p (st\<lparr>word := w\<rparr>))"
| signal: "t \<in> T \<Longrightarrow> may_run st t \<Longrightarrow> pcs st t = Signalling S
     \<Longrightarrow> lock_trans T restarts st (set_pc t Idle (SendSignal (fst t) S st))"
| worker: "lock_trans T restarts st (ProcessSignalsFromPeer s st)"
| restart: "restarts \<Longrightarrow> t \<in> T
     \<Longrightarrow> lock_trans T restarts st (st\<lparr>pcs := (\<lambda>u. if fst u = fst t then if u = t then Recovering else Idle else pcs st u)\<rparr>)"

definition lock_init :: lock_state where
  "lock_init = \<lparr>word = LockFree, pcs = (\<lambda>_. Idle), posted = (\<lambda>_. None)\<rparr>"

inductive lock_reach :: "thread set \<Rightarrow> bool \<Rightarrow> lock_state \<Rightarrow> bool" for T restarts where
  init: "lock_reach T restarts lock_init"
| step: "lock_reach T restarts st \<Longrightarrow> lock_trans T restarts st st' \<Longrightarrow> lock_reach T restarts st'"

text \<open>The thread ids are told apart by the lock word.\<close>

definition threads_ok :: "thread set \<Rightarrow> bool" where
  "threads_ok T \<longleftrightarrow> inj_on owner T \<and> (\<forall>t\<in>T. owner t \<noteq> 0)"

section \<open>Exclusion\<close>

text \<open>A thread owns the lock while it holds it and until it has freed it.\<close>

fun owns :: "pc \<Rightarrow> bool" where
  "owns Holding = True"
| "owns (Unlocking e) = True"
| "owns p = False"

text \<open>The word is owned by the side of a thread.\<close>

definition own_word :: "side \<Rightarrow> u32 \<Rightarrow> bool" where
  "own_word s w \<longleftrightarrow> w \<noteq> 0 \<and> w AND HostIsOwner = (if s = Host then HostIsOwner else 0)"

text \<open>What the place of a thread says of the lock word.\<close>

fun pc_ok :: "thread \<Rightarrow> u32 \<Rightarrow> pc \<Rightarrow> bool" where
  "pc_ok t w Holding = (w AND OwnerMask = owner t)"
| "pc_ok t w (Unlocking e) = (w AND OwnerMask = owner t \<and> e AND OwnerMask = owner t)"
| "pc_ok t w (Set_Flag e) = (e \<noteq> 0)"
| "pc_ok t w (Rec_Start v) = (own_word (fst t) w \<and> v AND OwnerMask = w AND OwnerMask)"
| "pc_ok t w (Rec_Unlocking v e) = (own_word (fst t) w \<and> v AND OwnerMask = w AND OwnerMask \<and> e AND OwnerMask = w AND OwnerMask)"
| "pc_ok t w Fatal = False"
| "pc_ok t w p = True"

definition pcs_ok :: "thread set \<Rightarrow> u32 \<Rightarrow> (thread \<Rightarrow> pc) \<Rightarrow> bool" where
  "pcs_ok T w f \<longleftrightarrow> (\<forall>t. pc_ok t w (f t)) \<and> (\<forall>t. t \<notin> T \<longrightarrow> f t = Idle)
     \<and> (\<forall>t u. recovering (f t) \<longrightarrow> fst u = fst t \<longrightarrow> u \<noteq> t \<longrightarrow> f u = Idle)
     \<and> (w \<noteq> 0 \<longrightarrow> w AND OwnerMask \<noteq> 0)"

definition lock_ok :: "thread set \<Rightarrow> lock_state \<Rightarrow> bool" where
  "lock_ok T st \<longleftrightarrow> pcs_ok T (word st) (pcs st)"

lemmas lock_consts = LockFree_def GuestWaitingFlag_def HostWaitingFlag_def HostIsOwner_def OwnerMask_def

lemma owner_mask [simp]: "owner t AND OwnerMask = owner t"
  by (cases "fst t") (simp_all add: owner_def lock_consts and.assoc)

lemma owner_side: "w AND OwnerMask = owner t \<Longrightarrow> w AND HostIsOwner = (if fst t = Host then HostIsOwner else 0)"
proof -
  assume w: "w AND OwnerMask = owner t"
  have "w AND HostIsOwner = (w AND OwnerMask) AND HostIsOwner" by (simp add: and.assoc lock_consts)
  also have "\<dots> = (if fst t = Host then HostIsOwner else 0)" unfolding w
    by (cases "fst t") (simp_all add: owner_def and.assoc lock_consts bit.conj_disj_distrib2)
  finally show ?thesis .
qed

lemma flag_owner [simp]: "(e OR OurWaitingFlag s) AND OwnerMask = e AND OwnerMask"
  by (cases s) (simp_all add: lock_consts bit.conj_disj_distrib2)

lemma flag_side [simp]: "(e OR OurWaitingFlag s) AND HostIsOwner = e AND HostIsOwner"
  by (cases s) (simp_all add: lock_consts bit.conj_disj_distrib2)

lemma xor_owner: "(a XOR b) AND OwnerMask \<noteq> 0 \<longleftrightarrow> a AND OwnerMask \<noteq> b AND OwnerMask"
proof -
  have "x XOR y = 0 \<longleftrightarrow> x = y" for x y :: u32 by (auto simp: bit_eq_iff bit_simps)
  then show ?thesis by (simp add: bit.conj_xor_distrib2)
qed

text \<open>The thread id that \<^verbatim>\<open>Recover\<close> hands to \<^verbatim>\<open>UnlockCommon\<close> has the owner of the word it was read from.\<close>

lemma recover_tid:
  assumes w: "own_word s w" and v: "v AND OwnerMask = w AND OwnerMask"
  shows "MakeOwnerTid s v AND OwnerMask = w AND OwnerMask"
proof (cases s)
  case Host
  have "MakeOwnerTid Host v AND OwnerMask = (v AND OwnerMask) OR HostIsOwner"
    by (simp add: and.assoc bit.conj_disj_distrib2 lock_consts)
  also have "\<dots> = (w AND OwnerMask) OR (w AND HostIsOwner)" using w v Host by (simp add: own_word_def)
  also have "\<dots> = w AND OwnerMask" by (simp add: lock_consts flip: bit.conj_disj_distrib)
  finally show ?thesis by (simp only: Host)
next
  case Guest
  have "MakeOwnerTid Guest v AND OwnerMask = (v AND OwnerMask) AND NOT HostIsOwner"
    by (simp add: and.assoc lock_consts)
  also have "\<dots> = (w AND OwnerMask) AND NOT HostIsOwner" by (simp only: v)
  also have "\<dots> = ((w AND OwnerMask) AND NOT HostIsOwner) OR (w AND HostIsOwner)" using w Guest by (simp add: own_word_def)
  also have "\<dots> = w AND OwnerMask" by (simp add: and.assoc lock_consts flip: bit.conj_disj_distrib)
  finally show ?thesis by (simp only: Guest)
qed

text \<open>Setting a flag keeps what the other threads know of the word.\<close>

lemma pc_ok_flag: "pc_ok u w p \<Longrightarrow> w \<noteq> 0 \<Longrightarrow> pc_ok u (w OR OurWaitingFlag s) p"
  by (cases p) (auto simp: own_word_def or_nonzero)

lemma pc_ok_owns: "pc_ok u w p \<Longrightarrow> owns p \<Longrightarrow> w AND OwnerMask = owner u"
  by (cases p) auto

lemma lock_okD:
  assumes "lock_ok T st"
  shows "pc_ok t (word st) (pcs st t)" "pcs st t \<noteq> Idle \<Longrightarrow> t \<in> T"
    "recovering (pcs st t) \<Longrightarrow> fst u = fst t \<Longrightarrow> u \<noteq> t \<Longrightarrow> pcs st u = Idle"
    "word st \<noteq> 0 \<Longrightarrow> word st AND OwnerMask \<noteq> 0"
  using assms unfolding lock_ok_def pcs_ok_def by blast+

text \<open>Two threads do not both own the lock, or own and recover it.\<close>

lemma one_owner:
  assumes T: "threads_ok T" and ok: "lock_ok T st"
    and t: "owns (pcs st t) \<or> (\<exists>v e. pcs st t = Rec_Unlocking v e)"
    and u: "owns (pcs st u) \<or> (\<exists>v e. pcs st u = Rec_Unlocking v e) \<or> (\<exists>v. pcs st u = Rec_Start v)"
  shows "t = u"
proof (rule ccontr)
  assume ne: "t \<noteq> u"
  have busy: "pcs st t \<noteq> Idle" "pcs st u \<noteq> Idle" using t u by auto
  have side: "word st AND HostIsOwner = (if fst x = Host then HostIsOwner else 0)"
    if "owns (pcs st x) \<or> (\<exists>v e. pcs st x = Rec_Unlocking v e) \<or> (\<exists>v. pcs st x = Rec_Start v)" for x
  proof (cases "owns (pcs st x)")
    case True
    then show ?thesis by (rule owner_side [OF pc_ok_owns [OF lock_okD(1) [OF ok]]])
  next
    case False
    then show ?thesis using that lock_okD(1) [OF ok, of x] by (auto simp: own_word_def)
  qed
  have "fst t = fst u" using side [of t] side [of u] t u by (cases "fst t"; cases "fst u") (auto simp: HostIsOwner_def)
  show False
  proof (cases "owns (pcs st t) \<and> owns (pcs st u)")
    case True
    then have "owner t = owner u" using pc_ok_owns lock_okD(1) [OF ok] by metis
    then show False using T lock_okD(2) [OF ok] busy ne unfolding threads_ok_def inj_on_def by blast
  next
    case False
    then have "recovering (pcs st t) \<or> recovering (pcs st u)" using t u by auto
    then show False using lock_okD(3) [OF ok] ne \<open>fst t = fst u\<close> busy by metis
  qed
qed

text \<open>How a step changes the word.\<close>

lemma word_change:
  assumes "thread_step t w p = Some (w', p')" "pc_ok t w p"
  shows "w' = w \<or> w = 0 \<and> w' = owner t \<or> w \<noteq> 0 \<and> w' = w OR OurWaitingFlag (fst t)
    \<or> w' = 0 \<and> (owns p \<or> (\<exists>v e. p = Rec_Unlocking v e))"
proof (cases p)
  case Take
  then show ?thesis using assms(1) by (simp add: try_take_def LockFree_def split: if_splits)
next
  case (Set_Flag e)
  then show ?thesis using assms by (simp add: try_set_flag_def split: if_splits)
next
  case (Unlocking e)
  then show ?thesis using assms(1) by (simp add: unlock_exchange_def LockFree_def split: if_splits)
next
  case (Rec_Unlocking v e)
  then show ?thesis using assms(1) by (simp add: unlock_exchange_def LockFree_def split: if_splits)
qed (use assms(1) in simp_all)

text \<open>A step of one thread: what it does to the word leaves the other threads right.\<close>

lemma others_ok:
  assumes T: "threads_ok T" and ok: "lock_ok T st" and t: "t \<in> T"
    and step: "thread_step t (word st) (pcs st t) = Some (w, p)" and u: "u \<noteq> t"
  shows "pc_ok u w (pcs st u)"
proof -
  have pu: "pc_ok u (word st) (pcs st u)" by (rule lock_okD(1) [OF ok])
  consider "w = word st" | "word st = 0" "w = owner t" | "word st \<noteq> 0" "w = word st OR OurWaitingFlag (fst t)"
    | "w = 0" "owns (pcs st t) \<or> (\<exists>v e. pcs st t = Rec_Unlocking v e)"
    using word_change [OF step lock_okD(1) [OF ok]] by blast
  then show ?thesis
  proof cases
    case 1
    then show ?thesis using pu by simp
  next
    case 2
    have "owner u \<noteq> 0 \<or> pcs st u = Idle" using T lock_okD(2) [OF ok, of u] by (fastforce simp: threads_ok_def)
    then have "\<not> owns (pcs st u)" using pc_ok_owns [OF pu] 2(1) by auto
    moreover have "\<not> (\<exists>v. pcs st u = Rec_Start v)" "\<not> (\<exists>v e. pcs st u = Rec_Unlocking v e)" using pu 2(1) by (auto simp: own_word_def)
    ultimately show ?thesis by (cases "pcs st u") (use pu in simp_all)
  next
    case 3
    then show ?thesis using pc_ok_flag [OF pu] by simp
  next
    case 4
    then have "\<not> owns (pcs st u)" "\<not> (\<exists>v. pcs st u = Rec_Start v)" "\<not> (\<exists>v e. pcs st u = Rec_Unlocking v e)"
      using one_owner [OF T ok, of t u] u by auto
    then show ?thesis by (cases "pcs st u") (use pu in simp_all)
  qed
qed

lemma self_ok:
  assumes ok: "pc_ok t w p" and step: "thread_step t w p = Some (w', p')"
  shows "pc_ok t w' p'"
proof (cases p)
  case (Set_Flag e)
  then show ?thesis using ok step by (auto simp: try_set_flag_def LockFree_def split: if_splits)
next
  case Holding
  then show ?thesis using ok step by (auto simp: unlock_start_def xor_owner split: if_splits)
next
  case (Unlocking e)
  then show ?thesis using ok step by (auto simp: unlock_exchange_def xor_owner split: if_splits)
next
  case Recovering
  then show ?thesis using step by (auto simp: Recover_def own_word_def LockFree_def split: if_splits)
next
  case (Rec_Start v)
  then have "MakeOwnerTid (fst t) v AND OwnerMask = w AND OwnerMask" using ok by (intro recover_tid) simp_all
  then show ?thesis using Rec_Start ok step by (simp add: unlock_start_def xor_owner) (clarsimp)
next
  case (Rec_Unlocking v e)
  then have "MakeOwnerTid (fst t) v AND OwnerMask = w AND OwnerMask" using ok by (intro recover_tid) simp_all
  then show ?thesis using Rec_Unlocking ok step by (cases "w = e") (simp_all add: unlock_exchange_def xor_owner, clarsimp+)
next
  case Take
  then show ?thesis using step by (auto simp: try_take_def LockFree_def split: if_splits)
next
  case (Wait v)
  then show ?thesis using step by (auto split: if_splits)
qed (use step in simp_all)

lemma step_word:
  assumes "threads_ok T" "t \<in> T" "pc_ok t w p" "thread_step t w p = Some (w', p')" "w \<noteq> 0 \<longrightarrow> w AND OwnerMask \<noteq> 0"
  shows "w' \<noteq> 0 \<longrightarrow> w' AND OwnerMask \<noteq> 0"
  using word_change [OF assms(4,3)] assms(1,2,5) by (auto simp: threads_ok_def)

lemma step_recovering: "thread_step t w p = Some (w', p') \<Longrightarrow> recovering p' \<Longrightarrow> recovering p"
  by (cases p) (auto simp: try_take_def try_set_flag_def unlock_start_def unlock_exchange_def split: if_splits)

lemma SignalSelf_ok: "pc_ok t w (f t) \<Longrightarrow> pc_ok t w (SignalSelf s f t)"
  by (cases "f t") (simp_all add: SignalSelf_def)

lemma SignalSelf_simps [simp]:
  "SignalSelf s f t = Idle \<longleftrightarrow> f t = Idle" "recovering (SignalSelf s f t) \<longleftrightarrow> recovering (f t)"
  "owns (SignalSelf s f t) \<longleftrightarrow> owns (f t)"
  by (cases "f t"; simp add: SignalSelf_def)+

text \<open>Waking threads of a side.\<close>

lemma lock_ok_pcs:
  assumes "lock_ok T st" "\<forall>t. pc_ok t (word st) (f t)" "\<forall>t. pcs st t = Idle \<longrightarrow> f t = Idle"
    "\<forall>t. recovering (f t) \<longrightarrow> recovering (pcs st t)"
  shows "lock_ok T (st\<lparr>pcs := f, posted := g\<rparr>)"
proof -
  have "pcs_ok T (word st) (pcs st) \<Longrightarrow> pcs_ok T (word st) f" unfolding pcs_ok_def using assms(2-4) by blast
  then show ?thesis using assms(1) by (simp add: lock_ok_def)
qed

lemma lock_trans_ok:
  assumes T: "threads_ok T" and ok: "lock_ok T st" and tr: "lock_trans T r st st'"
  shows "lock_ok T st'"
  using tr
proof cases
  case (access t w p)
  let ?st = "set_pc t p (st\<lparr>word := w\<rparr>)"
  have a: "pc_ok u w (pcs ?st u)" for u
    using others_ok [OF T ok access(2,4)] self_ok [OF lock_okD(1) [OF ok] access(4)] by (simp add: set_pc_def)
  have b: "u \<notin> T \<Longrightarrow> pcs ?st u = Idle" for u using lock_okD(2) [OF ok, of u] access(2) by (auto simp: set_pc_def)
  have c: "pcs ?st v = Idle" if "recovering (pcs ?st u)" "fst v = fst u" "v \<noteq> u" for u v
  proof (cases "u = t")
    case True
    then show ?thesis using that step_recovering [OF access(4)] lock_okD(3) [OF ok, of t v] by (simp add: set_pc_def)
  next
    case False
    then have u: "recovering (pcs st u)" using that(1) by (simp add: set_pc_def)
    then have "fst u \<noteq> fst t" using access(3) False unfolding may_run_def by blast
    then show ?thesis using u that(2,3) lock_okD(3) [OF ok, of u v] by (auto simp: set_pc_def)
  qed
  have d: "word ?st \<noteq> 0 \<longrightarrow> word ?st AND OwnerMask \<noteq> 0"
    using step_word [OF T access(2) lock_okD(1) [OF ok] access(4)] lock_okD(4) [OF ok] by (simp add: set_pc_def)
  have "pcs_ok T (word ?st) (pcs ?st)" unfolding pcs_ok_def using a b c d by (simp add: set_pc_def)
  then show ?thesis unfolding access(1) lock_ok_def .
next
  case (signal t S)
  let ?f = "(if peer (fst t) \<in> S then pcs st else if fst t \<in> S then SignalSelf (fst t) (pcs st) else pcs st)(t := Idle)"
  have "lock_ok T (st\<lparr>pcs := ?f, posted := posted st'\<rparr>)"
    using lock_okD(1) [OF ok] SignalSelf_ok by (intro lock_ok_pcs [OF ok]) (auto split: if_splits)
  moreover have "st' = st\<lparr>pcs := ?f, posted := posted st'\<rparr>" by (simp add: signal(1) SendSignal_def set_pc_def)
  ultimately show ?thesis by simp
next
  case (worker s)
  let ?f = "if posted st s = None then pcs st else SignalSelf s (pcs st)"
  have "lock_ok T (st\<lparr>pcs := ?f, posted := posted st'\<rparr>)"
    using lock_okD(1) [OF ok] SignalSelf_ok by (intro lock_ok_pcs [OF ok]) (auto split: if_splits)
  moreover have "st' = st\<lparr>pcs := ?f, posted := posted st'\<rparr>"
    by (auto simp: worker ProcessSignalsFromPeer_def Let_def split: option.split)
  ultimately show ?thesis by simp
next
  case (restart t)
  let ?f = "\<lambda>u. if fst u = fst t then if u = t then Recovering else Idle else pcs st u"
  have "pcs_ok T (word st) ?f" using ok restart(3) unfolding lock_ok_def pcs_ok_def
    by (cases t) (auto split: if_splits)
  then show ?thesis unfolding restart(1) lock_ok_def by simp
qed

lemma lock_reach_ok: "lock_reach T r st \<Longrightarrow> threads_ok T \<Longrightarrow> lock_ok T st"
proof (induction rule: lock_reach.induct)
  case init
  then show ?case by (simp add: lock_ok_def pcs_ok_def lock_init_def LockFree_def)
next
  case (step st st')
  then show ?case using lock_trans_ok by blast
qed

section \<open>Signals that are under way\<close>

text \<open>Some thread is about to signal a side, or a signal to it is posted, or one to the other side that will come back.\<close>

definition signal_due :: "lock_state \<Rightarrow> side \<Rightarrow> bool" where
  "signal_due st s \<longleftrightarrow> (\<exists>t S. pcs st t = Signalling S \<and> s \<in> S) \<or> posted st s \<noteq> None \<or> posted st (peer s) = Some True"

definition wake_ok :: "lock_state \<Rightarrow> bool" where
  "wake_ok st \<longleftrightarrow> (\<forall>t v. pcs st t = Sleeping v \<longrightarrow> v AND OurWaitingFlag (fst t) \<noteq> 0 \<longrightarrow>
     word st AND OurWaitingFlag (fst t) \<noteq> 0 \<or> signal_due st (fst t))"

lemma peer_peer [simp]: "peer (peer s) = s" "peer s \<noteq> s" "s \<noteq> peer s"
  by (cases s; simp)+

lemma other_side: "a \<noteq> b \<Longrightarrow> b = peer a"
  by (cases a; cases b) auto

lemma waiting_sides_flag: "s \<in> waiting_sides w \<longleftrightarrow> w AND OurWaitingFlag s \<noteq> 0"
proof -
  have "w AND 2 ^ n = (if bit w n then 2 ^ n else 0)" for n by (rule bit_word_eqI) (auto simp: bit_simps)
  from this [of 30] this [of 31]
  have b: "w AND 0x40000000 = (if bit w 30 then 0x40000000 else 0)" "w AND 0x80000000 = (if bit w 31 then 0x80000000 else 0)"
    by simp_all
  have "w AND (GuestWaitingFlag OR HostWaitingFlag) = (w AND GuestWaitingFlag) OR (w AND HostWaitingFlag)"
    by (rule bit.conj_disj_distrib)
  then show ?thesis by (cases s) (simp_all add: waiting_sides_def Let_def GuestWaitingFlag_def HostWaitingFlag_def b)
qed

lemma unlock_signals:
  assumes "thread_step t w p = Some (0, p')" "owns p \<or> (\<exists>v e. p = Rec_Unlocking v e)" "pc_ok t 0 p'" "w \<noteq> 0"
  shows "p' = Signalling (waiting_sides w)"
  using assms by (cases p) (auto simp: unlock_start_def unlock_exchange_def split: if_splits)

lemma access_wakes:
  assumes T: "threads_ok T" and ok: "lock_ok T st" and t: "t \<in> T"
    and step: "thread_step t (word st) (pcs st t) = Some (w, p)" and wake: "wake_ok st"
  shows "wake_ok (set_pc t p (st\<lparr>word := w\<rparr>))"
proof -
  let ?st = "set_pc t p (st\<lparr>word := w\<rparr>)"
  have due: "signal_due ?st s" if d: "signal_due st s" for s
  proof -
    have "\<forall>S. pcs st t \<noteq> Signalling S" using step by auto
    then have "pcs st u = Signalling S \<Longrightarrow> pcs ?st u = Signalling S" for u S by (auto simp: set_pc_def)
    moreover have "posted ?st = posted st" by (simp add: set_pc_def)
    ultimately show ?thesis using d unfolding signal_due_def by metis
  qed
  have self: "w AND OurWaitingFlag (fst t) \<noteq> 0" if "p = Sleeping v" "v AND OurWaitingFlag (fst t) \<noteq> 0" for v
    using that step by (cases "pcs st t") (auto simp: try_take_def try_set_flag_def unlock_start_def unlock_exchange_def Recover_def split: if_splits)
  have others: "w AND OurWaitingFlag s \<noteq> 0 \<or> signal_due ?st s" if f: "word st AND OurWaitingFlag s \<noteq> 0" for s
  proof -
    have wc: "w = word st \<or> word st \<noteq> 0 \<and> w = word st OR OurWaitingFlag (fst t)
        \<or> w = 0 \<and> (owns (pcs st t) \<or> (\<exists>v e. pcs st t = Rec_Unlocking v e))"
      using word_change [OF step lock_okD(1) [OF ok]] f by auto
    moreover have "signal_due ?st s" if "w = 0" "owns (pcs st t) \<or> (\<exists>v e. pcs st t = Rec_Unlocking v e)"
    proof -
      have "word st \<noteq> 0" using f by auto
      then have "p = Signalling (waiting_sides (word st))"
        using unlock_signals [of t "word st" "pcs st t" p] step self_ok [OF lock_okD(1) [OF ok] step] that by auto
      then have "pcs ?st t = Signalling (waiting_sides (word st))" "s \<in> waiting_sides (word st)"
        using f by (simp_all add: set_pc_def waiting_sides_flag)
      then show ?thesis unfolding signal_due_def by blast
    qed
    moreover have "(word st OR x) AND OurWaitingFlag s \<noteq> 0" for x using f by (simp add: bit.conj_disj_distrib2 or_nonzero)
    ultimately show ?thesis using f by auto
  qed
  show ?thesis unfolding wake_ok_def
  proof (intro allI impI)
    fix u v assume u: "pcs ?st u = Sleeping v" "v AND OurWaitingFlag (fst u) \<noteq> 0"
    show "word ?st AND OurWaitingFlag (fst u) \<noteq> 0 \<or> signal_due ?st (fst u)"
    proof (cases "u = t")
      case True
      then show ?thesis using self u by (simp add: set_pc_def)
    next
      case False
      then have "pcs st u = Sleeping v" using u(1) by (simp add: set_pc_def)
      then have "word st AND OurWaitingFlag (fst u) \<noteq> 0 \<or> signal_due st (fst u)" using u(2) wake unfolding wake_ok_def by blast
      then show ?thesis using others due by (auto simp: set_pc_def)
    qed
  qed
qed

lemma SignalSelf_Sleeping: "SignalSelf s f t = Sleeping v \<longleftrightarrow> f t = Sleeping v \<and> fst t \<noteq> s"
  and SignalSelf_Signalling [simp]: "SignalSelf s f t = Signalling S \<longleftrightarrow> f t = Signalling S"
  by (cases "f t"; auto simp: SignalSelf_def)+

lemma signal_wakes:
  assumes wake: "wake_ok st" and t: "pcs st t = Signalling S"
  shows "wake_ok (set_pc t Idle (SendSignal (fst t) S st))" (is "wake_ok ?st")
  unfolding wake_ok_def
proof (intro allI impI)
  fix u v assume u: "pcs ?st u = Sleeping v" "v AND OurWaitingFlag (fst u) \<noteq> 0"
  have w: "word ?st = word st" by (simp add: set_pc_def SendSignal_def)
  have old: "pcs st u = Sleeping v" "fst t \<in> S \<and> peer (fst t) \<notin> S \<longrightarrow> fst u \<noteq> fst t"
    using u(1) by (auto simp: set_pc_def SendSignal_def SignalSelf_Sleeping split: if_splits)
  have post: "posted st s \<noteq> None \<Longrightarrow> posted ?st s \<noteq> None" "posted st s = Some True \<Longrightarrow> posted ?st s = Some True" for s
    by (auto simp: set_pc_def SendSignal_def post_to_peer_def post_signal_def split: option.splits)
  have due: "signal_due ?st (fst u)" if d: "signal_due st (fst u)"
  proof (cases "\<exists>x X. x \<noteq> t \<and> pcs st x = Signalling X \<and> fst u \<in> X")
    case True
    then show ?thesis by (auto simp: signal_due_def set_pc_def SendSignal_def)
  next
    case False
    have "X = S" if "pcs st x = Signalling X" "fst u \<in> X" for x X using False that t by (metis pc.inject(5))
    then consider "fst u \<in> S" | "posted st (fst u) \<noteq> None" | "posted st (peer (fst u)) = Some True"
      using d unfolding signal_due_def by blast
    then show ?thesis
    proof cases
      case 1
      then show ?thesis using old(2) other_side [of "fst t" "fst u"]
        by (cases "fst u = fst t") (auto simp: signal_due_def set_pc_def SendSignal_def post_to_peer_def post_signal_def split: option.split)
    qed (use post in \<open>auto simp: signal_due_def\<close>)
  qed
  show "word ?st AND OurWaitingFlag (fst u) \<noteq> 0 \<or> signal_due ?st (fst u)"
    using wake old(1) u(2) due w unfolding wake_ok_def by metis
qed

lemma worker_wakes:
  assumes wake: "wake_ok st"
  shows "wake_ok (ProcessSignalsFromPeer s st)" (is "wake_ok ?st")
proof (cases "posted st s")
  case None
  then show ?thesis using wake by (simp add: ProcessSignalsFromPeer_def)
next
  case (Some rt)
  show ?thesis unfolding wake_ok_def
  proof (intro allI impI)
    fix u v assume u: "pcs ?st u = Sleeping v" "v AND OurWaitingFlag (fst u) \<noteq> 0"
    have p: "pcs ?st = SignalSelf s (pcs st)" "word ?st = word st" using Some by (simp_all add: ProcessSignalsFromPeer_def Let_def)
    have old: "pcs st u = Sleeping v" "fst u = peer s" using u(1) other_side [of s "fst u"] by (auto simp: p SignalSelf_Sleeping)
    have "posted ?st (peer s) \<noteq> None" if "rt \<or> posted st (peer s) \<noteq> None"
      using Some that by (auto simp: ProcessSignalsFromPeer_def Let_def post_to_peer_def post_signal_def split: option.split)
    then have "signal_due ?st (fst u)" if "signal_due st (fst u)"
      using that Some unfolding signal_due_def p(1) SignalSelf_Signalling old(2) by auto
    then show "word ?st AND OurWaitingFlag (fst u) \<noteq> 0 \<or> signal_due ?st (fst u)"
      using wake old(1) u(2) p(2) unfolding wake_ok_def by metis
  qed
qed

lemma lock_reach_wakes: "lock_reach T False st \<Longrightarrow> threads_ok T \<Longrightarrow> wake_ok st"
proof (induction rule: lock_reach.induct)
  case init
  then show ?case by (simp add: wake_ok_def lock_init_def)
next
  case (step st st')
  have ok: "lock_ok T st" using lock_reach_ok step.hyps(1) step.prems by blast
  from step.hyps(2) show ?case
  proof cases
    case (access t w p)
    then show ?thesis using access_wakes [OF step.prems ok] step.IH step.prems by blast
  next
    case (signal t S)
    then show ?thesis using signal_wakes step.IH step.prems by blast
  next
    case (worker s)
    then show ?thesis using worker_wakes step.IH step.prems by blast
  qed simp
qed

section \<open>The spin lock\<close>

text \<open>The lock of the queues: its word is the code of the side that holds it. \<^verbatim>\<open>Lock\<close> repeats the exchange until it succeeds.\<close>

fun side_code :: "side \<Rightarrow> u32" where
  "side_code Guest = 1"
| "side_code Host = 2"

definition spin_exchange :: "side \<Rightarrow> u32 \<Rightarrow> u32 option" where
  "spin_exchange s w = (if w = 0 then Some (side_code s) else None)"

definition spin_unlock :: "u32 \<Rightarrow> u32" where
  "spin_unlock w = 0"

definition spin_recover :: "side \<Rightarrow> u32 \<Rightarrow> bool \<times> u32" where
  "spin_recover s w = (if w = side_code s then (True, 0) else (False, w))"

text \<open>The word and the threads between \<^verbatim>\<open>Lock\<close> and \<^verbatim>\<open>Unlock\<close>; a restart of a side runs \<^verbatim>\<open>Recover\<close> before its new threads.\<close>

inductive spin_reach :: "u32 \<Rightarrow> thread set \<Rightarrow> bool" where
  spin_init: "spin_reach 0 {}"
| spin_enter: "spin_reach w I \<Longrightarrow> spin_exchange (fst t) w = Some w' \<Longrightarrow> spin_reach w' (insert t I)"
| spin_leave: "spin_reach w I \<Longrightarrow> t \<in> I \<Longrightarrow> spin_reach (spin_unlock w) (I - {t})"
| spin_restart: "spin_reach w I \<Longrightarrow> spin_reach (snd (spin_recover s w)) {t \<in> I. fst t \<noteq> s}"

lemma spin_lock_excludes: "spin_reach w I \<Longrightarrow> w = 0 \<and> I = {} \<or> (\<exists>t. I = {t} \<and> w = side_code (fst t))"
proof (induction rule: spin_reach.induct)
  case (spin_enter w I t w')
  have "side_code s \<noteq> 0" for s by (cases s) auto
  then show ?case using spin_enter by (auto simp: spin_exchange_def split: if_splits)
next
  case (spin_leave w I t)
  then show ?case by (auto simp: spin_unlock_def)
next
  case (spin_restart w I s)
  have c: "side_code x = side_code y \<longleftrightarrow> x = y" "side_code x \<noteq> 0" for x y by (cases x; cases y; simp)+
  from spin_restart.IH consider "w = 0" "I = {}" | t where "I = {t}" "w = side_code (fst t)" by blast
  then show ?case
  proof cases
    case 1
    then show ?thesis using c(2) [of s] by (simp add: spin_recover_def)
  next
    case (2 t)
    have "{x \<in> {t}. fst x \<noteq> s} = (if fst t = s then {} else {t})" by auto
    then show ?thesis using 2 c(1) [of "fst t" s] by (cases t) (simp add: spin_recover_def)
  qed
qed simp

section \<open>Properties\<close>

text \<open>C2. Mutual exclusion, under every interleaving of the atomic accesses of any number of guest and host threads, with spurious
  wake-ups and with restarts of a side: at most one thread holds the lock, from taking it to the exchange that frees
  it; while one does, the lock word names it; and neither of the fatal errors of \<^verbatim>\<open>UnlockCommon\<close> is ever reached. The
  threads only need ids that the lock word can tell apart.\<close>

theorem vsoc_lock_excludes:
  assumes "lock_reach T r st" "threads_ok T"
  shows "(\<forall>t u. owns (pcs st t) \<longrightarrow> owns (pcs st u) \<longrightarrow> t = u)
    \<and> (\<forall>t. owns (pcs st t) \<longrightarrow> word st AND OwnerMask = owner t) \<and> (\<forall>t. pcs st t \<noteq> Fatal)"
proof -
  have ok: "lock_ok T st" by (rule lock_reach_ok [OF assms])
  have "pcs st t \<noteq> Fatal" for t using lock_okD(1) [OF ok, of t] by auto
  then show ?thesis using one_owner [OF assms(2) ok] pc_ok_owns [OF lock_okD(1) [OF ok]] by blast
qed

definition demo_threads :: "thread set" where
  "demo_threads = {(Guest, 1), (Guest, 2), (Host, 1)}"

lemma demo_threads_ok: "threads_ok demo_threads"
  by (simp add: threads_ok_def demo_threads_def owner_def lock_consts)

text \<open>The steps of a list of threads one after the other, to reach concrete states.\<close>

definition run_thread :: "thread \<Rightarrow> lock_state \<Rightarrow> lock_state" where
  "run_thread t st =
     (case thread_step t (word st) (pcs st t) of
        Some (w, p) \<Rightarrow> set_pc t p (st\<lparr>word := w\<rparr>)
      | None \<Rightarrow> (case pcs st t of Signalling S \<Rightarrow> set_pc t Idle (SendSignal (fst t) S st) | _ \<Rightarrow> st))"

lemma SendSignal_recovering: "recovering (pcs (SendSignal s S st) u) \<longleftrightarrow> recovering (pcs st u)"
  by (simp add: SendSignal_def)

lemma run_thread_reach:
  assumes st: "lock_reach T r st" "\<forall>u. \<not> recovering (pcs st u)" and t: "t \<in> T"
  shows "lock_reach T r (run_thread t st) \<and> (\<forall>u. \<not> recovering (pcs (run_thread t st) u))"
proof (cases "thread_step t (word st) (pcs st t)")
  case None
  then show ?thesis
  proof (cases "\<exists>S. pcs st t = Signalling S")
    case True
    then obtain S where S: "pcs st t = Signalling S" by blast
    have "lock_trans T r st (run_thread t st)"
      using lock_trans.signal [OF t _ S, of r] st(2) S by (simp add: run_thread_def may_run_def)
    then show ?thesis using lock_reach.step [OF st(1)] st(2) S by (simp add: run_thread_def set_pc_def SendSignal_recovering)
  next
    case False
    then have "run_thread t st = st" using None by (auto simp: run_thread_def split: pc.split)
    then show ?thesis using st by simp
  qed
next
  case (Some wp)
  obtain w p where wp: "wp = (w, p)" by (cases wp)
  have "may_run st t" using st(2) unfolding may_run_def by blast
  then have "lock_reach T r (set_pc t p (st\<lparr>word := w\<rparr>))"
    using st(1) t Some wp by (intro lock_reach.step [OF _ lock_trans.access]) auto
  moreover have "\<not> recovering p" using st(2) step_recovering [of t "word st" "pcs st t" w p] Some wp by blast
  ultimately show ?thesis using st(2) Some wp by (simp add: run_thread_def set_pc_def)
qed

lemma run_threads_reach:
  "lock_reach T r st \<Longrightarrow> \<forall>u. \<not> recovering (pcs st u) \<Longrightarrow> set ts \<subseteq> T \<Longrightarrow>
   lock_reach T r (fold run_thread ts st) \<and> (\<forall>u. \<not> recovering (pcs (fold run_thread ts st) u))"
proof (induction ts arbitrary: st)
  case (Cons t ts)
  have "lock_reach T r (run_thread t st) \<and> (\<forall>u. \<not> recovering (pcs (run_thread t st) u))"
    using run_thread_reach [OF Cons.prems(1,2)] Cons.prems(3) by simp
  then show ?case using Cons.IH [of "run_thread t st"] Cons.prems(3) by simp
qed simp

lemma lock_demo_run: "set ts \<subseteq> demo_threads \<Longrightarrow> lock_reach demo_threads r (fold run_thread ts lock_init)"
  using run_threads_reach [OF lock_reach.init] by (auto simp: lock_init_def)

lemma run_thread_other: "u \<noteq> t \<Longrightarrow> pcs st u = Idle \<Longrightarrow> pcs (run_thread t st) u = Idle"
  by (simp add: run_thread_def set_pc_def SendSignal_def split: option.split pc.split prod.split)

lemma run_threads_other: "u \<notin> set ts \<Longrightarrow> pcs st u = Idle \<Longrightarrow> pcs (fold run_thread ts st) u = Idle"
  by (induction ts arbitrary: st) (simp_all add: run_thread_other)

text \<open>A guest thread takes the lock, the host thread finds it taken, sets its flag and waits.\<close>

theorem vsoc_lock_excludes_witness:
  "\<exists>st. lock_reach demo_threads True st \<and> pcs st (Guest, 1) = Holding \<and> pcs st (Host, 1) = Sleeping 0x80000001
     \<and> (\<forall>u. owns (pcs st u) \<longrightarrow> u = (Guest, 1)) \<and> word st AND OwnerMask = 1"
proof -
  let ?ts = "[(Guest, 1), (Guest, 1), (Host, 1), (Host, 1), (Host, 1), (Host, 1), (Host, 1), (Host, 1)]"
  let ?st = "fold run_thread ?ts lock_init"
  have r: "lock_reach demo_threads True ?st" by (rule lock_demo_run) (simp add: demo_threads_def)
  have p: "pcs ?st (Guest, 1) = Holding" "pcs ?st (Host, 1) = Sleeping 0x80000001" by code_simp+
  have o: "owns (pcs ?st (Guest, 1))" "owner (Guest, 1) = 1" using p(1) by (simp_all add: owner_def lock_consts)
  show ?thesis using vsoc_lock_excludes [OF r demo_threads_ok] r p o by metis
qed

text \<open>C38. As long as no side is restarted, no wake-up is lost for a thread that waits on a value of the word with the flag of its
  side: as long as it sleeps, either the flag is set, so that whoever frees the lock will signal the side, or a signal to the side is
  under way. In particular no such thread sleeps when the lock is free and nothing is under way, and then
  the word has no flags at all. With restarts this does not hold (\<open>vsoc_lock_restart_loses_wakeup\<close> below), nor for a thread that
  waits on a value without the flag (\<open>vsoc_lock_lost_wakeup\<close>).\<close>

theorem vsoc_lock_wakes:
  assumes "lock_reach T False st" "threads_ok T"
  shows "(\<forall>t v. pcs st t = Sleeping v \<and> v AND OurWaitingFlag (fst t) \<noteq> 0 \<longrightarrow>
      fst t \<in> waiting_sides (word st) \<or> signal_due st (fst t))
    \<and> (word st AND OwnerMask = 0 \<longrightarrow> waiting_sides (word st) = {})"
proof -
  have "wake_ok st" by (rule lock_reach_wakes [OF assms])
  moreover have "word st AND OwnerMask = 0 \<Longrightarrow> word st = 0" using lock_okD(4) [OF lock_reach_ok [OF assms]] by blast
  ultimately show ?thesis unfolding wake_ok_def waiting_sides_flag by (auto simp: waiting_sides_def)
qed

theorem vsoc_lock_wakes_witness:
  "\<exists>st. lock_reach demo_threads False st \<and> pcs st (Host, 1) = Sleeping 0x80000001
     \<and> (Host \<in> waiting_sides (word st) \<or> signal_due st Host)"
proof -
  let ?ts = "[(Guest, 1), (Guest, 1), (Host, 1), (Host, 1), (Host, 1), (Host, 1), (Host, 1), (Host, 1), (Guest, 1), (Guest, 1)]"
  let ?st = "fold run_thread ?ts lock_init"
  have r: "lock_reach demo_threads False ?st" by (rule lock_demo_run) (simp add: demo_threads_def)
  have p: "pcs ?st (Host, 1) = Sleeping 0x80000001" by code_simp
  have "(0x80000001 :: u32) AND OurWaitingFlag Host \<noteq> 0" by (simp add: lock_consts)
  then show ?thesis using vsoc_lock_wakes [OF r demo_threads_ok] r p by (metis fst_conv)
qed

text \<open>A thread that has just set the flag itself waits on the value without it. If meanwhile the lock is freed and taken again by
  the same thread, the word has that value once more, without a flag: the thread falls asleep, and the lock becomes free without
  a signal.\<close>

lemma vsoc_lock_lost_wakeup:
  "\<exists>st. lock_reach demo_threads False st \<and> pcs st (Guest, 1) = Sleeping 2 \<and> word st = LockFree
     \<and> (\<forall>u. u \<noteq> (Guest, 1) \<longrightarrow> pcs st u = Idle) \<and> (\<forall>s. \<not> signal_due st s)"
proof -
  let ?ts = "[(Guest, 2), (Guest, 2), (Guest, 1), (Guest, 1), (Guest, 1), (Guest, 2), (Guest, 2), (Guest, 2),
    (Guest, 2), (Guest, 2), (Guest, 1), (Guest, 2), (Guest, 2), (Guest, 2)] :: thread list"
  let ?st = "fold run_thread ?ts lock_init"
  have p: "pcs ?st (Guest, 1) = Sleeping 2" "pcs ?st (Guest, 2) = Idle" "word ?st = LockFree"
      "posted ?st Guest = None" "posted ?st Host = None" by code_simp+
  have i: "pcs ?st u = Idle" if "u \<noteq> (Guest, 1)" for u
  proof (cases "u = (Guest, 2)")
    case False
    then show ?thesis using that by (intro run_threads_other) (auto simp: lock_init_def)
  qed (use p(2) in simp)
  have "\<not> signal_due ?st s" for s
  proof -
    have "pcs ?st u \<noteq> Signalling S" for u S using i [of u] p(1) by (cases "u = (Guest, 1)") auto
    then show ?thesis using p(4,5) unfolding signal_due_def by (cases s) auto
  qed
  moreover have "lock_reach demo_threads False ?st" by (rule lock_demo_run) (simp add: demo_threads_def)
  ultimately show ?thesis using p i by blast
qed

text \<open>A side that is restarted after it has freed the lock and before it has sent the signal loses the wake-up: the new
  thread finds the lock free and recovers nothing, the flag is gone from the word, and the thread of the other side sleeps on.\<close>

lemma vsoc_lock_restart_loses_wakeup:
  "\<exists>st. lock_reach demo_threads True st \<and> pcs st (Host, 1) = Sleeping 0x80000001 \<and> word st = LockFree
     \<and> (\<forall>u. u \<noteq> (Host, 1) \<longrightarrow> pcs st u = Idle) \<and> (\<forall>s. \<not> signal_due st s)"
proof -
  let ?ts = "[(Guest, 1), (Guest, 1), (Host, 1), (Host, 1), (Host, 1), (Host, 1), (Host, 1), (Host, 1), (Guest, 1), (Guest, 1)] :: thread list"
  let ?t = "(Guest, 1) :: thread"
  define st where "st = fold run_thread ?ts lock_init"
  let ?st1 = "st\<lparr>pcs := (\<lambda>u. if fst u = fst ?t then if u = ?t then Recovering else Idle else pcs st u)\<rparr>"
  let ?st2 = "set_pc ?t Idle (?st1\<lparr>word := LockFree\<rparr>)"
  have T: "?t \<in> demo_threads" by (simp add: demo_threads_def)
  have p: "pcs st ?t = Signalling {Host}" "pcs st (Host, 1) = Sleeping 0x80000001" "word st = LockFree"
      "posted st Guest = None" "posted st Host = None" unfolding st_def by code_simp+
  have i: "pcs st u = Idle" if "u \<noteq> (Host, 1)" "u \<noteq> ?t" for u
    using that unfolding st_def by (intro run_threads_other) (auto simp: lock_init_def)
  have "lock_reach demo_threads True st" unfolding st_def by (rule lock_demo_run) (simp add: demo_threads_def)
  then have r1: "lock_reach demo_threads True ?st1" by (rule lock_reach.step [OF _ lock_trans.restart [OF TrueI T]])
  have "may_run ?st1 ?t" by (auto simp: may_run_def)
  moreover have "thread_step ?t (word ?st1) (pcs ?st1 ?t) = Some (LockFree, Idle)" by (simp add: p(3) Recover_def)
  ultimately have r2: "lock_reach demo_threads True ?st2" by (intro lock_reach.step [OF r1 lock_trans.access [OF T]])
  have idle: "pcs ?st2 u = Idle" if "u \<noteq> (Host, 1)" for u
    using i [OF that] by (cases "fst u") (auto simp: set_pc_def)
  have sleeps: "pcs ?st2 (Host, 1) = Sleeping 0x80000001" using p(2) by (simp add: set_pc_def)
  have "\<not> signal_due ?st2 s" for s
  proof -
    have "pcs ?st2 u \<noteq> Signalling S" for u S using idle [of u] sleeps by (cases "u = (Host, 1)") auto
    moreover have "posted ?st2 Guest = None" "posted ?st2 Host = None" using p(4,5) by (simp_all add: set_pc_def)
    ultimately show ?thesis unfolding signal_due_def by (cases s) auto
  qed
  then show ?thesis using r2 idle sleeps by (intro exI [of _ ?st2]) (auto simp: set_pc_def)
qed

end
