(* ===== verification/Bt_H4.thy ===== *)
theory Bt_H4
  imports Bt_Hci Net_Bytes
begin

text \<open>
  Packets of the Bluetooth HAL, \<^verbatim>\<open>hals/bluetooth\<close>: the reassembly of packets from the line (\<^verbatim>\<open>hci_packetizer.cc\<close>)
  and the H4 protocol (\<^verbatim>\<open>h4_protocol.cc\<close>). What a \<^verbatim>\<open>read\<close> brings is the input model of \<open>Bt_Hci\<close>. A failed
  \<^verbatim>\<open>CHECK\<close> ends the process; an access outside a buffer is \<open>Outside\<close>.
\<close>

section \<open>The packetizer\<close>

definition HCI_PACKET_TYPE_UNKNOWN :: u8 where "HCI_PACKET_TYPE_UNKNOWN = 0"
definition HCI_PACKET_TYPE_COMMAND :: u8 where "HCI_PACKET_TYPE_COMMAND = 1"
definition HCI_PACKET_TYPE_ACL_DATA :: u8 where "HCI_PACKET_TYPE_ACL_DATA = 2"
definition HCI_PACKET_TYPE_SCO_DATA :: u8 where "HCI_PACKET_TYPE_SCO_DATA = 3"
definition HCI_PACKET_TYPE_EVENT :: u8 where "HCI_PACKET_TYPE_EVENT = 4"

lemmas hci_types = HCI_PACKET_TYPE_UNKNOWN_def HCI_PACKET_TYPE_COMMAND_def HCI_PACKET_TYPE_ACL_DATA_def
  HCI_PACKET_TYPE_SCO_DATA_def HCI_PACKET_TYPE_EVENT_def

definition preamble_size_for_type :: "nat list" where
  "preamble_size_for_type = [0, 3, 4, 3, 2]"

definition packet_length_offset_for_type :: "nat list" where
  "packet_length_offset_for_type = [0, 2, 2, 2, 1]"

definition HciGetPacketLengthForType :: "u8 \<Rightarrow> u8 list \<Rightarrow> nat" where
  "HciGetPacketLengthForType ty preamble =
     (let offset = packet_length_offset_for_type ! unat ty
      in if ty \<noteq> HCI_PACKET_TYPE_ACL_DATA then unat (preamble ! offset)
         else unat (preamble ! (offset + 1)) * 256 + unat (preamble ! offset))"

datatype pkt_state = HCI_PREAMBLE | HCI_PAYLOAD

record packetizer =
  pk_state :: pkt_state
  pk_preamble :: "u8 list"
  pk_packet :: "u8 list"
  bytes_remaining :: u32
  bytes_read :: u32

text \<open>A new object; what its preamble holds at first does not matter.\<close>

definition packetizer_new :: packetizer where
  "packetizer_new = \<lparr>pk_state = HCI_PREAMBLE, pk_preamble = [0, 0, 0, 0], pk_packet = [], bytes_remaining = 0, bytes_read = 0\<rparr>"

datatype 'a outcome = Check_Failed | Outside | Done 'a

text \<open>The result of a \<^verbatim>\<open>read\<close> as a \<^verbatim>\<open>size_t\<close>, and its bytes stored in a buffer.\<close>

definition read_count :: "u8 list option \<Rightarrow> u32" where
  "read_count got = (case got of None \<Rightarrow> - 1 | Some bs \<Rightarrow> of_nat (length bs))"

definition read_at :: "u8 list \<Rightarrow> nat \<Rightarrow> u8 list option \<Rightarrow> u8 list option" where
  "read_at buf pos got = (case got of None \<Rightarrow> Some buf | Some bs \<Rightarrow> if bs = [] then Some buf else store buf pos bs)"

text \<open>\<^verbatim>\<open>resize\<close> keeps what there is; new bytes have no particular value.\<close>

definition vec_resize :: "u8 \<Rightarrow> nat \<Rightarrow> u8 list \<Rightarrow> u8 list" where
  "vec_resize junk n xs = take n xs @ replicate (n - length xs) junk"

text \<open>How many bytes the next \<^verbatim>\<open>read\<close> asks for.\<close>

definition asked :: "u8 \<Rightarrow> packetizer \<Rightarrow> u32" where
  "asked ty p = (case pk_state p of
     HCI_PREAMBLE \<Rightarrow> of_nat (preamble_size_for_type ! unat ty) - bytes_read p | HCI_PAYLOAD \<Rightarrow> bytes_remaining p)"

definition OnDataReady :: "u8 \<Rightarrow> u8 \<Rightarrow> u8 list option \<Rightarrow> packetizer \<Rightarrow> (packetizer \<times> u8 list list) outcome" where
  "OnDataReady junk ty got p =
     (if unat ty \<ge> 5 then Outside
      else
        let sz = preamble_size_for_type ! unat ty; n = read_count got
        in case pk_state p of
             HCI_PREAMBLE \<Rightarrow>
               (case read_at (pk_preamble p) (unat (bytes_read p)) got of
                  None \<Rightarrow> Outside
                | Some pre \<Rightarrow>
                    if n = 0 then Check_Failed
                    else if bytes_read p + n = of_nat sz then
                      let len = HciGetPacketLengthForType ty pre
                      in Done (p\<lparr>pk_preamble := pre, pk_packet := overlay 0 (take sz pre) (vec_resize junk (sz + len) (pk_packet p)),
                           bytes_remaining := of_nat len, pk_state := HCI_PAYLOAD, bytes_read := 0\<rparr>, [])
                    else Done (p\<lparr>pk_preamble := pre, bytes_read := bytes_read p + n\<rparr>, []))
           | HCI_PAYLOAD \<Rightarrow>
               (case read_at (pk_packet p) (sz + unat (bytes_read p)) got of
                  None \<Rightarrow> Outside
                | Some pk \<Rightarrow>
                    if n = 0 then Check_Failed
                    else
                      let p1 = p\<lparr>pk_packet := pk, bytes_remaining := bytes_remaining p - n, bytes_read := bytes_read p + n\<rparr>
                      in if bytes_remaining p1 = 0 then Done (p1\<lparr>pk_state := HCI_PREAMBLE, bytes_read := 0\<rparr>, [pk])
                         else Done (p1, [])))"

lemma OnDataReady_empty: "OnDataReady junk ty (Some []) p \<noteq> Done x"
  by (simp add: OnDataReady_def read_at_def read_count_def Let_def split: pkt_state.split)

lemma rx_read_none: "rx_read n rs = (None, rs') \<Longrightarrow> rx_size rs' < rx_size rs"
  by (cases "(n, rs)" rule: rx_read.cases) (auto split: if_splits)

lemma OnDataReady_progress:
  assumes "rx_read n rs = (got, rs')" and "OnDataReady junk ty got p = Done x"
  shows "rx_size rs' < rx_size rs"
proof -
  have "got \<noteq> Some []" using assms(2) OnDataReady_empty by metis
  then show ?thesis using assms(1) by (cases got) (blast dest: rx_read_size rx_read_none)+
qed

text \<open>Called again and again while there is input: the packets that were handed out.\<close>

function packetize :: "u8 \<Rightarrow> u8 \<Rightarrow> rx list \<Rightarrow> packetizer \<Rightarrow> (packetizer \<times> u8 list list) outcome" where
  "packetize junk ty rs p =
     (if rs = [] then Done (p, [])
      else (case rx_read (unat (asked ty p)) rs of (got, rs') \<Rightarrow>
        (case OnDataReady junk ty got p of
           Done (p1, out) \<Rightarrow> (case packetize junk ty rs' p1 of Done (p2, outs) \<Rightarrow> Done (p2, out @ outs) | e \<Rightarrow> e)
         | Check_Failed \<Rightarrow> Check_Failed
         | Outside \<Rightarrow> Outside)))"
  by pat_completeness auto
termination
  by (relation "measure (\<lambda>(junk, ty, rs, p). rx_size rs)") (auto dest: OnDataReady_progress [OF sym])

declare packetize.simps [simp del]

subsection \<open>Reassembly\<close>

definition preamble_size :: "u8 \<Rightarrow> nat" where
  "preamble_size ty = preamble_size_for_type ! unat ty"

text \<open>A packet of a type: its preamble, and as many bytes as its length field says.\<close>

definition packet_of_type :: "u8 \<Rightarrow> u8 list \<Rightarrow> bool" where
  "packet_of_type ty pk \<longleftrightarrow> preamble_size ty < length pk \<and> length pk = preamble_size ty + HciGetPacketLengthForType ty pk"

text \<open>What the packetizer has of a packet, how much, and that its counters agree.\<close>

definition holds_part :: "u8 \<Rightarrow> packetizer \<Rightarrow> u8 list \<Rightarrow> nat \<Rightarrow> bool" where
  "holds_part ty p pk k \<longleftrightarrow> length (pk_preamble p) = 4 \<and> k < length pk \<and>
     (case pk_state p of
        HCI_PREAMBLE \<Rightarrow> k < preamble_size ty \<and> bytes_read p = of_nat k \<and> take k (pk_preamble p) = take k pk
      | HCI_PAYLOAD \<Rightarrow> preamble_size ty \<le> k \<and> bytes_read p = of_nat (k - preamble_size ty) \<and>
          bytes_remaining p = of_nat (length pk - k) \<and> length (pk_packet p) = length pk \<and> take k (pk_packet p) = take k pk)"

definition at_start :: "packetizer \<Rightarrow> bool" where
  "at_start p \<longleftrightarrow> length (pk_preamble p) = 4 \<and> pk_state p = HCI_PREAMBLE \<and> bytes_read p = 0"

lemma type_cases:
  assumes "1 \<le> unat ty" and "unat ty \<le> 4"
  obtains "ty = 1" "preamble_size ty = 3" | "ty = 2" "preamble_size ty = 4" | "ty = 3" "preamble_size ty = 3"
    | "ty = 4" "preamble_size ty = 2"
proof -
  have "unat ty = 1 \<or> unat ty = 2 \<or> unat ty = 3 \<or> unat ty = 4" using assms by arith
  then have "ty = 1 \<or> ty = 2 \<or> ty = 3 \<or> ty = 4" by (simp add: word_unat_eq_iff)
  then show ?thesis using that by (auto simp: preamble_size_def preamble_size_for_type_def)
qed

lemma length_field_take:
  assumes "1 \<le> unat ty" and "unat ty \<le> 4" and "take (preamble_size ty) xs = take (preamble_size ty) ys"
  shows "HciGetPacketLengthForType ty xs = HciGetPacketLengthForType ty ys"
proof -
  have nth: "xs ! i = ys ! i" if "i < preamble_size ty" for i
    using assms(3) that by (metis nth_take)
  show ?thesis
    using assms(1,2)
    by (cases rule: type_cases)
       (simp_all add: HciGetPacketLengthForType_def packet_length_offset_for_type_def hci_types nth)
qed

lemma length_field_bound:
  "HciGetPacketLengthForType ty xs < 65536"
proof -
  have b: "unat (x :: u8) < 256" for x using unsigned_less [of x] by simp
  show ?thesis
    using b [of "xs ! (packet_length_offset_for_type ! unat ty)"] b [of "xs ! (packet_length_offset_for_type ! unat ty + 1)"]
    unfolding HciGetPacketLengthForType_def Let_def by (split if_split) linarith
qed

lemma small_u32: "n < 70000 \<Longrightarrow> unat (of_nat n :: u32) = n"
  by (simp add: unsigned_of_nat take_bit_nat_eq_self)

lemma small_u32_zero: "n < 70000 \<Longrightarrow> (of_nat n :: u32) = 0 \<longleftrightarrow> n = 0"
  using small_u32 [of n] by auto

lemma vec_resize_length [simp]: "length (vec_resize junk n xs) = n"
  by (simp add: vec_resize_def)

lemma packet_small:
  assumes "unat ty \<le> 4" and "packet_of_type ty pk"
  shows "length pk < 70000"
proof -
  have "preamble_size ty \<le> 4"
  proof (cases "unat ty = 0")
    case False
    then have "1 \<le> unat ty" by simp
    from this assms(1) show ?thesis by (cases rule: type_cases) auto
  qed (simp add: preamble_size_def preamble_size_for_type_def)
  then show ?thesis using length_field_bound [of ty pk] assms(2) by (simp add: packet_of_type_def)
qed

lemma asked_part:
  assumes "unat ty \<le> 4" and "packet_of_type ty pk" and "holds_part ty p pk k"
  shows "0 < unat (asked ty p)" and "k + unat (asked ty p) \<le> length pk"
    and "pk_state p = HCI_PREAMBLE \<Longrightarrow> k + unat (asked ty p) \<le> preamble_size ty"
proof -
  note S = packet_small [OF assms(1,2)]
  have le: "preamble_size ty < length pk" using assms(2) by (simp add: packet_of_type_def)
  have A: "unat (asked ty p) = (if pk_state p = HCI_PREAMBLE then preamble_size ty - k else length pk - k)"
  proof (cases "pk_state p")
    case HCI_PREAMBLE
    then have a: "asked ty p = of_nat (preamble_size ty - k)" and "k < preamble_size ty"
      using assms(3) by (simp_all add: asked_def holds_part_def of_nat_diff flip: preamble_size_def)
    then show ?thesis using HCI_PREAMBLE S le unfolding a by (subst small_u32) simp_all
  next
    case HCI_PAYLOAD
    then have a: "asked ty p = of_nat (length pk - k)" using assms(3) by (simp add: asked_def holds_part_def)
    show ?thesis using HCI_PAYLOAD S unfolding a by (subst small_u32) simp_all
  qed
  show "0 < unat (asked ty p)" "k + unat (asked ty p) \<le> length pk"
    "pk_state p = HCI_PREAMBLE \<Longrightarrow> k + unat (asked ty p) \<le> preamble_size ty"
    using assms(3) le unfolding A by (auto simp: holds_part_def split: pkt_state.splits)
qed

lemma store_part:
  assumes "take k buf = take k pk" and "k < length pk" and "k + length bs \<le> length buf" and "take (length bs) (drop k pk) = bs"
  shows "\<exists>buf'. store buf k bs = Some buf' \<and> length buf' = length buf \<and> take (k + length bs) buf' = take (k + length bs) pk"
  using assms by (simp add: store_def min_def take_add)

text \<open>One call: it takes some bytes of the packet, and hands it out with the last one.\<close>

definition part_done :: "u8 \<Rightarrow> u8 list \<Rightarrow> nat \<Rightarrow> (packetizer \<times> u8 list list) outcome \<Rightarrow> bool" where
  "part_done ty pk k r \<longleftrightarrow> (\<exists>p'. if k = length pk then r = Done (p', [pk]) \<and> at_start p' else r = Done (p', []) \<and> holds_part ty p' pk k)"

lemma OnDataReady_preamble:
  assumes ty: "1 \<le> unat ty" "unat ty \<le> 4" and pk: "packet_of_type ty pk" and h: "holds_part ty p pk k"
    and st: "pk_state p = HCI_PREAMBLE"
    and bs: "bs \<noteq> []" "length bs \<le> unat (asked ty p)" "take (length bs) (drop k pk) = bs"
  shows "part_done ty pk (k + length bs) (OnDataReady junk ty (Some bs) p)"
proof -
  note S = packet_small [OF ty(2) pk]
  have le: "preamble_size ty < length pk" using pk by (simp add: packet_of_type_def)
  have le4: "preamble_size ty \<le> 4" using ty by (cases rule: type_cases) auto
  have kb: "k + length bs \<le> preamble_size ty" using asked_part(3) [OF ty(2) pk h st] bs(2) by simp
  have H: "length (pk_preamble p) = 4" "bytes_read p = of_nat k" "take k (pk_preamble p) = take k pk"
    using h st by (simp_all add: holds_part_def)
  have k: "unat (bytes_read p) = k" using H(2) kb le S by (simp add: small_u32)
  obtain pre where pre: "store (pk_preamble p) k bs = Some pre" "length pre = 4" "take (k + length bs) pre = take (k + length bs) pk"
    using store_part [OF H(3) _ _ bs(3)] H(1) kb le le4 by fastforce
  have at: "read_at (pk_preamble p) (unat (bytes_read p)) (Some bs) = Some pre"
    using pre(1) bs(1) by (simp add: read_at_def k)
  have n: "read_count (Some bs) \<noteq> 0" "bytes_read p + read_count (Some bs) = of_nat (k + length bs)"
    using small_u32 [of "length bs"] bs(1) kb le S H(2) by (auto simp: read_count_def)
  have eq: "of_nat (k + length bs) = (of_nat (preamble_size ty) :: u32) \<longleftrightarrow> k + length bs = preamble_size ty"
    using small_u32 [of "k + length bs"] small_u32 [of "preamble_size ty"] kb le S by (metis le_less_trans less_trans)
  show ?thesis
  proof (cases "k + length bs = preamble_size ty")
    case True
    have len: "HciGetPacketLengthForType ty pre = length pk - preamble_size ty"
      using length_field_take [OF ty, of pre pk] pre(3) pk True by (simp add: packet_of_type_def)
    let ?pk = "overlay 0 (take (preamble_size ty) pre) (vec_resize junk (length pk) (pk_packet p))"
    have l: "length ?pk = length pk" "take (preamble_size ty) ?pk = take (preamble_size ty) pk"
      using pre le le4 True by (simp_all add: overlay_def)
    have "holds_part ty (p\<lparr>pk_preamble := pre, pk_packet := ?pk, bytes_remaining := of_nat (length pk - preamble_size ty),
        pk_state := HCI_PAYLOAD, bytes_read := 0\<rparr>) pk (preamble_size ty)"
      using l pre(2) le by (simp add: holds_part_def)
    then show ?thesis
      using at n eq True ty(2) st len le
      by (simp add: part_done_def OnDataReady_def Let_def flip: preamble_size_def)
  next
    case False
    have "holds_part ty (p\<lparr>pk_preamble := pre, bytes_read := of_nat (k + length bs)\<rparr>) pk (k + length bs)"
      using pre False kb le st by (simp add: holds_part_def)
    then show ?thesis
      using at n eq False kb ty(2) st le
      by (simp add: part_done_def OnDataReady_def Let_def flip: preamble_size_def)
  qed
qed

lemma OnDataReady_payload:
  assumes ty: "1 \<le> unat ty" "unat ty \<le> 4" and pk: "packet_of_type ty pk" and h: "holds_part ty p pk k"
    and st: "pk_state p = HCI_PAYLOAD"
    and bs: "bs \<noteq> []" "length bs \<le> unat (asked ty p)" "take (length bs) (drop k pk) = bs"
  shows "part_done ty pk (k + length bs) (OnDataReady junk ty (Some bs) p)"
proof -
  note S = packet_small [OF ty(2) pk]
  have kb: "k + length bs \<le> length pk" using asked_part(2) [OF ty(2) pk h] bs(2) by simp
  have H: "length (pk_preamble p) = 4" "preamble_size ty \<le> k" "bytes_read p = of_nat (k - preamble_size ty)"
      "bytes_remaining p = of_nat (length pk - k)" "length (pk_packet p) = length pk" "take k (pk_packet p) = take k pk" "k < length pk"
    using h st by (simp_all add: holds_part_def)
  have k: "preamble_size ty + unat (bytes_read p) = k" using H(2,3,7) S by (subst H(3)) (subst small_u32; simp)
  obtain pk' where st': "store (pk_packet p) k bs = Some pk'" "length pk' = length pk" "take (k + length bs) pk' = take (k + length bs) pk"
    using store_part [OF H(6,7) _ bs(3)] H(5) kb by fastforce
  have at: "read_at (pk_packet p) (preamble_size ty + unat (bytes_read p)) (Some bs) = Some pk'"
    using st'(1) bs(1) by (simp add: read_at_def k)
  have n: "read_count (Some bs) \<noteq> 0" using small_u32 [of "length bs"] bs(1) kb S by (auto simp: read_count_def)
  have rd: "bytes_read p + read_count (Some bs) = of_nat (k + length bs - preamble_size ty)"
    using H(2) by (simp add: read_count_def H(3) of_nat_diff)
  have rem: "bytes_remaining p - read_count (Some bs) = of_nat (length pk - (k + length bs))"
    using H(7) kb by (simp add: read_count_def H(4) of_nat_diff)
  have z: "of_nat (length pk - (k + length bs)) = (0 :: u32) \<longleftrightarrow> k + length bs = length pk"
    using small_u32_zero [of "length pk - (k + length bs)"] S kb by linarith
  show ?thesis
  proof (cases "k + length bs = length pk")
    case True
    then have "pk' = pk" using st'(2,3) by simp
    then show ?thesis
      using at n rd rem z True ty(2) st H(1)
      by (simp add: part_done_def OnDataReady_def Let_def at_start_def flip: preamble_size_def)
  next
    case False
    have "holds_part ty (p\<lparr>pk_packet := pk', bytes_remaining := of_nat (length pk - (k + length bs)),
        bytes_read := of_nat (k + length bs - preamble_size ty)\<rparr>) pk (k + length bs)"
      using st' False kb st H by (simp add: holds_part_def)
    then show ?thesis
      using at n rd rem z False ty(2) st
      by (simp add: part_done_def OnDataReady_def Let_def flip: preamble_size_def)
  qed
qed

text \<open>Input of non-empty chunks, without an error.\<close>

definition arrives :: "u8 list \<Rightarrow> rx list \<Rightarrow> bool" where
  "arrives bytes rs \<longleftrightarrow> (\<exists>cs. rs = map Chunk cs \<and> [] \<notin> set cs \<and> concat cs = bytes)"

lemma arrives_nil [simp]: "arrives bs [] \<longleftrightarrow> bs = []"
  by (auto simp: arrives_def)

lemma arrives_empty: "arrives [] rs \<Longrightarrow> rs = []"
  by (auto simp: arrives_def concat_eq_Nil_conv) (metis list.set_intros(1) neq_Nil_conv)

lemma arrives_read:
  assumes "arrives bytes rs" and "rs \<noteq> []" and "0 < n"
  obtains bs rs' where "rx_read n rs = (Some bs, rs')" and "bs \<noteq> []" and "length bs \<le> n" and "take (length bs) bytes = bs"
    and "arrives (drop (length bs) bytes) rs'"
proof -
  obtain c cs where cs: "rs = Chunk c # map Chunk cs" "c \<noteq> []" "[] \<notin> set cs" "bytes = c @ concat cs"
    using assms(1,2) unfolding arrives_def by (cases rs) (auto simp: Cons_eq_map_conv)
  show ?thesis
  proof (cases "length c \<le> n")
    case True
    then show ?thesis using that [of c "map Chunk cs"] cs by (auto simp: arrives_def)
  next
    case False
    have "arrives (drop n bytes) (Chunk (drop n c) # map Chunk cs)"
      unfolding arrives_def using cs False by (intro exI [of _ "drop n c # cs"]) auto
    then show ?thesis using that [of "take n c" "Chunk (drop n c) # map Chunk cs"] cs False assms(3) by (simp add: min_def)
  qed
qed

lemma packetize_step:
  assumes "rs \<noteq> []" and "rx_read (unat (asked ty p)) rs = (got, rs')" and "OnDataReady junk ty got p = Done (p1, out)"
    and "packetize junk ty rs' p1 = Done (p2, outs)"
  shows "packetize junk ty rs p = Done (p2, out @ outs)"
  using assms by (simp add: packetize.simps [of junk ty rs])

lemma at_start_holds:
  assumes "1 \<le> unat ty" "unat ty \<le> 4" "at_start p" "packet_of_type ty pk"
  shows "holds_part ty p pk 0"
proof -
  have "0 < preamble_size ty" using assms(1,2) by (cases rule: type_cases) auto
  then show ?thesis using assms(3,4) by (auto simp: holds_part_def at_start_def packet_of_type_def)
qed

lemma packetize_part:
  assumes "1 \<le> unat ty" "unat ty \<le> 4" "holds_part ty p pk k" "list_all (packet_of_type ty) (pk # pks)"
    and "arrives (drop k pk @ concat pks) rs"
  shows "\<exists>p'. packetize junk ty rs p = Done (p', pk # pks) \<and> at_start p'"
  using assms
proof (induction "rx_size rs" arbitrary: rs p pk pks k rule: less_induct)
  case less
  have pk: "packet_of_type ty pk" and k: "k < length pk" using less.prems(3,4) by (simp_all add: holds_part_def)
  have rs: "rs \<noteq> []" using less.prems(5) k by auto
  obtain bs rs' where r: "rx_read (unat (asked ty p)) rs = (Some bs, rs')" and bs: "bs \<noteq> []" "length bs \<le> unat (asked ty p)"
      "take (length bs) (drop k pk @ concat pks) = bs" and rest: "arrives (drop (length bs) (drop k pk @ concat pks)) rs'"
    by (rule arrives_read [OF less.prems(5) rs asked_part(1) [OF less.prems(2) pk less.prems(3)]])
  have kb: "k + length bs \<le> length pk" using asked_part(2) [OF less.prems(2) pk less.prems(3)] bs(2) by simp
  have tk: "take (length bs) (drop k pk) = bs" using bs(3) kb by simp
  have rest': "arrives (drop (k + length bs) pk @ concat pks) rs'" using rest kb by (simp add: add.commute)
  have smaller: "rx_size rs' < rx_size rs" using rx_read_size [OF r bs(1)] .
  have "part_done ty pk (k + length bs) (OnDataReady junk ty (Some bs) p)"
    using OnDataReady_preamble [OF less.prems(1,2) pk less.prems(3) _ bs(1,2) tk]
      OnDataReady_payload [OF less.prems(1,2) pk less.prems(3) _ bs(1,2) tk] by (cases "pk_state p") auto
  then obtain p1 where p1: "if k + length bs = length pk then OnDataReady junk ty (Some bs) p = Done (p1, [pk]) \<and> at_start p1
      else OnDataReady junk ty (Some bs) p = Done (p1, []) \<and> holds_part ty p1 pk (k + length bs)"
    unfolding part_done_def by blast
  show ?case
  proof (cases "k + length bs = length pk")
    case False
    then obtain p' where "packetize junk ty rs' p1 = Done (p', pk # pks)" "at_start p'"
      using less.hyps [OF smaller less.prems(1,2) _ less.prems(4) rest'] p1 by auto
    then show ?thesis using packetize_step [OF rs r] p1 False by fastforce
  next
    case True
    have "\<exists>p'. packetize junk ty rs' p1 = Done (p', pks) \<and> at_start p'"
    proof (cases pks)
      case Nil
      then show ?thesis using arrives_empty rest' True p1 by (fastforce simp: packetize.simps)
    next
      case (Cons pk1 pks1)
      have "holds_part ty p1 pk1 0" using at_start_holds [OF less.prems(1,2)] p1 True less.prems(4) Cons by simp
      then show ?thesis using less.hyps [OF smaller less.prems(1,2), of p1 pk1 0 pks1] less.prems(4) rest' True Cons by simp
    qed
    then show ?thesis using packetize_step [OF rs r] p1 True by fastforce
  qed
qed

text \<open>C17. The packetizer reassembles packets. However the line cuts the bytes of a sequence of packets of a type into non-empty
  pieces, also across packets and inside the length field, the calls hand out exactly these packets, in order, no byte is
  stored outside a buffer, and the packetizer is ready for the next packet. (Every packet has a payload: see
  \<open>packetizer_no_payload\<close>.)\<close>

theorem packetizer_reassembles:
  assumes "1 \<le> unat ty" and "unat ty \<le> 4" and "at_start p" and "list_all (packet_of_type ty) pks"
    and "[] \<notin> set cs" and "concat cs = concat pks"
  shows "\<exists>p'. packetize junk ty (map Chunk cs) p = Done (p', pks) \<and> at_start p'"
proof -
  have a: "arrives (concat pks) (map Chunk cs)" using assms(5,6) by (auto simp: arrives_def)
  show ?thesis
  proof (cases pks)
    case Nil
    then show ?thesis using arrives_empty a assms(3) by (fastforce simp: packetize.simps)
  next
    case (Cons pk pks')
    have "holds_part ty p pk 0" using at_start_holds [OF assms(1-3)] assms(4) Cons by simp
    then show ?thesis using packetize_part [OF assms(1,2), of p pk 0 pks'] assms(4) a Cons by simp
  qed
qed

text \<open>A packet without payload, and anything after it: the next \<^verbatim>\<open>read\<close> is for no byte, and the \<^verbatim>\<open>CHECK\<close> fails.\<close>

lemma packetizer_no_payload:
  assumes "unat ty \<le> 4" and "pk_state p = HCI_PAYLOAD" and "bytes_remaining p = 0" and "bs \<noteq> []"
  shows "packetize junk ty (Chunk bs # rs) p = Check_Failed"
  using assms by (simp add: packetize.simps asked_def OnDataReady_def read_at_def read_count_def Let_def)

section \<open>The H4 protocol\<close>

record h4 =
  hci_packet_type :: u8
  h4_packet :: "u8 list"

datatype hal_cb = Event_cb "u8 list" | Acl_cb "u8 list" | Sco_cb "u8 list"

definition h4_new :: h4 where
  "h4_new = \<lparr>hci_packet_type = HCI_PACKET_TYPE_UNKNOWN, h4_packet = []\<rparr>"

definition OnPacketReady :: "h4 \<Rightarrow> (h4 \<times> hal_cb list) outcome" where
  "OnPacketReady h =
     (let next = h\<lparr>hci_packet_type := HCI_PACKET_TYPE_UNKNOWN\<rparr>
      in if hci_packet_type h = HCI_PACKET_TYPE_EVENT then Done (next, [Event_cb (h4_packet h)])
         else if hci_packet_type h = HCI_PACKET_TYPE_ACL_DATA then Done (next, [Acl_cb (h4_packet h)])
         else if hci_packet_type h = HCI_PACKET_TYPE_SCO_DATA then Done (next, [Sco_cb (h4_packet h)])
         else Check_Failed)"

text \<open>The packet is a view of memory: the callback reads all of it. Behind the end of the buffer that is \<open>Outside\<close>.\<close>

definition CbHciPacket :: "u8 list \<Rightarrow> nat \<Rightarrow> u32 \<Rightarrow> h4 \<Rightarrow> (h4 \<times> hal_cb list) outcome" where
  "CbHciPacket buf pos len h =
     (case OnPacketReady (h\<lparr>h4_packet := take (unat len) (drop pos buf)\<rparr>) of
        Done r \<Rightarrow> if pos + unat len \<le> length buf then Done r else Outside
      | e \<Rightarrow> e)"

definition max_plen :: nat where "max_plen = 64 * 1024"

text \<open>\<open>tpkt\<close>: the new buffer, whose bytes have no particular value; \<open>got\<close>: the answer to the \<^verbatim>\<open>read\<close>.\<close>

definition h4_OnDataReady :: "u8 list \<Rightarrow> u8 list option \<Rightarrow> h4 \<Rightarrow> (h4 \<times> hal_cb list) outcome" where
  "h4_OnDataReady tpkt got h =
     (if hci_packet_type h = HCI_PACKET_TYPE_UNKNOWN then
        (case read_at tpkt 0 got of
           None \<Rightarrow> Outside
         | Some buf \<Rightarrow> CbHciPacket buf 1 (read_count got - 1) (h\<lparr>hci_packet_type := buf ! 0\<rparr>))
      else Done (h, []))"

text \<open>What \<^verbatim>\<open>writev\<close> answers. The message is the type and the data; \<open>None\<close>: no answer yet.\<close>

datatype wv = Wv_EINTR | Wv_EAGAIN | Wv_error | Wv nat

fun Send :: "wv list \<Rightarrow> u8 \<Rightarrow> u8 list \<Rightarrow> (u32 \<times> u8 list) option" where
  "Send [] ty data = None"
| "Send (Wv_EINTR # ws) ty data = Send ws ty data"
| "Send (Wv_EAGAIN # ws) ty data = Send ws ty data"
| "Send (Wv_error # ws) ty data = Some (- 1, [])"
| "Send (Wv n # ws) ty data = Some (of_nat n, take n (ty # data))"

text \<open>The calls for a sequence of reads.\<close>

fun h4_run :: "u8 list \<Rightarrow> u8 list option list \<Rightarrow> h4 \<Rightarrow> (h4 \<times> hal_cb list) outcome" where
  "h4_run tpkt [] h = Done (h, [])"
| "h4_run tpkt (got # gots) h =
     (case h4_OnDataReady tpkt got h of
        Done (h1, cbs) \<Rightarrow> (case h4_run tpkt gots h1 of Done (h2, cbs2) \<Rightarrow> Done (h2, cbs @ cbs2) | e \<Rightarrow> e)
      | Check_Failed \<Rightarrow> Check_Failed
      | Outside \<Rightarrow> Outside)"

fun cb_frame :: "hal_cb \<Rightarrow> u8 \<times> u8 list" where
  "cb_frame (Event_cb d) = (HCI_PACKET_TYPE_EVENT, d)"
| "cb_frame (Acl_cb d) = (HCI_PACKET_TYPE_ACL_DATA, d)"
| "cb_frame (Sco_cb d) = (HCI_PACKET_TYPE_SCO_DATA, d)"

lemma Send_answer:
  assumes "set ws \<subseteq> {Wv_EINTR, Wv_EAGAIN}"
  shows "Send (ws @ Wv n # ws') ty data = Some (of_nat n, take n (ty # data))"
    and "Send (ws @ Wv_error # ws') ty data = Some (- 1, [])"
    and "Send ws ty data = None"
  using assms by (induction ws) auto

lemma h4_OnDataReady_frame:
  assumes "hci_packet_type h = HCI_PACKET_TYPE_UNKNOWN" and "cb_frame cb = (ty, data)" and "length data < max_plen"
    and "length tpkt = max_plen"
  shows "h4_OnDataReady tpkt (Some (ty # data)) h = Done (h\<lparr>h4_packet := data\<rparr>, [cb])"
proof -
  have "length data < 70000" using assms(3) by (simp add: max_plen_def)
  then have u: "unat (read_count (Some (ty # data)) - 1) = length data" by (simp add: read_count_def small_u32)
  have r: "read_at tpkt 0 (Some (ty # data)) = Some (ty # data @ drop (Suc (length data)) tpkt)"
    using assms(3,4) by (simp add: read_at_def store_def)
  have l: "1 + length data \<le> length (ty # data @ drop (Suc (length data)) tpkt)" by simp
  have e: "h\<lparr>hci_packet_type := HCI_PACKET_TYPE_UNKNOWN\<rparr> = h" using assms(1) by simp
  show ?thesis
    using assms(1,2) u r l e
    by (cases cb) (auto simp: h4_OnDataReady_def CbHciPacket_def OnPacketReady_def Let_def hci_types)
qed

text \<open>A message sent until \<^verbatim>\<open>writev\<close> takes all of it.\<close>

definition h4_sent :: "wv list \<Rightarrow> hal_cb \<Rightarrow> u8 list option" where
  "h4_sent ws cb = (case cb_frame cb of (ty, data) \<Rightarrow> map_option snd (Send (ws @ [Wv (1 + length data)]) ty data))"

lemma h4_sent_whole:
  "set ws \<subseteq> {Wv_EINTR, Wv_EAGAIN} \<Longrightarrow> h4_sent ws cb = Some (fst (cb_frame cb) # snd (cb_frame cb))"
  by (simp add: h4_sent_def Send_answer(1) split: prod.split)

text \<open>What one side sends, retrying as often as \<^verbatim>\<open>writev\<close> asks for it, the other side hands to the callback of its type,
  packet by packet and in order, if every \<^verbatim>\<open>read\<close> brings one message as the sockets of the kernel do.\<close>

theorem h4_roundtrip:
  assumes "set ws \<subseteq> {Wv_EINTR, Wv_EAGAIN}" and "list_all (\<lambda>cb. length (snd (cb_frame cb)) < max_plen) cbs"
    and "length tpkt = max_plen" and "hci_packet_type h = HCI_PACKET_TYPE_UNKNOWN"
  shows "\<exists>h'. h4_run tpkt (map (h4_sent ws) cbs) h = Done (h', cbs) \<and> hci_packet_type h' = HCI_PACKET_TYPE_UNKNOWN"
  using assms(2,4)
proof (induction cbs arbitrary: h)
  case (Cons cb cbs)
  have s: "h4_sent ws cb = Some (fst (cb_frame cb) # snd (cb_frame cb))" using h4_sent_whole assms(1) .
  have 1: "h4_OnDataReady tpkt (h4_sent ws cb) h = Done (h\<lparr>h4_packet := snd (cb_frame cb)\<rparr>, [cb])"
    unfolding s using h4_OnDataReady_frame [of h cb] Cons.prems assms(3) by simp
  obtain h' where "h4_run tpkt (map (h4_sent ws) cbs) (h\<lparr>h4_packet := snd (cb_frame cb)\<rparr>) = Done (h', cbs)"
      "hci_packet_type h' = HCI_PACKET_TYPE_UNKNOWN"
    using Cons.IH [of "h\<lparr>h4_packet := snd (cb_frame cb)\<rparr>"] Cons.prems by auto
  then show ?case using 1 by simp
qed simp

theorem h4_roundtrip_witness:
  "\<exists>h'. h4_run (replicate max_plen 0)
     (map (h4_sent [Wv_EAGAIN, Wv_EINTR]) [Acl_cb [1, 2, 1, 0, 7], Event_cb [0x0E, 0], Sco_cb []]) h4_new
     = Done (h', [Acl_cb [1, 2, 1, 0, 7], Event_cb [0x0E, 0], Sco_cb []]) \<and> hci_packet_type h' = HCI_PACKET_TYPE_UNKNOWN"
  by (rule h4_roundtrip) (simp_all add: max_plen_def h4_new_def)

text \<open>The result of the \<^verbatim>\<open>read\<close> is not looked at. When it fails, or brings no byte, the length of the view wraps around:
  the process ends or reads outside the buffer, whatever was in the new buffer.\<close>

lemma h4_OnDataReady_nothing_read:
  assumes "hci_packet_type h = HCI_PACKET_TYPE_UNKNOWN" and "length tpkt = max_plen" and "got = None \<or> got = Some []"
  shows "h4_OnDataReady tpkt got h =
    (if tpkt ! 0 \<in> {HCI_PACKET_TYPE_EVENT, HCI_PACKET_TYPE_ACL_DATA, HCI_PACKET_TYPE_SCO_DATA} then Outside else Check_Failed)"
proof -
  have "max_plen < 1 + unat (read_count got - 1)" using assms(3)
    by (auto simp: read_count_def max_plen_def unsigned_minus_1_eq_mask mask_eq_exp_minus_1)
  moreover have "read_at tpkt 0 got = Some tpkt" using assms(3) by (auto simp: read_at_def)
  ultimately show ?thesis
    using assms(1,2) by (auto simp: h4_OnDataReady_def CbHciPacket_def OnPacketReady_def Let_def hci_types)
qed

lemma h4_OnDataReady_other_type:
  assumes "hci_packet_type h = HCI_PACKET_TYPE_UNKNOWN" and "length data < max_plen" and "length tpkt = max_plen"
    and "ty \<notin> {HCI_PACKET_TYPE_EVENT, HCI_PACKET_TYPE_ACL_DATA, HCI_PACKET_TYPE_SCO_DATA}"
  shows "h4_OnDataReady tpkt (Some (ty # data)) h = Check_Failed"
  using assms by (auto simp: h4_OnDataReady_def read_at_def store_def CbHciPacket_def OnPacketReady_def Let_def)

theorem packetizer_reassembles_witness:
  "\<exists>p'. packetize 9 HCI_PACKET_TYPE_EVENT (map Chunk [[0x0E], [3, 1], [2, 3, 5, 1], [6]]) packetizer_new =
     Done (p', [[0x0E, 3, 1, 2, 3], [5, 1, 6]]) \<and> at_start p'"
  by (rule packetizer_reassembles)
     (simp_all add: hci_types packetizer_new_def at_start_def packet_of_type_def preamble_size_def preamble_size_for_type_def
        HciGetPacketLengthForType_def packet_length_offset_for_type_def)

lemma packetizer_no_payload_demo:
  "packetize 9 HCI_PACKET_TYPE_EVENT (map Chunk [[5, 0], [5, 0]]) packetizer_new = Check_Failed"
  by code_simp

end
