(* ===== verification/Bt_Hal.thy ===== *)
theory Bt_Hal
  imports Bt_H4
begin

text \<open>
  The Bluetooth HAL itself: the wait for the HCI device on the management channel, the descriptors and strings it
  owns, its interface (\<^verbatim>\<open>hals/bluetooth/bluetooth_hci.cc\<close>) and the watcher of descriptors
  (\<^verbatim>\<open>async_fd_watcher.cc\<close>). What the kernel answers is an argument. The kernel keeps the set of open descriptors; the
  strings of \<^verbatim>\<open>asprintf\<close> are numbered blocks.
\<close>

section \<open>Waiting for the device\<close>

definition MGMT_OP_INDEX_LIST :: u16 where "MGMT_OP_INDEX_LIST = 3"
definition MGMT_EV_INDEX_ADDED :: u16 where "MGMT_EV_INDEX_ADDED = 4"
definition MGMT_EV_COMMAND_COMP :: u16 where "MGMT_EV_COMMAND_COMP = 1"
definition MGMT_EV_SIZE_MAX :: nat where "MGMT_EV_SIZE_MAX = 1024"
definition HCI_DEV_NONE :: u16 where "HCI_DEV_NONE = 0xffff"

lemmas mgmt_defs = MGMT_OP_INDEX_LIST_def MGMT_EV_INDEX_ADDED_def MGMT_EV_COMMAND_COMP_def

text \<open>The 16-bit field at a position of the packed structure.\<close>

definition field16 :: "u8 list \<Rightarrow> nat \<Rightarrow> u16" where
  "field16 ev i = of_le (take 2 (drop i ev))"

text \<open>One turn of the loop: what \<^verbatim>\<open>poll\<close> answers, and the bytes that \<^verbatim>\<open>read\<close> brings.\<close>

datatype mgmt_in = Poll_error | Poll_timeout | Poll_no_input | Read_failed | Got "u8 list"

text \<open>The loop over the list of the reply: \<open>n\<close> entries from the \<open>i\<close>-th on. The header takes 11 bytes of the
  structure, and nothing compares the number of entries with what was read.\<close>

fun index_scan :: "int \<Rightarrow> u8 list \<Rightarrow> nat \<Rightarrow> nat \<Rightarrow> bool outcome" where
  "index_scan hci ev i 0 = Done False"
| "index_scan hci ev i (Suc n) =
     (if length ev < 11 + 2 * i + 2 then Outside
      else if uint (field16 ev (11 + 2 * i)) = hci then Done True
      else index_scan hci ev (Suc i) n)"

text \<open>\<open>Done None\<close>: the answers are used up, and the code still waits.\<close>

fun wait_loop :: "int \<Rightarrow> mgmt_in list \<Rightarrow> u8 list \<Rightarrow> int option outcome" where
  "wait_loop hci [] ev = Done None"
| "wait_loop hci (Poll_error # ins) ev = Done (Some (-1))"
| "wait_loop hci (Poll_timeout # ins) ev = Done (Some (-1))"
| "wait_loop hci (Poll_no_input # ins) ev = wait_loop hci ins ev"
| "wait_loop hci (Read_failed # ins) ev = Done (Some (-1))"
| "wait_loop hci (Got bs # ins) ev =
     (let ev1 = overlay 0 bs ev
      in if field16 ev1 0 = MGMT_EV_INDEX_ADDED \<and> uint (field16 ev1 2) = hci then Done (Some 0)
         else if field16 ev1 0 = MGMT_EV_COMMAND_COMP then
           if field16 ev1 6 \<noteq> MGMT_OP_INDEX_LIST \<or> ev1 ! 8 \<noteq> 0 then wait_loop hci ins ev1
           else case index_scan hci ev1 0 (unat (field16 ev1 9)) of
                  Done True \<Rightarrow> Done (Some 0)
                | Done False \<Rightarrow> wait_loop hci ins ev1
                | Check_Failed \<Rightarrow> Check_Failed
                | Outside \<Rightarrow> Outside
         else wait_loop hci ins ev1)"

text \<open>The answers before the loop: the socket, \<^verbatim>\<open>bind\<close>, and the count of the \<^verbatim>\<open>write\<close>; \<open>data\<close> is what the
  structure holds behind its header.\<close>

record wait_env =
  w_socket :: "int option"
  w_bind :: bool
  w_wrote :: int
  w_in :: "mgmt_in list"
  w_data :: "u8 list"

definition index_list_command :: "u8 list" where
  "index_list_command = le16 MGMT_OP_INDEX_LIST @ le16 HCI_DEV_NONE @ le16 0"

text \<open>The result with the descriptors opened and closed on the way.\<close>

datatype fd_act = Fd_open int | Fd_close int

definition waitHciDev :: "wait_env \<Rightarrow> int \<Rightarrow> (int option \<times> fd_act list) outcome" where
  "waitHciDev env hci =
     (case w_socket env of
        None \<Rightarrow> Done (Some (-1), [])
      | Some fd \<Rightarrow>
          if \<not> w_bind env then Done (Some (-1), [Fd_open fd, Fd_close fd])
          else if w_wrote env \<noteq> 6 then Done (Some (-1), [Fd_open fd, Fd_close fd])
          else case wait_loop hci (w_in env) (index_list_command @ w_data env) of
                 Done None \<Rightarrow> Done (None, [Fd_open fd])
               | Done (Some r) \<Rightarrow> Done (Some r, [Fd_open fd, Fd_close fd])
               | Check_Failed \<Rightarrow> Check_Failed
               | Outside \<Rightarrow> Outside)"

subsection \<open>The reference: messages of the management channel\<close>

datatype mgmt_msg =
    Index_added u16 "u8 list"
  | Index_list "u16 list"
  | Command_comp u16 u8 u16 "u8 list"
  | Other_event u16 u16 "u8 list"

fun mgmt_encode :: "mgmt_msg \<Rightarrow> u8 list" where
  "mgmt_encode (Index_added idx d) = le16 MGMT_EV_INDEX_ADDED @ le16 idx @ le16 (of_nat (length d)) @ d"
| "mgmt_encode (Index_list idxs) = le16 MGMT_EV_COMMAND_COMP @ le16 HCI_DEV_NONE @ le16 (of_nat (5 + 2 * length idxs)) @
     le16 MGMT_OP_INDEX_LIST @ [0] @ le16 (of_nat (length idxs)) @ concat (map le16 idxs)"
| "mgmt_encode (Command_comp opc status idx d) = le16 MGMT_EV_COMMAND_COMP @ le16 idx @ le16 (of_nat (3 + length d)) @
     le16 opc @ [status] @ d"
| "mgmt_encode (Other_event code idx d) = le16 code @ le16 idx @ le16 (of_nat (length d)) @ d"

text \<open>Well-formed: it fits the structure, the list ends before the structure does, and a completed command is not
  the command that was sent, or failed.\<close>

fun mgmt_ok :: "mgmt_msg \<Rightarrow> bool" where
  "mgmt_ok (Index_added idx d) \<longleftrightarrow> length d \<le> MGMT_EV_SIZE_MAX"
| "mgmt_ok (Index_list idxs) \<longleftrightarrow> length idxs \<le> 509"
| "mgmt_ok (Command_comp opc status idx d) \<longleftrightarrow> (opc \<noteq> MGMT_OP_INDEX_LIST \<or> status \<noteq> 0) \<and> 3 + length d \<le> MGMT_EV_SIZE_MAX"
| "mgmt_ok (Other_event code idx d) \<longleftrightarrow> code \<noteq> MGMT_EV_INDEX_ADDED \<and> code \<noteq> MGMT_EV_COMMAND_COMP \<and> length d \<le> MGMT_EV_SIZE_MAX"

fun names_device :: "int \<Rightarrow> mgmt_msg \<Rightarrow> bool" where
  "names_device hci (Index_added idx d) \<longleftrightarrow> uint idx = hci"
| "names_device hci (Index_list idxs) \<longleftrightarrow> (\<exists>idx\<in>set idxs. uint idx = hci)"
| "names_device hci (Command_comp opc status idx d) \<longleftrightarrow> False"
| "names_device hci (Other_event code idx d) \<longleftrightarrow> False"

datatype mgmt_turn = Turn_message mgmt_msg | Turn_nothing | Turn_end

fun turn_in :: "mgmt_turn \<Rightarrow> mgmt_in set" where
  "turn_in (Turn_message m) = {Got (mgmt_encode m)}"
| "turn_in Turn_nothing = {Poll_no_input}"
| "turn_in Turn_end = {Poll_error, Poll_timeout, Read_failed}"

fun wait_spec :: "int \<Rightarrow> mgmt_turn list \<Rightarrow> int option" where
  "wait_spec hci [] = None"
| "wait_spec hci (Turn_message m # ts) = (if names_device hci m then Some 0 else wait_spec hci ts)"
| "wait_spec hci (Turn_nothing # ts) = wait_spec hci ts"
| "wait_spec hci (Turn_end # ts) = Some (-1)"

fun turn_ok :: "mgmt_turn \<Rightarrow> bool" where
  "turn_ok (Turn_message m) = mgmt_ok m"
| "turn_ok _ = True"

lemma field16_at:
  assumes "length pre = i"
  shows "field16 (pre @ le16 w @ rest) i = w"
  using assms by (simp add: field16_def)

lemma field16_head: "field16 (le16 w @ rest) 0 = w"
  using field16_at [of "[]" 0] by simp

lemma le16_concat_drop: "i < length idxs \<Longrightarrow> drop (2 * i) (concat (map le16 idxs)) = le16 (idxs ! i) @ concat (map le16 (drop (Suc i) idxs))"
proof (induction idxs arbitrary: i)
  case (Cons x xs)
  then show ?case by (cases i) auto
qed simp

lemma index_scan_list:
  assumes "length pre = 11" and "i + n = length idxs"
  shows "index_scan hci (pre @ concat (map le16 idxs) @ rest) i n = Done (\<exists>idx\<in>set (drop i idxs). uint idx = hci)"
  using assms(2)
proof (induction n arbitrary: i)
  case (Suc n)
  let ?ev = "pre @ concat (map le16 idxs) @ rest"
  have i: "i < length idxs" using Suc.prems by simp
  have len: "length (concat (map le16 idxs)) = 2 * length idxs" by (induction idxs) auto
  have "drop (11 + 2 * i) ?ev = le16 (idxs ! i) @ concat (map le16 (drop (Suc i) idxs)) @ rest"
    using assms(1) len i le16_concat_drop [OF i] by simp
  then have "field16 ?ev (11 + 2 * i) = idxs ! i" by (simp add: field16_def)
  moreover have "\<not> length ?ev < 11 + 2 * i + 2" using assms(1) len i by simp
  moreover have "index_scan hci ?ev (Suc i) n = Done (\<exists>idx\<in>set (drop (Suc i) idxs). uint idx = hci)"
    using Suc.IH [of "Suc i"] Suc.prems by simp
  moreover have "drop i idxs = idxs ! i # drop (Suc i) idxs" using i by (rule Cons_nth_drop_Suc [symmetric])
  ultimately show ?case by simp
qed simp

lemma mgmt_encode_length: "mgmt_ok m \<Longrightarrow> length (mgmt_encode m) \<le> 1030"
  by (cases m) (auto simp: MGMT_EV_SIZE_MAX_def length_concat comp_def sum_list_triv)

lemma wait_loop_message:
  assumes "mgmt_ok m" and "length ev = 1030"
  shows "wait_loop hci (Got (mgmt_encode m) # ins) ev =
    (if names_device hci m then Done (Some 0) else wait_loop hci ins (overlay 0 (mgmt_encode m) ev))"
proof (cases m)
  case (Index_list idxs)
  obtain rest where r: "overlay 0 (mgmt_encode m) ev = mgmt_encode m @ rest" by (simp add: overlay_def)
  have n: "unat (of_nat (length idxs) :: u16) = length idxs"
    using assms(1) Index_list by (simp add: unsigned_of_nat take_bit_nat_eq_self)
  let ?pre = "le16 MGMT_EV_COMMAND_COMP @ le16 HCI_DEV_NONE @ le16 (of_nat (5 + 2 * length idxs)) @
     le16 MGMT_OP_INDEX_LIST @ [0] @ le16 (of_nat (length idxs))"
  have e: "overlay 0 (mgmt_encode m) ev = ?pre @ concat (map le16 idxs) @ rest" using r by (simp add: Index_list)
  have f: "field16 (?pre @ t) 0 = MGMT_EV_COMMAND_COMP" "field16 (?pre @ t) 6 = MGMT_OP_INDEX_LIST"
      "(?pre @ t) ! 8 = 0" "field16 (?pre @ t) 9 = of_nat (length idxs)" for t
    by (simp_all add: field16_def nth_append)
  have "index_scan hci (?pre @ concat (map le16 idxs) @ rest) 0 (length idxs) = Done (\<exists>idx\<in>set idxs. uint idx = hci)"
    using index_scan_list [of ?pre 0 "length idxs" idxs hci rest] by simp
  then show ?thesis
    unfolding wait_loop.simps Let_def e f n using Index_list by (simp add: mgmt_defs)
next
  case (Index_added idx d)
  then show ?thesis by (simp add: overlay_def Let_def field16_def mgmt_defs)
next
  case (Command_comp opc status idx d)
  then show ?thesis using assms(1) by (simp add: overlay_def Let_def field16_def mgmt_defs nth_append)
next
  case (Other_event code idx d)
  then show ?thesis using assms(1) by (simp add: overlay_def Let_def field16_def mgmt_defs)
qed

lemma wait_loop_spec:
  assumes "list_all2 (\<lambda>t i. i \<in> turn_in t) ts ins" and "list_all turn_ok ts" and "length ev = 1030"
  shows "wait_loop hci ins ev = Done (wait_spec hci ts)"
  using assms
proof (induction arbitrary: ev rule: list_all2_induct)
  case (Cons t ts i ins)
  show ?case
  proof (cases t)
    case (Turn_message m)
    have "length (overlay 0 (mgmt_encode m) ev) = 1030" using mgmt_encode_length [of m] Cons.prems Turn_message by simp
    then show ?thesis using wait_loop_message [of m ev hci ins] Cons Turn_message by (simp del: wait_loop.simps)
  qed (use Cons in auto)
qed simp

text \<open>C18. The wait for the HCI device implements its description on messages. Whatever sequence of well-formed messages of the
  management channel, empty wake-ups, time-outs and failures comes, the byte-wise loop over one reused structure does not leave
  it, and returns what the description says: 0 at the first message that names the device, added or listed; -1 at the first
  failure or time-out before that; else it keeps waiting. The control socket is closed on every way out.\<close>

theorem waitHciDev_finds_device:
  assumes "w_socket env = Some fd" and "w_bind env" and "w_wrote env = 6" and "length (w_data env) = MGMT_EV_SIZE_MAX"
    and "list_all2 (\<lambda>t i. i \<in> turn_in t) ts (w_in env)" and "list_all turn_ok ts"
  shows "waitHciDev env hci =
    Done (wait_spec hci ts, if wait_spec hci ts = None then [Fd_open fd] else [Fd_open fd, Fd_close fd])"
proof -
  have "length (index_list_command @ w_data env) = 1030"
    using assms(4) by (simp add: index_list_command_def MGMT_EV_SIZE_MAX_def)
  then show ?thesis
    using assms(1-3) wait_loop_spec [OF assms(5,6)] by (auto simp: waitHciDev_def split: option.split)
qed

definition demo_wait :: wait_env where
  "demo_wait = \<lparr>w_socket = Some 7, w_bind = True, w_wrote = 6,
     w_in = [Got (mgmt_encode (Index_list [1, 2])), Poll_no_input, Got (mgmt_encode (Index_added 0 []))],
     w_data = replicate 1024 0\<rparr>"

theorem waitHciDev_finds_device_witness:
  "waitHciDev demo_wait 0 = Done (Some 0, [Fd_open 7, Fd_close 7])"
  using waitHciDev_finds_device [of demo_wait 7 "[Turn_message (Index_list [1, 2]), Turn_nothing, Turn_message (Index_added 0 [])]" 0]
  by (simp add: demo_wait_def MGMT_EV_SIZE_MAX_def)

text \<open>The number of entries is not compared with what was read: a reply whose list is longer than the structure and
  does not name the device is read behind the end.\<close>

lemma index_scan_outside:
  assumes "length ev = 1030" and "i \<le> 509" and "\<forall>j. i \<le> j \<and> j < 509 \<longrightarrow> uint (field16 ev (11 + 2 * j)) \<noteq> hci" and "509 < i + n"
  shows "index_scan hci ev i n = Outside"
  using assms(2-4)
proof (induction n arbitrary: i)
  case (Suc n)
  show ?case
  proof (cases "i = 509")
    case False
    then have "index_scan hci ev (Suc i) n = Outside" using Suc by auto
    then show ?thesis using Suc.prems False assms(1) by auto
  qed (use assms(1) in simp)
qed simp

section \<open>The watcher of descriptors\<close>

text \<open>The map from descriptors to callbacks is a list in the order of the keys. \<open>thread\<close>: the thread object can be joined;
  \<open>pending\<close>: bytes in the notification pipe.\<close>

record 'cb watcher =
  running :: bool
  thread :: bool
  watched_fds :: "(int \<times> 'cb) list"
  notification_listen_fd :: int
  notification_write_fd :: int
  pending :: nat
  timeout_ms :: int
  timeout_cb :: "'cb option"

fun map_put :: "int \<Rightarrow> 'cb \<Rightarrow> (int \<times> 'cb) list \<Rightarrow> (int \<times> 'cb) list" where
  "map_put k v [] = [(k, v)]"
| "map_put k v ((k', v') # m) = (if k < k' then (k, v) # (k', v') # m else if k = k' then (k, v) # m else (k', v') # map_put k v m)"

definition notifyThread :: "'cb watcher \<Rightarrow> 'cb watcher" where
  "notifyThread w = w\<lparr>pending := Suc (pending w)\<rparr>"

text \<open>\<open>pipe\<close>: the descriptors of \<^verbatim>\<open>pipe2\<close>. Assigning to a thread object that can be joined ends the process.\<close>

definition tryStartThread :: "(int \<times> int) option \<Rightarrow> 'cb watcher \<Rightarrow> (int \<times> 'cb watcher \<times> fd_act list) outcome" where
  "tryStartThread pipe w =
     (if running w then Done (0, w, [])
      else case pipe of
             None \<Rightarrow> Done (-1, w\<lparr>running := True\<rparr>, [])
           | Some (l, wr) \<Rightarrow>
               if thread w then Check_Failed
               else Done (0, w\<lparr>running := True, thread := True, notification_listen_fd := l, notification_write_fd := wr, pending := 0\<rparr>,
                 [Fd_open l, Fd_open wr]))"

definition WatchFdForNonBlockingReads ::
  "(int \<times> int) option \<Rightarrow> int \<Rightarrow> 'cb \<Rightarrow> 'cb watcher \<Rightarrow> (int \<times> 'cb watcher \<times> fd_act list) outcome" where
  "WatchFdForNonBlockingReads pipe fd cb w = tryStartThread pipe (w\<lparr>watched_fds := map_put fd cb (watched_fds w)\<rparr>)"

definition ConfigureTimeout :: "int \<Rightarrow> 'cb option \<Rightarrow> 'cb watcher \<Rightarrow> 'cb watcher" where
  "ConfigureTimeout t cb w = notifyThread (w\<lparr>timeout_cb := cb, timeout_ms := t\<rparr>)"

text \<open>\<open>self\<close>: called on the thread of the watcher, which is then not joined. Joining no thread ends the process.\<close>

definition stopThread :: "bool \<Rightarrow> 'cb watcher \<Rightarrow> 'cb watcher outcome" where
  "stopThread self w =
     (if \<not> running w then Done w
      else
        let w1 = notifyThread (w\<lparr>running := False\<rparr>)
        in if \<not> self \<and> \<not> thread w1 then Check_Failed
           else Done (w1\<lparr>thread := self \<and> thread w1, watched_fds := [], timeout_cb := None\<rparr>))"

text \<open>One turn of \<^verbatim>\<open>ThreadRoutine\<close>: the callbacks it makes, each with its descriptor. \<^verbatim>\<open>FD_SET\<close> needs a descriptor
  from 0 to 1023.\<close>

datatype sel = Sel_failed | Sel_timeout | Sel_ready "int list"

datatype 'cb turn = Timeout_call 'cb | Read_call int 'cb

definition fd_set_ok :: "int \<Rightarrow> bool" where
  "fd_set_ok fd \<longleftrightarrow> 0 \<le> fd \<and> fd < 1024"

definition select_nfds :: "'cb watcher \<Rightarrow> int" where
  "select_nfds w = max (notification_listen_fd w) (fold (\<lambda>e m. max m (fst e)) (watched_fds w) (-1)) + 1"

definition thread_turn :: "sel \<Rightarrow> 'cb watcher \<Rightarrow> ('cb watcher \<times> 'cb turn list) outcome" where
  "thread_turn s w =
     (if \<not> running w then Done (w, [])
      else if \<not> (fd_set_ok (notification_listen_fd w) \<and> list_all (\<lambda>e. fd_set_ok (fst e)) (watched_fds w)) then Outside
      else case s of
             Sel_failed \<Rightarrow> Done (w, [])
           | Sel_timeout \<Rightarrow>
               Done (w, if timeout_ms w > 0 then (case timeout_cb w of Some cb \<Rightarrow> [Timeout_call cb] | None \<Rightarrow> []) else [])
           | Sel_ready fds \<Rightarrow>
               if notification_listen_fd w \<in> set fds then Done (w\<lparr>pending := pending w - 1\<rparr>, [])
               else Done (w, map (\<lambda>(fd, cb). Read_call fd cb) (filter (\<lambda>e. fst e \<in> set fds) (watched_fds w))))"

section \<open>The HAL object\<close>

record os =
  os_fds :: "int list"
  os_bad :: "int list"
  os_heap :: "(nat \<times> string) list"
  os_next :: nat
  os_rfkill :: "(string \<times> char) list"

fun fd_do :: "fd_act \<Rightarrow> os \<Rightarrow> os" where
  "fd_do (Fd_open fd) k = k\<lparr>os_fds := fd # os_fds k\<rparr>"
| "fd_do (Fd_close fd) k =
     (if fd \<in> set (os_fds k) then k\<lparr>os_fds := remove1 fd (os_fds k)\<rparr> else k\<lparr>os_bad := os_bad k @ [fd]\<rparr>)"

datatype client_call = Link_death | Unlink_death | Init_success | Init_error

record hal =
  fd_watcher :: "int watcher"
  hci_handle :: "int option"
  bt_soc_fd :: int
  rfkill_state :: "nat option"
  unlink_set :: bool
  has_died :: bool
  hal_calls :: "client_call list"

definition defaultBoard :: string where "defaultBoard = ''rpi-3-b''"

definition rfkill_path :: "string \<Rightarrow> string" where
  "rfkill_path board =
     (if board = defaultBoard then ''/sys/devices/platform/soc/3f201000.serial/tty/ttyAMA0/hci0/rfkill1/state''
      else ''/sys/devices/platform/soc/3f201000.serial/tty/ttyAMA0/hci1/rfkill2/state'')"

text \<open>\<^verbatim>\<open>asprintf\<close> is taken to succeed.\<close>

definition findRfKill :: "string \<Rightarrow> hal \<times> os \<Rightarrow> int \<times> hal \<times> os" where
  "findRfKill board = (\<lambda>(h, k). (0, h\<lparr>rfkill_state := Some (os_next k)\<rparr>,
     k\<lparr>os_heap := (os_next k, rfkill_path board) # os_heap k, os_next := Suc (os_next k)\<rparr>))"

text \<open>The answers of the kernel: the descriptor of the file, and whether the \<^verbatim>\<open>write\<close> succeeds.\<close>

record rf_env =
  rf_fd :: "int option"
  rf_write :: bool

definition rfKill :: "string \<Rightarrow> rf_env \<Rightarrow> bool \<Rightarrow> hal \<times> os \<Rightarrow> int \<times> hal \<times> os" where
  "rfKill board e block hk =
     (case findRfKill board hk of (r, h, k) \<Rightarrow>
        if r \<noteq> 0 then (0, h, k)
        else case rf_fd e of
               None \<Rightarrow> (-1, h, k)
             | Some fd \<Rightarrow>
                 let k1 = fd_do (Fd_open fd) k
                 in if \<not> rf_write e then (-1, h, fd_do (Fd_close fd) k1)
                    else (0, h, fd_do (Fd_close fd) (k1\<lparr>os_rfkill := os_rfkill k1 @ [(rfkill_path board, if block then CHR ''1'' else CHR ''0'')]\<rparr>)))"

definition free_block :: "nat option \<Rightarrow> os \<Rightarrow> os" where
  "free_block p k = (case p of None \<Rightarrow> k | Some b \<Rightarrow> k\<lparr>os_heap := filter (\<lambda>e. fst e \<noteq> b) (os_heap k)\<rparr>)"

text \<open>\<open>None\<close>: still in \<^verbatim>\<open>waitHciDev\<close>.\<close>

record open_env =
  o_board :: string
  o_rf :: rf_env
  o_socket :: "int option"
  o_wait :: wait_env
  o_bind :: bool

definition openBtHci :: "open_env \<Rightarrow> hal \<times> os \<Rightarrow> (int option \<times> hal \<times> os) outcome" where
  "openBtHci e = (\<lambda>(h, k).
     let hci = (if o_board e \<noteq> defaultBoard then 1 else 0)
     in case rfKill (o_board e) (o_rf e) True (h\<lparr>rfkill_state := None\<rparr>, k) of (_, h1, k1) \<Rightarrow>
       (case o_socket e of
          None \<Rightarrow> Done (Some (-1), h1, k1)
        | Some fd \<Rightarrow>
            let h2 = h1\<lparr>bt_soc_fd := fd\<rparr>; k2 = fd_do (Fd_open fd) k1
            in case waitHciDev (o_wait e) hci of
                 Check_Failed \<Rightarrow> Check_Failed
               | Outside \<Rightarrow> Outside
               | Done (r, acts) \<Rightarrow>
                   let k3 = fold fd_do acts k2
                   in case r of
                        None \<Rightarrow> Done (None, h2, k3)
                      | Some v \<Rightarrow>
                          if v \<noteq> 0 then Done (Some (-1), h2, fd_do (Fd_close fd) k3)
                          else if \<not> o_bind e then Done (Some (-1), h2, fd_do (Fd_close fd) k3)
                          else Done (Some fd, h2, k3)))"

definition closeBtHci :: "string \<Rightarrow> rf_env \<Rightarrow> hal \<times> os \<Rightarrow> hal \<times> os" where
  "closeBtHci board e = (\<lambda>(h, k).
     let (h1, k1) = (if bt_soc_fd h \<noteq> -1 then (h\<lparr>bt_soc_fd := -1\<rparr>, fd_do (Fd_close (bt_soc_fd h)) k) else (h, k))
     in case rfKill board e False (h1, k1) of (_, h2, k2) \<Rightarrow> (h2, free_block (rfkill_state h2) k2))"

text \<open>\<open>cb\<close>: whether the client gave a callback. \<open>Done None\<close>: still in \<^verbatim>\<open>waitHciDev\<close>. The result of the watcher is not looked at.\<close>

definition initialize :: "open_env \<Rightarrow> (int \<times> int) option \<Rightarrow> bool \<Rightarrow> hal \<times> os \<Rightarrow> (hal \<times> os) option outcome" where
  "initialize e pipe cb = (\<lambda>(h, k).
     if \<not> cb then Done (Some (h, k))
     else
       case openBtHci e (h\<lparr>has_died := False, hal_calls := hal_calls h @ [Link_death]\<rparr>, k) of
         Check_Failed \<Rightarrow> Check_Failed
       | Outside \<Rightarrow> Outside
       | Done (None, h1, k1) \<Rightarrow> Done None
       | Done (Some hci_fd, h1, k1) \<Rightarrow>
           let h2 = h1\<lparr>hal_calls := hal_calls h1 @ [if hci_fd > 0 then Init_success else Init_error]\<rparr>
           in case WatchFdForNonBlockingReads pipe hci_fd hci_fd (fd_watcher h2) of
                Check_Failed \<Rightarrow> Check_Failed
              | Outside \<Rightarrow> Outside
              | Done (_, w, acts) \<Rightarrow>
                  Done (Some (h2\<lparr>fd_watcher := w, hci_handle := Some hci_fd, unlink_set := True\<rparr>, fold fd_do acts k1)))"

text \<open>Calling the empty function object before the first \<^verbatim>\<open>initialize\<close> throws, which ends the process here.\<close>

definition close_hal :: "string \<Rightarrow> rf_env \<Rightarrow> bool \<Rightarrow> hal \<times> os \<Rightarrow> (hal \<times> os) outcome" where
  "close_hal board e self = (\<lambda>(h, k).
     if \<not> unlink_set h then Check_Failed
     else
       let h1 = (if has_died h then h else h\<lparr>hal_calls := hal_calls h @ [Unlink_death]\<rparr>)
       in case stopThread self (fd_watcher h1) of
            Check_Failed \<Rightarrow> Check_Failed
          | Outside \<Rightarrow> Outside
          | Done w \<Rightarrow> Done (closeBtHci board e (h1\<lparr>fd_watcher := w, hci_handle := None\<rparr>, k)))"

definition serviceDied :: "string \<Rightarrow> rf_env \<Rightarrow> hal \<times> os \<Rightarrow> (hal \<times> os) outcome" where
  "serviceDied board e = (\<lambda>(h, k). close_hal board e False (h\<lparr>has_died := True\<rparr>, k))"

definition sendDataToController :: "wv list \<Rightarrow> u8 \<Rightarrow> u8 list \<Rightarrow> hal \<Rightarrow> (u32 \<times> u8 list) option outcome" where
  "sendDataToController ws ty data h = (case hci_handle h of None \<Rightarrow> Outside | Some fd \<Rightarrow> Done (Send ws ty data))"

definition sendHciCommand :: "wv list \<Rightarrow> u8 list \<Rightarrow> hal \<Rightarrow> (u32 \<times> u8 list) option outcome" where
  "sendHciCommand ws = sendDataToController ws 1"

definition sendAclData :: "wv list \<Rightarrow> u8 list \<Rightarrow> hal \<Rightarrow> (u32 \<times> u8 list) option outcome" where
  "sendAclData ws = sendDataToController ws 2"

definition sendScoData :: "wv list \<Rightarrow> u8 list \<Rightarrow> hal \<Rightarrow> (u32 \<times> u8 list) option outcome" where
  "sendScoData ws = sendDataToController ws 3"

subsection \<open>The watcher keeps its map\<close>

lemma map_put_keys: "set (map fst (map_put k v m)) = insert k (set (map fst m))"
  by (induction k v m rule: map_put.induct) (simp_all add: insert_commute)

lemma map_put_sorted:
  "sorted_wrt (<) (map fst m) \<Longrightarrow> sorted_wrt (<) (map fst (map_put k v m))"
proof (induction m)
  case (Cons e m)
  then show ?case using map_put_keys [of k v m] by (cases e) fastforce
qed simp

lemma map_put_lookup: "sorted_wrt (<) (map fst m) \<Longrightarrow> map_of (map_put k v m) = (map_of m)(k \<mapsto> v)"
proof (induction m)
  case (Cons e m)
  obtain k' v' where e: "e = (k', v')" by (cases e)
  have "k' \<notin> fst ` set m" using Cons.prems e by auto
  then show ?case using Cons e by (auto simp: fun_upd_def)
qed (simp add: fun_upd_def)

lemma fold_max_ge: "(m :: int) \<le> fold (\<lambda>e m. max m (fst e)) es m" "e \<in> set es \<Longrightarrow> fst e \<le> fold (\<lambda>e m. max m (fst e)) es m"
proof (induction es arbitrary: m)
  case (Cons x es)
  { case 1 then show ?case using Cons(1) [of "max m (fst x)"] by simp }
  { case 2 then show ?case using Cons(1) [of "max m (fst x)"] Cons(2) [of "max m (fst x)"] by auto }
qed simp_all

lemma select_nfds_above: "e \<in> set (watched_fds w) \<Longrightarrow> fst e < select_nfds w" "notification_listen_fd w < select_nfds w"
  using fold_max_ge(2) [of e "watched_fds w" "-1"] by (auto simp: select_nfds_def)

subsection \<open>Descriptors and strings\<close>

lemma fd_do_open_close [simp]: "fd_do (Fd_close fd) (fd_do (Fd_open fd) k) = k"
  by simp

lemma waitHciDev_closes:
  assumes "waitHciDev env hci = Done (Some v, acts)"
  shows "fold fd_do acts k = k"
proof -
  have "acts = [] \<or> (\<exists>fd. acts = [Fd_open fd, Fd_close fd])"
    using assms by (auto simp: waitHciDev_def split: option.splits if_splits outcome.splits)
  then show ?thesis using fd_do_open_close by auto
qed

lemma rfKill_effect:
  "\<exists>r k'. rfKill board e block (h, k) = (r, h\<lparr>rfkill_state := Some (os_next k)\<rparr>, k') \<and>
     os_fds k' = os_fds k \<and> os_bad k' = os_bad k \<and> os_heap k' = (os_next k, rfkill_path board) # os_heap k \<and>
     os_next k' = Suc (os_next k)"
  by (cases "rf_fd e"; cases "rf_write e") (simp_all add: rfKill_def findRfKill_def Let_def)

definition heap_ok :: "os \<Rightarrow> bool" where
  "heap_ok k \<longleftrightarrow> list_all (\<lambda>e. fst e < os_next k) (os_heap k)"

lemma closeBtHci_effect:
  assumes "heap_ok k"
  obtains h' k' where "closeBtHci board e (h, k) = (h', k')" and "bt_soc_fd h' = -1" and "hci_handle h' = hci_handle h"
    and "fd_watcher h' = fd_watcher h" and "os_heap k' = os_heap k"
    and "os_fds k' = os_fds (if bt_soc_fd h \<noteq> -1 then fd_do (Fd_close (bt_soc_fd h)) k else k)"
    and "os_bad k' = os_bad (if bt_soc_fd h \<noteq> -1 then fd_do (Fd_close (bt_soc_fd h)) k else k)"
proof -
  let ?k = "if bt_soc_fd h \<noteq> -1 then fd_do (Fd_close (bt_soc_fd h)) k else k"
  let ?h = "if bt_soc_fd h \<noteq> -1 then h\<lparr>bt_soc_fd := -1\<rparr> else h"
  have same: "os_heap ?k = os_heap k" "os_next ?k = os_next k" by auto
  obtain r k' where rf: "rfKill board e False (?h, ?k) = (r, ?h\<lparr>rfkill_state := Some (os_next ?k)\<rparr>, k')"
      "os_fds k' = os_fds ?k" "os_bad k' = os_bad ?k" "os_heap k' = (os_next ?k, rfkill_path board) # os_heap ?k"
    using rfKill_effect by blast
  have c: "closeBtHci board e (h, k) = (?h\<lparr>rfkill_state := Some (os_next ?k)\<rparr>, free_block (Some (os_next ?k)) k')"
    using rf(1) by (auto simp: closeBtHci_def Let_def split: if_splits)
  have hp: "os_heap (free_block (Some (os_next ?k)) k') = os_heap k"
    using rf(4) same assms by (auto simp: free_block_def heap_ok_def list_all_iff filter_id_conv)
  have f: "os_fds (free_block (Some (os_next ?k)) k') = os_fds ?k" "os_bad (free_block (Some (os_next ?k)) k') = os_bad ?k"
    using rf(2,3) by (simp_all add: free_block_def)
  show ?thesis by (rule that [OF c _ _ _ hp f]) simp_all
qed

text \<open>The device was opened: what \<^verbatim>\<open>initialize\<close> leaves, and the failed cases.\<close>

definition idle :: "hal \<Rightarrow> bool" where
  "idle h \<longleftrightarrow> \<not> running (fd_watcher h) \<and> \<not> thread (fd_watcher h) \<and> watched_fds (fd_watcher h) = []"

definition hci_interface :: "open_env \<Rightarrow> int" where
  "hci_interface e = (if o_board e \<noteq> defaultBoard then 1 else 0)"

lemma openBtHci_effect:
  assumes "o_socket e = Some fd" and "waitHciDev (o_wait e) (hci_interface e) = Done (Some v, acts)"
  shows "\<exists>k1. openBtHci e (h, k) =
      Done (if v = 0 \<and> o_bind e then (Some fd, h\<lparr>rfkill_state := Some (os_next k), bt_soc_fd := fd\<rparr>, fd_do (Fd_open fd) k1)
            else (Some (-1), h\<lparr>rfkill_state := Some (os_next k), bt_soc_fd := fd\<rparr>, k1)) \<and>
    os_fds k1 = os_fds k \<and> os_bad k1 = os_bad k \<and> os_heap k1 = (os_next k, rfkill_path (o_board e)) # os_heap k \<and>
    os_next k1 = Suc (os_next k)"
proof -
  obtain r k1 where rf: "rfKill (o_board e) (o_rf e) True (h\<lparr>rfkill_state := None\<rparr>, k) = (r, h\<lparr>rfkill_state := Some (os_next k)\<rparr>, k1)"
      "os_fds k1 = os_fds k" "os_bad k1 = os_bad k" "os_heap k1 = (os_next k, rfkill_path (o_board e)) # os_heap k"
      "os_next k1 = Suc (os_next k)"
    using rfKill_effect [of "o_board e" "o_rf e" True "h\<lparr>rfkill_state := None\<rparr>" k] by auto
  have "openBtHci e (h, k) =
      Done (if v = 0 \<and> o_bind e then (Some fd, h\<lparr>rfkill_state := Some (os_next k), bt_soc_fd := fd\<rparr>, fd_do (Fd_open fd) k1)
            else (Some (-1), h\<lparr>rfkill_state := Some (os_next k), bt_soc_fd := fd\<rparr>, k1))"
    using assms(2) rf(1) waitHciDev_closes [OF assms(2)]
    by (simp add: openBtHci_def hci_interface_def assms(1) Let_def del: fd_do.simps)
  then show ?thesis using rf by blast
qed

lemma initialize_effect:
  assumes "o_socket e = Some fd" and "waitHciDev (o_wait e) (hci_interface e) = Done (Some v, acts)" and "idle h"
  shows "\<exists>h1 k1. initialize e (Some (l, wr)) True (h, k) =
      Done (Some (h1, k1)) \<and> bt_soc_fd h1 = fd \<and> unlink_set h1 \<and> \<not> has_died h1 \<and> running (fd_watcher h1) \<and> thread (fd_watcher h1) \<and>
      hci_handle h1 = Some (if v = 0 \<and> o_bind e then fd else -1) \<and> map fst (watched_fds (fd_watcher h1)) = [if v = 0 \<and> o_bind e then fd else -1] \<and>
      hal_calls h1 = hal_calls h @ [Link_death, if v = 0 \<and> o_bind e \<and> fd > 0 then Init_success else Init_error] \<and>
      os_fds k1 = wr # l # (if v = 0 \<and> o_bind e then [fd] else []) @ os_fds k \<and> os_bad k1 = os_bad k \<and>
      os_heap k1 = (os_next k, rfkill_path (o_board e)) # os_heap k \<and> os_next k1 = Suc (os_next k)"
  using openBtHci_effect [OF assms(1,2), of "h\<lparr>has_died := False, hal_calls := hal_calls h @ [Link_death]\<rparr>" k] assms(3)
  by (cases "v = 0 \<and> o_bind e")
     (auto simp: initialize_def WatchFdForNonBlockingReads_def tryStartThread_def idle_def)

lemma close_hal_effect:
  assumes "heap_ok k" and "unlink_set h" and "running (fd_watcher h)" and "thread (fd_watcher h)" and "bt_soc_fd h \<noteq> -1"
  shows "\<exists>h2 k2. close_hal board rf False (h, k) = Done (h2, k2) \<and> hci_handle h2 = None \<and> bt_soc_fd h2 = -1 \<and> idle h2 \<and>
    os_heap k2 = os_heap k \<and> os_fds k2 = os_fds (fd_do (Fd_close (bt_soc_fd h)) k) \<and> os_bad k2 = os_bad (fd_do (Fd_close (bt_soc_fd h)) k)"
proof -
  obtain w where w: "stopThread False (fd_watcher h) = Done w" "\<not> running w" "\<not> thread w" "watched_fds w = []"
    using assms(3,4) by (auto simp: stopThread_def notifyThread_def)
  let ?g = "if has_died h then h else h\<lparr>hal_calls := hal_calls h @ [Unlink_death]\<rparr>"
  let ?h = "?g\<lparr>fd_watcher := w, hci_handle := None\<rparr>"
  have g: "fd_watcher ?g = fd_watcher h" "bt_soc_fd ?h = bt_soc_fd h" by simp_all
  obtain h2 k2 where c: "closeBtHci board rf (?h, k) = (h2, k2)" "bt_soc_fd h2 = -1" "hci_handle h2 = None" "fd_watcher h2 = w"
      "os_heap k2 = os_heap k" "os_fds k2 = os_fds (if bt_soc_fd ?h \<noteq> -1 then fd_do (Fd_close (bt_soc_fd ?h)) k else k)"
      "os_bad k2 = os_bad (if bt_soc_fd ?h \<noteq> -1 then fd_do (Fd_close (bt_soc_fd ?h)) k else k)"
    by (rule closeBtHci_effect [OF assms(1), of board rf ?h]) auto
  have "close_hal board rf False (h, k) = Done (h2, k2)" using assms(2) w(1) c(1) unfolding close_hal_def by (simp add: Let_def g)
  then show ?thesis using c w assms(5) unfolding g idle_def by auto
qed

text \<open>C19. A successful \<^verbatim>\<open>initialize\<close> and the \<^verbatim>\<open>close\<close> after it. The client hears of the success, the descriptor of the
  device is watched and used for sending; \<^verbatim>\<open>close\<close> ends the watcher and releases that descriptor, and no descriptor is
  closed that is not open. What stays behind is exactly the two descriptors of the notification pipe and one string.\<close>

theorem hal_open_close:
  assumes "o_socket e = Some fd" and "0 < fd" and "fd \<noteq> l" and "fd \<noteq> wr"
    and "waitHciDev (o_wait e) (hci_interface e) = Done (Some 0, acts)" and "o_bind e" and "idle h" and "heap_ok k"
  shows "\<exists>h1 k1 h2 k2.
    initialize e (Some (l, wr)) True (h, k) = Done (Some (h1, k1)) \<and> hci_handle h1 = Some fd \<and>
    hal_calls h1 = hal_calls h @ [Link_death, Init_success] \<and> map fst (watched_fds (fd_watcher h1)) = [fd] \<and>
    close_hal board rf False (h1, k1) = Done (h2, k2) \<and> hci_handle h2 = None \<and> bt_soc_fd h2 = -1 \<and> idle h2 \<and>
    os_bad k2 = os_bad k \<and> os_fds k2 = wr # l # os_fds k \<and> os_heap k2 = (os_next k, rfkill_path (o_board e)) # os_heap k"
proof -
  obtain h1 k1 where i: "initialize e (Some (l, wr)) True (h, k) = Done (Some (h1, k1))" "bt_soc_fd h1 = fd" "unlink_set h1"
      "running (fd_watcher h1)" "thread (fd_watcher h1)" "hci_handle h1 = Some fd" "map fst (watched_fds (fd_watcher h1)) = [fd]"
      "hal_calls h1 = hal_calls h @ [Link_death, Init_success]" "os_fds k1 = wr # l # fd # os_fds k" "os_bad k1 = os_bad k"
      "os_heap k1 = (os_next k, rfkill_path (o_board e)) # os_heap k" "os_next k1 = Suc (os_next k)"
    using initialize_effect [OF assms(1,5,7), of l wr k] assms(2,6) by auto
  have hp: "heap_ok k1" using assms(8) i(11,12) by (auto simp: heap_ok_def list_all_iff)
  show ?thesis using close_hal_effect [OF hp i(3-5), of board rf] i assms(2-4) by auto
qed

text \<open>C39. When the device is not found or cannot be bound, \<^verbatim>\<open>initialize\<close> reports the error and goes on: it has closed the socket but
  keeps its number, and watches descriptor -1. Whatever \<^verbatim>\<open>select\<close> would answer, the first turn of the watcher leaves the
  descriptor set; and \<^verbatim>\<open>close\<close> closes a descriptor that is not open any more.\<close>

theorem hal_failed_open:
  assumes "o_socket e = Some fd" and "0 < fd" and "fd \<notin> {l, wr} \<union> set (os_fds k)"
    and "waitHciDev (o_wait e) (hci_interface e) = Done (Some v, acts)" and "v \<noteq> 0 \<or> \<not> o_bind e" and "idle h" and "heap_ok k"
  shows "\<exists>h1 k1 h2 k2.
    initialize e (Some (l, wr)) True (h, k) = Done (Some (h1, k1)) \<and> hal_calls h1 = hal_calls h @ [Link_death, Init_error] \<and>
    fd \<notin> set (os_fds k1) \<and> (\<forall>s. thread_turn s (fd_watcher h1) = Outside) \<and>
    close_hal board rf False (h1, k1) = Done (h2, k2) \<and> os_bad k2 = os_bad k @ [fd]"
proof -
  obtain h1 k1 where i: "initialize e (Some (l, wr)) True (h, k) = Done (Some (h1, k1))" "bt_soc_fd h1 = fd" "unlink_set h1"
      "running (fd_watcher h1)" "thread (fd_watcher h1)" "map fst (watched_fds (fd_watcher h1)) = [-1]"
      "hal_calls h1 = hal_calls h @ [Link_death, Init_error]" "os_fds k1 = wr # l # os_fds k" "os_bad k1 = os_bad k"
      "os_heap k1 = (os_next k, rfkill_path (o_board e)) # os_heap k" "os_next k1 = Suc (os_next k)"
    using initialize_effect [OF assms(1,4,6), of l wr k] assms(5) by auto
  have hp: "heap_ok k1" using assms(7) i(10,11) by (auto simp: heap_ok_def list_all_iff)
  have "thread_turn s (fd_watcher h1) = Outside" for s
    using i(4,6) by (auto simp: thread_turn_def fd_set_ok_def)
  then show ?thesis using close_hal_effect [OF hp i(3-5), of board rf] i assms(2,3) by auto
qed

text \<open>A client that died is not unlinked; everything else is as in \<^verbatim>\<open>close\<close>.\<close>

lemma serviceDied_closes:
  assumes "heap_ok k" and "unlink_set h" and "running (fd_watcher h)" and "thread (fd_watcher h)" and "bt_soc_fd h \<noteq> -1"
  shows "\<exists>h2 k2. serviceDied board rf (h, k) = Done (h2, k2) \<and> idle h2 \<and> hci_handle h2 = None \<and> hal_calls h2 = hal_calls h"
proof -
  have calls: "hal_calls (fst (closeBtHci board rf (g, k'))) = hal_calls g" for g k'
    using rfKill_effect [of board rf False "g\<lparr>bt_soc_fd := -1\<rparr>" "fd_do (Fd_close (bt_soc_fd g)) k'"] rfKill_effect [of board rf False g k']
    by (auto simp: closeBtHci_def Let_def split: prod.split)
  let ?h = "h\<lparr>has_died := True\<rparr>"
  obtain h2 k2 where c: "close_hal board rf False (?h, k) = Done (h2, k2)" "hci_handle h2 = None" "idle h2"
    using close_hal_effect [OF assms(1), of ?h board rf] assms(2-5) by auto
  then obtain w where "closeBtHci board rf (?h\<lparr>fd_watcher := w, hci_handle := None\<rparr>, k) = (h2, k2)"
    using assms(2) by (auto simp: close_hal_def Let_def split: outcome.splits)
  then have "hal_calls h2 = hal_calls h" using calls [of "?h\<lparr>fd_watcher := w, hci_handle := None\<rparr>" k] by simp
  then show ?thesis using c by (auto simp: serviceDied_def)
qed

text \<open>Sending needs an initialised object: without one the code uses a null pointer. Else the whole message goes
  out once \<^verbatim>\<open>writev\<close> takes it.\<close>

lemma hal_sends:
  assumes "set ws \<subseteq> {Wv_EINTR, Wv_EAGAIN}"
  shows "hci_handle h = Some fd \<Longrightarrow> sendHciCommand (ws @ [Wv (1 + length data)]) data h = Done (Some (of_nat (1 + length data), 1 # data))"
    and "hci_handle h = Some fd \<Longrightarrow> sendAclData (ws @ [Wv (1 + length data)]) data h = Done (Some (of_nat (1 + length data), 2 # data))"
    and "hci_handle h = Some fd \<Longrightarrow> sendScoData (ws @ [Wv (1 + length data)]) data h = Done (Some (of_nat (1 + length data), 3 # data))"
    and "hci_handle h = None \<Longrightarrow> sendDataToController ws' ty data h = Outside"
  using Send_answer(1) [OF assms, of "1 + length data" "[]"]
  by (simp_all add: sendHciCommand_def sendAclData_def sendScoData_def sendDataToController_def)

definition demo_open :: "bool \<Rightarrow> open_env" where
  "demo_open b = \<lparr>o_board = ''rpi-3-b'', o_rf = \<lparr>rf_fd = Some 5, rf_write = True\<rparr>, o_socket = Some 5, o_wait = demo_wait, o_bind = b\<rparr>"

definition demo_hal :: hal where
  "demo_hal = \<lparr>fd_watcher = \<lparr>running = False, thread = False, watched_fds = [], notification_listen_fd = 0, notification_write_fd = 0,
     pending = 0, timeout_ms = 0, timeout_cb = None\<rparr>, hci_handle = None, bt_soc_fd = 0, rfkill_state = None, unlink_set = False,
     has_died = False, hal_calls = []\<rparr>"

definition demo_os :: os where
  "demo_os = \<lparr>os_fds = [2, 1, 0], os_bad = [], os_heap = [], os_next = 0, os_rfkill = []\<rparr>"

lemma demo_wait_found: "waitHciDev demo_wait (hci_interface (demo_open b)) = Done (Some 0, [Fd_open 7, Fd_close 7])"
proof -
  have "hci_interface (demo_open b) = 0" by (simp add: hci_interface_def demo_open_def defaultBoard_def)
  moreover have "wait_loop 0 (w_in demo_wait) (index_list_command @ w_data demo_wait) = Done (Some 0)"
    using wait_loop_spec [of "[Turn_message (Index_list [1, 2]), Turn_nothing, Turn_message (Index_added 0 [])]" "w_in demo_wait"
        "index_list_command @ w_data demo_wait" 0]
    by (simp add: demo_wait_def index_list_command_def MGMT_EV_SIZE_MAX_def)
  ultimately show ?thesis by (simp add: waitHciDev_def) (simp add: demo_wait_def)
qed

lemma demo_idle: "idle demo_hal" "heap_ok demo_os"
  by (simp_all add: idle_def demo_hal_def heap_ok_def demo_os_def)

theorem hal_open_close_witness:
  "\<exists>h1 k1 h2 k2. initialize (demo_open True) (Some (6, 8)) True (demo_hal, demo_os) = Done (Some (h1, k1)) \<and>
     close_hal ''rpi-3-b'' \<lparr>rf_fd = None, rf_write = True\<rparr> False (h1, k1) = Done (h2, k2) \<and> os_bad k2 = [] \<and> os_fds k2 = [8, 6, 2, 1, 0]"
proof -
  have e: "o_socket (demo_open True) = Some 5" "o_wait (demo_open True) = demo_wait" "o_bind (demo_open True)"
    by (simp_all add: demo_open_def)
  have k: "os_bad demo_os = []" "os_fds demo_os = [2, 1, 0]" by (simp_all add: demo_os_def)
  show ?thesis
    using hal_open_close [of "demo_open True" 5 6 8 _ demo_hal demo_os "''rpi-3-b''" "\<lparr>rf_fd = None, rf_write = True\<rparr>", OF e(1) _ _ _ _ e(3) demo_idle,
        unfolded e(2), OF _ _ _ demo_wait_found] unfolding k by auto
qed

theorem hal_failed_open_witness:
  "\<exists>h1 k1 h2 k2. initialize (demo_open False) (Some (6, 8)) True (demo_hal, demo_os) = Done (Some (h1, k1)) \<and>
     thread_turn Sel_timeout (fd_watcher h1) = Outside \<and>
     close_hal ''rpi-3-b'' \<lparr>rf_fd = None, rf_write = True\<rparr> False (h1, k1) = Done (h2, k2) \<and> os_bad k2 = [5]"
proof -
  have e: "o_socket (demo_open False) = Some 5" "o_wait (demo_open False) = demo_wait" "\<not> o_bind (demo_open False)"
    by (simp_all add: demo_open_def)
  have k: "os_bad demo_os = []" "os_fds demo_os = [2, 1, 0]" by (simp_all add: demo_os_def)
  show ?thesis
    using hal_failed_open [of "demo_open False" 5 6 8 demo_os 0 _ demo_hal "''rpi-3-b''" "\<lparr>rf_fd = None, rf_write = True\<rparr>", OF e(1),
        unfolded e(2), OF _ _ demo_wait_found _ demo_idle] e(3) unfolding k by auto
qed

end
