(* ===== verification/Fd_Bo.thy ===== *)
theory Fd_Bo
  imports Prelude "HOL-Library.Monad_Syntax"
begin

text \<open>
  Buffer objects of freedreno and their cache: \<^verbatim>\<open>freedreno_bo_cache.c\<close>, \<^verbatim>\<open>freedreno_bo.c\<close> and the references to the device of
  \<^verbatim>\<open>freedreno_device.c\<close>. The tables of handles and names are the maps that the hash table implements (\<open>Drm_Hash\<close>). A
  bucket is the list of its objects; the link of an object is in a bucket, points to itself, or is stale, after
  \<^verbatim>\<open>list_del\<close>, which leaves its pointers as they were. Calls run one at a time, as under \<^verbatim>\<open>table_lock\<close>. \<open>None\<close>: an
  object or device that is gone is used, a stale link is followed, or an assertion fails.
\<close>

section \<open>Objects, caches and the device\<close>

datatype reuse = NO_CACHE | BO_CACHE | RING_CACHE

datatype link = Self | In_bucket | Stale

record fd_bo =
  bo_size :: u32
  bo_handle :: u32
  bo_name :: u32
  bo_refcnt :: int
  bo_reuse :: reuse
  bo_list :: link
  free_time :: int

record fd_bo_bucket =
  bk_size :: u32
  bk_list :: "addr list"

record fd_bo_cache =
  cache_bucket :: "fd_bo_bucket list"
  cache_time :: int

text \<open>\<open>alive\<close>: the device has not been destroyed; \<open>gem_closed\<close>: the handles given back to the kernel.\<close>

record fd_device =
  dev_refcnt :: int
  alive :: bool
  bos :: "addr \<rightharpoonup> fd_bo"
  handle_table :: "u32 \<rightharpoonup> addr"
  name_table :: "u32 \<rightharpoonup> addr"
  bo_cache :: fd_bo_cache
  ring_cache :: fd_bo_cache
  gem_closed :: "u32 list"

section \<open>The cache\<close>

definition add_bucket :: "u32 \<Rightarrow> fd_bo_cache \<Rightarrow> fd_bo_cache option" where
  "add_bucket sz c =
     (if length (cache_bucket c) < 14 * 4 then Some (c\<lparr>cache_bucket := cache_bucket c @ [\<lparr>bk_size = sz, bk_list = []\<rparr>]\<rparr>)
      else None)"

definition cache_max_size :: u32 where "cache_max_size = 64 * 1024 * 1024"

partial_function (option) cache_init_loop :: "bool \<Rightarrow> u32 \<Rightarrow> fd_bo_cache \<Rightarrow> fd_bo_cache option" where
  "cache_init_loop coarse sz c =
     (if sz \<le> cache_max_size then
        do {
          c1 \<leftarrow> add_bucket sz c;
          c2 \<leftarrow> (if coarse then Some c1
                else do {
                  c3 \<leftarrow> add_bucket (sz + sz * 1 div 4) c1;
                  c4 \<leftarrow> add_bucket (sz + sz * 2 div 4) c3;
                  add_bucket (sz + sz * 3 div 4) c4
                });
          cache_init_loop coarse (sz * 2) c2
        }
      else Some c)"

definition fd_bo_cache_init :: "bool \<Rightarrow> fd_bo_cache option" where
  "fd_bo_cache_init coarse =
     do {
       c1 \<leftarrow> add_bucket 4096 \<lparr>cache_bucket = [], cache_time = 0\<rparr>;
       c2 \<leftarrow> add_bucket (4096 * 2) c1;
       c3 \<leftarrow> (if coarse then Some c2 else add_bucket (4096 * 3) c2);
       cache_init_loop coarse (4 * 4096) c3
     }"

definition bo_del :: "addr \<Rightarrow> fd_device \<Rightarrow> fd_device option" where
  "bo_del a d =
     do {
       b \<leftarrow> bos d a;
       Some (let d1 = (if bo_handle b \<noteq> 0 then
                d\<lparr>handle_table := (handle_table d)(bo_handle b := None),
                  name_table := (if bo_name b \<noteq> 0 then (name_table d)(bo_name b := None) else name_table d),
                  gem_closed := gem_closed d @ [bo_handle b]\<rparr>
              else d)
             in d1\<lparr>bos := (bos d1)(a := None)\<rparr>)
     }"

text \<open>The loop of \<^verbatim>\<open>fd_bo_cache_cleanup\<close> over the list of a bucket, and the one over the buckets.\<close>

fun cleanup_list :: "int \<Rightarrow> addr list \<Rightarrow> fd_device \<Rightarrow> (addr list \<times> fd_device) option" where
  "cleanup_list time [] d = Some ([], d)"
| "cleanup_list time (a # as) d =
     (case bos d a of
        None \<Rightarrow> None
      | Some b \<Rightarrow>
          if time \<noteq> 0 \<and> time - free_time b \<le> 1 then Some (a # as, d)
          else (case bo_del a d of None \<Rightarrow> None | Some d1 \<Rightarrow> cleanup_list time as d1))"

fun cleanup_buckets :: "int \<Rightarrow> fd_bo_bucket list \<Rightarrow> fd_device \<Rightarrow> (fd_bo_bucket list \<times> fd_device) option" where
  "cleanup_buckets time [] d = Some ([], d)"
| "cleanup_buckets time (k # ks) d =
     (case cleanup_list time (bk_list k) d of
        None \<Rightarrow> None
      | Some (as, d1) \<Rightarrow>
          (case cleanup_buckets time ks d1 of
             None \<Rightarrow> None
           | Some (ks', d2) \<Rightarrow> Some (k\<lparr>bk_list := as\<rparr> # ks', d2)))"

text \<open>The cache of the device that is meant; \<^verbatim>\<open>NO_CACHE\<close> does not occur.\<close>

definition cache_of :: "reuse \<Rightarrow> fd_device \<Rightarrow> fd_bo_cache" where
  "cache_of r d = (if r = RING_CACHE then ring_cache d else bo_cache d)"

definition set_cache :: "reuse \<Rightarrow> fd_bo_cache \<Rightarrow> fd_device \<Rightarrow> fd_device" where
  "set_cache r c d = (if r = RING_CACHE then d\<lparr>ring_cache := c\<rparr> else d\<lparr>bo_cache := c\<rparr>)"

definition fd_bo_cache_cleanup :: "reuse \<Rightarrow> int \<Rightarrow> fd_device \<Rightarrow> fd_device option" where
  "fd_bo_cache_cleanup r time d =
     (let c = cache_of r d
      in if cache_time c = time then Some d
         else case cleanup_buckets time (cache_bucket c) d of
                None \<Rightarrow> None
              | Some (ks, d1) \<Rightarrow> Some (set_cache r (c\<lparr>cache_bucket := ks, cache_time := time\<rparr>) d1))"

text \<open>The index of the first bucket that is large enough.\<close>

fun get_bucket_from :: "nat \<Rightarrow> fd_bo_bucket list \<Rightarrow> u32 \<Rightarrow> nat option" where
  "get_bucket_from i [] sz = None"
| "get_bucket_from i (k # ks) sz = (if bk_size k \<ge> sz then Some i else get_bucket_from (Suc i) ks sz)"

definition get_bucket :: "fd_bo_cache \<Rightarrow> u32 \<Rightarrow> nat option" where
  "get_bucket c sz = get_bucket_from 0 (cache_bucket c) sz"

text \<open>\<^verbatim>\<open>find_in_bucket\<close> and the retries of \<^verbatim>\<open>fd_bo_cache_alloc\<close> on the list of a bucket: the object, if the oldest one is idle and
  still has its pages, and the list that is left. An idle object without pages is deleted, and the next one tried.\<close>

fun take_from_list ::
  "(addr \<Rightarrow> bool) \<Rightarrow> (addr \<Rightarrow> bool) \<Rightarrow> addr list \<Rightarrow> fd_device \<Rightarrow> (addr option \<times> addr list \<times> fd_device) option" where
  "take_from_list idle keeps [] d = Some (None, [], d)"
| "take_from_list idle keeps (a # as) d =
     (case bos d a of
        None \<Rightarrow> None
      | Some b \<Rightarrow>
          if \<not> idle a then Some (None, a # as, d)
          else if \<not> keeps a then (case bo_del a d of None \<Rightarrow> None | Some d1 \<Rightarrow> take_from_list idle keeps as d1)
          else Some (Some a, as, d\<lparr>bos := (bos d)(a \<mapsto> b\<lparr>bo_list := Stale, bo_refcnt := 1\<rparr>), dev_refcnt := dev_refcnt d + 1\<rparr>))"

definition fd_bo_cache_alloc ::
  "(addr \<Rightarrow> bool) \<Rightarrow> (addr \<Rightarrow> bool) \<Rightarrow> reuse \<Rightarrow> u32 \<Rightarrow> fd_device \<Rightarrow> (addr option \<times> u32 \<times> fd_device) option" where
  "fd_bo_cache_alloc idle keeps r sz0 d =
     (let sz = ALIGN sz0 4096; c = cache_of r d
      in case get_bucket c sz of
           None \<Rightarrow> Some (None, sz, d)
         | Some i \<Rightarrow>
             let k = cache_bucket c ! i
             in case take_from_list idle keeps (bk_list k) d of
                  None \<Rightarrow> None
                | Some (a, as, d1) \<Rightarrow>
                    Some (a, bk_size k, set_cache r (c\<lparr>cache_bucket := (cache_bucket c)[i := k\<lparr>bk_list := as\<rparr>]\<rparr>) d1))"

text \<open>The last reference: only the buffer cache is emptied, then the tables and the device are destroyed.\<close>

definition fd_device_del_impl :: "fd_device \<Rightarrow> fd_device option" where
  "fd_device_del_impl d =
     do {
       d1 \<leftarrow> fd_bo_cache_cleanup BO_CACHE 0 d;
       Some (d1\<lparr>handle_table := Map.empty, name_table := Map.empty, alive := False\<rparr>)
     }"

definition fd_device_del_locked :: "fd_device \<Rightarrow> fd_device option" where
  "fd_device_del_locked d =
     (let d1 = d\<lparr>dev_refcnt := dev_refcnt d - 1\<rparr>
      in if \<not> alive d then None else if dev_refcnt d1 \<noteq> 0 then Some d1 else fd_device_del_impl d1)"

definition fd_bo_cache_free :: "reuse \<Rightarrow> int \<Rightarrow> addr \<Rightarrow> fd_device \<Rightarrow> (int \<times> fd_device) option" where
  "fd_bo_cache_free r time a d =
     do {
       b \<leftarrow> bos d a;
       let c = cache_of r d in
       (case get_bucket c (bo_size b) of
          None \<Rightarrow> Some (-1, d)
        | Some i \<Rightarrow>
            do {
              let k = cache_bucket c ! i;
              let d1 = set_cache r (c\<lparr>cache_bucket := (cache_bucket c)[i := k\<lparr>bk_list := bk_list k @ [a]\<rparr>]\<rparr>)
                (d\<lparr>bos := (bos d)(a \<mapsto> b\<lparr>free_time := time, bo_list := In_bucket\<rparr>)\<rparr>);
              d2 \<leftarrow> fd_bo_cache_cleanup r time d1;
              _ \<leftarrow> bos d2 a;
              d3 \<leftarrow> fd_device_del_locked d2;
              Some (0, d3)
            })
     }"

section \<open>Buffer objects\<close>

definition hash_insert :: "u32 \<Rightarrow> addr \<Rightarrow> (u32 \<rightharpoonup> addr) \<Rightarrow> (u32 \<rightharpoonup> addr)" where
  "hash_insert k v t = (if t k = None then t(k \<mapsto> v) else t)"

definition set_name :: "addr \<Rightarrow> u32 \<Rightarrow> fd_device \<Rightarrow> fd_device option" where
  "set_name a name d =
     do {
       b \<leftarrow> bos d a;
       Some (d\<lparr>bos := (bos d)(a \<mapsto> b\<lparr>bo_name := name\<rparr>), name_table := hash_insert name a (name_table d)\<rparr>)
     }"

definition fd_bo_ref :: "addr \<Rightarrow> fd_device \<Rightarrow> fd_device option" where
  "fd_bo_ref a d = do { b \<leftarrow> bos d a; Some (d\<lparr>bos := (bos d)(a \<mapsto> b\<lparr>bo_refcnt := bo_refcnt b + 1\<rparr>)\<rparr>) }"

definition cache_remove :: "addr \<Rightarrow> fd_bo_cache \<Rightarrow> fd_bo_cache" where
  "cache_remove a c = c\<lparr>cache_bucket := map (\<lambda>k. k\<lparr>bk_list := removeAll a (bk_list k)\<rparr>) (cache_bucket c)\<rparr>"

definition list_delinit :: "addr \<Rightarrow> fd_device \<Rightarrow> fd_device option" where
  "list_delinit a d =
     do {
       b \<leftarrow> bos d a;
       (case bo_list b of
          Self \<Rightarrow> Some d
        | In_bucket \<Rightarrow> Some (d\<lparr>bos := (bos d)(a \<mapsto> b\<lparr>bo_list := Self\<rparr>),
            bo_cache := cache_remove a (bo_cache d), ring_cache := cache_remove a (ring_cache d)\<rparr>)
        | Stale \<Rightarrow> None)
     }"

definition lookup_bo :: "addr option \<Rightarrow> fd_device \<Rightarrow> (addr option \<times> fd_device) option" where
  "lookup_bo found d =
     (case found of
        None \<Rightarrow> Some (None, d)
      | Some a \<Rightarrow> do { d1 \<leftarrow> fd_bo_ref a d; d2 \<leftarrow> list_delinit a d1; Some (Some a, d2) })"

text \<open>\<open>mem\<close>: the object that the driver allocates, if it can.\<close>

definition bo_from_handle :: "addr option \<Rightarrow> u32 \<Rightarrow> u32 \<Rightarrow> fd_device \<Rightarrow> addr option \<times> fd_device" where
  "bo_from_handle mem sz handle d =
     (case mem of
        None \<Rightarrow> (None, d\<lparr>gem_closed := gem_closed d @ [handle]\<rparr>)
      | Some a \<Rightarrow> (Some a, d\<lparr>dev_refcnt := dev_refcnt d + 1,
          bos := (bos d)(a \<mapsto> \<lparr>bo_size = sz, bo_handle = handle, bo_name = 0, bo_refcnt = 1, bo_reuse = NO_CACHE, bo_list = Self,
            free_time = 0\<rparr>),
          handle_table := hash_insert handle a (handle_table d)\<rparr>))"

text \<open>What kernel and driver answer to a call.\<close>

record fd_env =
  e_idle :: "addr \<Rightarrow> bool"
  e_keeps :: "addr \<Rightarrow> bool"
  e_mem :: "addr option"
  e_handle :: "u32 option"
  e_size :: u32
  e_name :: "u32 option"
  e_time :: int

definition bo_new :: "fd_env \<Rightarrow> reuse \<Rightarrow> u32 \<Rightarrow> fd_device \<Rightarrow> (addr option \<times> fd_device) option" where
  "bo_new e r sz0 d =
     (case fd_bo_cache_alloc (e_idle e) (e_keeps e) r sz0 d of
        None \<Rightarrow> None
      | Some (Some a, sz, d1) \<Rightarrow> Some (Some a, d1)
      | Some (None, sz, d1) \<Rightarrow>
          (case e_handle e of
             None \<Rightarrow> Some (None, d1)
           | Some h \<Rightarrow> Some (bo_from_handle (e_mem e) sz h d1)))"

definition set_reuse :: "reuse \<Rightarrow> addr \<Rightarrow> fd_device \<Rightarrow> fd_device option" where
  "set_reuse r a d = do { b \<leftarrow> bos d a; Some (d\<lparr>bos := (bos d)(a \<mapsto> b\<lparr>bo_reuse := r\<rparr>)\<rparr>) }"

definition bo_new_in :: "fd_env \<Rightarrow> reuse \<Rightarrow> u32 \<Rightarrow> fd_device \<Rightarrow> (addr option \<times> fd_device) option" where
  "bo_new_in e r sz d =
     (case bo_new e r sz d of
        None \<Rightarrow> None
      | Some (None, d1) \<Rightarrow> Some (None, d1)
      | Some (Some a, d1) \<Rightarrow> do { d2 \<leftarrow> set_reuse r a d1; Some (Some a, d2) })"

definition fd_bo_new :: "fd_env \<Rightarrow> u32 \<Rightarrow> fd_device \<Rightarrow> (addr option \<times> fd_device) option" where
  "fd_bo_new e sz d = bo_new_in e BO_CACHE sz d"

definition fd_bo_new_ring :: "fd_env \<Rightarrow> u32 \<Rightarrow> fd_device \<Rightarrow> (addr option \<times> fd_device) option" where
  "fd_bo_new_ring e sz d = bo_new_in e RING_CACHE sz d"

definition fd_bo_from_handle :: "fd_env \<Rightarrow> u32 \<Rightarrow> u32 \<Rightarrow> fd_device \<Rightarrow> (addr option \<times> fd_device) option" where
  "fd_bo_from_handle e handle sz d =
     (case lookup_bo (handle_table d handle) d of
        None \<Rightarrow> None
      | Some (Some a, d1) \<Rightarrow> Some (Some a, d1)
      | Some (None, d1) \<Rightarrow> Some (bo_from_handle (e_mem e) sz handle d1))"

text \<open>\<open>e_handle\<close> is the handle of the descriptor, \<open>e_size\<close> the result of \<^verbatim>\<open>lseek\<close>.\<close>

definition fd_bo_from_dmabuf :: "fd_env \<Rightarrow> fd_device \<Rightarrow> (addr option \<times> fd_device) option" where
  "fd_bo_from_dmabuf e d =
     (case e_handle e of
        None \<Rightarrow> Some (None, d)
      | Some h \<Rightarrow> fd_bo_from_handle e h (e_size e) d)"

definition fd_bo_from_name :: "fd_env \<Rightarrow> u32 \<Rightarrow> fd_device \<Rightarrow> (addr option \<times> fd_device) option" where
  "fd_bo_from_name e name d =
     (case lookup_bo (name_table d name) d of
        None \<Rightarrow> None
      | Some (Some a, d1) \<Rightarrow> Some (Some a, d1)
      | Some (None, d1) \<Rightarrow>
          (case e_handle e of
             None \<Rightarrow> Some (None, d1)
           | Some h \<Rightarrow>
               (case lookup_bo (handle_table d1 h) d1 of
                  None \<Rightarrow> None
                | Some (Some a, d2) \<Rightarrow> Some (Some a, d2)
                | Some (None, d2) \<Rightarrow>
                    (case bo_from_handle (e_mem e) (e_size e) h d2 of
                       (None, d3) \<Rightarrow> Some (None, d3)
                     | (Some a, d3) \<Rightarrow> do { d4 \<leftarrow> set_name a name d3; Some (Some a, d4) }))))"

definition fd_bo_del :: "fd_env \<Rightarrow> addr \<Rightarrow> fd_device \<Rightarrow> fd_device option" where
  "fd_bo_del e a d =
     do {
       b \<leftarrow> bos d a;
       let d1 = d\<lparr>bos := (bos d)(a \<mapsto> b\<lparr>bo_refcnt := bo_refcnt b - 1\<rparr>)\<rparr> in
       if bo_refcnt b - 1 \<noteq> 0 then Some d1
       else
         do {
           (r, d2) \<leftarrow> (if bo_reuse b = NO_CACHE then Some (-1, d1) else fd_bo_cache_free (bo_reuse b) (e_time e) a d1);
           if r = 0 then Some d2 else do { d3 \<leftarrow> bo_del a d2; fd_device_del_locked d3 }
         }
     }"

definition fd_bo_get_name :: "fd_env \<Rightarrow> addr \<Rightarrow> fd_device \<Rightarrow> (u32 option \<times> fd_device) option" where
  "fd_bo_get_name e a d =
     do {
       b \<leftarrow> bos d a;
       if bo_name b \<noteq> 0 then Some (Some (bo_name b), d)
       else (case e_name e of
               None \<Rightarrow> Some (None, d)
             | Some n \<Rightarrow> do { d1 \<leftarrow> set_name a n d; d2 \<leftarrow> set_reuse NO_CACHE a d1; Some (Some n, d2) })
     }"

text \<open>\<open>ok\<close>: the kernel gave a descriptor.\<close>

definition fd_bo_dmabuf :: "bool \<Rightarrow> addr \<Rightarrow> fd_device \<Rightarrow> fd_device option" where
  "fd_bo_dmabuf ok a d = (if ok then set_reuse NO_CACHE a d else Some d)"

definition fd_device_new :: "fd_device option" where
  "fd_device_new =
     do {
       c \<leftarrow> fd_bo_cache_init False;
       r \<leftarrow> fd_bo_cache_init True;
       Some \<lparr>dev_refcnt = 1, alive = True, bos = Map.empty, handle_table = Map.empty, name_table = Map.empty,
         bo_cache = c, ring_cache = r, gem_closed = []\<rparr>
     }"

definition fd_device_ref :: "fd_device \<Rightarrow> fd_device" where
  "fd_device_ref d = d\<lparr>dev_refcnt := dev_refcnt d + 1\<rparr>"

section \<open>The buckets\<close>

declare cache_init_loop.simps [code]

definition bucket_sizes :: "reuse \<Rightarrow> u32 list" where
  "bucket_sizes r = (case fd_bo_cache_init (r = RING_CACHE) of None \<Rightarrow> [] | Some c \<Rightarrow> map bk_size (cache_bucket c))"

definition init_good :: "bool \<Rightarrow> bool" where
  "init_good coarse = (case fd_bo_cache_init coarse of None \<Rightarrow> False
     | Some c \<Rightarrow> list_all (\<lambda>k. bk_list k = []) (cache_bucket c) \<and> sorted_wrt (<) (map bk_size (cache_bucket c)))"

lemma init_good_both: "init_good True \<and> init_good False"
  by code_simp

lemma init_buckets:
  "\<exists>c. fd_bo_cache_init coarse = Some c \<and> list_all (\<lambda>k. bk_list k = []) (cache_bucket c) \<and> sorted_wrt (<) (map bk_size (cache_bucket c))"
  using init_good_both by (cases coarse) (auto simp: init_good_def split: option.splits)

lemma bucket_sizes_sorted: "sorted_wrt (<) (bucket_sizes r)"
  using init_buckets [of "r = RING_CACHE"] by (auto simp: bucket_sizes_def)

text \<open>The first bucket that is large enough, on the sizes alone.\<close>

lemma get_bucket_from_Some:
  "get_bucket_from j ks sz = Some i \<Longrightarrow>
   j \<le> i \<and> i < j + length ks \<and> sz \<le> bk_size (ks ! (i - j)) \<and> (\<forall>l < i - j. bk_size (ks ! l) < sz)"
proof (induction j ks sz rule: get_bucket_from.induct)
  case (2 j k ks sz)
  show ?case
  proof (cases "sz \<le> bk_size k")
    case False
    then have "get_bucket_from (Suc j) ks sz = Some i" using 2(2) by simp
    from 2(1) [OF False this] have r: "Suc j \<le> i" "i < Suc j + length ks" "sz \<le> bk_size (ks ! (i - Suc j))"
        "\<forall>l < i - Suc j. bk_size (ks ! l) < sz" by simp_all
    have e: "i - j = Suc (i - Suc j)" using r(1) by simp
    have "bk_size ((k # ks) ! l) < sz" if "l < i - j" for l
      using that r(4) False unfolding e by (cases l) (auto simp: not_le)
    then show ?thesis using r unfolding e by auto
  qed (use 2 in auto)
qed simp

lemma get_bucket_from_None: "get_bucket_from j ks sz = None \<Longrightarrow> k \<in> set ks \<Longrightarrow> bk_size k < sz"
  by (induction j ks sz rule: get_bucket_from.induct) (auto split: if_splits)

lemma get_bucket_Some:
  assumes "get_bucket c sz = Some i"
  shows "i < length (cache_bucket c)" and "sz \<le> bk_size (cache_bucket c ! i)" and "\<forall>l < i. bk_size (cache_bucket c ! l) < sz"
  using get_bucket_from_Some [OF assms [unfolded get_bucket_def]] by simp_all

text \<open>A size that an object of a cache may have: that of a bucket, or above all of them.\<close>

definition fits :: "reuse \<Rightarrow> u32 \<Rightarrow> bool" where
  "fits r sz \<longleftrightarrow> r = NO_CACHE \<or> sz \<in> set (bucket_sizes r) \<or> list_all (\<lambda>s. s < sz) (bucket_sizes r)"

definition cache_sized :: "reuse \<Rightarrow> fd_bo_cache \<Rightarrow> bool" where
  "cache_sized r c \<longleftrightarrow> map bk_size (cache_bucket c) = bucket_sizes r"

lemma get_bucket_fits:
  assumes "cache_sized r c" and "fits r sz" and "r \<noteq> NO_CACHE" and "get_bucket c sz = Some i"
  shows "bk_size (cache_bucket c ! i) = sz"
proof -
  note G = get_bucket_Some [OF assms(4)]
  have nth: "bucket_sizes r ! l = bk_size (cache_bucket c ! l)" if "l < length (cache_bucket c)" for l
    using assms(1) that by (metis cache_sized_def nth_map)
  have len: "length (bucket_sizes r) = length (cache_bucket c)" using assms(1) by (metis cache_sized_def length_map)
  have "\<not> bk_size (cache_bucket c ! i) < sz" using G(2) by simp
  then have "sz \<in> set (bucket_sizes r)" using assms(2,3) G(1) nth [OF G(1)] len unfolding fits_def list_all_length by metis
  then obtain l where l: "l < length (cache_bucket c)" "bk_size (cache_bucket c ! l) = sz" using nth len by (metis in_set_conv_nth)
  have "\<not> l < i" using G(3) l by auto
  moreover have "\<not> i < l"
    using bucket_sizes_sorted [of r] G(1,2) l nth len by (metis leD sorted_wrt_nth_less)
  ultimately show ?thesis using l by (metis linorder_neqE_nat)
qed

lemma get_bucket_size_fits:
  assumes "cache_sized r c"
  shows "case get_bucket c sz of None \<Rightarrow> fits r sz | Some i \<Rightarrow> fits r (bk_size (cache_bucket c ! i))"
proof (cases "get_bucket c sz")
  case None
  then have "list_all (\<lambda>s. s < sz) (bucket_sizes r)"
    using get_bucket_from_None [of 0 "cache_bucket c" sz] assms by (auto simp: get_bucket_def cache_sized_def list_all_iff simp flip: assms [unfolded cache_sized_def])
  then show ?thesis using None by (simp add: fits_def)
next
  case (Some i)
  then show ?thesis using get_bucket_Some(1) [OF Some] assms
    by (auto simp: fits_def cache_sized_def simp flip: assms [unfolded cache_sized_def])
qed

section \<open>The invariant\<close>

text \<open>Objects in use: those with a reference.\<close>

definition held :: "fd_device \<Rightarrow> addr set" where
  "held d = {a. \<exists>b. bos d a = Some b \<and> 0 < bo_refcnt b}"

text \<open>The objects, where those of \<open>L\<close> have no reference, and the device has \<open>n\<close> references that no object holds.\<close>

definition bo_ok :: "addr list \<Rightarrow> fd_device \<Rightarrow> addr \<Rightarrow> fd_bo \<Rightarrow> bool" where
  "bo_ok L d a b \<longleftrightarrow> 0 \<le> bo_refcnt b \<and> (bo_refcnt b = 0 \<longleftrightarrow> a \<in> set L) \<and> bo_handle b \<noteq> 0 \<and> handle_table d (bo_handle b) = Some a \<and>
     fits (bo_reuse b) (bo_size b)"

definition objs_ok :: "int \<Rightarrow> addr list \<Rightarrow> fd_device \<Rightarrow> bool" where
  "objs_ok n L d \<longleftrightarrow> alive d \<and> distinct L \<and> set L \<subseteq> dom (bos d) \<and> finite (dom (bos d)) \<and>
     (\<forall>a b. bos d a = Some b \<longrightarrow> bo_ok L d a b) \<and>
     (\<forall>h a. handle_table d h = Some a \<longrightarrow> (\<exists>b. bos d a = Some b \<and> bo_handle b = h)) \<and>
     (\<forall>m a. name_table d m = Some a \<longrightarrow> (\<exists>b. bos d a = Some b \<and> bo_name b = m \<and> m \<noteq> 0)) \<and>
     dev_refcnt d = n + int (card (held d))"

lemma objs_ok_perm: "objs_ok n L d \<Longrightarrow> distinct L' \<Longrightarrow> set L' = set L \<Longrightarrow> objs_ok n L' d"
  by (simp add: objs_ok_def bo_ok_def)

lemma objs_okD:
  assumes "objs_ok n L d"
  shows "alive d" "distinct L" "set L \<subseteq> dom (bos d)" "finite (dom (bos d))" "\<And>a b. bos d a = Some b \<Longrightarrow> bo_ok L d a b"
    "\<And>h a. handle_table d h = Some a \<Longrightarrow> \<exists>b. bos d a = Some b \<and> bo_handle b = h"
    "\<And>m a. name_table d m = Some a \<Longrightarrow> \<exists>b. bos d a = Some b \<and> bo_name b = m \<and> m \<noteq> 0"
    "dev_refcnt d = n + int (card (held d))"
  using assms unfolding objs_ok_def by simp_all

lemma held_finite: "objs_ok n L d \<Longrightarrow> finite (held d)"
  using objs_okD(4) [of n L d] finite_subset [of "held d" "dom (bos d)"] by (auto simp: held_def dom_def)

lemma held_not_listed: "objs_ok n L d \<Longrightarrow> a \<in> held d \<Longrightarrow> a \<notin> set L"
  using objs_okD(5) [of n L d a] by (auto simp: held_def bo_ok_def)

lemma listed_bo: "objs_ok n L d \<Longrightarrow> a \<in> set L \<Longrightarrow> \<exists>b. bos d a = Some b \<and> bo_refcnt b = 0"
  using objs_okD(3) [of n L d] objs_okD(5) [of n L d a] by (auto simp: bo_ok_def)

text \<open>Deleting objects without a reference changes nothing else.\<close>

definition only_deletes :: "fd_device \<Rightarrow> fd_device \<Rightarrow> bool" where
  "only_deletes d d' \<longleftrightarrow> bos d' \<subseteq>\<^sub>m bos d \<and> held d' = held d \<and> bo_cache d' = bo_cache d \<and> ring_cache d' = ring_cache d \<and>
     dev_refcnt d' = dev_refcnt d \<and> alive d' = alive d"

lemma only_deletes_refl [simp]: "only_deletes d d"
  by (simp add: only_deletes_def)

lemma only_deletes_trans: "only_deletes d d' \<Longrightarrow> only_deletes d' d'' \<Longrightarrow> only_deletes d d''"
  by (auto simp: only_deletes_def intro: map_le_trans)

lemma bo_del_ok:
  assumes "objs_ok n (a # L) d"
  obtains d' where "bo_del a d = Some d'" and "objs_ok n L d'" and "only_deletes d d'" and "\<And>x. x \<noteq> a \<Longrightarrow> bos d' x = bos d x"
proof -
  note I = objs_okD [OF assms]
  obtain b where b: "bos d a = Some b" "bo_refcnt b = 0" using listed_bo [OF assms, of a] by auto
  have ok: "bo_ok (a # L) d a b" using I(5) b(1) .
  define d' where "d' = d\<lparr>bos := (bos d)(a := None), handle_table := (handle_table d)(bo_handle b := None),
      name_table := (if bo_name b \<noteq> 0 then (name_table d)(bo_name b := None) else name_table d), gem_closed := gem_closed d @ [bo_handle b]\<rparr>"
  have del: "bo_del a d = Some d'" using b(1) ok by (simp add: bo_del_def bo_ok_def d'_def)
  have held: "held d' = held d" using b by (auto simp: held_def d'_def)
  have od: "only_deletes d d'" using held by (auto simp: only_deletes_def d'_def map_le_def)
  have each: "bo_ok L d' x c" if "bos d' x = Some c" for x c
  proof -
    have x: "bos d x = Some c" "x \<noteq> a" using that by (auto simp: d'_def split: if_splits)
    have "bo_handle c \<noteq> bo_handle b" using I(5) [OF x(1)] ok x(2) by (auto simp: bo_ok_def)
    then show ?thesis using I(5) [OF x(1)] x(2) by (simp add: bo_ok_def d'_def)
  qed
  have ht: "\<exists>c. bos d' x = Some c \<and> bo_handle c = h" if "handle_table d' h = Some x" for h x
    using I(6) [of h x] that b(1) by (auto simp: d'_def split: if_splits)
  have nt: "\<exists>c. bos d' x = Some c \<and> bo_name c = m \<and> m \<noteq> 0" if "name_table d' m = Some x" for m x
    using I(7) [of m x] that b(1) by (auto simp: d'_def split: if_splits)
  have "objs_ok n L d'"
    unfolding objs_ok_def held
    using I(1-4,8) each ht nt by (auto simp: d'_def)
  then show ?thesis using that del od by (simp add: d'_def)
qed

lemma objs_ok_shift: "objs_ok n (A @ a # as @ B) d \<longleftrightarrow> objs_ok n (a # A @ as @ B) d"
proof
  assume ok: "objs_ok n (A @ a # as @ B) d"
  have "distinct (a # A @ as @ B)" using objs_okD(2) [OF ok] by auto
  then show "objs_ok n (a # A @ as @ B) d" using objs_ok_perm [OF ok] by auto
next
  assume ok: "objs_ok n (a # A @ as @ B) d"
  have "distinct (A @ a # as @ B)" using objs_okD(2) [OF ok] by auto
  then show "objs_ok n (A @ a # as @ B) d" using objs_ok_perm [OF ok] by auto
qed

lemma cleanup_list_ok:
  assumes "objs_ok n (A @ as @ B) d"
  shows "\<exists>as' d'. cleanup_list time as d = Some (as', d') \<and> objs_ok n (A @ as' @ B) d' \<and> only_deletes d d' \<and> set as' \<subseteq> set as"
  using assms
proof (induction as arbitrary: d)
  case (Cons a as)
  have ok: "objs_ok n (a # A @ as @ B) d" using Cons.prems objs_ok_shift by simp
  obtain b where b: "bos d a = Some b" using listed_bo [OF ok, of a] by auto
  obtain d1 where d1: "bo_del a d = Some d1" "objs_ok n (A @ as @ B) d1" "only_deletes d d1" by (rule bo_del_ok [OF ok])
  show ?case
  proof (cases "time \<noteq> 0 \<and> time - free_time b \<le> 1")
    case True
    then show ?thesis using b Cons.prems by simp
  next
    case False
    obtain as' d' where "cleanup_list time as d1 = Some (as', d')" "objs_ok n (A @ as' @ B) d'" "only_deletes d1 d'" "set as' \<subseteq> set as"
      using Cons.IH [OF d1(2)] by blast
    then show ?thesis using b d1 False only_deletes_trans by auto
  qed
qed simp

lemma cleanup_buckets_ok:
  assumes "objs_ok n (A @ concat (map bk_list ks) @ B) d"
  shows "\<exists>ks' d'. cleanup_buckets time ks d = Some (ks', d') \<and> objs_ok n (A @ concat (map bk_list ks') @ B) d' \<and> only_deletes d d' \<and>
    list_all2 (\<lambda>k k'. bk_size k' = bk_size k \<and> set (bk_list k') \<subseteq> set (bk_list k)) ks ks'"
  using assms
proof (induction ks arbitrary: A d)
  case (Cons k ks)
  obtain as d1 where a: "cleanup_list time (bk_list k) d = Some (as, d1)" "objs_ok n (A @ as @ concat (map bk_list ks) @ B) d1" "only_deletes d d1"
      "set as \<subseteq> set (bk_list k)"
    using cleanup_list_ok [of n A "bk_list k" "concat (map bk_list ks) @ B" d time] Cons.prems by auto
  obtain ks' d' where "cleanup_buckets time ks d1 = Some (ks', d')" "objs_ok n (A @ as @ concat (map bk_list ks') @ B) d'" "only_deletes d1 d'"
      "list_all2 (\<lambda>k k'. bk_size k' = bk_size k \<and> set (bk_list k') \<subseteq> set (bk_list k)) ks ks'"
    using Cons.IH [of "A @ as" d1] a(2) by auto
  then show ?case using a only_deletes_trans by fastforce
qed simp

text \<open>An object put into the cache just now stays.\<close>

lemma bo_del_other: "bo_del a d = Some d' \<Longrightarrow> x \<noteq> a \<Longrightarrow> bos d' x = bos d x"
  by (auto simp: bo_del_def Let_def split: Option.bind_splits)

lemma cleanup_list_keeps:
  assumes "cleanup_list time as d = Some (as', d')" and "bos d x = Some b" and "free_time b = time" and "time \<noteq> 0"
  shows "bos d' x = Some b"
  using assms
proof (induction as arbitrary: d)
  case (Cons a as)
  show ?case
  proof (cases "\<exists>c. bos d a = Some c \<and> time \<noteq> 0 \<and> time - free_time c \<le> 1")
    case False
    then obtain d1 where d1: "bo_del a d = Some d1" "cleanup_list time as d1 = Some (as', d')"
      using Cons.prems(1) by (auto split: option.splits if_splits)
    moreover have "x \<noteq> a" using False Cons.prems(2-4) by auto
    ultimately show ?thesis using Cons.IH [of d1] bo_del_other [OF d1(1)] Cons.prems by simp
  qed (use Cons.prems in auto)
qed simp

lemma cleanup_buckets_keeps:
  assumes "cleanup_buckets time ks d = Some (ks', d')" and "bos d x = Some b" and "free_time b = time" and "time \<noteq> 0"
  shows "bos d' x = Some b"
  using assms
proof (induction ks arbitrary: d ks')
  case (Cons k ks)
  then obtain as d1 ks1 where "cleanup_list time (bk_list k) d = Some (as, d1)" "cleanup_buckets time ks d1 = Some (ks1, d')"
    by (auto split: option.splits)
  then show ?case using Cons.IH [of d1 ks1] cleanup_list_keeps Cons.prems(2-4) by blast
qed simp

text \<open>An object gets its first reference again, or loses its last one.\<close>

lemma acquire_ok:
  assumes "objs_ok n (a # L) d" and "bos d a = Some b" and "bo_refcnt c = 1" and "bo_handle c = bo_handle b" and "bo_name c = bo_name b"
    and "bo_reuse c = bo_reuse b" and "bo_size c = bo_size b"
  shows "objs_ok n L (d\<lparr>bos := (bos d)(a \<mapsto> c), dev_refcnt := dev_refcnt d + 1\<rparr>)"
proof -
  note I = objs_okD [OF assms(1)]
  let ?d = "d\<lparr>bos := (bos d)(a \<mapsto> c), dev_refcnt := dev_refcnt d + 1\<rparr>"
  have ok: "bo_ok (a # L) d a b" using I(5) assms(2) .
  have held: "held ?d = insert a (held d)" "a \<notin> held d"
    using assms(2,3) ok by (auto simp: held_def bo_ok_def)
  have card: "card (held ?d) = Suc (card (held d))" using held held_finite [OF assms(1)] by simp
  have each: "bo_ok L ?d x e" if "bos ?d x = Some e" for x e
  proof (cases "x = a")
    case True
    then show ?thesis using that ok assms(3-7) I(2) by (auto simp: bo_ok_def)
  next
    case False
    then show ?thesis using that I(5) [of x e] by (auto simp: bo_ok_def)
  qed
  have ht: "\<exists>e. bos ?d x = Some e \<and> bo_handle e = h" if "handle_table ?d h = Some x" for h x
    using I(6) [of h x] that assms(2,4) by auto
  have nt: "\<exists>e. bos ?d x = Some e \<and> bo_name e = m \<and> m \<noteq> 0" if "name_table ?d m = Some x" for m x
    using I(7) [of m x] that assms(2,5) by auto
  show ?thesis unfolding objs_ok_def card using I(1-4,8) each ht nt by auto
qed

lemma release_ok:
  assumes "objs_ok n L d" and "bos d a = Some b" and "bo_refcnt b = 1" and "bo_refcnt c = 0" and "bo_handle c = bo_handle b"
    and "bo_name c = bo_name b" and "bo_reuse c = bo_reuse b" and "bo_size c = bo_size b"
  shows "objs_ok (n + 1) (a # L) (d\<lparr>bos := (bos d)(a \<mapsto> c)\<rparr>)"
proof -
  note I = objs_okD [OF assms(1)]
  let ?d = "d\<lparr>bos := (bos d)(a \<mapsto> c)\<rparr>"
  have ok: "bo_ok L d a b" using I(5) assms(2) .
  have nl: "a \<notin> set L" using ok assms(3) by (auto simp: bo_ok_def)
  have held: "held d = insert a (held ?d)" "a \<notin> held ?d"
    using assms(2-4) by (auto simp: held_def)
  have "finite (held ?d)" using held_finite [OF assms(1)] held(1) by simp
  then have card: "card (held d) = Suc (card (held ?d))" using held by simp
  have each: "bo_ok (a # L) ?d x e" if "bos ?d x = Some e" for x e
  proof (cases "x = a")
    case True
    then show ?thesis using that ok assms(4-8) by (auto simp: bo_ok_def)
  next
    case False
    then show ?thesis using that I(5) [of x e] by (auto simp: bo_ok_def)
  qed
  have ht: "\<exists>e. bos ?d x = Some e \<and> bo_handle e = h" if "handle_table ?d h = Some x" for h x
    using I(6) [of h x] that assms(2,5) by auto
  have nt: "\<exists>e. bos ?d x = Some e \<and> bo_name e = m \<and> m \<noteq> 0" if "name_table ?d m = Some x" for m x
    using I(7) [of m x] that assms(2,6) by auto
  show ?thesis unfolding objs_ok_def using I(1-4,8) each ht nt nl card by auto
qed

definition taken :: "fd_device \<Rightarrow> fd_device \<Rightarrow> addr \<Rightarrow> bool" where
  "taken d d' a \<longleftrightarrow> held d' = insert a (held d) \<and> a \<notin> held d \<and> (\<exists>b. bos d a = Some b \<and> bos d' a = Some (b\<lparr>bo_list := Stale, bo_refcnt := 1\<rparr>)) \<and>
     (\<forall>x b. x \<noteq> a \<longrightarrow> bos d' x = Some b \<longrightarrow> bos d x = Some b) \<and> bo_cache d' = bo_cache d \<and> ring_cache d' = ring_cache d"

lemma taken_after: "only_deletes d d1 \<Longrightarrow> taken d1 d' a \<Longrightarrow> taken d d' a"
  unfolding taken_def only_deletes_def map_le_def by (metis domI)

lemma take_from_list_ok:
  assumes "objs_ok n (A @ as @ B) d"
  shows "\<exists>res as' d'. take_from_list idle keeps as d = Some (res, as', d') \<and> objs_ok n (A @ as' @ B) d' \<and> set as' \<subseteq> set as \<and>
    (case res of None \<Rightarrow> only_deletes d d' | Some a \<Rightarrow> a \<in> set as \<and> taken d d' a)"
  using assms
proof (induction as arbitrary: d)
  case (Cons a as)
  have ok: "objs_ok n (a # A @ as @ B) d" using Cons.prems objs_ok_shift by simp
  obtain b where b: "bos d a = Some b" "bo_refcnt b = 0" using listed_bo [OF ok, of a] by auto
  consider "\<not> idle a" | "idle a" "\<not> keeps a" | "idle a" "keeps a" by blast
  then show ?case
  proof cases
    case 1
    then show ?thesis using b Cons.prems by simp
  next
    case 2
    obtain d1 where d1: "bo_del a d = Some d1" "objs_ok n (A @ as @ B) d1" "only_deletes d d1" by (rule bo_del_ok [OF ok])
    obtain res as' d' where r: "take_from_list idle keeps as d1 = Some (res, as', d')" "objs_ok n (A @ as' @ B) d'" "set as' \<subseteq> set as"
        "case res of None \<Rightarrow> only_deletes d1 d' | Some a \<Rightarrow> a \<in> set as \<and> taken d1 d' a"
      using Cons.IH [OF d1(2)] by blast
    have "case res of None \<Rightarrow> only_deletes d d' | Some x \<Rightarrow> x \<in> set (a # as) \<and> taken d d' x"
      using r(4) only_deletes_trans [OF d1(3)] taken_after [OF d1(3)] by (auto split: option.splits)
    then show ?thesis using 2 b d1(1) r by auto
  next
    case 3
    let ?d = "d\<lparr>bos := (bos d)(a \<mapsto> b\<lparr>bo_list := Stale, bo_refcnt := 1\<rparr>), dev_refcnt := dev_refcnt d + 1\<rparr>"
    have "objs_ok n (A @ as @ B) ?d" using acquire_ok [OF ok b(1), of "b\<lparr>bo_list := Stale, bo_refcnt := 1\<rparr>"] by simp
    moreover have "taken d ?d a" using b by (auto simp: taken_def held_def)
    ultimately show ?thesis using 3 b(1) by auto
  qed
qed simp

section \<open>The caches\<close>

definition listed :: "fd_device \<Rightarrow> addr list" where
  "listed d = concat (map bk_list (cache_bucket (bo_cache d))) @ concat (map bk_list (cache_bucket (ring_cache d)))"

definition cached_as :: "reuse \<Rightarrow> u32 \<Rightarrow> fd_device \<Rightarrow> addr \<Rightarrow> bool" where
  "cached_as r sz d a \<longleftrightarrow> (\<exists>b. bos d a = Some b \<and> bo_size b = sz \<and> bo_reuse b = r \<and> bo_list b = In_bucket)"

definition cache_ok :: "reuse \<Rightarrow> fd_device \<Rightarrow> bool" where
  "cache_ok r d \<longleftrightarrow> cache_sized r (cache_of r d) \<and> (\<forall>k\<in>set (cache_bucket (cache_of r d)). \<forall>a\<in>set (bk_list k). cached_as r (bk_size k) d a)"

definition caches_ok :: "fd_device \<Rightarrow> bool" where
  "caches_ok d \<longleftrightarrow> cache_ok BO_CACHE d \<and> cache_ok RING_CACHE d"

definition dev_inv :: "fd_device \<Rightarrow> bool" where
  "dev_inv d \<longleftrightarrow> objs_ok 1 (listed d) d \<and> caches_ok d"

lemma set_cache_simps [simp]:
  "bos (set_cache r c d) = bos d" "handle_table (set_cache r c d) = handle_table d" "name_table (set_cache r c d) = name_table d"
  "dev_refcnt (set_cache r c d) = dev_refcnt d" "alive (set_cache r c d) = alive d" "held (set_cache r c d) = held d"
  by (simp_all add: set_cache_def held_def)

lemma cache_of_set [simp]: "cache_of r (set_cache r c d) = c"
  by (simp add: cache_of_def set_cache_def)

lemma objs_ok_caches:
  assumes "bos d' = bos d" "handle_table d' = handle_table d" "name_table d' = name_table d" "dev_refcnt d' = dev_refcnt d" "alive d' = alive d"
  shows "objs_ok n L d' \<longleftrightarrow> objs_ok n L d"
  using assms by (simp add: objs_ok_def bo_ok_def held_def)

lemma objs_ok_set_cache [simp]: "objs_ok n L (set_cache r c d) \<longleftrightarrow> objs_ok n L d"
  by (rule objs_ok_caches) simp_all

text \<open>The list of all cached objects around the buckets of a cache, and around one bucket.\<close>

definition before_cache :: "reuse \<Rightarrow> fd_device \<Rightarrow> addr list" where
  "before_cache r d = (if r = RING_CACHE then concat (map bk_list (cache_bucket (bo_cache d))) else [])"

definition behind_cache :: "reuse \<Rightarrow> fd_device \<Rightarrow> addr list" where
  "behind_cache r d = (if r = RING_CACHE then [] else concat (map bk_list (cache_bucket (ring_cache d))))"

lemma listed_set_cache:
  "listed (set_cache r c d) = before_cache r d @ concat (map bk_list (cache_bucket c)) @ behind_cache r d"
  by (simp add: listed_def set_cache_def before_cache_def behind_cache_def)

lemma listed_around: "listed d = before_cache r d @ concat (map bk_list (cache_bucket (cache_of r d))) @ behind_cache r d"
  by (simp add: listed_def cache_of_def before_cache_def behind_cache_def)

lemma listed_update_bucket:
  assumes "i < length (cache_bucket (cache_of r d))"
  obtains A B where "\<And>l. listed (set_cache r ((cache_of r d)\<lparr>cache_bucket := (cache_bucket (cache_of r d))[i := (cache_bucket (cache_of r d) ! i)\<lparr>bk_list := l\<rparr>]\<rparr>) d) = A @ l @ B"
    and "listed d = A @ bk_list (cache_bucket (cache_of r d) ! i) @ B"
proof -
  let ?ks = "cache_bucket (cache_of r d)"
  let ?A = "before_cache r d @ concat (map bk_list (take i ?ks))" and ?B = "concat (map bk_list (drop (Suc i) ?ks)) @ behind_cache r d"
  have "concat (map bk_list (?ks[i := (?ks ! i)\<lparr>bk_list := l\<rparr>])) = concat (map bk_list (take i ?ks)) @ l @ concat (map bk_list (drop (Suc i) ?ks))" for l
    using assms by (simp add: list_update_nth_split)
  moreover have "concat (map bk_list ?ks) = concat (map bk_list (take i ?ks)) @ bk_list (?ks ! i) @ concat (map bk_list (drop (Suc i) ?ks))"
    using concat_nth_split [of i "map bk_list ?ks"] assms by (simp add: take_map drop_map)
  ultimately show ?thesis by (intro that [of ?A ?B]) (simp_all add: listed_set_cache listed_around [of d r])
qed

definition shrunk :: "fd_bo_cache \<Rightarrow> fd_bo_cache \<Rightarrow> bool" where
  "shrunk c c' \<longleftrightarrow> list_all2 (\<lambda>k k'. bk_size k' = bk_size k \<and> set (bk_list k') \<subseteq> set (bk_list k)) (cache_bucket c) (cache_bucket c')"

lemma shrunk_refl [simp]: "shrunk c c"
  by (simp add: shrunk_def list_all2_same)

lemma shrunk_update:
  assumes "i < length (cache_bucket c)" and "set l \<subseteq> set (bk_list (cache_bucket c ! i))"
  shows "shrunk c (c\<lparr>cache_bucket := (cache_bucket c)[i := (cache_bucket c ! i)\<lparr>bk_list := l\<rparr>]\<rparr>)"
  using assms by (auto simp: shrunk_def list_all2_conv_all_nth nth_list_update)

lemma cache_ok_shrunk:
  assumes "cache_ok r d" and "shrunk (cache_of r d) (cache_of r d')"
    and "\<And>k a. k \<in> set (cache_bucket (cache_of r d')) \<Longrightarrow> a \<in> set (bk_list k) \<Longrightarrow> bos d' a = bos d a"
  shows "cache_ok r d'"
proof -
  let ?ks = "cache_bucket (cache_of r d)" and ?ks' = "cache_bucket (cache_of r d')"
  have l: "length ?ks' = length ?ks" and e: "\<And>i. i < length ?ks \<Longrightarrow> bk_size (?ks' ! i) = bk_size (?ks ! i) \<and> set (bk_list (?ks' ! i)) \<subseteq> set (bk_list (?ks ! i))"
    using assms(2) by (auto simp: shrunk_def list_all2_conv_all_nth)
  have "map bk_size ?ks' = map bk_size ?ks" using l e by (intro nth_equalityI) auto
  moreover have "cached_as r (bk_size k) d' a" if k: "k \<in> set ?ks'" and a: "a \<in> set (bk_list k)" for k a
  proof -
    obtain i where i: "i < length ?ks" "k = ?ks' ! i" using k l by (metis in_set_conv_nth)
    then have "a \<in> set (bk_list (?ks ! i))" "?ks ! i \<in> set ?ks" "bk_size k = bk_size (?ks ! i)" using e a by auto
    then show ?thesis using assms(1) assms(3) [OF k a] by (auto simp: cache_ok_def cached_as_def)
  qed
  ultimately show ?thesis using assms(1) by (auto simp: cache_ok_def cache_sized_def)
qed

lemma in_listed: "k \<in> set (cache_bucket (cache_of r d)) \<Longrightarrow> a \<in> set (bk_list k) \<Longrightarrow> a \<in> set (listed d)"
  unfolding listed_around [of d r] by auto

lemma caches_ok_shrunk:
  assumes "caches_ok d" and "\<And>r. r \<noteq> NO_CACHE \<Longrightarrow> shrunk (cache_of r d) (cache_of r d')" and "\<And>a. a \<in> set (listed d') \<Longrightarrow> bos d' a = bos d a"
  shows "caches_ok d'"
  using assms(1) cache_ok_shrunk [of BO_CACHE d d'] cache_ok_shrunk [of RING_CACHE d d'] assms(2,3) in_listed unfolding caches_ok_def by blast

lemma cache_of_other: "r \<noteq> NO_CACHE \<Longrightarrow> s \<noteq> NO_CACHE \<Longrightarrow> s \<noteq> r \<Longrightarrow> cache_of s (set_cache r c d) = cache_of s d"
  by (cases r; cases s) (auto simp: cache_of_def set_cache_def)

lemma shrunk_set_cache:
  assumes "r \<noteq> NO_CACHE" and "shrunk (cache_of r d) c" and "bo_cache d' = bo_cache d" and "ring_cache d' = ring_cache d" and "s \<noteq> NO_CACHE"
  shows "shrunk (cache_of s d) (cache_of s (set_cache r c d'))"
proof (cases "s = r")
  case False
  have "cache_of s d' = cache_of s d" using assms(3,4) by (simp add: cache_of_def)
  then show ?thesis using cache_of_other [OF assms(1,5) False] by simp
qed (use assms in simp)

lemma fd_bo_cache_cleanup_ok:
  assumes "objs_ok n (listed d) d" and "caches_ok d" and r: "r \<noteq> NO_CACHE"
  obtains d' where "fd_bo_cache_cleanup r time d = Some d'" and "objs_ok n (listed d') d'" and "caches_ok d'"
    and "held d' = held d" and "bos d' \<subseteq>\<^sub>m bos d" and "\<And>x b. bos d x = Some b \<Longrightarrow> free_time b = time \<Longrightarrow> time \<noteq> 0 \<Longrightarrow> bos d' x = Some b"
proof (cases "cache_time (cache_of r d) = time")
  case True
  then show ?thesis using that [of d] assms by (simp add: fd_bo_cache_cleanup_def Let_def)
next
  case False
  let ?c = "cache_of r d"
  obtain ks d1 where c: "cleanup_buckets time (cache_bucket ?c) d = Some (ks, d1)"
      "objs_ok n (before_cache r d @ concat (map bk_list ks) @ behind_cache r d) d1" "only_deletes d d1"
      "list_all2 (\<lambda>k k'. bk_size k' = bk_size k \<and> set (bk_list k') \<subseteq> set (bk_list k)) (cache_bucket ?c) ks"
    using cleanup_buckets_ok [of n "before_cache r d" "cache_bucket ?c" "behind_cache r d" d time] assms(1)
    unfolding listed_around [of d r] by blast
  let ?d = "set_cache r (?c\<lparr>cache_bucket := ks, cache_time := time\<rparr>) d1"
  have same: "bo_cache d1 = bo_cache d" "ring_cache d1 = ring_cache d" "bos d1 \<subseteq>\<^sub>m bos d" "held d1 = held d" using c(3) by (simp_all add: only_deletes_def)
  have lst: "listed ?d = before_cache r d @ concat (map bk_list ks) @ behind_cache r d"
    unfolding listed_set_cache using same(1,2) by (simp add: before_cache_def behind_cache_def)
  have ok: "objs_ok n (listed ?d) ?d" using c(2) unfolding lst by simp
  have "bos ?d a = bos d a" if "a \<in> set (listed ?d)" for a
    using objs_okD(3) [OF ok] that same(3) by (auto simp: map_le_def)
  moreover have "shrunk ?c (?c\<lparr>cache_bucket := ks, cache_time := time\<rparr>)" using c(4) by (simp add: shrunk_def)
  ultimately have "caches_ok ?d" using caches_ok_shrunk [OF assms(2), of ?d] shrunk_set_cache [OF r _ same(1,2)] by blast
  moreover have "fd_bo_cache_cleanup r time d = Some ?d" using False c(1) by (simp add: fd_bo_cache_cleanup_def Let_def)
  moreover have "\<And>x b. bos d x = Some b \<Longrightarrow> free_time b = time \<Longrightarrow> time \<noteq> 0 \<Longrightarrow> bos ?d x = Some b"
    using cleanup_buckets_keeps [OF c(1)] by simp
  ultimately show ?thesis using that [of ?d] ok same(3,4) by simp
qed

section \<open>Releasing\<close>

lemma held_upd: "bos d a = Some b \<Longrightarrow> (0 < bo_refcnt c \<longleftrightarrow> 0 < bo_refcnt b) \<Longrightarrow> held (d\<lparr>bos := (bos d)(a \<mapsto> c)\<rparr>) = held d"
  by (auto simp: held_def)

lemma objs_ok_modify:
  assumes "objs_ok n L d" and "bos d a = Some b" and "bo_refcnt c = bo_refcnt b \<or> 0 < bo_refcnt b \<and> 0 < bo_refcnt c"
    and "bo_handle c = bo_handle b" and "bo_name c = bo_name b" and "fits (bo_reuse c) (bo_size c)"
  shows "objs_ok n L (d\<lparr>bos := (bos d)(a \<mapsto> c)\<rparr>)"
proof -
  note I = objs_okD [OF assms(1)]
  let ?d = "d\<lparr>bos := (bos d)(a \<mapsto> c)\<rparr>"
  have held: "held ?d = held d" using held_upd [OF assms(2)] assms(3) by auto
  have each: "bo_ok L ?d x e" if "bos ?d x = Some e" for x e
    using that I(5) [of x e] I(5) [OF assms(2)] assms(3-6) by (cases "x = a") (auto simp: bo_ok_def)
  have ht: "\<exists>e. bos ?d x = Some e \<and> bo_handle e = h" if "handle_table ?d h = Some x" for h x
    using I(6) [of h x] that assms(2,4) by auto
  have nt: "\<exists>e. bos ?d x = Some e \<and> bo_name e = m \<and> m \<noteq> 0" if "name_table ?d m = Some x" for m x
    using I(7) [of m x] that assms(2,5) by auto
  show ?thesis unfolding objs_ok_def held using I(1-4,8) each ht nt by auto
qed

lemma listed_same: "bo_cache d' = bo_cache d \<Longrightarrow> ring_cache d' = ring_cache d \<Longrightarrow> listed d' = listed d"
  by (simp add: listed_def)

lemma caches_ok_same:
  assumes "caches_ok d" and "bo_cache d' = bo_cache d" and "ring_cache d' = ring_cache d" and "\<And>a. a \<in> set (listed d) \<Longrightarrow> bos d' a = bos d a"
  shows "caches_ok d'"
  using caches_ok_shrunk [OF assms(1), of d'] assms(2-4) listed_same [OF assms(2,3)] by (simp add: cache_of_def)

lemma dev_inv_modify:
  assumes "dev_inv d" and "bos d a = Some b" and "0 < bo_refcnt b" and "0 < bo_refcnt c"
    and "bo_handle c = bo_handle b" and "bo_name c = bo_name b" and "fits (bo_reuse c) (bo_size c)"
  shows "dev_inv (d\<lparr>bos := (bos d)(a \<mapsto> c)\<rparr>)" and "held (d\<lparr>bos := (bos d)(a \<mapsto> c)\<rparr>) = held d"
proof -
  let ?d = "d\<lparr>bos := (bos d)(a \<mapsto> c)\<rparr>"
  have I: "objs_ok 1 (listed d) d" "caches_ok d" using assms(1) by (simp_all add: dev_inv_def)
  have l: "listed ?d = listed d" by (rule listed_same) simp_all
  have "a \<notin> set (listed d)" using held_not_listed [OF I(1), of a] assms(2,3) by (auto simp: held_def)
  then have "caches_ok ?d" by (intro caches_ok_same [OF I(2)]) auto
  then show "dev_inv ?d" using objs_ok_modify [OF I(1) assms(2), of c] assms(3-7) by (simp add: dev_inv_def l)
  show "held ?d = held d" using held_upd [OF assms(2)] assms(3,4) by simp
qed

lemma del_locked_ok:
  assumes "objs_ok 2 L d"
  shows "fd_device_del_locked d = Some (d\<lparr>dev_refcnt := dev_refcnt d - 1\<rparr>)" and "objs_ok 1 L (d\<lparr>dev_refcnt := dev_refcnt d - 1\<rparr>)"
  using objs_okD(1,8) [OF assms] assms by (auto simp: fd_device_del_locked_def Let_def objs_ok_def bo_ok_def held_def)

lemma dev_inv_del_locked:
  assumes "objs_ok 2 (listed d) d" and "caches_ok d"
  shows "\<exists>d'. fd_device_del_locked d = Some d' \<and> dev_inv d' \<and> held d' = held d"
proof -
  let ?d = "d\<lparr>dev_refcnt := dev_refcnt d - 1\<rparr>"
  have "listed ?d = listed d" "caches_ok ?d" using caches_ok_same [OF assms(2), of ?d] listed_same [of ?d d] by simp_all
  then show ?thesis using del_locked_ok [OF assms(1)] by (auto simp: dev_inv_def held_def)
qed

lemma fd_bo_cache_free_ok:
  assumes b: "bos d a = Some b" and ok: "objs_ok 2 (a # listed d) d" and c: "caches_ok d" and r: "r = bo_reuse b" "r \<noteq> NO_CACHE" and t: "time \<noteq> 0"
  shows "fd_bo_cache_free r time a d = Some (-1, d) \<or>
    (\<exists>d'. fd_bo_cache_free r time a d = Some (0, d') \<and> dev_inv d' \<and> held d' = held d)"
proof (cases "get_bucket (cache_of r d) (bo_size b)")
  case None
  then show ?thesis using b by (simp add: fd_bo_cache_free_def Let_def)
next
  case (Some i)
  let ?c = "cache_of r d"
  let ?k = "cache_bucket ?c ! i" and ?b = "b\<lparr>free_time := time, bo_list := In_bucket\<rparr>"
  let ?d = "d\<lparr>bos := (bos d)(a \<mapsto> ?b)\<rparr>"
  let ?c1 = "?c\<lparr>cache_bucket := (cache_bucket ?c)[i := ?k\<lparr>bk_list := bk_list ?k @ [a]\<rparr>]\<rparr>"
  let ?d1 = "set_cache r ?c1 ?d"
  have i: "i < length (cache_bucket ?c)" using get_bucket_Some(1) [OF Some] .
  have co: "cache_of s ?d = cache_of s d" for s by (simp add: cache_of_def)
  have fits: "fits r (bo_size b)" using objs_okD(5) [OF ok b] r by (simp add: bo_ok_def)
  have sized: "cache_ok r d" using c r(2) by (cases r) (auto simp: caches_ok_def)
  have sz: "bk_size ?k = bo_size b" using get_bucket_fits [OF _ fits r(2) Some] sized by (simp add: cache_ok_def)
  obtain A B where L: "\<And>l. listed (set_cache r (?c\<lparr>cache_bucket := (cache_bucket ?c)[i := ?k\<lparr>bk_list := l\<rparr>]\<rparr>) ?d) = A @ l @ B"
      "listed ?d = A @ bk_list ?k @ B"
    using listed_update_bucket [of i r ?d] i unfolding co by metis
  have l0: "listed ?d = listed d" by (rule listed_same) simp_all
  have "objs_ok 2 (a # A @ bk_list ?k @ B) ?d" using objs_ok_modify [OF ok b, of ?b] fits r L(2) l0 by simp
  then have ok1: "objs_ok 2 (listed ?d1) ?d1" using L(1) [of "bk_list ?k @ [a]"] objs_ok_shift [of 2 "A @ bk_list ?k" a "[]" B ?d] by simp
  have nl: "a \<notin> set (listed d)" using objs_okD(2) [OF ok] by simp
  have ca: "cache_ok s ?d1" if s: "s \<noteq> NO_CACHE" for s
  proof (cases "s = r")
    case True
    have old: "cached_as r (bk_size k) ?d x" if "k \<in> set (cache_bucket ?c)" "x \<in> set (bk_list k)" for k x
      using that sized nl in_listed [OF that] by (auto simp: cache_ok_def cached_as_def)
    have "map bk_size (cache_bucket ?c1) = map bk_size (cache_bucket ?c)" using i by (simp add: map_update) (metis list_update_id map_update nth_map)
    moreover have "cached_as r (bk_size k) ?d x" if "k \<in> set (cache_bucket ?c1)" "x \<in> set (bk_list k)" for k x
    proof (cases "k \<in> set (cache_bucket ?c)")
      case False
      then have k: "k = ?k\<lparr>bk_list := bk_list ?k @ [a]\<rparr>" using that(1) set_update_subset_insert by fastforce
      show ?thesis using old [of ?k x] that(2) i sz r(1) unfolding k by (auto simp: cached_as_def)
    qed (use old that in blast)
    ultimately show ?thesis using True sized by (auto simp: cache_ok_def cache_sized_def cached_as_def)
  next
    case False
    have "cache_of s ?d1 = cache_of s d" using cache_of_other [OF r(2) s False] co by simp
    moreover have "cache_ok s d" using c s by (cases s) (auto simp: caches_ok_def)
    ultimately show ?thesis using nl in_listed [of _ s d] by (auto simp: cache_ok_def cached_as_def)
  qed
  then have c1: "caches_ok ?d1" by (simp add: caches_ok_def)
  obtain d2 where d2: "fd_bo_cache_cleanup r time ?d1 = Some d2" "objs_ok 2 (listed d2) d2" "caches_ok d2" "held d2 = held ?d1"
      "\<And>x b. bos ?d1 x = Some b \<Longrightarrow> free_time b = time \<Longrightarrow> time \<noteq> 0 \<Longrightarrow> bos d2 x = Some b"
    by (rule fd_bo_cache_cleanup_ok [OF ok1 c1 r(2)]) blast
  obtain d3 where d3: "fd_device_del_locked d2 = Some d3" "dev_inv d3" "held d3 = held d2" using dev_inv_del_locked [OF d2(2,3)] by blast
  have "bos d2 a = Some ?b" using d2(5) [of a ?b] t by simp
  then have "fd_bo_cache_free r time a d = Some (0, d3)" using b Some d2(1) d3(1) by (simp add: fd_bo_cache_free_def Let_def)
  moreover have "held ?d1 = held d" using held_upd [OF b, of ?b] by simp
  ultimately show ?thesis using d2(4) d3 by blast
qed

lemma bo_del_last:
  assumes "objs_ok 2 (a # listed d) d" and "caches_ok d"
  shows "\<exists>d'. do { d1 \<leftarrow> bo_del a d; fd_device_del_locked d1 } = Some d' \<and> dev_inv d' \<and> held d' = held d"
proof -
  obtain d1 where d1: "bo_del a d = Some d1" "objs_ok 2 (listed d) d1" "only_deletes d d1" "\<And>x. x \<noteq> a \<Longrightarrow> bos d1 x = bos d x"
    by (rule bo_del_ok [OF assms(1)]) blast
  have same: "bo_cache d1 = bo_cache d" "ring_cache d1 = ring_cache d" "held d1 = held d" using d1(3) by (simp_all add: only_deletes_def)
  have "a \<notin> set (listed d)" using objs_okD(2) [OF assms(1)] by simp
  then have "caches_ok d1" using d1(4) by (intro caches_ok_same [OF assms(2) same(1,2)]) metis
  then show ?thesis using dev_inv_del_locked [of d1] d1(1,2) same listed_same [OF same(1,2)] by simp
qed

lemma fd_bo_del_ok:
  assumes "dev_inv d" and "bos d a = Some b" and "0 < bo_refcnt b" and "e_time e \<noteq> 0"
  shows "\<exists>d'. fd_bo_del e a d = Some d' \<and> dev_inv d' \<and> held d' = (if bo_refcnt b = 1 then held d - {a} else held d)"
proof (cases "bo_refcnt b = 1")
  case False
  let ?c = "b\<lparr>bo_refcnt := bo_refcnt b - 1\<rparr>"
  have "fits (bo_reuse b) (bo_size b)" using assms(1,2) objs_okD(5) by (fastforce simp: dev_inv_def bo_ok_def)
  then show ?thesis using dev_inv_modify [OF assms(1-3), of ?c] assms(2,3) False by (simp add: fd_bo_del_def Let_def)
next
  case True
  let ?c = "b\<lparr>bo_refcnt := 0\<rparr>"
  let ?d = "d\<lparr>bos := (bos d)(a \<mapsto> ?c)\<rparr>"
  have I: "objs_ok 1 (listed d) d" "caches_ok d" using assms(1) by (simp_all add: dev_inv_def)
  have l: "listed ?d = listed d" by (rule listed_same) simp_all
  have nl: "a \<notin> set (listed d)" using held_not_listed [OF I(1), of a] assms(2,3) by (auto simp: held_def)
  have ok: "objs_ok 2 (a # listed ?d) ?d" using release_ok [OF I(1) assms(2) True, of ?c] l by simp
  have c: "caches_ok ?d" using nl by (intro caches_ok_same [OF I(2)]) auto
  have h: "held ?d = held d - {a}" using assms(2) by (auto simp: held_def)
  obtain d' where last: "do { d1 \<leftarrow> bo_del a ?d; fd_device_del_locked d1 } = Some d'" "dev_inv d'" "held d' = held ?d"
    using bo_del_last [OF ok c] by blast
  show ?thesis
  proof (cases "bo_reuse b = NO_CACHE")
    case True
    then show ?thesis using last assms(2) \<open>bo_refcnt b = 1\<close> h by (simp add: fd_bo_del_def Let_def)
  next
    case False
    then consider "fd_bo_cache_free (bo_reuse b) (e_time e) a ?d = Some (-1, ?d)"
      | d'' where "fd_bo_cache_free (bo_reuse b) (e_time e) a ?d = Some (0, d'')" "dev_inv d''" "held d'' = held ?d"
      using fd_bo_cache_free_ok [OF _ ok c, of ?c "bo_reuse b" "e_time e"] assms(4) by auto
    then show ?thesis
      by cases (use last assms(2) \<open>bo_refcnt b = 1\<close> h False in \<open>simp_all add: fd_bo_del_def Let_def\<close>)
  qed
qed

section \<open>Allocating\<close>

text \<open>Nothing appears that was not there: an unused address or handle stays unused.\<close>

definition no_new :: "fd_device \<Rightarrow> fd_device \<Rightarrow> bool" where
  "no_new d d' \<longleftrightarrow> (\<forall>x b. bos d' x = Some b \<longrightarrow> (\<exists>c. bos d x = Some c \<and> bo_handle c = bo_handle b))"

lemma only_deletes_no_new: "only_deletes d d' \<Longrightarrow> no_new d d'"
  unfolding only_deletes_def no_new_def map_le_def by (metis domI)

lemma taken_no_new: "taken d d' a \<Longrightarrow> no_new d d'"
  unfolding no_new_def
proof (intro allI impI)
  fix x b assume t: "taken d d' a" "bos d' x = Some b"
  show "\<exists>c. bos d x = Some c \<and> bo_handle c = bo_handle b"
    by (cases "x = a") (use t in \<open>auto simp: taken_def\<close>)
qed

lemma no_new_fresh:
  assumes "no_new d d'" and "objs_ok n L d" and "objs_ok m L' d'"
  shows "bos d a = None \<Longrightarrow> bos d' a = None" and "handle_table d h = None \<Longrightarrow> handle_table d' h = None"
proof -
  show "bos d a = None \<Longrightarrow> bos d' a = None" using assms(1) by (cases "bos d' a") (fastforce simp: no_new_def)+
  assume "handle_table d h = None"
  show "handle_table d' h = None"
  proof (cases "handle_table d' h")
    case (Some x)
    then obtain b c where "bos d' x = Some b" "bo_handle b = h" "bos d x = Some c" "bo_handle c = h"
      using objs_okD(6) [OF assms(3)] assms(1) unfolding no_new_def by metis
    then show ?thesis using objs_okD(5) [OF assms(2), of x c] \<open>handle_table d h = None\<close> by (simp add: bo_ok_def)
  qed
qed

lemma fd_bo_cache_alloc_ok:
  assumes "dev_inv d" and r: "r \<noteq> NO_CACHE"
  shows "\<exists>res sz' d'. fd_bo_cache_alloc idle keeps r sz d = Some (res, sz', d') \<and> dev_inv d' \<and> fits r sz' \<and> ALIGN sz 4096 \<le> sz' \<and> no_new d d' \<and>
    (case res of None \<Rightarrow> held d' = held d
     | Some a \<Rightarrow> a \<notin> held d \<and> held d' = insert a (held d) \<and> (\<exists>b. bos d' a = Some b \<and> bo_size b = sz' \<and> bo_reuse b = r \<and> bo_refcnt b = 1))"
proof -
  let ?c = "cache_of r d" and ?sz = "ALIGN sz 4096"
  have I: "objs_ok 1 (listed d) d" "caches_ok d" using assms(1) by (simp_all add: dev_inv_def)
  have cr: "cache_ok r d" using I(2) r by (cases r) (auto simp: caches_ok_def)
  then have f: "case get_bucket ?c ?sz of None \<Rightarrow> fits r ?sz | Some i \<Rightarrow> fits r (bk_size (cache_bucket ?c ! i))"
    using get_bucket_size_fits by (simp add: cache_ok_def)
  show ?thesis
  proof (cases "get_bucket ?c ?sz")
    case None
    then show ?thesis using assms(1) f by (simp add: fd_bo_cache_alloc_def Let_def no_new_def)
  next
    case (Some i)
    let ?k = "cache_bucket ?c ! i"
    note i = get_bucket_Some(1,2) [OF Some]
    obtain A B where L: "\<And>l. listed (set_cache r (?c\<lparr>cache_bucket := (cache_bucket ?c)[i := ?k\<lparr>bk_list := l\<rparr>]\<rparr>) d) = A @ l @ B"
        "listed d = A @ bk_list ?k @ B"
      using listed_update_bucket [OF i(1)] by metis
    obtain res as d1 where t: "take_from_list idle keeps (bk_list ?k) d = Some (res, as, d1)" "objs_ok 1 (A @ as @ B) d1" "set as \<subseteq> set (bk_list ?k)"
        "case res of None \<Rightarrow> only_deletes d d1 | Some a \<Rightarrow> a \<in> set (bk_list ?k) \<and> taken d d1 a"
      using take_from_list_ok [of 1 A "bk_list ?k" B d idle keeps] I(1) unfolding L(2) by blast
    let ?c1 = "?c\<lparr>cache_bucket := (cache_bucket ?c)[i := ?k\<lparr>bk_list := as\<rparr>]\<rparr>"
    let ?d = "set_cache r ?c1 d1"
    have same: "bo_cache d1 = bo_cache d" "ring_cache d1 = ring_cache d" using t(4) by (auto simp: only_deletes_def taken_def split: option.splits)
    have "listed ?d = listed (set_cache r ?c1 d)"
      unfolding listed_set_cache using same by (simp add: before_cache_def behind_cache_def)
    then have l: "listed ?d = A @ as @ B" using L(1) [of as] by simp
    have ok: "objs_ok 1 (listed ?d) ?d" using t(2) unfolding l by simp
    have keep: "bos ?d x = bos d x" if x: "x \<in> set (listed ?d)" for x
    proof -
      obtain b where b: "bos d1 x = Some b" "bo_refcnt b = 0" using listed_bo [OF t(2), of x] x unfolding l by auto
      have "bos d x = Some b"
      proof (cases res)
        case (Some a)
        then have "x \<noteq> a" using t(4) b by (auto simp: taken_def)
        then show ?thesis using t(4) Some b(1) by (auto simp: taken_def)
      qed (use t(4) b(1) in \<open>auto simp: only_deletes_def map_le_def dom_def\<close>)
      then show ?thesis using b(1) by simp
    qed
    have "caches_ok ?d"
      using caches_ok_shrunk [OF I(2), of ?d] shrunk_set_cache [OF r shrunk_update [OF i(1) t(3)] same] keep by blast
    then have inv: "dev_inv ?d" using ok by (simp add: dev_inv_def)
    have "no_new d d1" using t(4) only_deletes_no_new taken_no_new by (cases res) auto
    then have nn: "no_new d ?d" by (simp add: no_new_def)
    have res: "case res of None \<Rightarrow> held ?d = held d
       | Some a \<Rightarrow> a \<notin> held d \<and> held ?d = insert a (held d) \<and> (\<exists>b. bos ?d a = Some b \<and> bo_size b = bk_size ?k \<and> bo_reuse b = r \<and> bo_refcnt b = 1)"
    proof (cases res)
      case (Some a)
      have "cached_as r (bk_size ?k) d a" using cr t(4) Some i(1) by (simp add: cache_ok_def)
      then show ?thesis using t(4) Some by (auto simp: taken_def cached_as_def)
    qed (use t(4) in \<open>simp add: only_deletes_def\<close>)
    show ?thesis using t(1) \<open>get_bucket ?c ?sz = Some i\<close> inv f i(2) nn res by (simp add: fd_bo_cache_alloc_def Let_def)
  qed
qed

lemma bo_from_handle_ok:
  assumes "dev_inv d" and "bos d a = None" and "handle_table d h = None" and "h \<noteq> 0"
  obtains d' where "bo_from_handle (Some a) sz h d = (Some a, d')" and "dev_inv d'" and "held d' = insert a (held d)"
    and "\<exists>b. bos d' a = Some b \<and> bo_size b = sz \<and> bo_refcnt b = 1 \<and> bo_name b = 0"
proof -
  let ?b = "\<lparr>bo_size = sz, bo_handle = h, bo_name = 0, bo_refcnt = 1, bo_reuse = NO_CACHE, bo_list = Self, free_time = 0\<rparr>"
  let ?d = "d\<lparr>dev_refcnt := dev_refcnt d + 1, bos := (bos d)(a \<mapsto> ?b), handle_table := (handle_table d)(h \<mapsto> a)\<rparr>"
  have O: "objs_ok 1 (listed d) d" and C: "caches_ok d" using assms(1) by (simp_all add: dev_inv_def)
  note I = objs_okD [OF O]
  have l: "listed ?d = listed d" by (rule listed_same) simp_all
  have nl: "a \<notin> set (listed d)" using I(3) assms(2) by auto
  have held: "held ?d = insert a (held d)" "a \<notin> held d" using assms(2) by (auto simp: held_def)
  have card: "card (held ?d) = Suc (card (held d))" using held held_finite [OF O] by simp
  have each: "bo_ok (listed d) ?d x e" if "bos ?d x = Some e" for x e
  proof (cases "x = a")
    case True
    then show ?thesis using that nl assms(4) by (auto simp: bo_ok_def fits_def)
  next
    case False
    then have x: "bo_ok (listed d) d x e" using that I(5) by simp
    then have "bo_handle e \<noteq> h" using assms(3) by (auto simp: bo_ok_def)
    then show ?thesis using x by (simp add: bo_ok_def)
  qed
  have ht: "\<exists>e. bos ?d x = Some e \<and> bo_handle e = m" if "handle_table ?d m = Some x" for m x
    using I(6) [of m x] that assms(2) by (cases "m = h") auto
  have nt: "\<exists>e. bos ?d x = Some e \<and> bo_name e = m \<and> m \<noteq> 0" if "name_table ?d m = Some x" for m x
    using I(7) [of m x] that assms(2) by auto
  have dom: "set (listed d) \<subseteq> dom (bos ?d)" "finite (dom (bos ?d))" using I(3,4) by auto
  have "objs_ok 1 (listed ?d) ?d" unfolding objs_ok_def card l using I(1,2,8) dom each ht nt by simp
  moreover have "caches_ok ?d" using nl by (intro caches_ok_same [OF C]) auto
  ultimately have "dev_inv ?d" by (simp add: dev_inv_def)
  then show ?thesis using held assms(3) by (intro that [of ?d]) (simp_all add: bo_from_handle_def hash_insert_def)
qed

lemma bo_from_handle_none:
  assumes "dev_inv d"
  obtains d' where "bo_from_handle None sz h d = (None, d')" and "dev_inv d'" and "held d' = held d"
proof -
  let ?d = "d\<lparr>gem_closed := gem_closed d @ [h]\<rparr>"
  have O: "objs_ok 1 (listed d) d" and C: "caches_ok d" using assms by (simp_all add: dev_inv_def)
  have l: "listed ?d = listed d" by (rule listed_same) simp_all
  have "caches_ok ?d" by (rule caches_ok_same [OF C]) simp_all
  moreover have "objs_ok 1 (listed d) ?d" using O objs_ok_caches [of ?d d] by simp
  ultimately have "dev_inv ?d" by (simp add: dev_inv_def l)
  then show ?thesis by (intro that [of ?d]) (simp_all add: bo_from_handle_def held_def)
qed

text \<open>What the kernel and the driver promise: new memory, and a handle under which no object that is there is found.\<close>

definition mem_fresh :: "fd_env \<Rightarrow> fd_device \<Rightarrow> bool" where
  "mem_fresh e d \<longleftrightarrow> (case e_mem e of None \<Rightarrow> True | Some a \<Rightarrow> bos d a = None)"

definition handle_fresh :: "fd_env \<Rightarrow> fd_device \<Rightarrow> bool" where
  "handle_fresh e d \<longleftrightarrow> (case e_handle e of None \<Rightarrow> True | Some h \<Rightarrow> h \<noteq> 0 \<and> (case handle_table d h of None \<Rightarrow> True | Some a \<Rightarrow> bos d a = None))"

lemma handle_fresh_new: "handle_fresh e d \<Longrightarrow> dev_inv d \<Longrightarrow> e_handle e = Some h \<Longrightarrow> h \<noteq> 0 \<and> handle_table d h = None"
  using objs_okD(6) [of 1 "listed d" d h] by (fastforce simp: handle_fresh_def dev_inv_def split: option.splits)

lemma bo_new_in_ok:
  assumes "dev_inv d" and r: "r \<noteq> NO_CACHE" and "mem_fresh e d" and "handle_fresh e d"
  shows "\<exists>res d'. bo_new_in e r sz d = Some (res, d') \<and> dev_inv d' \<and>
    (case res of None \<Rightarrow> held d' = held d
     | Some a \<Rightarrow> a \<notin> held d \<and> held d' = insert a (held d) \<and> (\<exists>b. bos d' a = Some b \<and> ALIGN sz 4096 \<le> bo_size b \<and> bo_refcnt b = 1))"
proof -
  obtain res sz' d1 where A: "fd_bo_cache_alloc (e_idle e) (e_keeps e) r sz d = Some (res, sz', d1)" "dev_inv d1" "fits r sz'" "ALIGN sz 4096 \<le> sz'" "no_new d d1"
      "case res of None \<Rightarrow> held d1 = held d
       | Some a \<Rightarrow> a \<notin> held d \<and> held d1 = insert a (held d) \<and> (\<exists>b. bos d1 a = Some b \<and> bo_size b = sz' \<and> bo_reuse b = r \<and> bo_refcnt b = 1)"
    using fd_bo_cache_alloc_ok [OF assms(1,2)] by blast
  have O: "objs_ok 1 (listed d) d" "objs_ok 1 (listed d1) d1" using assms(1) A(2) by (simp_all add: dev_inv_def)
  note F = no_new_fresh [OF A(5) O]
  have reuse: "\<exists>d'. set_reuse r a d2 = Some d' \<and> dev_inv d' \<and> held d' = held d2 \<and> (\<exists>c. bos d' a = Some c \<and> bo_size c = sz' \<and> bo_refcnt c = 1)"
    if "dev_inv d2" "bos d2 a = Some b" "bo_size b = sz'" "bo_refcnt b = 1" for d2 a b
    using dev_inv_modify [OF that(1,2), of "b\<lparr>bo_reuse := r\<rparr>"] that A(3) by (simp add: set_reuse_def)
  show ?thesis
  proof (cases res)
    case (Some a)
    then obtain b where "bos d1 a = Some b" "bo_size b = sz'" "bo_refcnt b = 1" using A(6) by auto
    then show ?thesis using reuse [OF A(2)] A(1,4,6) Some by (fastforce simp: bo_new_in_def bo_new_def)
  next
    case None
    consider "e_handle e = None" | h where "e_handle e = Some h" "e_mem e = None" | h a where "e_handle e = Some h" "e_mem e = Some a"
      by (cases "e_handle e"; cases "e_mem e") auto
    then show ?thesis
    proof cases
      case 1
      then show ?thesis using A None by (simp add: bo_new_in_def bo_new_def)
    next
      case 2
      obtain d2 where "bo_from_handle None sz' h d1 = (None, d2)" "dev_inv d2" "held d2 = held d1" by (rule bo_from_handle_none [OF A(2)])
      then show ?thesis using A None 2 by (simp add: bo_new_in_def bo_new_def)
    next
      case 3
      have fr: "bos d1 a = None" "handle_table d1 h = None" "h \<noteq> 0"
        using F(1) [of a] F(2) [of h] handle_fresh_new [OF assms(4,1)] assms(3) 3 by (auto simp: mem_fresh_def)
      obtain d2 b where d2: "bo_from_handle (Some a) sz' h d1 = (Some a, d2)" "dev_inv d2" "held d2 = insert a (held d1)"
          "bos d2 a = Some b" "bo_size b = sz'" "bo_refcnt b = 1"
        by (rule bo_from_handle_ok [OF A(2) fr]) blast
      have "a \<notin> held d" using fr(1) A(6) None assms(3) 3 by (auto simp: held_def mem_fresh_def)
      then show ?thesis using reuse [OF d2(2,4-6)] A(1,4,6) None 3 d2(1,3) by (fastforce simp: bo_new_in_def bo_new_def)
    qed
  qed
qed

section \<open>Importing and naming\<close>

text \<open>The object found in a table was never in a cache. That there is an object at the address found is not
  assumed: it follows from the upkeep of the tables.\<close>

definition importable :: "addr option \<Rightarrow> fd_device \<Rightarrow> bool" where
  "importable found d \<longleftrightarrow> (case found of None \<Rightarrow> True | Some a \<Rightarrow> (case bos d a of None \<Rightarrow> True | Some b \<Rightarrow> bo_list b = Self))"

lemma listed_cached_as:
  assumes "caches_ok d" and "a \<in> set (listed d)"
  shows "\<exists>r sz. cached_as r sz d a"
proof -
  obtain r k where "r \<noteq> NO_CACHE" "k \<in> set (cache_bucket (cache_of r d))" "a \<in> set (bk_list k)"
  proof (cases "a \<in> set (concat (map bk_list (cache_bucket (bo_cache d))))")
    case True
    then show ?thesis using that [of BO_CACHE] by (auto simp: cache_of_def)
  next
    case False
    then show ?thesis using that [of RING_CACHE] assms(2) by (auto simp: cache_of_def listed_def)
  qed
  moreover from this have "cache_ok r d" using assms(1) by (cases r) (auto simp: caches_ok_def)
  ultimately have "cached_as r (bk_size k) d a" by (simp add: cache_ok_def)
  then show ?thesis by blast
qed

lemma self_held:
  assumes "dev_inv d" and "bos d a = Some b" and "bo_list b = Self"
  shows "0 < bo_refcnt b"
proof -
  have O: "objs_ok 1 (listed d) d" and C: "caches_ok d" using assms(1) by (simp_all add: dev_inv_def)
  have "a \<notin> set (listed d)" using listed_cached_as [OF C] assms(2,3) by (fastforce simp: cached_as_def)
  then show ?thesis using objs_okD(5) [OF O assms(2)] by (auto simp: bo_ok_def)
qed

lemma bo_fits: "dev_inv d \<Longrightarrow> bos d a = Some b \<Longrightarrow> fits (bo_reuse b) (bo_size b)"
  using objs_okD(5) [of 1 "listed d" d a b] by (simp add: dev_inv_def bo_ok_def)

lemma fd_bo_ref_ok:
  assumes "dev_inv d" and "bos d a = Some b" and "0 < bo_refcnt b"
  shows "\<exists>d'. fd_bo_ref a d = Some d' \<and> dev_inv d' \<and> held d' = held d \<and> bos d' a = Some (b\<lparr>bo_refcnt := bo_refcnt b + 1\<rparr>)"
  using dev_inv_modify [OF assms, of "b\<lparr>bo_refcnt := bo_refcnt b + 1\<rparr>"] bo_fits [OF assms(1,2)] assms(2,3) by (simp add: fd_bo_ref_def)

lemma lookup_bo_ok:
  assumes "dev_inv d" and "importable (Some a) d" and "handle_table d h = Some a \<or> name_table d n = Some a"
  shows "\<exists>d'. lookup_bo (Some a) d = Some (Some a, d') \<and> dev_inv d' \<and> held d' = held d"
proof -
  have "objs_ok 1 (listed d) d" using assms(1) by (simp add: dev_inv_def)
  from objs_okD(6,7) [OF this] obtain b where b: "bos d a = Some b" using assms(3) by blast
  then have b: "bos d a = Some b" "bo_list b = Self" using assms(2) by (simp_all add: importable_def)
  obtain d' where "fd_bo_ref a d = Some d'" "dev_inv d'" "held d' = held d" "bos d' a = Some (b\<lparr>bo_refcnt := bo_refcnt b + 1\<rparr>)"
    using fd_bo_ref_ok [OF assms(1) b(1) self_held [OF assms(1) b]] by blast
  then show ?thesis using b(2) by (simp add: lookup_bo_def list_delinit_def)
qed

lemma set_name_ok:
  assumes "dev_inv d" and "bos d a = Some b" and "0 < bo_refcnt b" and "bo_name b = 0" and "n \<noteq> 0"
  obtains d' where "set_name a n d = Some d'" and "dev_inv d'" and "held d' = held d" and "bos d' a = Some (b\<lparr>bo_name := n\<rparr>)"
proof -
  let ?c = "b\<lparr>bo_name := n\<rparr>"
  let ?d = "d\<lparr>bos := (bos d)(a \<mapsto> ?c), name_table := hash_insert n a (name_table d)\<rparr>"
  have O: "objs_ok 1 (listed d) d" and C: "caches_ok d" using assms(1) by (simp_all add: dev_inv_def)
  note I = objs_okD [OF O]
  have l: "listed ?d = listed d" by (rule listed_same) simp_all
  have nl: "a \<notin> set (listed d)" using held_not_listed [OF O, of a] assms(2,3) by (auto simp: held_def)
  have held: "held ?d = held d" using assms(2,3) by (auto simp: held_def)
  have each: "bo_ok (listed d) ?d x e" if "bos ?d x = Some e" for x e
    using that I(5) [of x e] I(5) [OF assms(2)] by (cases "x = a") (auto simp: bo_ok_def)
  have ht: "\<exists>e. bos ?d x = Some e \<and> bo_handle e = h" if "handle_table ?d h = Some x" for h x
    using I(6) [of h x] that assms(2) by auto
  have nt: "\<exists>e. bos ?d x = Some e \<and> bo_name e = m \<and> m \<noteq> 0" if "name_table ?d m = Some x" for m x
  proof (cases "name_table d m = Some x")
    case True
    then have "x \<noteq> a" using I(7) [OF True] assms(2,4) by auto
    then show ?thesis using I(7) [OF True] by auto
  next
    case False
    then have "m = n" "x = a" using that by (auto simp: hash_insert_def split: if_splits)
    then show ?thesis using assms(5) by simp
  qed
  have dom: "set (listed d) \<subseteq> dom (bos ?d)" "finite (dom (bos ?d))" using I(3,4) by auto
  have "objs_ok 1 (listed ?d) ?d" unfolding objs_ok_def held l using I(1,2,8) dom each ht nt by simp
  moreover have "caches_ok ?d" using nl by (intro caches_ok_same [OF C]) auto
  ultimately have "dev_inv ?d" by (simp add: dev_inv_def)
  then show ?thesis using assms(2) held by (intro that [of ?d]) (simp_all add: set_name_def)
qed

lemma set_reuse_none_ok:
  assumes "dev_inv d" and "bos d a = Some b" and "0 < bo_refcnt b"
  shows "\<exists>d'. set_reuse NO_CACHE a d = Some d' \<and> dev_inv d' \<and> held d' = held d"
  using dev_inv_modify [OF assms, of "b\<lparr>bo_reuse := NO_CACHE\<rparr>"] assms(2,3) by (simp add: set_reuse_def fits_def)

lemma fd_bo_get_name_ok:
  assumes "dev_inv d" and "bos d a = Some b" and "0 < bo_refcnt b" and "e_name e \<noteq> Some 0"
  shows "\<exists>n d'. fd_bo_get_name e a d = Some (n, d') \<and> dev_inv d' \<and> held d' = held d"
proof (cases "bo_name b = 0 \<and> e_name e \<noteq> None")
  case True
  then obtain n where n: "e_name e = Some n" "n \<noteq> 0" using assms(4) by auto
  obtain d1 where d1: "set_name a n d = Some d1" "dev_inv d1" "held d1 = held d" "bos d1 a = Some (b\<lparr>bo_name := n\<rparr>)"
    using set_name_ok [OF assms(1-3) _ n(2)] True by blast
  then show ?thesis using set_reuse_none_ok [OF d1(2,4)] assms(2,3) True n by (auto simp: fd_bo_get_name_def)
qed (use assms in \<open>auto simp: fd_bo_get_name_def\<close>)

lemma from_handle_ok:
  assumes "dev_inv d" and "h \<noteq> 0" and "importable (handle_table d h) d" and "mem_fresh e d"
  shows "\<exists>res d'. fd_bo_from_handle e h sz d = Some (res, d') \<and> dev_inv d'"
proof (cases "handle_table d h")
  case (Some a)
  then show ?thesis using lookup_bo_ok [OF assms(1), of a h] assms(3) by (auto simp: fd_bo_from_handle_def)
next
  case None
  show ?thesis
  proof (cases "e_mem e")
    case (Some a)
    then have "bos d a = None" using assms(4) by (simp add: mem_fresh_def)
    then obtain d' where "bo_from_handle (Some a) sz h d = (Some a, d')" "dev_inv d'" by (rule bo_from_handle_ok [OF assms(1) _ None assms(2)])
    then show ?thesis using None Some by (simp add: fd_bo_from_handle_def lookup_bo_def)
  next
    case e: None
    obtain d' where "bo_from_handle None sz h d = (None, d')" "dev_inv d'" by (rule bo_from_handle_none [OF assms(1)])
    then show ?thesis using None e by (simp add: fd_bo_from_handle_def lookup_bo_def)
  qed
qed

lemma from_name_ok:
  assumes "dev_inv d" and "n \<noteq> 0" and "importable (name_table d n) d" and "mem_fresh e d"
    and h: "\<And>h. e_handle e = Some h \<Longrightarrow> h \<noteq> 0 \<and> importable (handle_table d h) d"
  shows "\<exists>res d'. fd_bo_from_name e n d = Some (res, d') \<and> dev_inv d'"
proof (cases "name_table d n")
  case (Some a)
  then show ?thesis using lookup_bo_ok [OF assms(1), of a _ n] assms(3) by (auto simp: fd_bo_from_name_def)
next
  case nt: None
  show ?thesis
  proof (cases "e_handle e")
    case None
    then show ?thesis using nt assms(1) by (simp add: fd_bo_from_name_def lookup_bo_def)
  next
    case eh: (Some g)
    show ?thesis
    proof (cases "handle_table d g")
      case (Some a)
      then show ?thesis using lookup_bo_ok [OF assms(1), of a g] h [OF eh] nt eh by (auto simp: fd_bo_from_name_def lookup_bo_def [of None])
    next
      case ht: None
      show ?thesis
      proof (cases "e_mem e")
        case None
        obtain d' where "bo_from_handle None (e_size e) g d = (None, d')" "dev_inv d'" by (rule bo_from_handle_none [OF assms(1)])
        then show ?thesis using None nt ht eh by (simp add: fd_bo_from_name_def lookup_bo_def)
      next
        case (Some a)
        then have "bos d a = None" using assms(4) by (simp add: mem_fresh_def)
        then obtain d1 b where d1: "bo_from_handle (Some a) (e_size e) g d = (Some a, d1)" "dev_inv d1" "bos d1 a = Some b" "bo_refcnt b = 1" "bo_name b = 0"
          using bo_from_handle_ok [OF assms(1) _ ht, of a] h [OF eh] by metis
        obtain d2 where "set_name a n d1 = Some d2" "dev_inv d2"
          using set_name_ok [OF d1(2,3) _ d1(5) assms(2)] d1(4) by auto
        then show ?thesis using Some nt ht eh d1(1) by (simp add: fd_bo_from_name_def lookup_bo_def)
      qed
    qed
  qed
qed

section \<open>Runs of calls\<close>

datatype fd_call =
    New u32 | New_ring u32 | From_handle u32 u32 | From_dmabuf | From_name u32 | Ref addr | Del addr | Get_name addr | Dmabuf bool addr

fun fd_perform :: "fd_env \<Rightarrow> fd_call \<Rightarrow> fd_device \<Rightarrow> fd_device option" where
  "fd_perform e (New sz) d = map_option snd (fd_bo_new e sz d)"
| "fd_perform e (New_ring sz) d = map_option snd (fd_bo_new_ring e sz d)"
| "fd_perform e (From_handle h sz) d = map_option snd (fd_bo_from_handle e h sz d)"
| "fd_perform e From_dmabuf d = map_option snd (fd_bo_from_dmabuf e d)"
| "fd_perform e (From_name n) d = map_option snd (fd_bo_from_name e n d)"
| "fd_perform e (Ref a) d = fd_bo_ref a d"
| "fd_perform e (Del a) d = fd_bo_del e a d"
| "fd_perform e (Get_name a) d = map_option snd (fd_bo_get_name e a d)"
| "fd_perform e (Dmabuf ok a) d = fd_bo_dmabuf ok a d"

text \<open>A call is in order: it uses objects that have a reference; memory is new; a handle for a new buffer is not in use, handles and
  names are not 0; what is imported was never in a cache; and the clock is past its first second.\<close>

definition is_held :: "addr \<Rightarrow> fd_device \<Rightarrow> bool" where
  "is_held a d \<longleftrightarrow> (case bos d a of None \<Rightarrow> False | Some b \<Rightarrow> 0 < bo_refcnt b)"

definition import_in_order :: "fd_env \<Rightarrow> fd_device \<Rightarrow> bool" where
  "import_in_order e d \<longleftrightarrow> mem_fresh e d \<and> (case e_handle e of None \<Rightarrow> True | Some h \<Rightarrow> h \<noteq> 0 \<and> importable (handle_table d h) d)"

fun in_order :: "fd_env \<Rightarrow> fd_call \<Rightarrow> fd_device \<Rightarrow> bool" where
  "in_order e (New sz) d \<longleftrightarrow> mem_fresh e d \<and> handle_fresh e d"
| "in_order e (New_ring sz) d \<longleftrightarrow> mem_fresh e d \<and> handle_fresh e d"
| "in_order e (From_handle h sz) d \<longleftrightarrow> mem_fresh e d \<and> h \<noteq> 0 \<and> importable (handle_table d h) d"
| "in_order e From_dmabuf d \<longleftrightarrow> import_in_order e d"
| "in_order e (From_name n) d \<longleftrightarrow> import_in_order e d \<and> n \<noteq> 0 \<and> importable (name_table d n) d"
| "in_order e (Ref a) d \<longleftrightarrow> is_held a d"
| "in_order e (Del a) d \<longleftrightarrow> is_held a d \<and> e_time e \<noteq> 0"
| "in_order e (Get_name a) d \<longleftrightarrow> is_held a d \<and> e_name e \<noteq> Some 0"
| "in_order e (Dmabuf ok a) d \<longleftrightarrow> is_held a d"

fun fd_run :: "(fd_env \<times> fd_call) list \<Rightarrow> fd_device \<Rightarrow> fd_device option" where
  "fd_run [] d = Some d"
| "fd_run ((e, c) # cs) d = (case fd_perform e c d of None \<Rightarrow> None | Some d1 \<Rightarrow> fd_run cs d1)"

fun run_in_order :: "(fd_env \<times> fd_call) list \<Rightarrow> fd_device \<Rightarrow> bool" where
  "run_in_order [] d \<longleftrightarrow> True"
| "run_in_order ((e, c) # cs) d \<longleftrightarrow> in_order e c d \<and> (case fd_perform e c d of None \<Rightarrow> True | Some d1 \<Rightarrow> run_in_order cs d1)"

lemma is_held_bo: "is_held a d \<Longrightarrow> \<exists>b. bos d a = Some b \<and> 0 < bo_refcnt b"
  by (auto simp: is_held_def split: option.splits)

lemma fd_perform_ok:
  assumes "dev_inv d" and "in_order e c d"
  shows "\<exists>d'. fd_perform e c d = Some d' \<and> dev_inv d'"
proof (cases c)
  case (New sz)
  then show ?thesis using bo_new_in_ok [OF assms(1), of BO_CACHE e sz] assms(2) by (auto simp: fd_bo_new_def)
next
  case (New_ring sz)
  then show ?thesis using bo_new_in_ok [OF assms(1), of RING_CACHE e sz] assms(2) by (auto simp: fd_bo_new_ring_def)
next
  case (From_handle h sz)
  then show ?thesis using from_handle_ok [OF assms(1), of h e sz] assms(2) by auto
next
  case From_dmabuf
  then show ?thesis using from_handle_ok [OF assms(1)] assms by (cases "e_handle e") (fastforce simp: fd_bo_from_dmabuf_def import_in_order_def)+
next
  case (From_name n)
  then have "\<exists>res d'. fd_bo_from_name e n d = Some (res, d') \<and> dev_inv d'"
    using assms(2) by (intro from_name_ok [OF assms(1)]) (auto simp: import_in_order_def)
  then show ?thesis using From_name by auto
next
  case (Ref a)
  then obtain b where "bos d a = Some b" "0 < bo_refcnt b" using is_held_bo assms(2) by auto
  then show ?thesis using fd_bo_ref_ok [OF assms(1)] Ref by fastforce
next
  case (Del a)
  then obtain b where "bos d a = Some b" "0 < bo_refcnt b" using is_held_bo assms(2) by auto
  then show ?thesis using fd_bo_del_ok [OF assms(1), of a b e] assms(2) Del by auto
next
  case (Get_name a)
  then obtain b where "bos d a = Some b" "0 < bo_refcnt b" using is_held_bo assms(2) by auto
  then show ?thesis using fd_bo_get_name_ok [OF assms(1), of a b e] assms(2) Get_name by auto
next
  case (Dmabuf ok a)
  then obtain b where "bos d a = Some b" "0 < bo_refcnt b" using is_held_bo assms(2) by auto
  then show ?thesis using set_reuse_none_ok [OF assms(1), of a b] assms(1) Dmabuf by (auto simp: fd_bo_dmabuf_def)
qed

lemma fd_device_new_ok: "\<exists>d. fd_device_new = Some d \<and> dev_inv d"
proof -
  obtain c where c: "fd_bo_cache_init False = Some c" "list_all (\<lambda>k. bk_list k = []) (cache_bucket c)" using init_buckets by blast
  obtain r where r: "fd_bo_cache_init True = Some r" "list_all (\<lambda>k. bk_list k = []) (cache_bucket r)" using init_buckets by blast
  let ?d = "\<lparr>dev_refcnt = 1, alive = True, bos = Map.empty, handle_table = Map.empty, name_table = Map.empty, bo_cache = c, ring_cache = r, gem_closed = []\<rparr>"
  have e: "k \<in> set (cache_bucket c) \<union> set (cache_bucket r) \<Longrightarrow> bk_list k = []" for k using c(2) r(2) by (auto simp: list_all_iff)
  have "listed ?d = []" using e by (simp add: listed_def)
  moreover have "caches_ok ?d" using e c(1) r(1) by (auto simp: caches_ok_def cache_ok_def cache_of_def cache_sized_def bucket_sizes_def)
  ultimately have "dev_inv ?d" by (simp add: dev_inv_def objs_ok_def held_def)
  then show ?thesis using c(1) r(1) by (simp add: fd_device_new_def)
qed

lemma fd_device_new_inv: "fd_device_new = Some d \<Longrightarrow> dev_inv d"
  using fd_device_new_ok by (metis option.inject)

lemma fd_run_ok: "dev_inv d \<Longrightarrow> run_in_order cs d \<Longrightarrow> \<exists>d'. fd_run cs d = Some d' \<and> dev_inv d'"
proof (induction cs arbitrary: d)
  case (Cons x cs)
  obtain e c where x: "x = (e, c)" by (cases x)
  obtain d1 where "fd_perform e c d = Some d1" "dev_inv d1" using fd_perform_ok [OF Cons.prems(1), of e c] Cons.prems(2) x by auto
  then show ?case using Cons.IH [of d1] Cons.prems(2) x by simp
qed simp

text \<open>C16. Whatever sequence of calls is made on a new device, if they are in order, no call uses an object or a device that is
  gone or follows a stale link, and no assertion fails. At the end the device lives, with one reference of its creator and one per buffer in
  use; every buffer is in use or in exactly one bucket of a cache, not both, and in the table of handles under its handle; and the
  tables of handles and of global names lead only to buffers that are there and have that handle or name. The calls in order are those that
  use buffers the caller holds and import no buffer that was ever in a cache; that a table leads to an object that is still there is
  not assumed of them.\<close>

theorem fd_bo_runs_safe:
  assumes "fd_device_new = Some d0" and "run_in_order cs d0"
  shows "\<exists>d. fd_run cs d0 = Some d \<and> alive d \<and> dev_refcnt d = 1 + int (card (held d)) \<and>
    distinct (listed d) \<and> dom (bos d) = held d \<union> set (listed d) \<and> held d \<inter> set (listed d) = {} \<and>
    (\<forall>h a. handle_table d h = Some a \<longleftrightarrow> (\<exists>b. bos d a = Some b \<and> bo_handle b = h)) \<and>
    (\<forall>n a. name_table d n = Some a \<longrightarrow> (\<exists>b. bos d a = Some b \<and> bo_name b = n \<and> n \<noteq> 0))"
proof -
  obtain d where d: "fd_run cs d0 = Some d" "dev_inv d" using fd_run_ok [OF fd_device_new_inv [OF assms(1)] assms(2)] by auto
  have O: "objs_ok 1 (listed d) d" using d(2) by (simp add: dev_inv_def)
  note I = objs_okD [OF O]
  have "a \<in> held d \<longleftrightarrow> a \<notin> set (listed d)" if "bos d a = Some b" for a b
    using I(5) [OF that] that by (auto simp: held_def bo_ok_def)
  then have "dom (bos d) = held d \<union> set (listed d)" using I(3) by (auto simp: held_def)
  moreover have "held d \<inter> set (listed d) = {}" using held_not_listed [OF O] by blast
  moreover have "handle_table d h = Some a \<longleftrightarrow> (\<exists>b. bos d a = Some b \<and> bo_handle b = h)" for h a
    using I(6) [of h a] I(5) [of a] by (auto simp: bo_ok_def)
  ultimately show ?thesis using d(1) I(1,2,7,8) by auto
qed

lemma ALIGN_page_ge: "unat sz + 4095 < 2 ^ 32 \<Longrightarrow> sz \<le> ALIGN sz (4096 :: u32)"
proof -
  assume a: "unat sz + 4095 < 2 ^ 32"
  have "unat (ALIGN sz (2 ^ 12 :: u32)) = round_up (unat sz) (2 ^ 12)" using a by (intro unat_ALIGN) simp_all
  then show ?thesis using round_up_ge [of "2 ^ 12" "unat sz"] by (simp add: word_le_nat_alt)
qed

text \<open>C40. After any run of calls that are in order, a request for a buffer returns, and the buffer it gives, recycled or new, is not one
  that is in use, has one reference, and is at least as large as asked for, unless rounding the size up to pages wraps around.\<close>

theorem fd_bo_new_gives_room:
  assumes "fd_device_new = Some d0" and "run_in_order cs d0" and "fd_run cs d0 = Some d" and "in_order e (New sz) d" and "unat sz + 4095 < 2 ^ 32"
  shows "\<exists>res d'. fd_bo_new e sz d = Some (res, d') \<and>
    (\<forall>a. res = Some a \<longrightarrow> a \<notin> held d \<and> held d' = insert a (held d) \<and> (\<exists>b. bos d' a = Some b \<and> sz \<le> bo_size b \<and> bo_refcnt b = 1))"
proof -
  have "dev_inv d" using fd_run_ok [OF fd_device_new_inv [OF assms(1)] assms(2)] assms(3) by auto
  from bo_new_in_ok [OF this, of BO_CACHE e sz] assms(4) obtain res d' where r: "fd_bo_new e sz d = Some (res, d')"
      "case res of None \<Rightarrow> held d' = held d
       | Some a \<Rightarrow> a \<notin> held d \<and> held d' = insert a (held d) \<and> (\<exists>b. bos d' a = Some b \<and> ALIGN sz 4096 \<le> bo_size b \<and> bo_refcnt b = 1)"
    by (auto simp: fd_bo_new_def)
  have "sz \<le> bo_size b" if "ALIGN sz 4096 \<le> bo_size b" for b using order_trans [OF ALIGN_page_ge [OF assms(5)] that] .
  then show ?thesis using r by fastforce
qed

text \<open>Witnesses, and runs that are not in order.\<close>

definition fd_demo_env :: "addr option \<Rightarrow> u32 option \<Rightarrow> fd_env" where
  "fd_demo_env m h = \<lparr>e_idle = (\<lambda>_. True), e_keeps = (\<lambda>_. True), e_mem = m, e_handle = h, e_size = 8192, e_name = Some 3, e_time = 5\<rparr>"

definition demo_dev :: fd_device where
  "demo_dev = (case fd_device_new of Some d \<Rightarrow> d
     | None \<Rightarrow> \<lparr>dev_refcnt = 0, alive = False, bos = Map.empty, handle_table = Map.empty, name_table = Map.empty,
         bo_cache = \<lparr>cache_bucket = [], cache_time = 0\<rparr>, ring_cache = \<lparr>cache_bucket = [], cache_time = 0\<rparr>, gem_closed = []\<rparr>)"

lemma demo_dev_new: "fd_device_new = Some demo_dev"
proof -
  obtain d where d: "fd_device_new = Some d" using fd_device_new_ok by blast
  show ?thesis unfolding demo_dev_def d by (simp only: option.case)
qed

definition demo_calls :: "(fd_env \<times> fd_call) list" where
  "demo_calls = [(fd_demo_env (Some 100) (Some 1), New 5000), (fd_demo_env (Some 200) (Some 2), New_ring 100), (fd_demo_env None (Some 1), From_dmabuf),
     (fd_demo_env None None, Del 100), (fd_demo_env None None, Del 100), (fd_demo_env None None, Del 200), (fd_demo_env None None, New 6000),
     (fd_demo_env (Some 300) (Some 3), From_name 9), (fd_demo_env None None, From_name 9), (fd_demo_env None None, Get_name 100),
     (fd_demo_env None None, Del 300), (fd_demo_env None None, Del 300), (fd_demo_env (Some 400) (Some 3), From_name 9)]"

lemma demo_in_order: "run_in_order demo_calls demo_dev"
  by code_simp

theorem fd_bo_runs_safe_witness:
  "\<exists>d. fd_run demo_calls demo_dev = Some d \<and> alive d \<and> dev_refcnt d = 1 + int (card (held d))
     \<and> (\<forall>n a. name_table d n = Some a \<longrightarrow> (\<exists>b. bos d a = Some b \<and> bo_name b = n))"
  using fd_bo_runs_safe [OF demo_dev_new demo_in_order] by blast

theorem fd_bo_new_gives_room_witness:
  "\<exists>res d'. fd_bo_new (fd_demo_env (Some 100) (Some 1)) 5000 demo_dev = Some (res, d') \<and>
     (\<forall>a. res = Some a \<longrightarrow> a \<notin> held demo_dev \<and> (\<exists>b. bos d' a = Some b \<and> 5000 \<le> bo_size b))"
proof -
  have "in_order (fd_demo_env (Some 100) (Some 1)) (New 5000) demo_dev" by code_simp
  then show ?thesis using fd_bo_new_gives_room [OF demo_dev_new, of "[]" demo_dev "fd_demo_env (Some 100) (Some 1)" 5000] by fastforce
qed

text \<open>A buffer taken from the cache and imported again: its link is stale.\<close>

lemma recycled_import_follows_stale_link:
  "fd_run [(fd_demo_env (Some 100) (Some 1), New 5000), (fd_demo_env None None, Del 100), (fd_demo_env None None, New 5000),
     (fd_demo_env None None, From_handle 1 5000)] demo_dev = None"
  by code_simp

text \<open>A buffer in the cache imported again: it gets a reference but the device does not, and the device is destroyed although its
  creator still has it.\<close>

lemma cached_import_destroys_device:
  "map_option alive (fd_run [(fd_demo_env (Some 100) (Some 1), New 5000), (fd_demo_env None None, Del 100),
     (fd_demo_env None None, From_handle 1 5000), (fd_demo_env None None, Del 100)] demo_dev) = Some False"
  by code_simp

text \<open>When the last reference to the device goes, the cached ring buffers stay.\<close>

lemma ring_buffers_stay:
  "map_option (\<lambda>d. (alive d, bos d 100 = None, bos d 200 = None, gem_closed d))
     (Option.bind (fd_run [(fd_demo_env (Some 100) (Some 1), New 5000), (fd_demo_env (Some 200) (Some 2), New_ring 100), (fd_demo_env None None, Del 100),
        (fd_demo_env None None, Del 200)] demo_dev) fd_device_del_locked) = Some (False, True, False, [1])"
  by code_simp

text \<open>The size of a request above \<open>2 ^ 32 - 4096\<close> wraps around to 0.\<close>

lemma huge_request_gets_a_page:
  "map_option (\<lambda>(a, d). map_option bo_size (bos d 100)) (fd_bo_new (fd_demo_env (Some 100) (Some 1)) 0xFFFFF001 demo_dev) = Some (Some 4096)"
  by code_simp

end
