(* ===== verification/Spec2Isabelle.thy ===== *)
theory Spec2Isabelle
  imports Prelude Drm_Random Drm_Hash Drm_Skiplist Amdgpu_Vamgr Amdgpu_Handle Intel_Mm Drm_Atomic Gps_Thread Bt_Attach Audio_Hw Dhcp_Server Dhcp_Client
    Vsoc_Queue Vsoc_Lock Bt_Hal Fd_Bo
begin

text \<open>
  \<^bold>\<open>A verification development for the native code of an Android 9 device tree for the Raspberry Pi 3.\<close>

  The tree (\<^verbatim>\<open>src/\<close>) has four groups of native code of its own or adapted for the device: the display library
  \<^verbatim>\<open>hals/display/libdrm\<close>, the HALs (GPS, Bluetooth, audio, camera and others), the DHCP
  client and server of \<^verbatim>\<open>dhcp/\<close>, and the boot and build files around them. The target is 32-bit ARM
  (\<^verbatim>\<open>BoardConfig.mk\<close>): \<^verbatim>\<open>unsigned long\<close> and pointers have 32 bits and memory is little-endian.

  \<^bold>\<open>Conventions.\<close> A C structure is a \<^verbatim>\<open>record\<close>, an integer keeps its width as a word, a function is a HOL
  function of the same name that returns the new state; errors are values (an error number, an \<^verbatim>\<open>option\<close>,
  or a sum). Memory that the code reaches through pointers is either a map from addresses (hash chains, skip list) or, where no
  claim depends on addresses, a list in the order of the links (holes, heap blocks). Everything the kernel, libc or another package
  decides is an argument: results of system calls come as lists of outcomes or as functions, and a theorem ranges over all of
  them. Where a loop of the code may not end (probing a signal
  table, the choice of an address, walks along pointers) the model has \<^verbatim>\<open>None\<close> for that, and the theorems
  say when it returns.

  \<^bold>\<open>Shared theories.\<close>
  \<^item> \<open>Prelude\<close>: types of the target, error numbers, the alignment macros of \<^verbatim>\<open>util_math.h\<close>, lemmas on lists and words.
  \<^item> \<open>Dict\<close>: the locale of a key/value table (a well-formedness predicate, its finite map, and the laws of lookup, insert and
    delete with their return codes); a call that faults or does not return has no result. Inside it, runs of calls are shown to return and to
    give the codes and answers of the map. Interpreted by \<open>Drm_Hash\<close> (keys to values) and \<open>Drm_Skiplist\<close> (keys to entries and
    values, of which a lookup shows the entry).
  \<^item> \<open>Range_Alloc\<close>: the locale of an allocator of address ranges; inside it, free addresses and live ranges are shown to be a
    partition of the space after any run. Interpreted by \<open>Amdgpu_Vamgr\<close> and \<open>Intel_Mm\<close>.
  \<^item> \<open>Fifo\<close>: the locale of a bounded queue (its contents as a list, the laws of putting and taking, where a call that copies outside the
    buffer has no result); inside it, every run is shown to have a result, and what is taken to be what was put, in order. Interpreted twice by \<open>Vsoc_Queue\<close>, for bytes and for packets.
  \<^item> \<open>Net_Bytes\<close>: words as bytes in memory, \<^verbatim>\<open>htons\<close>, \<^verbatim>\<open>htonl\<close>, writing into buffers.

  \<^bold>\<open>libdrm.\<close>
  \<^item> \<open>Drm_Random\<close> (\<^verbatim>\<open>xf86drmRandom.c\<close>): the generator; Schrage's decomposition is the Lehmer step, the period, the self-test value.
  \<^item> \<open>Drm_Hash\<close> (\<^verbatim>\<open>xf86drmHash.c\<close>, \<^verbatim>\<open>drmGetEntry\<close> of \<^verbatim>\<open>xf86drm.c\<close>): chains of addressed buckets that a lookup reorders, the
    iterator, destruction. It implements a map; what the iterator misses and repeats; one entry per key of a device.
  \<^item> \<open>Drm_Skiplist\<close> (\<^verbatim>\<open>xf86drmSL.c\<close>): entries in a heap with their forward pointers and a magic number; search, insertion,
    deletion, neighbours, traversal, destruction. Walks along pointers are partial functions into \<^verbatim>\<open>option\<close>; from the
    invariant they are shown to return.
  \<^item> \<open>Amdgpu_Vamgr\<close> (\<^verbatim>\<open>amdgpu_vamgr.c\<close>, set-up in \<^verbatim>\<open>amdgpu_device.c\<close>): holes in 64-bit addresses; the search finds the least fitting place, a
    release merges neighbours, the partition, the calls of a device and their errors.
  \<^item> \<open>Amdgpu_Handle\<close> (\<^verbatim>\<open>handle_table.c\<close>): the growing table of buffer handles.
  \<^item> \<open>Intel_Mm\<close> (\<^verbatim>\<open>intel/mm.c\<close>): the block heap with slicing and joining, for requests that do not overflow an \<^verbatim>\<open>int\<close>; and what a request
    that does breaks.
  \<^item> \<open>Drm_Atomic\<close> (\<^verbatim>\<open>xf86drmMode.c\<close>, the atomic requests): property settings, duplication, merging, sorting, the
    incomplete removal of duplicates and the four arrays handed to the kernel. The sorting routine is a parameter with the contract of \<^verbatim>\<open>qsort\<close>.
  \<^item> \<open>Fd_Bo\<close> (\<^verbatim>\<open>freedreno/freedreno_bo.c\<close>, \<^verbatim>\<open>freedreno_bo_cache.c\<close>, \<^verbatim>\<open>freedreno_device.c\<close>): buffer objects with reference counts, the tables of handles and
    names, the caches of released buffers. An invariant over any orderly run of calls, which includes that the tables lead only to
    objects that are there; what a request gives; and the runs that break it
    (an import of a recycled or cached buffer, cached ring buffers at the end of the device, sizes that wrap around).

  \<^bold>\<open>HALs.\<close>
  \<^item> \<open>Gps_Nmea\<close>, \<open>Gps_Thread\<close> (\<^verbatim>\<open>hals/gps/gps_qemu.c\<close>): tokenizer, fields, reader (83 bytes) and its refinement of a line-wise
    specification; the thread over arbitrary events, the connection and the HAL interface. Doubles and the calendar are parameters.
  \<^item> \<open>Bt_Addr\<close>, \<open>Bt_Hci\<close>, \<open>Bt_Attach\<close> (\<^verbatim>\<open>hals/bluetooth/btuart/hciattach_rpi3.c\<close> and \<^verbatim>\<open>.h\<close>): addresses; events and commands
    on the serial line, firmware, initialisation; firmware search, port set-up, command line and \<^verbatim>\<open>main\<close>.
  \<^item> \<open>Bt_H4\<close> (\<^verbatim>\<open>hals/bluetooth/hci_packetizer.cc\<close>, \<^verbatim>\<open>h4_protocol.cc\<close>): reassembly of packets however the line cuts them, the
    H4 protocol and its round trip, and what a failed or empty \<^verbatim>\<open>read\<close> does. A failed \<^verbatim>\<open>CHECK\<close> and an access outside a
    buffer are values of their own.
  \<^item> \<open>Bt_Hal\<close> (\<^verbatim>\<open>bluetooth_hci.cc\<close>, \<^verbatim>\<open>async_fd_watcher.cc\<close>): the wait for the device as a refinement of its description on messages
    of the management channel; the watcher of descriptors; opening and closing with every descriptor and string they own, on
    the successful and on the failing way.
  \<^item> \<open>Audio_Hw\<close> (\<^verbatim>\<open>hals/audio/audio_hw.c\<close>): output streams, their standby state, locks and pcm handles under any run of calls;
    the one call that uses a pcm without a lock is told apart.

  \<^bold>\<open>Shared memory of guest and host\<close> (\<^verbatim>\<open>hals/camera/common/vsoc\<close>).
  \<^item> \<open>Vsoc_Queue\<close> (\<^verbatim>\<open>lib/circqueue_impl.h\<close>, \<^verbatim>\<open>shm/circqueue.h\<close>): circular queues of bytes and of packets with 32-bit indices that wrap
    around. A round of a call, between taking and releasing the spin lock, is a step; over any sequence of rounds nothing is
    lost, repeated or reordered; what each call returns in every state.
  \<^item> \<open>Vsoc_Signal\<close> (\<^verbatim>\<open>lib/region_view.cpp\<close>): the tables of signals between the sides: when posting returns, and what a scan handles.
  \<^item> \<open>Vsoc_Lock\<close> (\<^verbatim>\<open>lib/lock_common.cpp\<close>, \<^verbatim>\<open>shm/lock.h\<close>, the signals of a lock word): a step relation in which every atomic access of any
    number of threads of both sides is one step, with spurious wake-ups and restarts. Mutual exclusion is an invariant of it; without
    restarts a thread asleep on a flagged value has a signal to come; \<open>vsoc_lock_lost_wakeup\<close> and
    \<open>vsoc_lock_restart_loses_wakeup\<close> are schedules in which a thread is not woken.

  \<^bold>\<open>DHCP\<close> (\<^verbatim>\<open>dhcp/\<close>).
  \<^item> \<open>Dhcp_Message\<close> (\<^verbatim>\<open>common/message.cpp\<close>, \<^verbatim>\<open>.h\<close>, \<^verbatim>\<open>dhcp.h\<close>): the packed message, its options, builders and inspectors, read back by one another.
  \<^item> \<open>Dhcp_Socket\<close> (\<^verbatim>\<open>common/socket.cpp\<close>): IP and UDP headers, checksums as a receiver finds them by RFC 1071,
    reception, control messages.
  \<^item> \<open>Dhcp_Server\<close> (\<^verbatim>\<open>server/\<close>): the lease table, the choice of an address (a loop that may not end) and the answers.
  \<^item> \<open>Dhcp_Client\<close> (\<^verbatim>\<open>client/\<close>): timers, interface, route, properties and the state machine as a step relation.
  \<^item> This theory: client and server joined over the wire.

  \<^bold>\<open>Interaction.\<close> The skip list calls the generator (\<^verbatim>\<open>SLRandomLevel\<close>), the hash function is filled from it (\<^verbatim>\<open>HashHash\<close>);
  \<^verbatim>\<open>drmGetEntry\<close> uses the hash table; the GPS thread feeds the reader; \<^verbatim>\<open>main\<close> of the line set-up calls the initialisation
  with the address made from the serial number; both DHCP programs use messages and sockets;
  the lock of the shared memory posts signals, its queues take the spin lock; the Bluetooth HAL hands the descriptor it opened to the
  watcher and sends through the H4 protocol. The models call each other in the
  same way.

  \<^bold>\<open>Not modelled.\<close> Code that only passes arguments to the kernel (most of \<^verbatim>\<open>xf86drm.c\<close> and \<^verbatim>\<open>xf86drmMode.c\<close>), the buffer managers and
  surface computations of GPUs that the board does not have (intel, radeon, nouveau, etnaviv, exynos, omap, tegra; of freedreno all but the buffers), the
  batch decoder of intel, libkms and the tests of libdrm; the camera HAL apart from its shared-memory library, the gatekeeper and sensor HALs and the start of the
  Bluetooth service, which are classes over Android frameworks that are not part of the tree; command lines of the DHCP programs; debug output; prebuilt binaries,
  applications, policies and build files. Within the modelled files: \<^verbatim>\<open>drmRandomDouble\<close> (a floating-point quotient), the
  functions that only return a constant, and logging.
\<close>

section \<open>A client and a server together\<close>

text \<open>The server can serve a new client on an interface.\<close>

definition server_ready :: "server_env \<Rightarrow> u32 \<Rightarrow> u8 list \<Rightarrow> u32 \<Rightarrow> u32 \<Rightarrow> server \<Rightarrow> bool" where
  "server_ready env idx mac addr srv s \<longleftrightarrow>
     dhcp_ok (dhcpData (rxMessage s)) \<and> idx \<noteq> 0 \<and> idx \<noteq> mExcludeInterface s \<and> mLeases s (mk_lease idx mac) = None
     \<and> htonl addr = htonl (mDhcpRangeStart s) + mNextAddressOffset s \<and> usable (htonl addr) \<and> htonl addr \<le> htonl (mDhcpRangeEnd s)
     \<and> getInterfaceAddress env idx = Some srv"

definition on_interface :: "u32 \<Rightarrow> u8 list \<Rightarrow> server_event" where
  "on_interface idx b = Packet (Some b) [(SOL_IP, IP_PKTINFO, idx)]"

lemma client_lease_key: "length mac = 6 \<Longrightarrow> mk_lease idx (chaddr (client_head nid mac)) = mk_lease idx mac"
  by (simp add: mk_lease_def ETH_ALEN_def)

text \<open>The two rounds of the server in an exchange.\<close>

lemma offer_round:
  assumes s: "server_ready env idx mac addr srv s" "length mac = 6"
    and d: "carries d1 (client_head nid mac) [(OPT_MESSAGE_TYPE, [DHCPDISCOVER]), (OPT_PARAMETER_LIST, kRequestParameters)]"
  shows "\<exists>s1 m1 d dns. server_round env (on_interface idx (drop 28 (sendMessage d1))) s = Inr (s1, [(idx, m1)])
     \<and> mLeases s1 = (mLeases s)(mk_lease idx mac \<mapsto> addr) \<and> config s1 = config s \<and> dhcp_ok (dhcpData (rxMessage s1))
     \<and> carries m1 ((reply_head d)\<lparr>yiaddr := addr\<rparr>) (lease_opts DHCPOFFER srv (mNetmask s) (mGateway s) dns) \<and> xid d = htonl nid"
proof -
  have r: "dhcp_ok (dhcpData (rxMessage s))" "idx \<noteq> 0" "idx \<noteq> mExcludeInterface s" "mLeases s (mk_lease idx mac) = None"
    "htonl addr = htonl (mDhcpRangeStart s) + mNextAddressOffset s" "usable (htonl addr)" "htonl addr \<le> htonl (mDhcpRangeEnd s)"
    "getInterfaceAddress env idx = Some srv" using s(1) unfolding server_ready_def by blast+
  obtain x where x: "carries x (client_head nid mac) [(OPT_MESSAGE_TYPE, [DHCPDISCOVER]), (OPT_PARAMETER_LIST, kRequestParameters)]"
      "server_round env (on_interface idx (drop 28 (sendMessage d1))) s = server_message env idx x (s\<lparr>rxMessage := x\<rparr>)"
    using server_round_packet [OF d _ _ _ r(2,3,1), of env] by (auto simp: on_interface_def sendMessage_payload)
  have f: "dhcp_ok (dhcpData x)" "xid (dhcpData x) = htonl nid" using carries_fields [OF x(1)] by simp_all
  let ?s = "s\<lparr>rxMessage := x\<rparr>"
  have p: "map_of [(OPT_MESSAGE_TYPE, [DHCPDISCOVER]), (OPT_PARAMETER_LIST, kRequestParameters)] OPT_MESSAGE_TYPE = Some [DHCPDISCOVER]"
    "mLeases ?s (mk_lease idx (chaddr (client_head nid mac))) = None" "htonl addr = htonl (mDhcpRangeStart ?s) + mNextAddressOffset ?s"
    "htonl addr \<le> htonl (mDhcpRangeEnd ?s)"
    using r(4,5,7) client_lease_key [OF s(2)] by simp_all
  obtain s1 m1 where s1: "server_message env idx x ?s = Inr (s1, [(idx, m1)])" "mLeases s1 = (mLeases s)(mk_lease idx mac \<mapsto> addr)"
      "config s1 = config s" "rxMessage s1 = x"
    and "\<exists>dns. carries m1 ((reply_head (dhcpData x))\<lparr>yiaddr := addr\<rparr>) (lease_opts DHCPOFFER srv (mNetmask s) (mGateway s) dns)"
    using server_discover [OF x(1) p(1,2,3) r(6) p(4) r(8)] by (auto simp: config_def client_lease_key [OF s(2)] simp del: head_fields)
  then obtain dns where "carries m1 ((reply_head (dhcpData x))\<lparr>yiaddr := addr\<rparr>) (lease_opts DHCPOFFER srv (mNetmask s) (mGateway s) dns)" by blast
  then show ?thesis using x(2) f s1 by (intro exI [of _ s1] exI [of _ m1] exI [of _ "dhcpData x"] exI [of _ dns]) simp
qed

lemma ack_round:
  assumes lease: "mLeases s (mk_lease idx mac) = Some addr" "addr \<noteq> 0" "length mac = 6"
    and s: "dhcp_ok (dhcpData (rxMessage s))" "idx \<noteq> 0" "idx \<noteq> mExcludeInterface s" "getInterfaceAddress env idx = Some srv"
    and d: "carries d1 (client_head nid mac) [(OPT_MESSAGE_TYPE, [DHCPREQUEST]), (OPT_PARAMETER_LIST, kRequestParameters),
         (OPT_REQUESTED_IP, le32 addr), (OPT_SERVER_ID, le32 srv)]"
  shows "\<exists>s1 m1 d dns. server_round env (on_interface idx (drop 28 (sendMessage d1))) s = Inr (s1, [(idx, m1)]) \<and> mLeases s1 = mLeases s
     \<and> carries m1 ((reply_head d)\<lparr>yiaddr := addr\<rparr>) (lease_opts DHCPACK srv (mNetmask s) (mGateway s) dns) \<and> xid d = htonl nid"
proof -
  obtain x where x: "carries x (client_head nid mac) [(OPT_MESSAGE_TYPE, [DHCPREQUEST]), (OPT_PARAMETER_LIST, kRequestParameters),
         (OPT_REQUESTED_IP, le32 addr), (OPT_SERVER_ID, le32 srv)]"
      "server_round env (on_interface idx (drop 28 (sendMessage d1))) s = server_message env idx x (s\<lparr>rxMessage := x\<rparr>)"
    using server_round_packet [OF d _ _ _ s(2,3,1), of env] by (auto simp: on_interface_def sendMessage_payload)
  have "xid (dhcpData x) = htonl nid" using carries_fields [OF x(1)] by simp
  moreover obtain s1 m1 where "server_message env idx x (s\<lparr>rxMessage := x\<rparr>) = Inr (s1, [(idx, m1)])" "mLeases s1 = mLeases s"
      "\<exists>dns. carries m1 ((reply_head (dhcpData x))\<lparr>yiaddr := addr\<rparr>) (lease_opts DHCPACK srv (mNetmask s) (mGateway s) dns)"
    using server_ack [OF x(1), of addr "s\<lparr>rxMessage := x\<rparr>" idx env srv] lease s(4) client_lease_key [OF lease(3)]
    by (fastforce simp: dhcp_codes)
  ultimately show ?thesis using x(2) by metis
qed

text \<open>C1. A client that starts and a server with a free address reach a lease in one exchange: the client's first packet makes the server offer the address,
  the offer makes the client request it, the acknowledgement makes the client bound. At the end the server's table has the address for the client's
  hardware address, and the interface of the client has it together with the mask and the gateway of the server's configuration.
  The lease time, ten minutes at the server, has become \<open>1476526080\<close> seconds at the client: the server does not convert it to network byte order.\<close>

theorem dhcp_handshake:
  assumes c: "mState c = Init" "waiting c = None" "length (mMacAddress c) = 6"
    and s: "server_ready env idx (mMacAddress c) addr srv s" and h: "client_header h" and sys: "sys_ok sys"
  shows "\<exists>c1 p1 s1 m1 b1 c2 p2 s2 m2 b2 c3.
      client_run c [Evaluate n1 n2 a1, Evaluate n3 n4 a2] c1 [p1]
    \<and> server_round env (on_interface idx (drop 28 p1)) s = Inr (s1, [(idx, m1)]) \<and> map_option dg_bytes (server_sendMessage (idx, m1)) = Some b1
    \<and> client_run c1 [Poll sys t0 (Readable (Some (h @ b1))) t1, Evaluate n5 n6 a3] c2 [p2]
    \<and> server_round env (on_interface idx (drop 28 p2)) s1 = Inr (s2, [(idx, m2)]) \<and> map_option dg_bytes (server_sendMessage (idx, m2)) = Some b2
    \<and> client_run c2 [Poll sys t2 (Readable (Some (h @ b2))) t3] c3 []
    \<and> mState c3 = Bound \<and> mLeases s2 = (mLeases s)(mk_lease idx (mMacAddress c) \<mapsto> addr)
    \<and> if_up (net c3) \<and> if_addr (net c3) = addr \<and> if_netmask (net c3) = mNetmask s
    \<and> info_gateway (mDhcpInfo c3) = mGateway s \<and> info_leaseTime (mDhcpInfo c3) = 1476526080"
proof -
  let ?mac = "mMacAddress c" and ?nm = "mNetmask s" and ?gw = "mGateway s"
  have r: "idx \<noteq> 0" "idx \<noteq> mExcludeInterface s" "usable (htonl addr)" "getInterfaceAddress env idx = Some srv"
    using s unfolding server_ready_def by blast+
  have nz: "addr \<noteq> 0" using r(3) by (auto simp: usable_def)
  obtain c1 d1 w1 where 1: "client_run c [Evaluate n1 n2 a1, Evaluate n3 n4 a2] c1 [sendMessage d1]" "mState c1 = Selecting" "waiting c1 = Some w1"
      "mLastMsg c1 = d1" "mMacAddress c1 = ?mac"
      "carries d1 (client_head (nextTransactionId c) ?mac) [(OPT_MESSAGE_TYPE, [DHCPDISCOVER]), (OPT_PARAMETER_LIST, kRequestParameters)]"
    using client_discovers [OF c(1,2)] by blast
  obtain s1 m1 d dns where s1: "server_round env (on_interface idx (drop 28 (sendMessage d1))) s = Inr (s1, [(idx, m1)])"
      "mLeases s1 = (mLeases s)(mk_lease idx ?mac \<mapsto> addr)" "config s1 = config s" "dhcp_ok (dhcpData (rxMessage s1))"
      "carries m1 ((reply_head d)\<lparr>yiaddr := addr\<rparr>) (lease_opts DHCPOFFER srv ?nm ?gw dns)" "xid d = htonl (nextTransactionId c)"
    using offer_round [OF s c(3) 1(6)] by blast
  obtain c2 d2 w2 nid where 2: "client_run c1 [Poll sys t0 (Readable (Some (h @ msg_payload m1))) t1, Evaluate n5 n6 a3] c2 [sendMessage d2]"
      "mState c2 = Requesting" "waiting c2 = Some w2" "mLastMsg c2 = d2"
      "carries d2 (client_head nid ?mac) [(OPT_MESSAGE_TYPE, [DHCPREQUEST]), (OPT_PARAMETER_LIST, kRequestParameters),
         (OPT_REQUESTED_IP, le32 addr), (OPT_SERVER_ID, le32 srv)]"
    using client_requests [OF 1(2,3) h s1(5), of srv sys t0 t1 n5 n6 a3] s1(6) 1(4,5) carries_fields(2) [OF 1(6)]
    by (auto simp: lease_opts_def dhcp_codes)
  have conf: "idx \<noteq> mExcludeInterface s1" "mNetmask s1 = ?nm" "mGateway s1 = ?gw" "mLeases s1 (mk_lease idx ?mac) = Some addr"
    using s1(2,3) r(2) by (auto simp: config_def)
  obtain s2 m2 d' dns' where s2: "server_round env (on_interface idx (drop 28 (sendMessage d2))) s1 = Inr (s2, [(idx, m2)])" "mLeases s2 = mLeases s1"
      "carries m2 ((reply_head d')\<lparr>yiaddr := addr\<rparr>) (lease_opts DHCPACK srv ?nm ?gw dns')" "xid d' = htonl nid"
    using ack_round [OF conf(4) nz c(3) s1(4) r(1) conf(1) r(4) 2(5)] by (auto simp: conf)
  have l: "info_leaseTime (lease_info ((reply_head d')\<lparr>yiaddr := addr\<rparr>) (lease_opts DHCPACK srv ?nm ?gw dns')) \<noteq> 0"
    by (simp add: lease_info_server server_lease_time)
  have "map_of (lease_opts DHCPACK srv ?nm ?gw dns') OPT_MESSAGE_TYPE = Some [DHCPACK]" by (simp add: lease_opts_def)
  then obtain c3 where 3: "client_run c2 [Poll sys t2 (Readable (Some (h @ msg_payload m2))) t3] c3 []" "mState c3 = Bound"
      "mDhcpInfo c3 = lease_info ((reply_head d')\<lparr>yiaddr := addr\<rparr>) (lease_opts DHCPACK srv ?nm ?gw dns')"
      "if_up (net c3)" "if_addr (net c3) = addr" "if_netmask (net c3) = ?nm"
    using client_acked [OF _ 2(3) h s2(3) _ _ _ _ _ l sys, of t2 t3] 2(2,4) s2(4) carries_fields(2) [OF 2(5)] by (auto simp: lease_info_server)
  show ?thesis
    using 1(1) s1(1,2) 2(1) s2(1,2) 3
    by (intro exI [of _ c1] exI [of _ "sendMessage d1"] exI [of _ s1] exI [of _ m1] exI [of _ "msg_payload m1"] exI [of _ c2]
        exI [of _ "sendMessage d2"] exI [of _ s2] exI [of _ m2] exI [of _ "msg_payload m2"] exI [of _ c3])
      (simp add: server_sendMessage_def sendOnInterface_def lease_info_server server_lease_time)
qed

definition demo_client :: client where
  "demo_client = (DhcpClient demo_net)\<lparr>mMacAddress := demo_mac\<rparr>"

theorem dhcp_handshake_witness:
  "\<exists>c1 p1 s1 m1 b1. client_run demo_client [Evaluate 0 0 0, Evaluate 0 0 0] c1 [p1]
     \<and> server_round demo_env (on_interface 1 (drop 28 p1)) demo_server = Inr (s1, [(1, m1)])
     \<and> (\<exists>c2 p2 s2 m2 b2 c3. client_run c1 [Poll demo_system 0 (Readable (Some (demo_header @ b1))) 0, Evaluate 0 0 0] c2 [p2]
          \<and> server_round demo_env (on_interface 1 (drop 28 p2)) s1 = Inr (s2, [(1, m2)])
          \<and> client_run c2 [Poll demo_system 0 (Readable (Some (demo_header @ b2))) 0] c3 []
          \<and> mState c3 = Bound \<and> if_addr (net c3) = htonl 0xC0A8010A)"
proof -
  have c: "mState demo_client = Init" "waiting demo_client = None" "length (mMacAddress demo_client) = 6"
    by (simp_all add: demo_client_def DhcpClient_def)
  have "server_ready demo_env 1 (mMacAddress demo_client) (htonl 0xC0A8010A) (htonl 0xC0A80101) demo_server"
    by (simp add: server_ready_def usable_def Message_default_def)
  from dhcp_handshake [OF c this demo_header_ok demo_system_ok, of 0 0 0 0 0 0 0 0 0 0 0 0 0] show ?thesis by blast
qed

end
